(* ===== verification/Prelude.thy ===== *)
theory Prelude
  imports Main "HOL-Library.Word" "HOL-Library.Signed_Division"
begin

unbundle bit_operations_syntax

text \<open>
  Shared ground of the development: results that can fail or panic, checked indexing and
  slicing, and the machine integers of the Rust sources.

  A Rust \<open>Result<T, E>\<close> is a value of \<open>'e fault + 'a\<close>: \<open>Inr\<close> is \<open>Ok\<close>, \<open>Inl (Fail e)\<close> is
  \<open>Err(e)\<close>, and \<open>Inl Panic\<close> is a panic of the Rust code (an index or slice out of range, a
  failed \<open>expect\<close>, an \<open>unreachable!\<close>, a division by zero). Writing panics as values makes
  their absence a theorem instead of an assumption.

  Integers: \<open>u8\<close> and \<open>u64\<close> are words; \<open>i64\<close> and \<open>i128\<close> are \<open>int\<close> with the range checks and
  the wrap-around written out; \<open>usize\<close> is \<open>nat\<close> with its 64-bit bound written out where a
  sum can reach it. Arithmetic without a check has the semantics of the release profile: it
  wraps.
\<close>

section \<open>Results\<close>

datatype 'e fault = Fail 'e | Panic

type_synonym ('e, 'a) res = "'e fault + 'a"

definition bind_res :: "'e + 'a \<Rightarrow> ('a \<Rightarrow> 'e + 'b) \<Rightarrow> 'e + 'b" where
  "bind_res m f = (case m of Inl e \<Rightarrow> Inl e | Inr a \<Rightarrow> f a)"

definition map_fail :: "('e \<Rightarrow> 'f) \<Rightarrow> ('e, 'a) res \<Rightarrow> ('f, 'a) res" where
  "map_fail g m = (case m of Inl (Fail e) \<Rightarrow> Inl (Fail (g e)) | Inl Panic \<Rightarrow> Inl Panic | Inr a \<Rightarrow> Inr a)"

definition ok_or :: "'e \<Rightarrow> 'a option \<Rightarrow> ('e, 'a) res" where
  "ok_or e x = (case x of None \<Rightarrow> Inl (Fail e) | Some a \<Rightarrow> Inr a)"

definition expect :: "'a option \<Rightarrow> ('e, 'a) res" where
  "expect x = (case x of None \<Rightarrow> Inl Panic | Some a \<Rightarrow> Inr a)"

abbreviation fail :: "'e \<Rightarrow> ('e, 'a) res" where
  "fail e \<equiv> Inl (Fail e)"

abbreviation panic :: "('e, 'a) res" where
  "panic \<equiv> Inl Panic"

lemma bind_res_simps [simp]:
  "bind_res (Inl e) f = Inl e"
  "bind_res (Inr a) f = f a"
  by (simp_all add: bind_res_def)

lemma bind_res_cong [fundef_cong]:
  "m = m' \<Longrightarrow> (\<And>a. m' = Inr a \<Longrightarrow> f a = g a) \<Longrightarrow> bind_res m f = bind_res m' g"
  by (simp add: bind_res_def split: sum.split)

lemma bind_res_Inr [simp]: "bind_res m Inr = m"
  by (simp add: bind_res_def split: sum.split)

lemma bind_res_assoc: "bind_res (bind_res m f) g = bind_res m (\<lambda>a. bind_res (f a) g)"
  by (simp add: bind_res_def split: sum.split)

lemma bind_res_eq_Inr: "bind_res m f = Inr b \<longleftrightarrow> (\<exists>a. m = Inr a \<and> f a = Inr b)"
  by (auto simp: bind_res_def split: sum.split)

lemma bind_res_eq_Inl:
  "bind_res m f = Inl e \<longleftrightarrow> m = Inl e \<or> (\<exists>a. m = Inr a \<and> f a = Inl e)"
  by (auto simp: bind_res_def split: sum.split)

lemma map_fail_simps [simp]:
  "map_fail g (Inr a) = Inr a"
  "map_fail g (Inl (Fail e)) = Inl (Fail (g e))"
  "map_fail g (Inl Panic) = Inl Panic"
  by (simp_all add: map_fail_def)

lemma map_fail_eq_Inr [simp]: "map_fail g m = Inr a \<longleftrightarrow> m = Inr a"
  by (auto simp: map_fail_def split: sum.splits fault.splits)

lemma map_fail_eq_Panic [simp]: "map_fail g m = Inl Panic \<longleftrightarrow> m = Inl Panic"
  by (auto simp: map_fail_def split: sum.splits fault.splits)

lemma map_fail_eq_Fail:
  "map_fail g m = Inl (Fail f) \<longleftrightarrow> (\<exists>e. m = Inl (Fail e) \<and> f = g e)"
  by (auto simp: map_fail_def split: sum.splits fault.splits)

lemma map_fail_cong [fundef_cong]:
  "m = m' \<Longrightarrow> (\<And>e. m' = Inl (Fail e) \<Longrightarrow> g e = h e) \<Longrightarrow> map_fail g m = map_fail h m'"
  by (auto simp: map_fail_def split: sum.split fault.split)

lemma ok_or_simps [simp]:
  "ok_or e None = Inl (Fail e)"
  "ok_or e (Some a) = Inr a"
  by (simp_all add: ok_or_def)

lemma ok_or_eq_Inr [simp]: "ok_or e x = Inr a \<longleftrightarrow> x = Some a"
  by (simp add: ok_or_def split: option.split)

lemma ok_or_not_Panic [simp]: "ok_or e x \<noteq> Inl Panic"
  by (simp add: ok_or_def split: option.split)

lemma expect_simps [simp]:
  "expect None = Inl Panic"
  "expect (Some a) = Inr a"
  by (simp_all add: expect_def)

lemma expect_eq_Inr [simp]: "expect x = Inr a \<longleftrightarrow> x = Some a"
  by (simp add: expect_def split: option.split)

text \<open>The statements about absence of panics all have this shape.\<close>

definition no_panic :: "('e, 'a) res \<Rightarrow> bool" where
  "no_panic m \<longleftrightarrow> m \<noteq> Inl Panic"

named_theorems no_panic_intros

lemma no_panic_Inr [no_panic_intros, simp]: "no_panic (Inr a)"
  by (simp add: no_panic_def)

lemma no_panic_Fail [no_panic_intros, simp]: "no_panic (Inl (Fail e))"
  by (simp add: no_panic_def)

lemma not_no_panic_Panic [simp]: "\<not> no_panic (Inl Panic)"
  by (simp add: no_panic_def)

lemma no_panic_bind [no_panic_intros]:
  "no_panic m \<Longrightarrow> (\<And>a. m = Inr a \<Longrightarrow> no_panic (f a)) \<Longrightarrow> no_panic (bind_res m f)"
  by (auto simp: no_panic_def bind_res_eq_Inl)

lemma no_panic_map_fail [simp]: "no_panic (map_fail g m) \<longleftrightarrow> no_panic m"
  by (simp add: no_panic_def)

lemma no_panic_ok_or [no_panic_intros, simp]: "no_panic (ok_or e x)"
  by (simp add: no_panic_def)

lemma no_panic_expect [simp]: "no_panic (expect x) \<longleftrightarrow> x \<noteq> None"
  by (simp add: no_panic_def expect_def split: option.split)

section \<open>Indexing and slicing\<close>

definition nth_res :: "'a list \<Rightarrow> nat \<Rightarrow> ('e, 'a) res" where
  "nth_res xs i = (if i < length xs then Inr (xs ! i) else Inl Panic)"

definition update_res :: "'a list \<Rightarrow> nat \<Rightarrow> 'a \<Rightarrow> ('e, 'a list) res" where
  "update_res xs i x = (if i < length xs then Inr (xs[i := x]) else Inl Panic)"

text \<open>\<open>slice_res xs a b\<close> is \<open>&xs[a..b]\<close>.\<close>

definition slice_res :: "'a list \<Rightarrow> nat \<Rightarrow> nat \<Rightarrow> ('e, 'a list) res" where
  "slice_res xs a b = (if a \<le> b \<and> b \<le> length xs then Inr (take (b - a) (drop a xs)) else Inl Panic)"

text \<open>\<open>splice_res xs a ys\<close> is \<open>xs[a..a + ys.len()].copy_from_slice(ys)\<close>.\<close>

definition splice_res :: "'a list \<Rightarrow> nat \<Rightarrow> 'a list \<Rightarrow> ('e, 'a list) res" where
  "splice_res xs a ys =
     (if a + length ys \<le> length xs then Inr (take a xs @ ys @ drop (a + length ys) xs) else Inl Panic)"

lemma nth_res_eq_Inr [simp]: "nth_res xs i = Inr x \<longleftrightarrow> i < length xs \<and> x = xs ! i"
  by (auto simp: nth_res_def)

lemma no_panic_nth_res [simp]: "no_panic (nth_res xs i) \<longleftrightarrow> i < length xs"
  by (simp add: no_panic_def nth_res_def)

lemma update_res_eq_Inr [simp]: "update_res xs i x = Inr ys \<longleftrightarrow> i < length xs \<and> ys = xs[i := x]"
  by (auto simp: update_res_def)

lemma no_panic_update_res [simp]: "no_panic (update_res xs i x) \<longleftrightarrow> i < length xs"
  by (simp add: no_panic_def update_res_def)

lemma slice_res_eq_Inr [simp]:
  "slice_res xs a b = Inr ys \<longleftrightarrow> a \<le> b \<and> b \<le> length xs \<and> ys = take (b - a) (drop a xs)"
  by (auto simp: slice_res_def)

lemma no_panic_slice_res [simp]: "no_panic (slice_res xs a b) \<longleftrightarrow> a \<le> b \<and> b \<le> length xs"
  by (simp add: no_panic_def slice_res_def)

lemma splice_res_eq_Inr [simp]:
  "splice_res xs a ys = Inr zs \<longleftrightarrow>
     a + length ys \<le> length xs \<and> zs = take a xs @ ys @ drop (a + length ys) xs"
  by (auto simp: splice_res_def)

lemma no_panic_splice_res [simp]: "no_panic (splice_res xs a ys) \<longleftrightarrow> a + length ys \<le> length xs"
  by (simp add: no_panic_def splice_res_def)

section \<open>Machine integers\<close>

type_synonym bytes = "8 word list"

definition usize_max :: nat where
  "usize_max = 2 ^ 64 - 1"

definition saturating_add :: "nat \<Rightarrow> nat \<Rightarrow> nat" where
  "saturating_add a b = min (a + b) usize_max"

definition saturating_mul :: "nat \<Rightarrow> nat \<Rightarrow> nat" where
  "saturating_mul a b = min (a * b) usize_max"

text \<open>An unchecked \<open>+\<close> on \<open>usize\<close> in the release profile.\<close>

definition wrapping_add :: "nat \<Rightarrow> nat \<Rightarrow> nat" where
  "wrapping_add a b = (a + b) mod 2 ^ 64"

definition wrapping_sub :: "nat \<Rightarrow> nat \<Rightarrow> nat" where
  "wrapping_sub a b = nat ((int a - int b) mod 2 ^ 64)"

text \<open>The same functions without large unary numbers, for evaluation.\<close>

lemma saturating_add_code [code]:
  "saturating_add a b = (if int a + int b \<le> 18446744073709551615 then a + b else nat 18446744073709551615)"
  by (auto simp: saturating_add_def usize_max_def)

lemma saturating_mul_code [code]:
  "saturating_mul a b = (if int a * int b \<le> 18446744073709551615 then a * b else nat 18446744073709551615)"
  by (auto simp: saturating_mul_def usize_max_def simp flip: of_nat_mult)

lemma wrapping_add_code [code]:
  "wrapping_add a b = (if int a + int b < 18446744073709551616 then a + b
     else nat ((int a + int b) mod 18446744073709551616))"
  by (auto simp: wrapping_add_def nat_mod_distrib nat_add_distrib simp flip: of_nat_add)

definition i64_min :: int where
  "i64_min = - (2 ^ 63)"

definition i64_max :: int where
  "i64_max = 2 ^ 63 - 1"

definition in_i64 :: "int \<Rightarrow> bool" where
  "in_i64 x \<longleftrightarrow> i64_min \<le> x \<and> x \<le> i64_max"

text \<open>A cast of a wider integer \<open>as i64\<close> keeps the low 64 bits.\<close>

definition as_i64 :: "int \<Rightarrow> int" where
  "as_i64 x = signed_take_bit 63 x"

lemma in_i64_iff: "in_i64 x \<longleftrightarrow> - (2 ^ 63) \<le> x \<and> x < 2 ^ 63"
  by (auto simp: in_i64_def i64_min_def i64_max_def)

lemma in_i64_as_i64 [simp]: "in_i64 (as_i64 x)"
proof -
  have "- (2 ^ 63) \<le> signed_take_bit 63 x" "signed_take_bit 63 x < 2 ^ 63"
    by (rule signed_take_bit_int_greater_eq_minus_exp, rule signed_take_bit_int_less_exp)
  then show ?thesis by (simp only: in_i64_iff as_i64_def)
qed

lemma as_i64_id: "in_i64 x \<Longrightarrow> as_i64 x = x"
  by (simp add: in_i64_iff as_i64_def signed_take_bit_int_eq_self)

lemma saturating_add_le_iff: "n \<le> usize_max \<Longrightarrow> saturating_add a b \<le> n \<longleftrightarrow> a + b \<le> n \<or> n = usize_max"
  by (auto simp: saturating_add_def)

lemma bit_push_one: "bit (push_bit k (1 :: 'a::len word)) n \<longleftrightarrow> n = k \<and> n < LENGTH('a)"
  by (auto simp: bit_exp_iff)

section \<open>Lists\<close>

text \<open>\<open>iter().position(P)\<close>.\<close>

fun position :: "('a \<Rightarrow> bool) \<Rightarrow> 'a list \<Rightarrow> nat option" where
  "position P [] = None"
| "position P (x # xs) = (if P x then Some 0 else map_option Suc (position P xs))"

lemma position_Some:
  "position P xs = Some i \<Longrightarrow> i < length xs \<and> P (xs ! i) \<and> (\<forall>j < i. \<not> P (xs ! j))"
  by (induction xs arbitrary: i) (auto simp: nth_Cons split: if_splits nat.splits)

lemma position_None: "position P xs = None \<longleftrightarrow> (\<forall>x \<in> set xs. \<not> P x)"
  by (induction xs) auto

lemma position_append_stop:
  "list_all (\<lambda>x. \<not> P x) xs \<Longrightarrow> P y \<Longrightarrow> position P (xs @ y # ys) = Some (length xs)"
  by (induction xs) auto

text \<open>\<open>all_res f xs\<close> runs a checking step over a list, stopping at the first error.\<close>

fun fold_res :: "('a \<Rightarrow> 's \<Rightarrow> 'e + 's) \<Rightarrow> 'a list \<Rightarrow> 's \<Rightarrow> 'e + 's" where
  "fold_res f [] s = Inr s"
| "fold_res f (x # xs) s = bind_res (f x s) (fold_res f xs)"

lemma fold_res_Nil [simp]: "fold_res f [] = Inr"
  by (simp add: fun_eq_iff)

lemma fold_res_cong [fundef_cong]:
  "xs = ys \<Longrightarrow> s = t \<Longrightarrow> (\<And>x u. x \<in> set ys \<Longrightarrow> f x u = g x u) \<Longrightarrow> fold_res f xs s = fold_res g ys t"
proof (induction xs arbitrary: ys s t)
  case Nil
  then show ?case by auto
next
  case (Cons x xs)
  then show ?case by (auto intro!: bind_res_cong)
qed

lemma fold_res_append: "fold_res f (xs @ ys) s = bind_res (fold_res f xs s) (fold_res f ys)"
  by (induction xs arbitrary: s) (auto simp: bind_res_def fun_eq_iff split: sum.split)

lemma fold_res_invariant:
  assumes "fold_res f xs s = Inr t" and "P s"
    and "\<And>x u v. x \<in> set xs \<Longrightarrow> P u \<Longrightarrow> f x u = Inr v \<Longrightarrow> P v"
  shows "P t"
  using assms by (induction xs arbitrary: s) (auto simp: bind_res_eq_Inr)

lemma fold_res_no_panic:
  assumes "P s"
    and "\<And>x u. x \<in> set xs \<Longrightarrow> P u \<Longrightarrow> no_panic (f x u)"
    and "\<And>x u v. x \<in> set xs \<Longrightarrow> P u \<Longrightarrow> f x u = Inr v \<Longrightarrow> P v"
  shows "no_panic (fold_res f xs s)"
  using assms
proof (induction xs arbitrary: s)
  case Nil
  then show ?case by simp
next
  case (Cons x xs)
  have "no_panic (fold_res f xs u)" if "f x s = Inr u" for u
  proof (rule Cons.IH)
    show "P u" using Cons.prems(1) Cons.prems(3) [of x s u] that by simp
    show "no_panic (f y v)" if "y \<in> set xs" "P v" for y v
      using Cons.prems(2) [of y v] that by simp
    show "P w" if "y \<in> set xs" "P v" "f y v = Inr w" for y v w
      using Cons.prems(3) [of y v w] that by simp
  qed
  then show ?case using Cons.prems by (auto intro!: no_panic_bind)
qed

section \<open>Safety of a computation\<close>

text \<open>
  \<open>safe m Q\<close>: the computation does not panic, and when it succeeds its result satisfies \<open>Q\<close>.
  The safety proofs of the unpacker, the packer and the compiler are compositions of the rules
  below.
\<close>

definition safe :: "('e, 'a) res \<Rightarrow> ('a \<Rightarrow> bool) \<Rightarrow> bool" where
  "safe m Q \<longleftrightarrow> (case m of Inr a \<Rightarrow> Q a | Inl (Fail _) \<Rightarrow> True | Inl Panic \<Rightarrow> False)"

named_theorems safe_intros

lemma safe_simps [simp]:
  "safe (Inr a) Q \<longleftrightarrow> Q a"
  "safe (Inl (Fail e)) Q"
  "\<not> safe (Inl Panic) Q"
  by (simp_all add: safe_def)

lemma safe_bind: "safe m P \<Longrightarrow> (\<And>a. m = Inr a \<Longrightarrow> P a \<Longrightarrow> safe (f a) Q) \<Longrightarrow> safe (bind_res m f) Q"
  by (auto simp: safe_def bind_res_def split: sum.splits fault.splits)

lemma safe_map_fail [simp]: "safe (map_fail g m) Q \<longleftrightarrow> safe m Q"
  by (auto simp: safe_def map_fail_def split: sum.splits fault.splits)

lemma safe_bind_map_fail:
  "safe m P \<Longrightarrow> (\<And>a. P a \<Longrightarrow> safe (f a) Q) \<Longrightarrow> safe (bind_res (map_fail g m) f) Q"
  by (rule safe_bind [where P = P]) simp_all

lemma safe_mono: "safe m P \<Longrightarrow> (\<And>a. m = Inr a \<Longrightarrow> P a \<Longrightarrow> Q a) \<Longrightarrow> safe m Q"
  by (auto simp: safe_def split: sum.splits fault.splits)

lemma safe_Inr: "safe m Q \<Longrightarrow> m = Inr a \<Longrightarrow> Q a"
  by simp

lemma safe_no_panic: "safe m Q \<Longrightarrow> no_panic m"
  by (auto simp: safe_def no_panic_def)

lemma safeI: "no_panic m \<Longrightarrow> (\<And>a. m = Inr a \<Longrightarrow> Q a) \<Longrightarrow> safe m Q"
  by (auto simp: safe_def no_panic_def split: sum.splits fault.splits)

lemma safe_conj: "safe m P \<Longrightarrow> safe m Q \<Longrightarrow> safe m (\<lambda>a. P a \<and> Q a)"
  by (auto simp: safe_def split: sum.splits fault.splits)

lemma safe_ok_or [simp]: "safe (ok_or e x) Q \<longleftrightarrow> (\<forall>a. x = Some a \<longrightarrow> Q a)"
  by (cases x) simp_all

lemma safe_expect [simp]: "safe (expect x) Q \<longleftrightarrow> (\<exists>a. x = Some a \<and> Q a)"
  by (cases x) simp_all

lemma safe_nth_res [simp]: "safe (nth_res xs i) Q \<longleftrightarrow> i < length xs \<and> Q (xs ! i)"
  by (auto simp: nth_res_def)

lemma safe_update_res [simp]: "safe (update_res xs i x) Q \<longleftrightarrow> i < length xs \<and> Q (xs[i := x])"
  by (auto simp: update_res_def)

lemma safe_slice_res [simp]:
  "safe (slice_res xs a b) Q \<longleftrightarrow> a \<le> b \<and> b \<le> length xs \<and> Q (take (b - a) (drop a xs))"
  by (auto simp: slice_res_def)

lemma safe_splice_res [simp]:
  "safe (splice_res xs a ys) Q \<longleftrightarrow>
     a + length ys \<le> length xs \<and> Q (take a xs @ ys @ drop (a + length ys) xs)"
  by (auto simp: splice_res_def)

lemma safe_fold_res:
  assumes "P s" and "\<And>x u. x \<in> set xs \<Longrightarrow> P u \<Longrightarrow> safe (f x u) P"
  shows "safe (fold_res f xs s) P"
  using assms
proof (induction xs arbitrary: s)
  case (Cons x xs)
  have "safe (fold_res f xs u) P" if "P u" for u using that Cons.prems(2) by (intro Cons.IH) simp_all
  then show ?case using Cons.prems by (auto intro: safe_bind)
qed simp

end
