(* ===== verification/Errors.thy ===== *)
theory Errors
  imports Prelude
begin

text \<open>
  The error vocabulary of \<open>crates/rustruct/src/error.rs\<close>: the closed list of error kinds
  and their wire spellings, the path segments collected while an error unwinds, and the
  failures of unpacking and packing.
\<close>

datatype (plugins only: code size) kind =
    KTruncated | KTrailing | KRange | KNegativeLen | KOverflow | KDivZero | KUnterminated
  | KNulInCstr | KNoCase | KDecode | KLimit | KDepth | KChecksum | KConst | KReservedBits
  | KMissing | KLength | KIndivisible | KInconsistent | KBuffer | KUnknownFlag | KType | KEncode

fun as_str :: "kind \<Rightarrow> string" where
  "as_str KTruncated = ''truncated''"
| "as_str KTrailing = ''trailing''"
| "as_str KRange = ''range''"
| "as_str KNegativeLen = ''negative_len''"
| "as_str KOverflow = ''overflow''"
| "as_str KDivZero = ''div_zero''"
| "as_str KUnterminated = ''unterminated''"
| "as_str KNulInCstr = ''nul_in_cstr''"
| "as_str KNoCase = ''no_case''"
| "as_str KDecode = ''decode''"
| "as_str KLimit = ''limit''"
| "as_str KDepth = ''depth''"
| "as_str KChecksum = ''checksum''"
| "as_str KConst = ''const''"
| "as_str KReservedBits = ''reserved_bits''"
| "as_str KMissing = ''missing''"
| "as_str KLength = ''length''"
| "as_str KIndivisible = ''indivisible''"
| "as_str KInconsistent = ''inconsistent''"
| "as_str KBuffer = ''buffer''"
| "as_str KUnknownFlag = ''unknown_flag''"
| "as_str KType = ''type''"
| "as_str KEncode = ''encode''"

definition kind_ALL :: "string list" where
  "kind_ALL =
     [''truncated'', ''trailing'', ''range'', ''negative_len'', ''overflow'', ''div_zero'',
      ''unterminated'', ''nul_in_cstr'', ''no_case'', ''decode'', ''limit'', ''depth'',
      ''checksum'', ''const'', ''reserved_bits'', ''missing'', ''length'', ''indivisible'',
      ''inconsistent'', ''buffer'', ''unknown_flag'', ''type'', ''encode'']"

datatype seg = SegField string | SegIndex nat

text \<open>Decimal rendering, \<open>usize::to_string\<close>.\<close>

fun digits_of :: "nat \<Rightarrow> nat list" where
  "digits_of n = (if n < 10 then [n] else digits_of (n div 10) @ [n mod 10])"

declare digits_of.simps [simp del]

definition nat_to_string :: "nat \<Rightarrow> string" where
  "nat_to_string n = map (\<lambda>d. char_of (48 + d)) (digits_of n)"

fun format_seg :: "string \<Rightarrow> seg \<Rightarrow> string" where
  "format_seg out (SegField name) = (if out \<noteq> [] then out @ ''.'' @ name else name)"
| "format_seg out (SegIndex i) = out @ ''['' @ nat_to_string i @ '']''"

text \<open>Segments are pushed from innermost to outermost; the path is read in reverse.\<close>

definition format_path :: "seg list \<Rightarrow> string" where
  "format_path path = foldl format_seg [] (rev path)"

record invalid =
  inv_kind :: kind
  inv_offset :: nat
  inv_path :: "seg list"

datatype ufail = Incomplete nat | Invalid invalid

type_synonym 'a ures = "(ufail, 'a) res"

abbreviation invalid_at :: "kind \<Rightarrow> nat \<Rightarrow> ufail" where
  "invalid_at k off \<equiv> Invalid \<lparr>inv_kind = k, inv_offset = off, inv_path = []\<rparr>"

text \<open>\<open>Vec::push\<close> appends, so the innermost segment comes first.\<close>

fun ufail_seg :: "seg \<Rightarrow> ufail \<Rightarrow> ufail" where
  "ufail_seg s (Incomplete n) = Incomplete n"
| "ufail_seg s (Invalid i) = Invalid (i\<lparr>inv_path := inv_path i @ [s]\<rparr>)"

record pack_fail =
  pf_kind :: kind
  pf_path :: "seg list"

type_synonym 'a pres = "(pack_fail, 'a) res"

abbreviation pfail :: "kind \<Rightarrow> pack_fail" where
  "pfail k \<equiv> \<lparr>pf_kind = k, pf_path = []\<rparr>"

definition pfail_seg :: "seg \<Rightarrow> pack_fail \<Rightarrow> pack_fail" where
  "pfail_seg s e = e\<lparr>pf_path := pf_path e @ [s]\<rparr>"

lemma as_str_inject: "as_str k = as_str k' \<longleftrightarrow> k = k'"
  by (cases k; cases k'; simp)

lemma as_str_in_ALL: "as_str k \<in> set kind_ALL"
  by (cases k) (simp_all add: kind_ALL_def)

lemma format_path_Nil [simp]: "format_path [] = []"
  by (simp add: format_path_def)

lemma format_path_snoc: "format_path (p # ps) = format_seg (format_path ps) p"
  by (simp add: format_path_def)

end
