(* ===== verification/Exprs.thy ===== *)
theory Exprs
  imports Errors
begin

text \<open>
  The postfix expression machine, \<open>crates/rustruct/src/expr.rs\<close>: instructions, the fixed
  stack of eight \<open>i64\<close> cells with its stack pointer, and the checked arithmetic. Writing or
  reading a cell outside the array is a panic of the code and of the model; that programs
  which pass the compiler's depth check never do so is a lemma of \<open>Lowering\<close>.
\<close>

record reg =
  reg_up :: nat
  reg_idx :: nat

datatype (plugins only: code size) ins =
    IImm int | IReg reg
  | IAdd | ISub | IMul | IDiv | IShl | IShr | IAnd | IOr | IXor | IEq | INe | ILt | ILe | IGt | IGe

datatype expr = Expr (expr_ins: "ins list")

definition EXPR_STACK :: nat where
  "EXPR_STACK = 8"

definition expr_imm :: "int \<Rightarrow> expr" where
  "expr_imm n = Expr [IImm n]"

fun as_const :: "expr \<Rightarrow> int option" where
  "as_const (Expr [IImm n]) = Some n"
| "as_const _ = None"

section \<open>Checked arithmetic\<close>

text \<open>\<open>checked_add\<close> and its kin followed by \<open>ok_or(Kind::Overflow)\<close>.\<close>

definition checked :: "int \<Rightarrow> (kind, int) res" where
  "checked x = (if in_i64 x then Inr x else Inl (Fail KOverflow))"

text \<open>\<open>(a == b) as i64\<close>.\<close>

definition bool_i64 :: "bool \<Rightarrow> int" where
  "bool_i64 b = (if b then 1 else 0)"

fun apply_ins :: "ins \<Rightarrow> int \<Rightarrow> int \<Rightarrow> (kind, int) res" where
  "apply_ins IAdd a b = checked (a + b)"
| "apply_ins ISub a b = checked (a - b)"
| "apply_ins IMul a b = checked (a * b)"
| "apply_ins IDiv a b = (if b = 0 then Inl (Fail KDivZero) else checked (a sdiv b))"
| "apply_ins IShl a b =
     (if \<not> (0 \<le> b \<and> b < 64) then Inl (Fail KOverflow) else Inr (as_i64 (push_bit (nat b) a)))"
| "apply_ins IShr a b =
     (if \<not> (0 \<le> b \<and> b < 64) then Inl (Fail KOverflow) else Inr (drop_bit (nat b) a))"
| "apply_ins IAnd a b = Inr (a AND b)"
| "apply_ins IOr a b = Inr (a OR b)"
| "apply_ins IXor a b = Inr (a XOR b)"
| "apply_ins IEq a b = Inr (bool_i64 (a = b))"
| "apply_ins INe a b = Inr (bool_i64 (a \<noteq> b))"
| "apply_ins ILt a b = Inr (bool_i64 (a < b))"
| "apply_ins ILe a b = Inr (bool_i64 (a \<le> b))"
| "apply_ins IGt a b = Inr (bool_i64 (a > b))"
| "apply_ins IGe a b = Inr (bool_i64 (a \<ge> b))"
| "apply_ins (IImm _) a b = panic"
| "apply_ins (IReg _) a b = panic"

section \<open>The stack machine\<close>

type_synonym getter = "reg \<Rightarrow> (kind, int) res"

definition push_cell :: "int \<Rightarrow> int list \<times> nat \<Rightarrow> (kind, int list \<times> nat) res" where
  "push_cell v st = (case st of (stack, sp) \<Rightarrow> bind_res (update_res stack sp v) (\<lambda>s. Inr (s, sp + 1)))"

text \<open>
  A binary operator with fewer than two cells below it wraps the index \<open>sp - 2\<close> and panics.
\<close>

definition pop_two :: "int list \<times> nat \<Rightarrow> (kind, int \<times> int \<times> nat) res" where
  "pop_two st = (case st of (stack, sp) \<Rightarrow>
     if sp < 2 then panic
     else bind_res (nth_res stack (sp - 1)) (\<lambda>b. bind_res (nth_res stack (sp - 2)) (\<lambda>a.
       Inr (a, b, sp - 2))))"

fun exec :: "getter \<Rightarrow> ins \<Rightarrow> int list \<times> nat \<Rightarrow> (kind, int list \<times> nat) res" where
  "exec get (IImm n) st = push_cell n st"
| "exec get (IReg r) st = bind_res (get r) (\<lambda>v. push_cell v st)"
| "exec get ins st =
     bind_res (pop_two st) (\<lambda>(a, b, sp). bind_res (apply_ins ins a b) (\<lambda>v. push_cell v (fst st, sp)))"

definition eval_expr :: "getter \<Rightarrow> expr \<Rightarrow> (kind, int) res" where
  "eval_expr get e =
     bind_res (fold_res (exec get) (expr_ins e) (replicate EXPR_STACK 0, 0))
       (\<lambda>(stack, _). nth_res stack 0)"

section \<open>Bounds\<close>

lemma checked_eq_Inr [simp]: "checked x = Inr y \<longleftrightarrow> in_i64 x \<and> y = x"
  by (auto simp: checked_def)

lemma no_panic_checked [simp]: "no_panic (checked x)"
  by (simp add: checked_def)

lemma in_i64_bool [simp]: "in_i64 (bool_i64 b)"
  by (simp add: bool_i64_def in_i64_iff)

lemma in_i64_iff_signed: "in_i64 x \<longleftrightarrow> signed_take_bit 63 x = x"
  by (simp add: in_i64_iff signed_take_bit_int_eq_self_iff)

lemma in_i64_iff_bits: "in_i64 x \<longleftrightarrow> (\<forall>n. bit x (min 63 n) \<longleftrightarrow> bit x n)"
  by (simp add: in_i64_iff_signed bit_eq_iff bit_signed_take_bit_iff)

lemma in_i64_bitwise:
  assumes "in_i64 a" and "in_i64 b"
  shows "in_i64 (a AND b)" "in_i64 (a OR b)" "in_i64 (a XOR b)"
  using assms unfolding in_i64_iff_bits bit_and_iff bit_or_iff bit_xor_iff by blast+

lemma in_i64_drop_bit:
  assumes "in_i64 a"
  shows "in_i64 (drop_bit n a)"
proof -
  have p: "(1::int) \<le> 2 ^ n" by simp
  have "drop_bit n a = a div 2 ^ n" by (simp add: drop_bit_eq_div)
  moreover have "a div 2 ^ n < 2 ^ 63"
  proof (cases "0 \<le> a")
    case True
    then have "a div 2 ^ n \<le> a" using p by (metis div_by_1 zdiv_mono2 zero_less_one)
    then show ?thesis using assms by (simp add: in_i64_iff)
  next
    case False
    then have "a div 2 ^ n < 0" using p by (intro div_neg_pos_less0) simp_all
    then show ?thesis by simp
  qed
  moreover have "- (2 ^ 63) \<le> a div 2 ^ n"
  proof (cases "0 \<le> a")
    case True
    then have "0 \<le> a div 2 ^ n" by (simp add: pos_imp_zdiv_nonneg_iff)
    then show ?thesis by simp
  next
    case False
    then have "a \<le> a div 2 ^ n" using p by (metis div_by_1 linear zdiv_mono2_neg zero_less_one not_le)
    then show ?thesis using assms by (simp add: in_i64_iff)
  qed
  ultimately show ?thesis by (simp add: in_i64_iff)
qed

lemma apply_ins_in_i64:
  "in_i64 a \<Longrightarrow> in_i64 b \<Longrightarrow> apply_ins i a b = Inr v \<Longrightarrow> in_i64 v"
  by (cases i) (auto simp: in_i64_bitwise in_i64_drop_bit split: if_splits)

definition is_binary :: "ins \<Rightarrow> bool" where
  "is_binary i \<longleftrightarrow> (case i of IImm _ \<Rightarrow> False | IReg _ \<Rightarrow> False | _ \<Rightarrow> True)"

lemma no_panic_apply_ins: "is_binary i \<Longrightarrow> no_panic (apply_ins i a b)"
  by (cases i) (auto simp: is_binary_def)

end
