(* ===== verification/Names.thy ===== *)
theory Names
  imports Prelude "HOL-Library.Char_ord"
begin

text \<open>
  Closed sets of names, \<open>crates/rustruct/src/names.rs\<close>: one table per vocabulary, searched
  for published names first and for aliases after them.
\<close>

record 'a closed_set =
  cs_what :: string
  cs_allowed :: string
  cs_eq :: "string \<Rightarrow> string \<Rightarrow> bool"
  cs_names :: "(string \<times> 'a) list"
  cs_aliases :: "(string \<times> 'a) list"

text \<open>The message of a rejected name: what it names, the spelling, and what is allowed.\<close>

datatype name_error = NotSupported string string string

definition names :: "'a closed_set \<Rightarrow> string list" where
  "names cs = map fst (cs_names cs)"

definition accepted :: "'a closed_set \<Rightarrow> string list" where
  "accepted cs = names cs @ map fst (cs_aliases cs)"

definition hit :: "'a closed_set \<Rightarrow> string \<Rightarrow> (string \<times> 'a) list \<Rightarrow> 'a option" where
  "hit cs s table = map_option snd (List.find (\<lambda>(name, _). cs_eq cs s name) table)"

definition parse_name :: "'a closed_set \<Rightarrow> string \<Rightarrow> (name_error, 'a) res" where
  "parse_name cs s =
     ok_or (NotSupported (cs_what cs) s (cs_allowed cs))
       (case hit cs s (cs_names cs) of Some v \<Rightarrow> Some v | None \<Rightarrow> hit cs s (cs_aliases cs))"

text \<open>\<open>u8::to_ascii_lowercase\<close> and the byte walk of \<open>loose_eq\<close>.\<close>

definition to_ascii_lowercase :: "char \<Rightarrow> char" where
  "to_ascii_lowercase c =
     (if CHR ''A'' \<le> c \<and> c \<le> CHR ''Z'' then char_of (of_char c + (32::nat)) else c)"

definition loose_key :: "string \<Rightarrow> string" where
  "loose_key s = map to_ascii_lowercase (filter (\<lambda>c. c \<noteq> CHR ''-'' \<and> c \<noteq> CHR ''_'') s)"

definition loose_eq :: "string \<Rightarrow> string \<Rightarrow> bool" where
  "loose_eq a b \<longleftrightarrow> loose_key a = loose_key b"

lemma loose_eq_refl [simp]: "loose_eq a a"
  by (simp add: loose_eq_def)

lemma loose_eq_sym: "loose_eq a b \<longleftrightarrow> loose_eq b a"
  by (auto simp: loose_eq_def)

lemma loose_eq_trans: "loose_eq a b \<Longrightarrow> loose_eq b c \<Longrightarrow> loose_eq a c"
  by (simp add: loose_eq_def)

lemma find_eq_Some_set: "List.find P xs = Some x \<Longrightarrow> x \<in> set xs \<and> P x"
  by (induction xs) (auto split: if_splits)

lemma parse_name_sound:
  "parse_name cs s = Inr v \<Longrightarrow>
     \<exists>name. (name, v) \<in> set (cs_names cs @ cs_aliases cs) \<and> cs_eq cs s name"
  by (auto simp: parse_name_def hit_def split: option.splits dest!: find_eq_Some_set)

lemma parse_name_not_panic [simp]: "no_panic (parse_name cs s)"
  by (simp add: parse_name_def)

text \<open>
  A table in which no earlier published name compares equal to a later one gives every
  published name its own value.
\<close>

definition unambiguous :: "'a closed_set \<Rightarrow> bool" where
  "unambiguous cs \<longleftrightarrow>
     (\<forall>(a, v) \<in> set (cs_names cs). cs_eq cs a a) \<and>
     sorted_wrt (\<lambda>p q. \<not> cs_eq cs (fst q) (fst p)) (cs_names cs)"

lemma find_unambiguous:
  assumes "sorted_wrt (\<lambda>p q. \<not> e (fst q) (fst p)) table" and "(a, v) \<in> set table" and "e a a"
  shows "List.find (\<lambda>(name, _). e a name) table = Some (a, v)"
  using assms by (induction table) fastforce+

lemma parse_name_published:
  assumes "unambiguous cs" and "(a, v) \<in> set (cs_names cs)"
  shows "parse_name cs a = Inr v"
proof -
  have "List.find (\<lambda>(name, _). cs_eq cs a name) (cs_names cs) = Some (a, v)"
    by (rule find_unambiguous) (use assms in \<open>auto simp: unambiguous_def\<close>)
  then show ?thesis by (simp add: parse_name_def hit_def)
qed

lemma parse_name_rejects_iff:
  "parse_name cs s = Inl (Fail (NotSupported (cs_what cs) s (cs_allowed cs))) \<longleftrightarrow>
     (\<forall>name \<in> set (accepted cs). \<not> cs_eq cs s name)"
proof -
  have none: "List.find (\<lambda>(name, _). cs_eq cs s name) xs = None \<longleftrightarrow>
      (\<forall>name \<in> fst ` set xs. \<not> cs_eq cs s name)" for xs :: "(string \<times> 'a) list"
    by (induction xs) auto
  show ?thesis
    by (cases "List.find (\<lambda>(name, _). cs_eq cs s name) (cs_names cs)";
        cases "List.find (\<lambda>(name, _). cs_eq cs s name) (cs_aliases cs)")
       (use none [of "cs_names cs"] none [of "cs_aliases cs"] in
        \<open>auto simp: parse_name_def hit_def accepted_def names_def\<close>)
qed

end
