(* ===== verification/Digests.thy ===== *)
theory Digests
  imports Names
begin

text \<open>
  Checksums and hashes, \<open>crates/rustruct/src/digest.rs\<close>: the Rocksoft CRC model, the RFC
  1071 Internet checksum, and the incremental hasher over them.

  MD5, SHA-1 and SHA-256 come from crates that are not part of the repository. They are the
  parameter \<open>hashes\<close> of the model: functions from the bytes fed so far to the digest. The
  code relies on the lengths of their results, stated as \<open>hash_lengths\<close>.
\<close>

record hashes =
  md5_fn :: "bytes \<Rightarrow> bytes"
  sha1_fn :: "bytes \<Rightarrow> bytes"
  sha256_fn :: "bytes \<Rightarrow> bytes"

definition hash_lengths :: "hashes \<Rightarrow> bool" where
  "hash_lengths H \<longleftrightarrow>
     (\<forall>d. length (md5_fn H d) = 16) \<and> (\<forall>d. length (sha1_fn H d) = 20) \<and>
     (\<forall>d. length (sha256_fn H d) = 32)"

section \<open>Algorithms\<close>

record crc_spec =
  crc_width :: nat
  crc_poly :: "64 word"
  crc_init :: "64 word"
  crc_xorout :: "64 word"
  crc_refin :: bool
  crc_refout :: bool

datatype algo = Crc crc_spec | IpChecksum | Md5 | Sha1 | Sha256

definition crc :: "nat \<Rightarrow> 64 word \<Rightarrow> 64 word \<Rightarrow> 64 word \<Rightarrow> bool \<Rightarrow> algo" where
  "crc width poly init xorout rfl =
     Crc \<lparr>crc_width = width, crc_poly = poly, crc_init = init, crc_xorout = xorout,
          crc_refin = rfl, crc_refout = rfl\<rparr>"

definition ALGOS :: "algo closed_set" where
  "ALGOS =
     \<lparr>cs_what = ''digest algorithm'',
      cs_allowed = ''crc16_ccitt/crc16_ibm/crc32/crc32c/crc64_xz/ip/md5/sha1/sha256'',
      cs_eq = (=),
      cs_names =
        [(''crc16_ccitt'', crc 16 0x1021 0xFFFF 0x0000 False),
         (''crc16_ibm'', crc 16 0x8005 0x0000 0x0000 True),
         (''crc32'', crc 32 0x04C11DB7 0xFFFFFFFF 0xFFFFFFFF True),
         (''crc32c'', crc 32 0x1EDC6F41 0xFFFFFFFF 0xFFFFFFFF True),
         (''crc64_xz'', crc 64 0x42F0E1EBA9EA3693 0xFFFFFFFFFFFFFFFF 0xFFFFFFFFFFFFFFFF True),
         (''ip'', IpChecksum),
         (''md5'', Md5),
         (''sha1'', Sha1),
         (''sha256'', Sha256)],
      cs_aliases = []\<rparr>"

definition preset :: "string \<Rightarrow> algo option" where
  "preset name = (case parse_name ALGOS name of Inr a \<Rightarrow> Some a | Inl _ \<Rightarrow> None)"

fun width_bytes :: "algo \<Rightarrow> nat" where
  "width_bytes (Crc s) = crc_width s div 8"
| "width_bytes IpChecksum = 2"
| "width_bytes Md5 = 16"
| "width_bytes Sha1 = 20"
| "width_bytes Sha256 = 32"

fun is_int :: "algo \<Rightarrow> bool" where
  "is_int (Crc _) = True"
| "is_int IpChecksum = True"
| "is_int _ = False"

datatype digest_val = DInt "64 word" | DBytes bytes

section \<open>The hasher\<close>

definition mask :: "nat \<Rightarrow> 64 word" where
  "mask width = (if 64 \<le> width then - 1 else push_bit width 1 - 1)"

definition reflect :: "64 word \<Rightarrow> nat \<Rightarrow> 64 word" where
  "reflect v width =
     fold (\<lambda>i out. if drop_bit i v AND 1 = 1 then out OR push_bit (width - 1 - i) 1 else out)
       [0..<width] 0"

datatype hasher =
    HCrc crc_spec "64 word"
  | HIp "32 word" "8 word option"
  | HMd5 bytes | HSha1 bytes | HSha256 bytes

fun hasher_new :: "algo \<Rightarrow> hasher" where
  "hasher_new (Crc spec) = HCrc spec (crc_init spec AND mask (crc_width spec))"
| "hasher_new IpChecksum = HIp 0 None"
| "hasher_new Md5 = HMd5 []"
| "hasher_new Sha1 = HSha1 []"
| "hasher_new Sha256 = HSha256 []"

text \<open>One bit of the bit-serial CRC register.\<close>

definition crc_step :: "crc_spec \<Rightarrow> 64 word \<Rightarrow> 64 word \<Rightarrow> 64 word" where
  "crc_step spec bit_in state =
     (let m = mask (crc_width spec);
          top = drop_bit (crc_width spec - 1) state AND 1;
          state' = push_bit 1 state AND m
      in if top XOR bit_in = 1 then state' XOR (crc_poly spec AND m) else state')"

definition bit_in :: "crc_spec \<Rightarrow> 8 word \<Rightarrow> nat \<Rightarrow> 64 word" where
  "bit_in spec byte i =
     (if crc_refin spec then ucast (drop_bit i byte AND 1) else ucast (drop_bit (7 - i) byte AND 1))"

definition crc_byte :: "crc_spec \<Rightarrow> 8 word \<Rightarrow> 64 word \<Rightarrow> 64 word" where
  "crc_byte spec byte state = fold (\<lambda>i. crc_step spec (bit_in spec byte i)) [0..<8] state"

definition be16 :: "8 word \<Rightarrow> 8 word \<Rightarrow> 32 word" where
  "be16 hi lo = ucast hi * 256 + ucast lo"

text \<open>\<open>chunks_exact(2)\<close>: the running sum over whole pairs and the remainder.\<close>

fun ip_pairs :: "bytes \<Rightarrow> 32 word \<Rightarrow> 32 word \<times> 8 word option" where
  "ip_pairs (a # b # rest) s = ip_pairs rest (s + be16 a b)"
| "ip_pairs [a] s = (s, Some a)"
| "ip_pairs [] s = (s, None)"

lemma unat_fold16:
  fixes s :: "32 word"
  shows "unat ((s AND 0xFFFF) + drop_bit 16 s) = unat s mod 65536 + unat s div 65536"
proof -
  have "s AND 0xFFFF = take_bit 16 s" by (simp add: take_bit_eq_mask mask_eq_exp_minus_1)
  then have lo: "unat (s AND 0xFFFF) = unat s mod 65536" by (simp add: take_bit_eq_mod unat_mod)
  have hi: "unat (drop_bit 16 s) = unat s div 65536" by (simp add: drop_bit_eq_div unat_div)
  have "unat s < 2 ^ 32" using unsigned_less [of s] by simp
  then have "unat s mod 65536 + unat s div 65536 < 2 ^ 32" by simp
  then show ?thesis by (simp add: unat_word_ariths lo hi)
qed

lemma fold16_decreases: "65535 < n \<Longrightarrow> n mod 65536 + n div 65536 < (n::nat)"
proof -
  assume "65535 < n"
  then have "1 \<le> n div 65536" by (simp add: Suc_le_eq div_greater_zero_iff)
  moreover have "n = n mod 65536 + 65536 * (n div 65536)" by simp
  ultimately show ?thesis by linarith
qed

text \<open>\<open>while sum > 0xFFFF { sum = (sum & 0xFFFF) + (sum >> 16) }\<close>.\<close>

function ip_fold :: "32 word \<Rightarrow> 32 word" where
  "ip_fold s = (if 0xFFFF < s then ip_fold ((s AND 0xFFFF) + drop_bit 16 s) else s)"
  by pat_completeness auto
termination
  by (relation "measure unat")
     (simp_all only: unat_fold16 in_measure wf_measure word_less_nat_alt,
      simp add: fold16_decreases)

declare ip_fold.simps [simp del]

fun ip_update :: "bytes \<Rightarrow> 32 word \<Rightarrow> 8 word option \<Rightarrow> hasher" where
  "ip_update [] acc (Some hi) = HIp acc (Some hi)"
| "ip_update (lo # rest) acc (Some hi) =
     (let (s, pend) = ip_pairs rest (acc + be16 hi lo) in HIp (ip_fold s) pend)"
| "ip_update data acc None = (let (s, pend) = ip_pairs data acc in HIp (ip_fold s) pend)"

fun update :: "bytes \<Rightarrow> hasher \<Rightarrow> hasher" where
  "update data (HCrc spec state) = HCrc spec (fold (crc_byte spec) data state)"
| "update data (HIp acc pend) = ip_update data acc pend"
| "update data (HMd5 d) = HMd5 (d @ data)"
| "update data (HSha1 d) = HSha1 (d @ data)"
| "update data (HSha256 d) = HSha256 (d @ data)"

fun update_zeros :: "nat \<Rightarrow> hasher \<Rightarrow> hasher" where
  "update_zeros n h =
     (if 0 < n then update_zeros (n - min n 64) (update (replicate (min n 64) 0) h) else h)"

declare update_zeros.simps [simp del]

fun finalize :: "hashes \<Rightarrow> hasher \<Rightarrow> digest_val" where
  "finalize H (HCrc spec state) =
     (let state' = (if crc_refout spec then reflect state (crc_width spec) else state)
      in DInt ((state' XOR crc_xorout spec) AND mask (crc_width spec)))"
| "finalize H (HIp acc pend) =
     (let acc' = (case pend of Some hi \<Rightarrow> acc + be16 hi 0 | None \<Rightarrow> acc)
      in DInt (ucast (NOT (ucast (ip_fold acc') :: 16 word))))"
| "finalize H (HMd5 d) = DBytes (md5_fn H d)"
| "finalize H (HSha1 d) = DBytes (sha1_fn H d)"
| "finalize H (HSha256 d) = DBytes (sha256_fn H d)"

section \<open>The contract of an incremental digest\<close>

text \<open>
  What the packer and the unpacker rely on: however the covered bytes are cut into
  \<open>update\<close> calls, the result is the digest of their concatenation. \<open>absorbed s d\<close> says that
  the hasher \<open>s\<close> has been fed \<open>d\<close>; \<open>chunk_ok\<close> is the bound on one call.
\<close>

locale incremental_digest =
  fixes upd :: "bytes \<Rightarrow> 's \<Rightarrow> 's"
    and fin :: "'s \<Rightarrow> 'd"
    and absorbed :: "'s \<Rightarrow> bytes \<Rightarrow> bool"
    and chunk_ok :: "bytes \<Rightarrow> bool"
    and spec :: "bytes \<Rightarrow> 'd"
  assumes upd_absorbs: "absorbed s d \<Longrightarrow> chunk_ok c \<Longrightarrow> absorbed (upd c s) (d @ c)"
    and fin_spec: "absorbed s d \<Longrightarrow> fin s = spec d"
begin

lemma fold_absorbs:
  "absorbed s d \<Longrightarrow> list_all chunk_ok cs \<Longrightarrow> absorbed (fold upd cs s) (d @ concat cs)"
proof (induction cs arbitrary: s d)
  case Nil
  then show ?case by simp
next
  case (Cons c cs)
  then have "absorbed (fold upd cs (upd c s)) ((d @ c) @ concat cs)"
    by (intro Cons.IH upd_absorbs) simp_all
  then show ?case by simp
qed

lemma chunked:
  "absorbed s [] \<Longrightarrow> list_all chunk_ok cs \<Longrightarrow> fin (fold upd cs s) = spec (concat cs)"
  using fold_absorbs [of s "[]" cs] fin_spec by simp

end

section \<open>The Internet checksum\<close>

text \<open>
  The reference: one's complement addition reduces a sum of 16-bit words modulo 65535, with
  65535 standing for a non-zero multiple of it.
\<close>

definition oc_fold :: "nat \<Rightarrow> nat" where
  "oc_fold n = (if n = 0 then 0 else (n - 1) mod 65535 + 1)"

fun pair_sum :: "bytes \<Rightarrow> nat" where
  "pair_sum (a # b # rest) = unat a * 256 + unat b + pair_sum rest"
| "pair_sum _ = 0"

definition ip_total :: "bytes \<Rightarrow> nat" where
  "ip_total d = pair_sum (if odd (length d) then d @ [0] else d)"

definition ip_checksum_spec :: "bytes \<Rightarrow> nat" where
  "ip_checksum_spec d = 65535 - oc_fold (ip_total d)"

lemma oc_fold_le: "oc_fold n \<le> 65535"
  using mod_less_divisor [of 65535 "n - 1"] by (auto simp: oc_fold_def simp del: mod_less_divisor)

lemma oc_fold_id: "n \<le> 65535 \<Longrightarrow> oc_fold n = n"
  by (simp add: oc_fold_def)

lemma oc_fold_eqI:
  assumes "m mod 65535 = n mod 65535" and "0 < m \<longleftrightarrow> 0 < (n::nat)"
  shows "oc_fold m = oc_fold n"
proof (cases "m = 0")
  case True
  then show ?thesis using assms by (simp add: oc_fold_def)
next
  case False
  then obtain i j where "m = Suc i" "n = Suc j" using assms by (metis gr0_implies_Suc neq0_conv)
  then show ?thesis using assms(1) mod_Suc [of i 65535] mod_Suc [of j 65535]
    by (auto simp: oc_fold_def split: if_splits)
qed

lemma oc_fold_mod: "oc_fold n mod 65535 = n mod 65535"
proof (cases "n = 0")
  case False
  then obtain i where "n = Suc i" by (metis not0_implies_Suc)
  then show ?thesis by (simp add: oc_fold_def mod_simps)
qed (simp add: oc_fold_def)

lemma oc_fold_pos [simp]: "0 < oc_fold n \<longleftrightarrow> 0 < n"
  by (simp add: oc_fold_def)

lemma oc_fold_add: "oc_fold (oc_fold a + b) = oc_fold (a + b)"
  by (rule oc_fold_eqI) (metis mod_add_left_eq oc_fold_mod, auto simp: add_gr_0)

lemma oc_fold_idem [simp]: "oc_fold (oc_fold n) = oc_fold n"
  using oc_fold_add [of n 0] by simp

lemma unat_ip_fold: "unat (ip_fold s) = oc_fold (unat s)"
proof (induction s rule: ip_fold.induct)
  case (1 s)
  show ?case
  proof (cases "0xFFFF < s")
    case True
    let ?n = "unat s"
    have big: "65535 < ?n" using True by (simp add: word_less_nat_alt)
    have "oc_fold (?n mod 65536 + ?n div 65536) = oc_fold ?n"
    proof (rule oc_fold_eqI)
      have "?n = ?n mod 65536 + ?n div 65536 + 65535 * (?n div 65536)"
        using div_mult_mod_eq [of ?n 65536] by linarith
      then show "(?n mod 65536 + ?n div 65536) mod 65535 = ?n mod 65535"
        by (metis mod_mult_self2)
      show "(0 < ?n mod 65536 + ?n div 65536) = (0 < ?n)"
        using big by (auto simp: div_greater_zero_iff)
    qed
    then show ?thesis using 1 True by (subst ip_fold.simps) (simp only: unat_fold16 if_True)
  next
    case False
    then have "unat s \<le> 65535" by (simp add: word_less_nat_alt not_less)
    then show ?thesis using False by (subst ip_fold.simps) (simp add: oc_fold_id)
  qed
qed

lemma unat_be16: "unat (be16 a b) = unat a * 256 + unat b"
proof -
  have "unat a < 256" "unat b < 256" using unsigned_less [of a] unsigned_less [of b] by simp_all
  then have "unat a * 256 + unat b < 2 ^ 32" by simp
  then show ?thesis by (simp add: be16_def unat_word_ariths unsigned_ucast_eq take_bit_eq_mod)
qed

lemma pair_sum_bound: "pair_sum d \<le> 65535 * (length d div 2)"
proof (induction d rule: pair_sum.induct)
  case (1 a b rest)
  have "unat a < 256" "unat b < 256" using unsigned_less [of a] unsigned_less [of b] by simp_all
  then show ?case using 1 by simp
qed simp_all

lemma ip_pairs_eq:
  "unat s + pair_sum d < 2 ^ 32 \<Longrightarrow>
     unat (fst (ip_pairs d s)) = unat s + pair_sum d \<and>
     snd (ip_pairs d s) = (if odd (length d) then Some (last d) else None)"
proof (induction d s rule: ip_pairs.induct)
  case (1 a b rest s)
  have "unat (s + be16 a b) = unat s + (unat a * 256 + unat b)"
    using "1.prems" by (simp add: unat_word_ariths unat_be16)
  then show ?case using 1 by auto
qed simp_all

lemma pair_sum_append_even:
  "even (length d) \<Longrightarrow> pair_sum (d @ c) = pair_sum d + pair_sum c"
  by (induction d rule: pair_sum.induct) auto

lemma pair_sum_append_odd:
  assumes "odd (length d)"
  shows "pair_sum (d @ lo # c) = pair_sum d + (unat (last d) * 256 + unat lo) + pair_sum c"
  using assms by (induction d rule: pair_sum.induct) auto

fun ip_absorbed :: "hasher \<Rightarrow> bytes \<Rightarrow> bool" where
  "ip_absorbed (HIp acc pend) d \<longleftrightarrow>
     unat acc = oc_fold (pair_sum d) \<and> pend = (if odd (length d) then Some (last d) else None)"
| "ip_absorbed _ d \<longleftrightarrow> False"

text \<open>One \<open>update\<close> call adds at most 65536 words to an accumulator of at most 65535.\<close>

definition ip_chunk_ok :: "bytes \<Rightarrow> bool" where
  "ip_chunk_ok c \<longleftrightarrow> length c < 131072"

lemma ip_update_absorbs:
  assumes "ip_absorbed h d" and "ip_chunk_ok c"
  shows "ip_absorbed (update c h) (d @ c)"
proof -
  obtain acc pend where h: "h = HIp acc pend" using assms(1) by (cases h) auto
  from assms have acc: "unat acc = oc_fold (pair_sum d)"
    and pend: "pend = (if odd (length d) then Some (last d) else None)"
    and len: "length c < 131072" by (auto simp: h ip_chunk_ok_def)
  have le: "unat acc \<le> 65535" using oc_fold_le acc by simp
  show ?thesis
  proof (cases "odd (length d)")
    case False
    have "unat acc + pair_sum c < 2 ^ 32" using le pair_sum_bound [of c] len by simp
    note * = ip_pairs_eq [OF this]
    have "update c h = HIp (ip_fold (fst (ip_pairs c acc))) (snd (ip_pairs c acc))"
      by (simp add: h pend False split: prod.split)
    then show ?thesis using * False
      by (cases "c = []") (auto simp: unat_ip_fold acc oc_fold_add pair_sum_append_even)
  next
    case odd: True
    show ?thesis
    proof (cases c)
      case Nil
      then show ?thesis using assms(1) odd by (simp add: h pend)
    next
      case (Cons lo rest)
      have lt: "unat (last d) < 256" "unat lo < 256"
        using unsigned_less [of "last d"] unsigned_less [of lo] by simp_all
      have pr: "pair_sum rest \<le> 65535 * 65535"
        using pair_sum_bound [of rest] len Cons by (simp add: mult_le_mono div_le_mono)
      have s: "unat (acc + be16 (last d) lo) = unat acc + (unat (last d) * 256 + unat lo)"
        using le lt by (simp add: unat_word_ariths unat_be16)
      have "unat (acc + be16 (last d) lo) + pair_sum rest < 2 ^ 32"
        using s le lt pr by simp
      note * = ip_pairs_eq [OF this]
      have "update c h = HIp (ip_fold (fst (ip_pairs rest (acc + be16 (last d) lo))))
              (snd (ip_pairs rest (acc + be16 (last d) lo)))"
        by (simp add: h pend odd Cons split: prod.split)
      then show ?thesis using * odd
        by (auto simp: Cons unat_ip_fold acc s oc_fold_add pair_sum_append_odd add.assoc)
    qed
  qed
qed

lemma unat_not16: "unat (NOT (x :: 16 word)) = 65535 - unat x"
proof -
  have "NOT x = - 1 - x" using not_eq_complement [of x] by simp
  moreover have "unat (- 1 - x) = unat (- 1 :: 16 word) - unat x"
    by (rule unat_sub) (rule word_order.extremum)
  moreover have "unat (- 1 :: 16 word) = 65535" by (simp add: unsigned_minus_1_eq_mask mask_eq_exp_minus_1)
  ultimately show ?thesis by (simp only:)
qed

lemma ip_finalize_spec:
  assumes "ip_absorbed h d"
  shows "finalize H h = DInt (of_nat (ip_checksum_spec d))"
proof -
  obtain acc pend where h: "h = HIp acc pend" using assms by (cases h) auto
  define acc' where "acc' = (case pend of Some hi \<Rightarrow> acc + be16 hi 0 | None \<Rightarrow> acc)"
  have le: "unat acc \<le> 65535" using oc_fold_le assms by (simp add: h)
  have acc': "oc_fold (unat acc') = oc_fold (ip_total d)"
  proof (cases "odd (length d)")
    case True
    have "unat (last d) < 256" using unsigned_less [of "last d"] by simp
    then have "unat acc' = unat acc + unat (last d) * 256"
      using assms True le by (simp add: h acc'_def unat_word_ariths unat_be16)
    then show ?thesis using assms True
      by (simp add: h ip_total_def oc_fold_add pair_sum_append_odd [of d 0 "[]", simplified])
  next
    case False
    then show ?thesis using assms by (simp add: h acc'_def ip_total_def oc_fold_id oc_fold_le)
  qed
  have "(ucast (NOT (ucast (ip_fold acc') :: 16 word)) :: 64 word) = of_nat (65535 - oc_fold (unat acc'))"
  proof -
    have f: "unat (ip_fold acc') = oc_fold (unat acc')" by (rule unat_ip_fold)
    have le': "oc_fold (unat acc') < 65536" using oc_fold_le [of "unat acc'"] by simp
    have "unat (ucast (ip_fold acc') :: 16 word) = oc_fold (unat acc')"
      using le' by (simp add: unsigned_ucast_eq f take_bit_eq_mod)
    then have "unat (NOT (ucast (ip_fold acc') :: 16 word)) = 65535 - oc_fold (unat acc')"
      by (simp only: unat_not16)
    then show ?thesis by (metis of_nat_unat)
  qed
  then show ?thesis by (simp add: h acc'_def [symmetric] ip_checksum_spec_def acc' Let_def)
qed

section \<open>The contract holds for every algorithm\<close>

definition crc_state :: "crc_spec \<Rightarrow> bytes \<Rightarrow> 64 word" where
  "crc_state spec d = fold (crc_byte spec) d (crc_init spec AND mask (crc_width spec))"

text \<open>The digest of a whole message, with no incremental state.\<close>

fun digest_spec :: "hashes \<Rightarrow> algo \<Rightarrow> bytes \<Rightarrow> digest_val" where
  "digest_spec H (Crc spec) d = finalize H (HCrc spec (crc_state spec d))"
| "digest_spec H IpChecksum d = DInt (of_nat (ip_checksum_spec d))"
| "digest_spec H Md5 d = DBytes (md5_fn H d)"
| "digest_spec H Sha1 d = DBytes (sha1_fn H d)"
| "digest_spec H Sha256 d = DBytes (sha256_fn H d)"

fun absorbed :: "algo \<Rightarrow> hasher \<Rightarrow> bytes \<Rightarrow> bool" where
  "absorbed (Crc spec) h d \<longleftrightarrow> h = HCrc spec (crc_state spec d)"
| "absorbed IpChecksum h d \<longleftrightarrow> ip_absorbed h d"
| "absorbed Md5 h d \<longleftrightarrow> h = HMd5 d"
| "absorbed Sha1 h d \<longleftrightarrow> h = HSha1 d"
| "absorbed Sha256 h d \<longleftrightarrow> h = HSha256 d"

text \<open>Only the Internet checksum bounds what one \<open>update\<close> call may cover.\<close>

definition chunk_ok :: "algo \<Rightarrow> bytes \<Rightarrow> bool" where
  "chunk_ok a c \<longleftrightarrow> (a = IpChecksum \<longrightarrow> ip_chunk_ok c)"

interpretation digest: incremental_digest update "finalize H" "absorbed a" "chunk_ok a" "digest_spec H a"
  for H a
proof unfold_locales
  show "absorbed a (update c s) (d @ c)" if "absorbed a s d" "chunk_ok a c" for s d c
    using that ip_update_absorbs
    by (cases a) (auto simp: chunk_ok_def crc_state_def)
  show "finalize H s = digest_spec H a d" if "absorbed a s d" for s d
    using that ip_finalize_spec by (cases a) auto
qed

lemma absorbed_new: "absorbed a (hasher_new a) []"
  by (cases a) (simp_all add: crc_state_def oc_fold_def)

lemma update_zeros_absorbs:
  "absorbed a h d \<Longrightarrow> absorbed a (update_zeros n h) (d @ replicate n 0)"
proof (induction n h arbitrary: d rule: update_zeros.induct)
  case (1 n h)
  show ?case
  proof (cases "0 < n")
    case True
    let ?c = "replicate (min n 64) (0 :: 8 word)"
    have "absorbed a (update ?c h) (d @ ?c)"
      by (rule digest.upd_absorbs) (use "1.prems" in \<open>auto simp: chunk_ok_def ip_chunk_ok_def\<close>)
    from "1.IH" [OF True this] True show ?thesis
      by (subst update_zeros.simps) (simp flip: replicate_add)
  next
    case False
    then show ?thesis using "1.prems" by (subst update_zeros.simps) simp
  qed
qed

text \<open>The bytes before a field, as many zeros as it is long and the bytes after it.\<close>

lemma zeroed_spec:
  assumes "chunk_ok a before" and "chunk_ok a after"
  shows "finalize H (update after (update_zeros n (update before (hasher_new a)))) =
    digest_spec H a (before @ replicate n 0 @ after)"
proof -
  have "absorbed a (update after (update_zeros n (update before (hasher_new a))))
      ((([] @ before) @ replicate n 0) @ after)"
    by (intro digest.upd_absorbs update_zeros_absorbs absorbed_new assms)
  then show ?thesis using digest.fin_spec by fastforce
qed

lemma one_chunk: "chunk_ok a d \<Longrightarrow> finalize H (update d (hasher_new a)) = digest_spec H a d"
  using digest.chunked [OF absorbed_new, of a "[d]" H] by simp

lemma unat_ones_sum: "unat (of_nat 65538 * 0xFFFF :: 32 word) = 65538 * 65535 - 2 ^ 32"
proof -
  have "unat (65538 :: 32 word) = 65538" "unat (0xFFFF :: 32 word) = 65535" by simp_all
  then show ?thesis unfolding of_nat_numeral unat_word_ariths by simp
qed

lemma be16_ones: "be16 0xFF 0xFF = 0xFFFF"
  by (simp add: be16_def)

lemma ip_pairs_ones: "fst (ip_pairs (replicate (2 * n) 0xFF) s) = s + of_nat n * 0xFFFF"
proof (induction n arbitrary: s)
  case (Suc n)
  have "replicate (2 * Suc n) (0xFF :: 8 word) = 0xFF # 0xFF # replicate (2 * n) 0xFF" by simp
  moreover have "s + 0xFFFF + of_nat n * 0xFFFF = s + of_nat (Suc n) * 0xFFFF"
    by (simp only: of_nat_Suc distrib_right mult_1_left add.assoc)
  ultimately show ?case using Suc [of "s + 0xFFFF"]
    by (simp only: ip_pairs.simps be16_ones)
qed simp

lemma snd_ip_pairs_even: "even (length d) \<Longrightarrow> snd (ip_pairs d s) = None"
  by (induction d s rule: ip_pairs.induct) auto

lemma pair_sum_ones: "pair_sum (replicate (2 * n) 0xFF) = n * 65535"
proof (induction n)
  case (Suc n)
  have "replicate (2 * Suc n) (0xFF :: 8 word) = 0xFF # 0xFF # replicate (2 * n) 0xFF" by simp
  then show ?case using Suc by simp
qed simp

lemma preset_crcs:
  "preset ''crc16_ccitt'' = Some (crc 16 0x1021 0xFFFF 0x0000 False)"
  "preset ''crc16_ibm'' = Some (crc 16 0x8005 0x0000 0x0000 True)"
  "preset ''crc32'' = Some (crc 32 0x04C11DB7 0xFFFFFFFF 0xFFFFFFFF True)"
  "preset ''crc32c'' = Some (crc 32 0x1EDC6F41 0xFFFFFFFF 0xFFFFFFFF True)"
  "preset ''crc64_xz'' =
     Some (crc 64 0x42F0E1EBA9EA3693 0xFFFFFFFFFFFFFFFF 0xFFFFFFFFFFFFFFFF True)"
  by (simp_all add: preset_def parse_name_def hit_def ALGOS_def)

text \<open>The checksum in its field.\<close>

lemma ip_total_split:
  "even (length before) \<Longrightarrow> ip_total (before @ [x, y] @ after) = pair_sum before + (unat x * 256 + unat y) + ip_total after"
  by (simp add: ip_total_def pair_sum_append_even)

lemma pair_sum_pos: "even (length d) \<Longrightarrow> 0 < pair_sum d \<longleftrightarrow> (\<exists>b \<in> set d. b \<noteq> 0)"
  by (induction d rule: pair_sum.induct) (auto simp: unat_eq_0)

lemma ip_total_pos: "0 < ip_total d \<longleftrightarrow> (\<exists>b \<in> set d. b \<noteq> 0)"
  using pair_sum_pos [of d] pair_sum_pos [of "d @ [0]"] by (auto simp: ip_total_def)

lemma ip_spec_verifies:
  assumes "even (length before)" and "0 < ip_total (before @ [0, 0] @ after)"
    and "unat hi * 256 + unat lo = ip_checksum_spec (before @ [0, 0] @ after)"
  shows "ip_checksum_spec (before @ [hi, lo] @ after) = 0"
proof -
  let ?t = "ip_total (before @ [0, 0] @ after)"
  have sum: "ip_total (before @ [hi, lo] @ after) = ?t + (65535 - oc_fold ?t)"
    using ip_total_split [OF assms(1), of hi lo] ip_total_split [OF assms(1), of 0 0] assms(3) by (simp add: ip_checksum_spec_def)
  have "oc_fold (?t + (65535 - oc_fold ?t)) = oc_fold (oc_fold ?t + (65535 - oc_fold ?t))"
    by (simp add: oc_fold_add)
  also have "oc_fold ?t + (65535 - oc_fold ?t) = 65535" using oc_fold_le [of ?t] by simp
  also have "oc_fold 65535 = 65535" by (simp add: oc_fold_def)
  finally show ?thesis unfolding ip_checksum_spec_def sum by simp
qed

text \<open>An instance of the parameter, for evaluating examples: every hash is a run of zeros.\<close>

definition zero_hashes :: hashes where
  "zero_hashes =
     \<lparr>md5_fn = (\<lambda>d. replicate 16 0), sha1_fn = (\<lambda>d. replicate 20 0), sha256_fn = (\<lambda>d. replicate 32 0)\<rparr>"

lemma zero_hashes_lengths: "hash_lengths zero_hashes"
  by (simp add: hash_lengths_def zero_hashes_def)

section \<open>Properties\<close>

text \<open>
  C16: chunk independence. However the covered bytes are split over \<open>update\<close> calls, with each
  call within the bound the Internet checksum needs (\<open>chunk_ok\<close>: less than 131072 bytes; the other
  algorithms have none), the digest is that of the bytes in one piece.
\<close>

theorem digest_of_chunks:
  assumes "list_all (chunk_ok a) cs"
  shows "finalize H (fold update cs (hasher_new a)) = digest_spec H a (concat cs)"
  by (rule digest.chunked [OF absorbed_new assms])

theorem digest_of_chunks_witness:
  "finalize zero_hashes (fold update [[1], [2, 3], []] (hasher_new IpChecksum)) =
     digest_spec zero_hashes IpChecksum [1, 2, 3]"
  using digest_of_chunks [of IpChecksum "[[1], [2, 3], []]" zero_hashes]
  by (simp add: chunk_ok_def ip_chunk_ok_def del: update.simps digest_spec.simps finalize.simps hasher_new.simps)

text \<open>
  C18: a receiver accepts a packet with its checksum in place. Take a packet that is not all zero and
  whose checksum field, at an even offset, is zero, and let the hasher compute its checksum;
  with that checksum written into the field, big endian, the hasher computes zero (RFC 1071).
  The packet is shorter than the bound on one \<open>update\<close> call, 131072 bytes.
\<close>

theorem ip_checksum_verifies:
  assumes "even (length before)" and "length (before @ [0, 0] @ after) < 131072" and "\<exists>b \<in> set (before @ after). b \<noteq> 0"
    and "finalize H (update (before @ [0, 0] @ after) (hasher_new IpChecksum)) = DInt c"
  shows "finalize H (update (before @ [ucast (drop_bit 8 c), ucast c] @ after) (hasher_new IpChecksum)) = DInt 0"
proof -
  have ok: "chunk_ok IpChecksum (before @ [x, y] @ after)" for x y using assms(2) by (simp add: chunk_ok_def ip_chunk_ok_def)
  let ?n = "ip_checksum_spec (before @ [0, 0] @ after)"
  have c: "c = of_nat ?n" using one_chunk [OF ok, of H 0 0] assms(4) by simp
  have n: "?n \<le> 65535" by (simp add: ip_checksum_spec_def)
  then have uc: "unat c = ?n" by (simp add: c unsigned_of_nat take_bit_nat_eq_self)
  have "unat (ucast (drop_bit 8 c) :: 8 word) = ?n div 256"
    using n by (simp add: unsigned_ucast_eq take_bit_eq_mod drop_bit_eq_div unat_div uc)
  moreover have "unat (ucast c :: 8 word) = ?n mod 256" by (simp add: unsigned_ucast_eq take_bit_eq_mod uc)
  ultimately have "ip_checksum_spec (before @ [ucast (drop_bit 8 c), ucast c] @ after) = 0"
    by (intro ip_spec_verifies assms(1)) (use assms(3) in \<open>auto simp: ip_total_pos\<close>)
  then show ?thesis using one_chunk [OF ok, of H "ucast (drop_bit 8 c)" "ucast c"] by simp
qed

theorem ip_checksum_verifies_witness:
  "finalize zero_hashes (update ([0x45, 0x00] @ [0xA8, 0xFF] @ [0x12]) (hasher_new IpChecksum)) = DInt 0"
proof -
  have "finalize zero_hashes (update ([0x45, 0x00] @ [0, 0] @ [0x12]) (hasher_new IpChecksum)) = DInt 0xA8FF" by code_simp
  from ip_checksum_verifies [OF _ _ _ this]
  have "finalize zero_hashes (update ([0x45, 0x00] @ [ucast (drop_bit 8 (0xA8FF :: 64 word)), ucast (0xA8FF :: 64 word)] @ [0x12])
      (hasher_new IpChecksum)) = DInt 0" by simp
  moreover have "ucast (drop_bit 8 (0xA8FF :: 64 word)) = (0xA8 :: 8 word)" "ucast (0xA8FF :: 64 word) = (0xFF :: 8 word)" by code_simp+
  ultimately show ?thesis by (simp only:)
qed

text \<open>
  C19: the bound \<open>chunk_ok\<close> of one call is needed. One \<open>update\<close> call over 131076 bytes \<open>0xFF\<close> overflows the 32-bit
  accumulator before it is folded, and the checksum differs from the RFC 1071 one.
\<close>

theorem ip_checksum_long_update_wrong:
  "finalize H (update (replicate (2 * 65538) 0xFF) (hasher_new IpChecksum)) \<noteq>
     digest_spec H IpChecksum (replicate (2 * 65538) 0xFF)"
proof -
  let ?d = "replicate (2 * 65538) (0xFF :: 8 word)"
  obtain x y where xy: "ip_pairs ?d 0 = (x, y)" by fastforce
  have x: "x = of_nat 65538 * 0xFFFF" and y: "y = None"
    using ip_pairs_ones [of 65538 0] snd_ip_pairs_even [of ?d 0]
    unfolding xy by (simp_all only: fst_conv snd_conv add_0 length_replicate even_mult_iff even_numeral simp_thms)
  have "ip_update ?d 0 None = (let (s, pend) = ip_pairs ?d 0 in HIp (ip_fold s) pend)"
    by (rule ip_update.simps(3))
  then have "update ?d (hasher_new IpChecksum) = HIp (ip_fold x) None"
    unfolding hasher_new.simps update.simps using xy y by (simp only: Let_def prod.case)
  then have fin: "finalize H (update ?d (hasher_new IpChecksum)) =
      DInt (ucast (NOT (ucast (ip_fold (ip_fold x)) :: 16 word)))"
    by (simp only: finalize.simps Let_def option.case)
  have "unat (ucast (ip_fold (ip_fold x)) :: 16 word) = 65534"
  proof -
    have "unat x = 65538 * 65535 - 2 ^ 32" unfolding x by (rule unat_ones_sum)
    then have "unat (ip_fold (ip_fold x)) = 65534" by (simp add: unat_ip_fold oc_fold_def)
    then show ?thesis by (simp add: unsigned_ucast_eq take_bit_eq_mod)
  qed
  then have "unat (NOT (ucast (ip_fold (ip_fold x)) :: 16 word)) = 1"
    by (simp only: unat_not16)
  then have "unat (ucast (NOT (ucast (ip_fold (ip_fold x)) :: 16 word)) :: 64 word) = 1"
    by (simp add: unsigned_ucast_eq)
  then have "ucast (NOT (ucast (ip_fold (ip_fold x)) :: 16 word)) \<noteq> (0 :: 64 word)"
    by (metis unsigned_0 zero_neq_one)
  then have "DInt (ucast (NOT (ucast (ip_fold (ip_fold x)) :: 16 word))) \<noteq> DInt (of_nat 0)"
    by (simp only: digest_val.inject semiring_1_class.of_nat_0 not_False_eq_True)
  moreover have "ip_checksum_spec ?d = 0"
  proof -
    have "ip_total ?d = 65538 * 65535"
      unfolding ip_total_def using pair_sum_ones [of 65538] by (simp only: length_replicate) simp
    then show ?thesis by (simp add: ip_checksum_spec_def oc_fold_def)
  qed
  ultimately show ?thesis unfolding fin digest_spec.simps by (simp only: not_False_eq_True)
qed

end
