(* ===== verification/Programs.thy ===== *)
theory Programs
  imports Exprs Digests
begin

text \<open>
  The compiled program, \<open>crates/rustruct/src/program.rs\<close>: integer primitives, keys, encodings
  and rest policies with their name tables, length and count sources, and the opcodes.
\<close>

definition MAX_REGS :: nat where "MAX_REGS = 16"
definition MAX_SPANS :: nat where "MAX_SPANS = 16"
definition MAX_DEPTH :: nat where "MAX_DEPTH = 64"

datatype int_prim = U8 | I8 | U16 | I16 | U32 | I32 | U64 | I64

fun prim_width :: "int_prim \<Rightarrow> nat" where
  "prim_width U8 = 1" | "prim_width I8 = 1"
| "prim_width U16 = 2" | "prim_width I16 = 2"
| "prim_width U32 = 4" | "prim_width I32 = 4"
| "prim_width U64 = 8" | "prim_width I64 = 8"

fun prim_signed :: "int_prim \<Rightarrow> bool" where
  "prim_signed I8 = True" | "prim_signed I16 = True"
| "prim_signed I32 = True" | "prim_signed I64 = True"
| "prim_signed _ = False"

definition prim_min :: "int_prim \<Rightarrow> int" where
  "prim_min p = (if prim_signed p then - (2 ^ (prim_width p * 8 - 1)) else 0)"

definition prim_max :: "int_prim \<Rightarrow> int" where
  "prim_max p = (if prim_signed p then 2 ^ (prim_width p * 8 - 1) - 1 else 2 ^ (prim_width p * 8) - 1)"

datatype key = Named string | Skip

fun key_name :: "key \<Rightarrow> string option" where
  "key_name (Named n) = Some n"
| "key_name Skip = None"

record common =
  c_key :: key
  c_span :: "nat option"

definition common_named :: "string \<Rightarrow> common" where
  "common_named name = \<lparr>c_key = Named name, c_span = None\<rparr>"

definition common_skip :: common where
  "common_skip = \<lparr>c_key = Skip, c_span = None\<rparr>"

datatype enc = Utf8 | Ascii | Latin1

definition ENCODINGS :: "enc closed_set" where
  "ENCODINGS =
     \<lparr>cs_what = ''encoding'', cs_allowed = ''utf-8/ascii/latin-1'', cs_eq = loose_eq,
      cs_names = [(''utf-8'', Utf8), (''ascii'', Ascii), (''latin-1'', Latin1)],
      cs_aliases = [(''us-ascii'', Ascii), (''iso-8859-1'', Latin1)]\<rparr>"

datatype rest_policy = Keep | Strict | Ignore

definition REST_POLICIES :: "rest_policy closed_set" where
  "REST_POLICIES =
     \<lparr>cs_what = ''rest policy'', cs_allowed = ''keep/strict/ignore'', cs_eq = (=),
      cs_names = [(''keep'', Keep), (''strict'', Strict), (''ignore'', Ignore)],
      cs_aliases = []\<rparr>"

text \<open>Inversion of \<open>value = a * x + b\<close>.\<close>

record inv =
  inv_reg :: reg
  inv_a :: int
  inv_b :: int

datatype len_src = LenExpr expr "inv option" | LenGreedy

datatype count_src = CountExpr expr "inv option" | UntilEof

datatype fix_kind =
    FInt int_prim bool "int option" bool
  | F32 bool
  | F64 bool
  | FBool "bool option"
  | FRaw nat "bytes option"

fun fix_width :: "fix_kind \<Rightarrow> nat" where
  "fix_width (FInt prim be ex derived) = prim_width prim"
| "fix_width (F32 be) = 4"
| "fix_width (F64 be) = 8"
| "fix_width (FBool ex) = 1"
| "fix_width (FRaw len ex) = len"

record fixed_item =
  fi_off :: nat
  fi_kind :: fix_kind
  fi_reg :: "nat option"
  fi_span :: "nat option"
  fi_key :: key

record bit_item =
  bi_width :: nat
  bi_signed :: bool
  bi_reg :: "nat option"
  bi_derived :: bool
  bi_key :: key

record flag_item =
  fl_key :: string
  fl_mask :: "64 word"
  fl_shift :: nat
  fl_is_bool :: bool

datatype over = Star | Spans "nat list"

datatype (plugins only: code size) op =
    OpFixed nat "fixed_item list"
  | OpBytes len_src nat common
  | OpStr len_src nat enc common
  | OpCStr nat enc common
  | OpBitRun nat "bit_item list"
  | OpFlags int_prim bool "flag_item list" rest_policy "64 word" common
  | OpDigest algo over bool bool common
  | OpNest program "len_src option" common
  | OpArray count_src nat op nat common
  | OpSwitch expr "(int \<times> op) list" "op option" common
  | OpCond expr op common
and program =
    Program (prog_ops: "op list") (prog_nregs: nat) (prog_nspans: nat)
      (prog_min_size: nat) (prog_static_size: "nat option")

fun op_common :: "op \<Rightarrow> common option" where
  "op_common (OpFixed width items) = None"
| "op_common (OpBitRun nbytes items) = None"
| "op_common (OpBytes len mx c) = Some c"
| "op_common (OpStr len mx e c) = Some c"
| "op_common (OpCStr mx e c) = Some c"
| "op_common (OpFlags prim be items rest rest_mask c) = Some c"
| "op_common (OpDigest algo over verify be c) = Some c"
| "op_common (OpNest prog sz c) = Some c"
| "op_common (OpArray count max_count elem elem_min c) = Some c"
| "op_common (OpSwitch on cases dflt c) = Some c"
| "op_common (OpCond pred thn c) = Some c"

text \<open>
  The branch a switch takes: the first case with the tag, else the default
  (\<open>cases.iter().find(..).map(..).or(default)\<close> in both \<open>unpack.rs\<close> and \<open>pack.rs\<close>).
\<close>

definition switch_branch :: "int \<Rightarrow> (int \<times> op) list \<Rightarrow> op option \<Rightarrow> op option" where
  "switch_branch tag cases dflt =
     (case List.find (\<lambda>(t, _). t = tag) cases of Some (_, op) \<Rightarrow> Some op | None \<Rightarrow> dflt)"

lemma switch_branch_cases:
  assumes "switch_branch tag cases dflt = Some op"
  shows "(tag, op) \<in> set cases \<or> dflt = Some op"
  using assms by (auto simp: switch_branch_def split: option.splits dest!: find_eq_Some_set)

lemma size_switch_branch:
  assumes "switch_branch tag cases dflt = Some op"
  shows "size op < size (OpSwitch on cases dflt c)"
proof -
  consider "(tag, op) \<in> set cases" | "dflt = Some op" using switch_branch_cases [OF assms] by blast
  then show ?thesis
  proof cases
    case 1
    then have "size_prod (\<lambda>_. 0) size (tag, op) \<le> size_list (size_prod (\<lambda>_. 0) size) cases"
      by (rule size_list_estimation') simp
    then show ?thesis by simp
  qed simp
qed

lemma size_op_in_program: "op \<in> set ops \<Longrightarrow> size op < size (Program ops nr ns mn st)"
  by (metis add.commute le_imp_less_Suc plus_1_eq_Suc program.size(2) size_list_estimation' order_refl trans_le_add1 add_Suc_right)

lemma prim_width_pos [simp]: "0 < prim_width p"
  by (cases p) simp_all

lemma prim_width_cases: "prim_width p \<in> {1, 2, 4, 8}"
  by (cases p) simp_all

lemma encodings_unambiguous: "unambiguous ENCODINGS"
  by (simp add: unambiguous_def ENCODINGS_def loose_eq_def) code_simp

lemma rest_policies_unambiguous: "unambiguous REST_POLICIES"
  by (simp add: unambiguous_def REST_POLICIES_def)

lemma algos_unambiguous: "unambiguous ALGOS"
  by (simp add: unambiguous_def ALGOS_def)

lemma encoding_keys:
  "loose_key ''utf-8'' = ''utf8''" "loose_key ''ascii'' = ''ascii''"
  "loose_key ''latin-1'' = ''latin1''" "loose_key ''us-ascii'' = ''usascii''"
  "loose_key ''iso-8859-1'' = ''iso88591''"
  by code_simp+

lemma parse_encoding:
  "parse_name ENCODINGS s =
     (let k = loose_key s in
      if k = ''utf8'' then Inr Utf8
      else if k = ''ascii'' then Inr Ascii
      else if k = ''latin1'' then Inr Latin1
      else if k = ''usascii'' then Inr Ascii
      else if k = ''iso88591'' then Inr Latin1
      else Inl (Fail (NotSupported ''encoding'' s ''utf-8/ascii/latin-1'')))"
  by (simp add: parse_name_def hit_def ENCODINGS_def loose_eq_def encoding_keys Let_def)

lemma encoding_entries:
  "(\<exists>name. (name, e) \<in> set (cs_names ENCODINGS @ cs_aliases ENCODINGS) \<and> loose_eq s name) \<longleftrightarrow>
     (loose_key s = ''utf8'' \<and> e = Utf8) \<or> (loose_key s = ''ascii'' \<and> e = Ascii) \<or>
     (loose_key s = ''latin1'' \<and> e = Latin1) \<or> (loose_key s = ''usascii'' \<and> e = Ascii) \<or>
     (loose_key s = ''iso88591'' \<and> e = Latin1)"
  unfolding ENCODINGS_def loose_eq_def by (simp add: ex_disj_distrib conj_disj_distribR encoding_keys)
    (metis encoding_keys)

section \<open>Properties\<close>

text \<open>
  An encoding name is accepted exactly when it is a published name or an alias up to case,
  hyphens and underscores, and then it names that encoding; in particular no spelling names
  two encodings.
\<close>

theorem encoding_names:
  "parse_name ENCODINGS s = Inr e \<longleftrightarrow>
     (\<exists>name. (name, e) \<in> set (cs_names ENCODINGS @ cs_aliases ENCODINGS) \<and> loose_eq s name)"
  unfolding encoding_entries parse_encoding Let_def by (cases e) simp_all

end
