(* ===== verification/Text_Codec.thy ===== *)
theory Text_Codec
  imports Programs
begin

text \<open>
  Text on the wire: \<open>decode\<close> of \<open>crates/rustruct/src/unpack.rs\<close> and \<open>encode\<close> of \<open>pack.rs\<close>.
  A Rust \<open>String\<close> is a list of Unicode scalar values. UTF-8 is the standard library's: its
  encoder, and its strict validator, which rejects overlong forms, surrogates and values
  above U+10FFFF.
\<close>

type_synonym ustr = "nat list"

definition is_scalar :: "nat \<Rightarrow> bool" where
  "is_scalar c \<longleftrightarrow> c < 0xD800 \<or> (0xE000 \<le> c \<and> c < 0x110000)"

definition valid_str :: "ustr \<Rightarrow> bool" where
  "valid_str s \<longleftrightarrow> list_all is_scalar s"

definition utf8_char :: "nat \<Rightarrow> bytes" where
  "utf8_char c =
     (if c < 0x80 then [word_of_nat c]
      else if c < 0x800 then [word_of_nat (0xC0 + c div 64), word_of_nat (0x80 + c mod 64)]
      else if c < 0x10000 then
        [word_of_nat (0xE0 + c div 4096), word_of_nat (0x80 + c div 64 mod 64),
         word_of_nat (0x80 + c mod 64)]
      else
        [word_of_nat (0xF0 + c div 262144), word_of_nat (0x80 + c div 4096 mod 64),
         word_of_nat (0x80 + c div 64 mod 64), word_of_nat (0x80 + c mod 64)])"

definition as_bytes :: "ustr \<Rightarrow> bytes" where
  "as_bytes s = concat (map utf8_char s)"

definition is_cont :: "8 word \<Rightarrow> bool" where
  "is_cont b \<longleftrightarrow> 0x80 \<le> unat b \<and> unat b < 0xC0"

text \<open>One scalar value from the front, with the rest; \<open>None\<close> for malformed input.\<close>

fun utf8_next :: "bytes \<Rightarrow> (nat \<times> bytes) option" where
  "utf8_next [] = None"
| "utf8_next (a # rest) =
     (let x = unat a in
      if x < 0x80 then Some (x, rest)
      else if x < 0xC2 then None
      else if x < 0xE0 then
        (case rest of
           b # r \<Rightarrow> if is_cont b then Some ((x - 0xC0) * 64 + (unat b - 0x80), r) else None
         | _ \<Rightarrow> None)
      else if x < 0xF0 then
        (case rest of
           b # c # r \<Rightarrow>
             (let v = (x - 0xE0) * 4096 + (unat b - 0x80) * 64 + (unat c - 0x80)
              in if is_cont b \<and> is_cont c \<and> 0x800 \<le> v \<and> is_scalar v then Some (v, r) else None)
         | _ \<Rightarrow> None)
      else if x < 0xF5 then
        (case rest of
           b # c # d # r \<Rightarrow>
             (let v = (x - 0xF0) * 262144 + (unat b - 0x80) * 4096 + (unat c - 0x80) * 64 + (unat d - 0x80)
              in if is_cont b \<and> is_cont c \<and> is_cont d \<and> 0x10000 \<le> v \<and> is_scalar v
                 then Some (v, r) else None)
         | _ \<Rightarrow> None)
      else None)"

lemma utf8_next_shorter: "utf8_next bs = Some (c, r) \<Longrightarrow> length r < length bs"
  by (cases bs) (auto simp: Let_def split: if_splits list.splits)

function from_utf8 :: "bytes \<Rightarrow> ustr option" where
  "from_utf8 bs =
     (if bs = [] then Some []
      else case utf8_next bs of
             None \<Rightarrow> None
           | Some (c, r) \<Rightarrow> map_option ((#) c) (from_utf8 r))"
  by pat_completeness auto
termination
  by (relation "measure length") (auto dest: utf8_next_shorter)

declare from_utf8.simps [simp del]

fun decode :: "bytes \<Rightarrow> enc \<Rightarrow> ustr option" where
  "decode raw Utf8 = from_utf8 raw"
| "decode raw Ascii = (if list_all (\<lambda>b. b < 0x80) raw then Some (map unat raw) else None)"
| "decode raw Latin1 = Some (map unat raw)"

fun encode :: "ustr \<Rightarrow> enc \<Rightarrow> bytes option" where
  "encode s Utf8 = Some (as_bytes s)"
| "encode s Ascii = (if list_all (\<lambda>c. c < 0x80) s then Some (as_bytes s) else None)"
| "encode s Latin1 = (if list_all (\<lambda>c. c \<le> 0xFF) s then Some (map word_of_nat s) else None)"

section \<open>UTF-8 is a codec\<close>

lemma unat_small: "n < 256 \<Longrightarrow> unat (word_of_nat n :: 8 word) = n"
  by (simp add: unat_of_nat take_bit_eq_mod)

lemma div_4096: "c div 4096 = c div 64 div (64 :: nat)"
  using div_mult2_eq [of c 64 64] by simp

lemma div_262144: "c div 262144 = c div 64 div 64 div (64 :: nat)"
  using div_mult2_eq [of c 4096 64] unfolding div_4096 by simp

lemma recompose2: "c div 64 div 64 * 4096 + c div 64 mod 64 * 64 + c mod 64 = (c :: nat)"
proof -
  have "c div 64 div 64 * 64 + c div 64 mod 64 = c div 64" by (rule div_mult_mod_eq)
  moreover have "c div 64 * 64 + c mod 64 = c" by (rule div_mult_mod_eq)
  ultimately show ?thesis by linarith
qed

lemma recompose3:
  "c div 64 div 64 div 64 * 262144 + c div 64 div 64 mod 64 * 4096 + c div 64 mod 64 * 64 + c mod 64
     = (c :: nat)"
  using recompose2 [of "c div 64"] div_mult_mod_eq [of c 64] by linarith

lemma utf8_next_utf8_char:
  assumes "is_scalar c"
  shows "utf8_next (utf8_char c @ r) = Some (c, r)"
proof -
  have lt: "c < 0x110000" using assms by (auto simp: is_scalar_def)
  consider "c < 0x80" | "0x80 \<le> c" "c < 0x800" | "0x800 \<le> c" "c < 0x10000" | "0x10000 \<le> c"
    by linarith
  then show ?thesis
  proof cases
    case 1
    then show ?thesis by (simp add: utf8_char_def unat_small Let_def)
  next
    case 2
    then have d: "2 \<le> c div 64" "c div 64 < 32" by linarith+
    then show ?thesis using 2 by (simp add: utf8_char_def unat_small Let_def is_cont_def del: of_nat_add)
  next
    case 3
    then have "c div 4096 < 16" by linarith
    then show ?thesis using 3 assms recompose2 [of c, folded div_4096]
      by (simp add: utf8_char_def unat_small Let_def is_cont_def del: of_nat_add)
  next
    case 4
    then have "c div 262144 < 5" using lt by linarith
    then show ?thesis using 4 assms recompose3 [of c, folded div_262144, folded div_4096]
      by (simp add: utf8_char_def unat_small Let_def is_cont_def del: of_nat_add)
  qed
qed

lemma utf8_char_nonempty [simp]: "utf8_char c \<noteq> []"
  by (simp add: utf8_char_def)

lemma from_utf8_as_bytes: "valid_str s \<Longrightarrow> from_utf8 (as_bytes s) = Some s"
proof (induction s)
  case Nil
  then show ?case by (simp add: as_bytes_def from_utf8.simps)
next
  case (Cons c s)
  then have "utf8_next (utf8_char c @ as_bytes s) = Some (c, as_bytes s)"
    by (intro utf8_next_utf8_char) (simp add: valid_str_def)
  moreover have "from_utf8 (as_bytes s) = Some s" using Cons by (simp add: valid_str_def)
  moreover have "as_bytes (c # s) = utf8_char c @ as_bytes s" by (simp add: as_bytes_def)
  ultimately show ?case by (simp add: from_utf8.simps [of "utf8_char c @ as_bytes s"])
qed

lemma word_of_nat_unat: "n = unat b \<Longrightarrow> (word_of_nat n :: 8 word) = b"
  by simp

lemma mult_add_div: "z < 64 \<Longrightarrow> (q * 64 + z) div 64 = (q :: nat)"
  by simp

lemma mult_add_mod: "z < 64 \<Longrightarrow> (q * 64 + z) mod 64 = (z :: nat)"
  by simp

lemma cont_word: "unat b = 0x80 + y \<Longrightarrow> b = 0x80 + (word_of_nat y :: 8 word)"
  using word_of_nat_unat [of "0x80 + y" b] by simp

lemma utf8_next_inv:
  assumes "utf8_next bs = Some (c, r)"
  shows "is_scalar c \<and> bs = utf8_char c @ r"
proof -
  obtain a rest where bs: "bs = a # rest" using assms by (cases bs) auto
  define x where "x = unat a"
  have xb: "x < 256" using unsigned_less [of a] by (simp add: x_def)
  have cb: "unat b < 256" for b :: "8 word" using unsigned_less [of b] by simp
  consider (one) "x < 0x80" | (two) "0xC2 \<le> x" "x < 0xE0" | (three) "0xE0 \<le> x" "x < 0xF0"
    | (four) "0xF0 \<le> x" "x < 0xF5"
    using assms by (auto simp: bs x_def Let_def not_less split: if_splits)
  then show ?thesis
  proof cases
    case one
    then show ?thesis using assms by (auto simp: bs Let_def x_def is_scalar_def utf8_char_def)
  next
    case two
    then obtain b where b: "rest = b # r" "is_cont b" "c = (x - 0xC0) * 64 + (unat b - 0x80)"
      using assms by (auto simp: bs Let_def x_def split: if_splits list.splits)
    define y where "y = unat b - 0x80"
    have y: "y < 64" "unat b = 0x80 + y" using b(2) by (auto simp: is_cont_def y_def)
    have c: "c div 64 = x - 0xC0" "c mod 64 = y" "0x80 \<le> c" "c < 0x800"
      using b(3) two y by (auto simp: y_def [symmetric])
    moreover have "b = word_of_nat (0x80 + y)" using y(2) by (metis of_nat_unat ucast_id)
    ultimately show ?thesis using b two y
      by (auto simp: bs utf8_char_def is_scalar_def x_def)
  next
    case three
    then obtain b d where b: "rest = b # d # r" "is_cont b" "is_cont d" "is_scalar c" "0x800 \<le> c"
        "c = (x - 0xE0) * 4096 + (unat b - 0x80) * 64 + (unat d - 0x80)"
      using assms by (auto simp: bs Let_def x_def split: if_splits list.splits)
    define y z where "y = unat b - 0x80" "z = unat d - 0x80"
    have y: "y < 64" "unat b = 0x80 + y" "z < 64" "unat d = 0x80 + z"
      using b(2,3) by (auto simp: is_cont_def y_z_def)
    have cc: "c = ((x - 0xE0) * 64 + y) * 64 + z" using b(6) by (simp add: y_z_def)
    have c64: "c div 64 = (x - 0xE0) * 64 + y" using y by (simp only: cc mult_add_div)
    have c: "c div 4096 = x - 0xE0" "c div 64 mod 64 = y" "c mod 64 = z"
      using y by (simp_all only: div_4096 c64 mult_add_div mult_add_mod) (simp only: cc mult_add_mod)
    have q: "q \<le> 15 \<Longrightarrow> (q * 64 + y) * 64 + z < 0x10000" for q using y(1,3) by simp
    have "c < 0x10000" unfolding cc by (rule q) (use three in simp)
    note c = c this
    then show ?thesis using b three y cont_word [OF y(2)] cont_word [OF y(4)]
      by (auto simp: bs utf8_char_def x_def)
  next
    case four
    then obtain b d e where b: "rest = b # d # e # r" "is_cont b" "is_cont d" "is_cont e"
        "is_scalar c" "0x10000 \<le> c"
        "c = (x - 0xF0) * 262144 + (unat b - 0x80) * 4096 + (unat d - 0x80) * 64 + (unat e - 0x80)"
      using assms by (auto simp: bs Let_def x_def split: if_splits list.splits)
    define y z u where "y = unat b - 0x80" "z = unat d - 0x80" "u = unat e - 0x80"
    have y: "y < 64" "unat b = 0x80 + y" "z < 64" "unat d = 0x80 + z" "u < 64" "unat e = 0x80 + u"
      using b(2,3,4) by (auto simp: is_cont_def y_z_u_def)
    have cc: "c = (((x - 0xF0) * 64 + y) * 64 + z) * 64 + u" using b(7) by (simp add: y_z_u_def)
    have c64: "c div 64 = ((x - 0xF0) * 64 + y) * 64 + z" using y by (simp only: cc mult_add_div)
    have c4096: "c div 4096 = (x - 0xF0) * 64 + y" using y by (simp only: div_4096 c64 mult_add_div)
    have c: "c div 262144 = x - 0xF0" "c div 4096 mod 64 = y" "c div 64 mod 64 = z" "c mod 64 = u"
      using y by (simp_all only: div_262144 div_4096 [symmetric] c4096 c64 mult_add_div mult_add_mod)
        (simp only: cc mult_add_mod)
    have "utf8_char c =
        [word_of_nat (0xF0 + c div 262144), word_of_nat (0x80 + c div 4096 mod 64),
         word_of_nat (0x80 + c div 64 mod 64), word_of_nat (0x80 + c mod 64)]"
      using b(6) unfolding utf8_char_def by (simp only: not_less [symmetric] if_False if_True) simp
    also have "\<dots> = [word_of_nat x, word_of_nat (unat b), word_of_nat (unat d), word_of_nat (unat e)]"
      unfolding c y(2,4,6) using four by (simp only: le_add_diff_inverse)
    also have "\<dots> = [a, b, d, e]" by (simp add: x_def)
    finally show ?thesis using b(1,5) bs by simp
  qed
qed

lemma as_bytes_from_utf8: "from_utf8 bs = Some s \<Longrightarrow> valid_str s \<and> as_bytes s = bs"
proof (induction bs arbitrary: s rule: from_utf8.induct)
  case (1 bs)
  show ?case
  proof (cases "bs = []")
    case True
    then show ?thesis using "1.prems" by (simp add: from_utf8.simps [of "[]"] as_bytes_def valid_str_def)
  next
    case False
    with "1.prems" obtain c r s' where c: "utf8_next bs = Some (c, r)" and s': "from_utf8 r = Some s'"
      and s: "s = c # s'"
      by (subst (asm) from_utf8.simps) (auto split: option.splits)
    from "1.IH" [OF False c refl s'] utf8_next_inv [OF c] show ?thesis
      by (simp add: s as_bytes_def valid_str_def)
  qed
qed

section \<open>Text round trips\<close>

lemma as_bytes_ascii: "list_all (\<lambda>c. c < 0x80) s \<Longrightarrow> as_bytes s = map word_of_nat s"
  by (induction s) (auto simp: as_bytes_def utf8_char_def)

lemma map_unat_word_of_nat:
  "list_all (\<lambda>c. c < 256) s \<Longrightarrow> map (unat \<circ> (word_of_nat :: nat \<Rightarrow> 8 word)) s = s"
  by (induction s) (auto simp: unat_small)

lemma decode_encode:
  assumes "valid_str s" and "encode s e = Some b"
  shows "decode b e = Some s"
proof (cases e)
  case Utf8
  then show ?thesis using assms by (auto simp: from_utf8_as_bytes)
next
  case Ascii
  then have a: "list_all (\<lambda>c. c < 0x80) s" and b: "b = as_bytes s"
    using assms(2) by (auto split: if_splits)
  have lt: "list_all (\<lambda>c. c < 256) s" using a by (auto simp: list_all_iff)
  have "list_all (\<lambda>x. x < (0x80 :: 8 word)) b"
    using a by (auto simp: b as_bytes_ascii list_all_iff word_less_nat_alt unat_small)
  then show ?thesis using Ascii a lt by (simp add: b as_bytes_ascii map_unat_word_of_nat)
next
  case Latin1
  then have "list_all (\<lambda>c. c < 256) s" and "b = map word_of_nat s"
    using assms(2) by (auto simp: list_all_iff less_Suc_eq_le split: if_splits)
  then show ?thesis using Latin1 by (simp add: map_unat_word_of_nat)
qed

lemma encode_decode:
  assumes "decode b e = Some s"
  shows "valid_str s \<and> encode s e = Some b"
proof (cases e)
  case Utf8
  then show ?thesis using assms by (auto dest: as_bytes_from_utf8)
next
  case Ascii
  then have a: "list_all (\<lambda>x. x < 0x80) b" and s: "s = map unat b"
    using assms by (auto split: if_splits)
  then have "list_all (\<lambda>c. c < 0x80) s" by (auto simp: list_all_iff word_less_nat_alt)
  then show ?thesis using Ascii
    by (auto simp: as_bytes_ascii s valid_str_def is_scalar_def list_all_iff comp_def)
next
  case Latin1
  have lt: "unat x < 256" for x :: "8 word" using unsigned_less [of x] by simp
  then have "unat x \<le> 255" "unat x < 55296" for x :: "8 word" using lt [of x] by linarith+
  then show ?thesis using Latin1 assms
    by (auto simp: valid_str_def is_scalar_def list_all_iff comp_def)
qed

section \<open>Properties\<close>

text \<open>
  C14: text survives the wire in every encoding, strictly: what \<open>encode\<close> produces, \<open>decode\<close>
  turns back into the same string.
\<close>

theorem text_encode_decode:
  assumes "valid_str s" and "encode s e = Some b"
  shows "decode b e = Some s"
  using assms by (rule decode_encode)

theorem text_encode_decode_witness: "decode [0xE2, 0x82, 0xAC, 0x21] Utf8 = Some [0x20AC, 0x21]"
  by (rule text_encode_decode) (simp_all add: valid_str_def is_scalar_def as_bytes_def utf8_char_def)

text \<open>
  C15: decoding is strict: bytes that \<open>decode\<close> accepts are exactly the encoding of the string
  it returns. There is no second spelling of a string (no overlong UTF-8, no surrogates), so
  repacking an unpacked string gives its original bytes.
\<close>

theorem text_decode_encode:
  assumes "decode b e = Some s"
  shows "valid_str s \<and> encode s e = Some b"
  using assms by (rule encode_decode)

theorem text_decode_encode_witness: "valid_str [0xE9] \<and> encode [0xE9] Latin1 = Some [0xE9]"
  by (rule text_decode_encode) simp

end
