(* ===== verification/Floats.thy ===== *)
theory Floats
  imports Prelude
begin

text \<open>
  IEEE 754 floats as bit patterns. The core moves \<open>f32\<close> and \<open>f64\<close> bits unchanged and uses four
  operations of the language on them: \<open>f64::from(f32)\<close> in \<open>read_fixed_item\<close>, \<open>as f32\<close> in
  \<open>pack_fixed_item\<close>, \<open>i128 as f64\<close> in \<open>ValueSource::as_float\<close> and the comparison with \<open>0.0\<close> in
  \<open>truthy\<close>. Conversions round to nearest, ties to even. A signalling NaN becomes quiet when it
  is converted; the rest of its payload is kept, as the hardware does (the language leaves NaN
  payloads open).
\<close>

section \<open>Formats\<close>

text \<open>A binary format: precision with the hidden bit, exponent bits, least normal exponent.\<close>

record fmt =
  f_prec :: nat
  f_ebits :: nat

definition f32 :: fmt where
  "f32 = \<lparr>f_prec = 24, f_ebits = 8\<rparr>"

definition f64 :: fmt where
  "f64 = \<lparr>f_prec = 53, f_ebits = 11\<rparr>"

definition f_emin :: "fmt \<Rightarrow> int" where
  "f_emin f = 2 - 2 ^ (f_ebits f - 1)"

text \<open>The magnitude bits of infinity; a larger magnitude is a NaN.\<close>

definition inf_bits :: "fmt \<Rightarrow> nat" where
  "inf_bits f = (2 ^ f_ebits f - 1) * 2 ^ (f_prec f - 1)"

fun bit_len :: "nat \<Rightarrow> nat" where
  "bit_len n = (if n = 0 then 0 else Suc (bit_len (n div 2)))"

declare bit_len.simps [simp del]

text \<open>The significand and exponent of a finite magnitude: \<open>m * 2^q\<close>.\<close>

definition fp_decode :: "fmt \<Rightarrow> nat \<Rightarrow> nat \<times> int" where
  "fp_decode f b =
     (let e = b div 2 ^ (f_prec f - 1); m = b mod 2 ^ (f_prec f - 1); u = f_emin f - int (f_prec f - 1)
      in if e = 0 then (m, u) else (2 ^ (f_prec f - 1) + m, u + int e - 1))"

text \<open>Division by a power of two, rounded to nearest, ties to even.\<close>

definition rne_shift :: "nat \<Rightarrow> nat \<Rightarrow> nat" where
  "rne_shift m d =
     (if d = 0 then m
      else let n = m div 2 ^ d; r = m mod 2 ^ d; half = 2 ^ (d - 1)
           in if half < r \<or> (r = half \<and> odd n) then n + 1 else n)"

text \<open>\<open>m * 2^q\<close> in units of \<open>2^u\<close>.\<close>

definition align :: "nat \<Rightarrow> int \<Rightarrow> int \<Rightarrow> nat" where
  "align m q u = (if u \<le> q then m * 2 ^ nat (q - u) else rne_shift m (nat (u - q)))"

text \<open>
  The magnitude bits nearest to \<open>m * 2^q\<close>. The hidden bit of the significand \<open>n\<close> adds one to
  the exponent field, and so does a carry out of rounding.
\<close>

definition fp_round :: "fmt \<Rightarrow> nat \<times> int \<Rightarrow> nat" where
  "fp_round f mq = (case mq of (m, q) \<Rightarrow>
     if m = 0 then 0
     else let e = max (int (bit_len m) - 1 + q) (f_emin f);
              u = e - int (f_prec f - 1);
              b = nat (e - f_emin f) * 2 ^ (f_prec f - 1) + align m q u
          in min b (inf_bits f))"

section \<open>The four operations\<close>

definition widen :: "32 word \<Rightarrow> 64 word" where
  "widen x =
     (let s = push_bit 32 (ucast (x AND 0x80000000)) :: 64 word;
          b = unat (x AND 0x7FFFFFFF)
      in if inf_bits f32 < b
         then s OR word_of_nat (inf_bits f64) OR push_bit 29 (ucast (x AND 0x7FFFFF OR 0x400000))
         else if b = inf_bits f32 then s OR word_of_nat (inf_bits f64)
         else s OR word_of_nat (fp_round f64 (fp_decode f32 b)))"

definition narrow :: "64 word \<Rightarrow> 32 word" where
  "narrow x =
     (let s = ucast (drop_bit 32 x AND 0x80000000) :: 32 word;
          b = unat (x AND 0x7FFFFFFFFFFFFFFF)
      in if inf_bits f64 < b
         then s OR word_of_nat (inf_bits f32) OR (ucast (drop_bit 29 x) AND 0x7FFFFF) OR 0x400000
         else if b = inf_bits f64 then s OR word_of_nat (inf_bits f32)
         else s OR word_of_nat (fp_round f32 (fp_decode f64 b)))"

definition f64_of_int :: "int \<Rightarrow> 64 word" where
  "f64_of_int i =
     (let b = word_of_nat (fp_round f64 (nat \<bar>i\<bar>, 0)) :: 64 word
      in if i < 0 then 0x8000000000000000 OR b else b)"

text \<open>\<open>f != 0.0\<close>: both zeros compare equal to it, and no NaN does.\<close>

definition f64_nonzero :: "64 word \<Rightarrow> bool" where
  "f64_nonzero x \<longleftrightarrow> x AND 0x7FFFFFFFFFFFFFFF \<noteq> 0"

definition f32_is_nan :: "32 word \<Rightarrow> bool" where
  "f32_is_nan x \<longleftrightarrow> inf_bits f32 < unat (x AND 0x7FFFFFFF)"

section \<open>Rounding keeps what is representable\<close>

lemma bit_len_0 [simp]: "bit_len 0 = 0"
  by (simp add: bit_len.simps)

lemma bit_len_pos: "0 < n \<Longrightarrow> bit_len n = Suc (bit_len (n div 2))"
  by (simp add: bit_len.simps)

lemma bit_len_double: "0 < n \<Longrightarrow> bit_len (n * 2 ^ j) = bit_len n + j"
proof (induction j)
  case (Suc j)
  then show ?case using bit_len_pos [of "n * 2 ^ Suc j"] by simp
qed simp

lemma bit_len_bounds: "0 < n \<Longrightarrow> 2 ^ (bit_len n - 1) \<le> n \<and> n < 2 ^ bit_len n"
proof (induction n rule: bit_len.induct)
  case (1 n)
  show ?case
  proof (cases "n div 2 = 0")
    case True
    then have "n = 1" using 1 by linarith
    then show ?thesis by (simp add: bit_len_pos)
  next
    case False
    then have ih: "2 ^ (bit_len (n div 2) - 1) \<le> n div 2" "n div 2 < 2 ^ bit_len (n div 2)"
      using 1 by simp_all
    have "0 < bit_len (n div 2)" using False bit_len_pos [of "n div 2"] by simp
    then obtain k where k: "bit_len (n div 2) = Suc k" by (metis gr0_implies_Suc)
    have "bit_len n = Suc (Suc k)" using 1 k bit_len_pos [of n] by simp
    then show ?thesis using ih k by (simp, linarith)
  qed
qed

lemma bit_len_eqI: "2 ^ k \<le> n \<Longrightarrow> n < 2 ^ Suc k \<Longrightarrow> bit_len n = Suc k"
proof -
  assume a: "2 ^ k \<le> n" "n < 2 ^ Suc k"
  then have "0 < n" by (metis gr0I not_one_le_zero one_le_numeral one_le_power order_trans)
  note b = bit_len_bounds [OF this]
  have "(2::nat) ^ k < 2 ^ bit_len n" using a(1) b by linarith
  then have "k < bit_len n" by (simp add: power_strict_increasing_iff)
  moreover have "(2::nat) ^ (bit_len n - 1) < 2 ^ Suc k" using a(2) b by linarith
  then have "bit_len n - 1 < Suc k" by (simp only: power_strict_increasing_iff one_less_numeral_iff semiring_norm)
  ultimately show ?thesis by simp
qed

lemma fp_round_exact:
  assumes "0 < m" and "max (int (bit_len m) - 1 + q) (f_emin f) = e"
    and "q = e - int (f_prec f - 1) + int j"
  shows "fp_round f (m, q) = min (nat (e - f_emin f) * 2 ^ (f_prec f - 1) + m * 2 ^ j) (inf_bits f)"
proof -
  have "nat (q - (e - int (f_prec f - 1))) = j" "e - int (f_prec f - 1) \<le> q" using assms(3) by simp_all
  then show ?thesis using assms(1) unfolding fp_round_def Let_def prod.case assms(2) align_def
    by (simp only: if_True if_False neq0_conv [symmetric])
qed

lemma rne_shift_scale: "rne_shift (m * 2 ^ j) (Suc d + j) = rne_shift m (Suc d)"
proof -
  have p: "(2::nat) ^ (Suc d + j) = 2 ^ Suc d * 2 ^ j" "(2::nat) ^ (Suc d + j - 1) = 2 ^ d * 2 ^ j"
    by (simp_all add: power_add)
  have "m * 2 ^ j div 2 ^ (Suc d + j) = m div 2 ^ Suc d"
    and "m * 2 ^ j mod 2 ^ (Suc d + j) = m mod 2 ^ Suc d * 2 ^ j"
    unfolding p by (simp_all add: mult_mod_left)
  then show ?thesis unfolding rne_shift_def Let_def p(2) by simp
qed

lemma rne_shift_exact: "rne_shift (n * 2 ^ Suc d) (Suc d) = n"
proof -
  have "n * 2 ^ Suc d div 2 ^ Suc d = n" "n * 2 ^ Suc d mod 2 ^ Suc d = 0"
    by (rule nonzero_mult_div_cancel_right, simp, rule mod_mult_self2_is_0)
  then show ?thesis unfolding rne_shift_def Let_def by (simp del: power_Suc)
qed

lemma align_scale: "align (m * 2 ^ j) (q - int j) u = align m q u"
proof (cases "u \<le> q")
  case False
  then have "nat (u - q) \<noteq> 0" by simp
  then obtain d where d: "nat (u - q) = Suc d" by (metis not0_implies_Suc)
  moreover have "nat (u - (q - int j)) = Suc d + j" using d by linarith
  ultimately show ?thesis using False rne_shift_scale [of m j d] by (simp add: align_def)
next
  case le: True
  show ?thesis
  proof (cases "u \<le> q - int j")
    case True
    then have "nat (q - u) = j + nat (q - int j - u)" by linarith
    then show ?thesis using True le by (simp add: align_def power_add mult.assoc)
  next
    case False
    then have a: "nat (u - (q - int j)) = j - nat (q - u)" "nat (q - u) < j" using le by linarith+
    then obtain d where i: "j = nat (q - u) + Suc d" by (metis less_imp_Suc_add add_Suc_right)
    then have d: "nat (u - (q - int j)) = Suc d" using a by simp
    have "m * 2 ^ j = m * 2 ^ nat (q - u) * 2 ^ Suc d" by (subst i) (simp only: power_add mult.assoc)
    then show ?thesis using False le rne_shift_exact [of "m * 2 ^ nat (q - u)" d]
      by (simp only: align_def d if_True if_False)
  qed
qed

lemma fp_round_scale: "0 < m \<Longrightarrow> fp_round f (m * 2 ^ j, q - int j) = fp_round f (m, q)"
proof -
  assume m: "0 < m"
  have l: "int (bit_len (m * 2 ^ j)) - 1 + (q - int j) = int (bit_len m) - 1 + q"
    using bit_len_double [OF m, of j] by simp
  show ?thesis using m unfolding fp_round_def prod.case align_scale l by simp
qed

text \<open>Decoding and rounding are inverse on the finite magnitudes of one format.\<close>

lemma fp_round_decode:
  assumes "0 < f_prec f"
  shows "fp_round f (fp_decode f b) = min b (inf_bits f)"
proof -
  let ?p = "f_prec f - 1"
  define e where "e = b div 2 ^ ?p"
  define m where "m = b mod 2 ^ ?p"
  have b: "b = e * 2 ^ ?p + m" and m: "m < 2 ^ ?p"
    unfolding e_def m_def by (simp_all only: div_mult_mod_eq) simp
  have dec: "fp_decode f b =
      (if e = 0 then (m, f_emin f - int ?p) else (2 ^ ?p + m, f_emin f - int ?p + int e - 1))"
    by (simp add: fp_decode_def Let_def e_def m_def)
  show ?thesis
  proof (cases "e = 0")
    case True
    have "bit_len m \<le> ?p" if "0 < m"
    proof -
      have "(2::nat) ^ (bit_len m - 1) < 2 ^ ?p" using bit_len_bounds [OF that] m by linarith
      then show ?thesis by (simp add: power_strict_increasing_iff)
    qed
    then have le: "int (bit_len m) - 1 + (f_emin f - int ?p) \<le> f_emin f" if "0 < m" using that by fastforce
    have "b = m" using True b by simp
    moreover have "fp_round f (m, f_emin f - int ?p) = min m (inf_bits f)"
    proof (cases "m = 0")
      case False
      then show ?thesis using fp_round_exact [of m "f_emin f - int ?p" f "f_emin f" 0] le
        by (simp add: max_absorb2)
    qed (simp add: fp_round_def)
    ultimately show ?thesis using True dec by simp
  next
    case False
    then obtain k where k: "e = Suc k" by (cases e) auto
    have len: "bit_len (2 ^ ?p + m) = Suc ?p" by (rule bit_len_eqI) (use m in simp_all)
    have dec': "fp_decode f b = (2 ^ ?p + m, f_emin f - int ?p + int k)" using False dec k by simp
    have mx: "max (int (bit_len (2 ^ ?p + m)) - 1 + (f_emin f - int ?p + int k)) (f_emin f) = f_emin f + int k"
      unfolding len by simp
    have "k * 2 ^ ?p + (2 ^ ?p + m) = b" using b k by simp
    then show ?thesis using fp_round_exact [OF _ mx, of 0] unfolding dec' by simp
  qed
qed

text \<open>A value of fewer significant bits, with an exponent in the normal range, is exact.\<close>

lemma fp_decode_round_exact:
  assumes m: "0 < m" "bit_len m \<le> f_prec f" and lo: "f_emin f \<le> int (bit_len m) - 1 + q"
    and hi: "int (bit_len m) - 1 + q - f_emin f + 1 < 2 ^ f_ebits f - 1"
  shows "\<exists>j. fp_decode f (fp_round f (m, q)) = (m * 2 ^ j, q - int j) \<and> fp_round f (m, q) < inf_bits f"
proof -
  let ?p = "f_prec f - 1"
  define e where "e = int (bit_len m) - 1 + q"
  define j where "j = f_prec f - bit_len m"
  define n where "n = m * 2 ^ j"
  define k where "k = nat (e - f_emin f)"
  have p: "0 < f_prec f" using m bit_len_pos [of m] by simp
  have u: "e - int ?p = q - int j" using m(2) p by (simp add: e_def j_def)
  have len: "bit_len n = Suc ?p" using bit_len_double [OF m(1), of j] m(2) p by (simp add: n_def j_def)
  have "0 < n" using m(1) by (simp add: n_def)
  from bit_len_bounds [OF this] have nb: "2 ^ ?p \<le> n" "n < 2 * 2 ^ ?p" by (simp_all add: len)
  then obtain r where r: "n = 2 ^ ?p + r" "r < 2 ^ ?p" by (metis le_Suc_ex add_less_cancel_left mult_2)
  have k: "int k = e - f_emin f" using lo by (simp add: k_def e_def)
  have b: "fp_round f (m, q) = min (k * 2 ^ ?p + n) (inf_bits f)"
    using fp_round_exact [OF m(1) max_absorb1 [OF lo], of j] u by (simp add: e_def n_def k_def)
  have "int (k + 1) < int (2 ^ f_ebits f - 1)" using hi k by (simp add: e_def of_nat_diff)
  then have "Suc (k + 1) \<le> 2 ^ f_ebits f - 1" by linarith
  then have "Suc (k + 1) * 2 ^ ?p \<le> inf_bits f" unfolding inf_bits_def by (rule mult_le_mono1)
  then have lt: "k * 2 ^ ?p + n < inf_bits f" using nb by simp
  have "k * 2 ^ ?p + n = (k + 1) * 2 ^ ?p + r" using r by simp
  then have "(k * 2 ^ ?p + n) div 2 ^ ?p = k + 1" "(k * 2 ^ ?p + n) mod 2 ^ ?p = r"
    using r(2) by (simp_all del: mult_Suc add_mult_distrib)
  then have "fp_decode f (k * 2 ^ ?p + n) = (n, q - int j)"
    using r k u by (simp add: fp_decode_def Let_def)
  then show ?thesis using b lt by (auto simp: n_def)
qed

section \<open>Widening loses nothing\<close>

lemma f32_simps [simp]: "f_prec f32 = 24" "f_ebits f32 = 8" "f_emin f32 = - 126" "inf_bits f32 = 0x7F800000"
  by (simp_all add: f32_def f_emin_def inf_bits_def)

lemma f64_simps [simp]:
  "f_prec f64 = 53" "f_ebits f64 = 11" "f_emin f64 = - 1022" "inf_bits f64 = 0x7FF0000000000000"
  by (simp_all add: f64_def f_emin_def inf_bits_def)

lemma fp_decode_f32_bounds:
  assumes "b < inf_bits f32" and "fp_decode f32 b = (m, q)" and "0 < m"
  shows "bit_len m \<le> 24" "- 149 \<le> q" "int (bit_len m) - 1 + q \<le> 127"
proof -
  define e where "e = b div 2 ^ 23"
  have r: "b mod 2 ^ 23 < 2 ^ 23" by simp
  have le: "e \<le> 254" using assms(1) by (simp add: e_def)
  have len: "bit_len n \<le> 24" if "0 < n" "n < 2 ^ 24" for n :: nat
  proof -
    have "(2::nat) ^ (bit_len n - 1) < 2 ^ 24" using bit_len_bounds [OF that(1)] that(2) by linarith
    then have "bit_len n - 1 < 24" by (rule power_less_imp_less_exp [rotated]) simp
    then show ?thesis by linarith
  qed
  have m24: "m < 2 ^ 24" using assms(2) r by (auto simp: fp_decode_def Let_def split: if_splits)
  then show b24: "bit_len m \<le> 24" using len assms(3) by blast
  show "- 149 \<le> q" using assms(2) by (auto simp: fp_decode_def Let_def split: if_splits)
  have "q \<le> 104" using assms(2) le by (auto simp: fp_decode_def Let_def e_def split: if_splits)
  then show "int (bit_len m) - 1 + q \<le> 127" using b24 by linarith
qed

lemma fp_narrow_widen:
  assumes "b < inf_bits f32"
  shows "fp_round f64 (fp_decode f32 b) < inf_bits f64 \<and>
    fp_round f32 (fp_decode f64 (fp_round f64 (fp_decode f32 b))) = b"
proof -
  obtain m q where d: "fp_decode f32 b = (m, q)" by fastforce
  have bk: "fp_round f32 (m, q) = b"
    using fp_round_decode [of f32 b] assms by (simp add: d)
  show ?thesis
  proof (cases "m = 0")
    case True
    then have "b = 0" using bk by (simp add: fp_round_def)
    then show ?thesis using True d by (simp add: fp_round_def fp_decode_def)
  next
    case False
    then have m: "0 < m" by simp
    note bd = fp_decode_f32_bounds [OF assms d m]
    have "\<exists>j. fp_decode f64 (fp_round f64 (m, q)) = (m * 2 ^ j, q - int j) \<and>
        fp_round f64 (m, q) < inf_bits f64"
      using bd bit_len_pos [OF m] by (intro fp_decode_round_exact m) simp_all
    then obtain j where "fp_decode f64 (fp_round f64 (m, q)) = (m * 2 ^ j, q - int j)"
        "fp_round f64 (m, q) < inf_bits f64" by blast
    then show ?thesis using fp_round_scale [OF m, of f32 j q] bk d by simp
  qed
qed

text \<open>A word of a sign and a magnitude.\<close>

lemma sign_magnitude32: "x = (x AND 0x80000000) OR word_of_nat (unat (x AND 0x7FFFFFFF :: 32 word))"
proof -
  have "(x AND 0x80000000) OR (x AND 0x7FFFFFFF) = x AND (0x80000000 OR 0x7FFFFFFF)"
    by (simp only: bit.conj_disj_distrib)
  also have "0x80000000 OR 0x7FFFFFFF = (- 1 :: 32 word)" by simp
  finally show ?thesis by simp
qed

lemma sign_cases32: "x AND 0x80000000 = 0 \<or> x AND 0x80000000 = (0x80000000 :: 32 word)"
proof (cases "bit x 31")
  case True
  have "x AND push_bit 31 1 = push_bit 31 1"
    by (rule bit_eqI) (use True in \<open>auto simp only: bit_and_iff bit_push_one\<close>)
  then show ?thesis by simp
next
  case False
  have "x AND push_bit 31 1 = 0"
    by (rule bit_eqI) (use False in \<open>auto simp only: bit_and_iff bit_push_one bit_0_eq bot_apply bot_bool_def\<close>)
  then show ?thesis by simp
qed

lemma magnitude64:
  assumes "b < 2 ^ 63" and "s = 0 \<or> s = 0x8000000000000000"
  shows "unat ((s OR word_of_nat b) AND 0x7FFFFFFFFFFFFFFF :: 64 word) = b"
    and "drop_bit 32 (s OR word_of_nat b) AND 0x80000000 = drop_bit 32 (s :: 64 word)"
proof -
  have m: "(0x7FFFFFFFFFFFFFFF :: 64 word) = Bit_Operations.mask 63" by (simp add: mask_eq_exp_minus_1)
  have u: "unat (word_of_nat b :: 64 word) = b" using assms(1) by (simp add: unat_of_nat take_bit_nat_eq_self)
  have t: "take_bit 63 (word_of_nat b :: 64 word) = word_of_nat b"
    using assms(1) by (simp only: take_bit_of_nat take_bit_nat_eq_self)
  have z: "take_bit 63 s = 0" using assms(2) by auto
  show "unat ((s OR word_of_nat b) AND 0x7FFFFFFFFFFFFFFF) = b"
    unfolding m by (simp only: take_bit_eq_mask [symmetric] take_bit_or t z or.left_neutral u)
  have "drop_bit 32 (word_of_nat b :: 64 word) AND 0x80000000 = 0"
  proof (rule bit_eqI)
    fix n
    have "\<not> bit (word_of_nat b :: 64 word) 63" by (metis t bit_take_bit_iff less_irrefl)
    then show "bit (drop_bit 32 (word_of_nat b :: 64 word) AND 0x80000000) n = bit (0 :: 64 word) n"
      using bit_push_one [where 'a = 64, of 31 n]
      by (auto simp: bit_and_iff bit_drop_bit_eq)
  qed
  then show "drop_bit 32 (s OR word_of_nat b) AND 0x80000000 = drop_bit 32 s"
    using assms(2) by (auto simp: drop_bit_or bit.conj_disj_distrib2)
qed

lemma narrow_widen:
  assumes "\<not> f32_is_nan x"
  shows "narrow (widen x) = x"
proof -
  define s :: "64 word" where "s = push_bit 32 (ucast (x AND 0x80000000))"
  define b where "b = unat (x AND 0x7FFFFFFF)"
  have s: "s = 0 \<or> s = 0x8000000000000000" using sign_cases32 [of x] by (auto simp: s_def)
  have bk: "ucast (drop_bit 32 s) = x AND 0x80000000" using sign_cases32 [of x] by (auto simp: s_def)
  have x: "x = (x AND 0x80000000) OR word_of_nat b" unfolding b_def by (rule sign_magnitude32)
  have le: "b \<le> inf_bits f32" using assms by (simp add: f32_is_nan_def b_def)
  define c where "c = (if b = inf_bits f32 then inf_bits f64 else fp_round f64 (fp_decode f32 b))"
  have c: "c \<le> inf_bits f64"
    using fp_narrow_widen [of b] le by (auto simp: c_def simp del: f64_simps f32_simps)
  then have c63: "c < 2 ^ 63" by simp
  have w: "widen x = s OR word_of_nat c"
    using le unfolding widen_def Let_def b_def [symmetric] s_def [symmetric] c_def by simp
  have n: "(if c = inf_bits f64 then inf_bits f32 else fp_round f32 (fp_decode f64 c)) = b"
    using fp_narrow_widen [of b] le unfolding c_def
    by (cases "b = inf_bits f32") (auto simp del: f64_simps f32_simps)
  have "narrow (s OR word_of_nat c) = ucast (drop_bit 32 s) OR word_of_nat b"
    using c n unfolding narrow_def Let_def magnitude64 [OF c63 s] by (auto split: if_splits)
  then show ?thesis using w x bk by simp
qed

end
