(* ===== verification/Model.thy ===== *)
theory Model
  imports Programs Text_Codec Floats "HOL-Library.AList"
begin

text \<open>
  What unpacking builds and packing reads: the reference value tree of
  \<open>crates/rustruct/src/value.rs\<close> and the two interfaces of \<open>model.rs\<close>, \<open>Builder\<close> and \<open>Source\<close>,
  as records of their operations, with the implementations \<open>ValueBuilder\<close> and \<open>ValueSource\<close>.
  A builder or a source of another crate is another record, a parameter of the unpacker or the
  packer.

  The map of \<open>FieldIndex::Hashed\<close> is an association list with one entry per key. The order in
  which a hash map lists its keys is unspecified; \<open>pack_flags\<close>, the only user of the key list,
  depends on the set of keys alone.
\<close>

section \<open>Values\<close>

datatype val_tree =
    VInt int
  | VFloat "64 word"
  | VBool bool
  | VBytes bytes
  | VStr ustr
  | VMap "(string \<times> val_tree) list"
  | VList "val_tree list"
  | VUnsupported

fun value_get :: "val_tree \<Rightarrow> string \<Rightarrow> val_tree option" where
  "value_get (VMap m) k = map_option snd (List.find (\<lambda>(k', _). k' = k) m)"
| "value_get _ k = None"

definition value_map :: "val_tree" where
  "value_map = VMap []"

fun value_insert :: "val_tree \<Rightarrow> string \<Rightarrow> val_tree \<Rightarrow> val_tree" where
  "value_insert (VMap m) k v = VMap (m @ [(k, v)])"
| "value_insert w k v = w"

lemma find_map_of: "map_option snd (List.find (\<lambda>(k', _). k' = k) ps) = map_of ps k"
  by (induction ps) auto

section \<open>Builders\<close>

record ('v, 'm, 'l) builder =
  b_int :: "int \<Rightarrow> 'v"
  b_float :: "64 word \<Rightarrow> 'v"
  b_bool :: "bool \<Rightarrow> 'v"
  b_bytes :: "bytes \<Rightarrow> 'v"
  b_string :: "ustr \<Rightarrow> 'v"
  b_map_new :: "nat \<Rightarrow> 'm"
  b_map_set :: "'m \<Rightarrow> string \<Rightarrow> 'v \<Rightarrow> 'm"
  b_map_finish :: "'m \<Rightarrow> 'v"
  b_list_new :: "nat \<Rightarrow> 'l"
  b_list_push :: "'l \<Rightarrow> 'v \<Rightarrow> 'l"
  b_list_finish :: "'l \<Rightarrow> 'v"

definition value_builder :: "(val_tree, val_tree, val_tree list) builder" where
  "value_builder =
     \<lparr>b_int = VInt, b_float = VFloat, b_bool = VBool, b_bytes = VBytes, b_string = VStr,
      b_map_new = (\<lambda>_. value_map), b_map_set = value_insert, b_map_finish = (\<lambda>m. m),
      b_list_new = (\<lambda>_. []), b_list_push = (\<lambda>l v. l @ [v]), b_list_finish = VList\<rparr>"

text \<open>
  A value tree replayed through a builder: what a builder that does not look at the size hints
  produces for the same input.
\<close>

fun render :: "('v, 'm, 'l) builder \<Rightarrow> val_tree \<Rightarrow> 'v" where
  "render B (VInt i) = b_int B i"
| "render B (VFloat f) = b_float B f"
| "render B (VBool b) = b_bool B b"
| "render B (VBytes b) = b_bytes B b"
| "render B (VStr s) = b_string B s"
| "render B (VMap ps) =
     b_map_finish B (foldl (\<lambda>m (k, v). b_map_set B m k v) (b_map_new B 0) (map (map_prod id (render B)) ps))"
| "render B (VList vs) = b_list_finish B (foldl (b_list_push B) (b_list_new B 0) (map (render B) vs))"
| "render B VUnsupported = b_int B 0"

section \<open>Sources\<close>

record ('v, 'w) source =
  s_map_view :: "'v \<Rightarrow> 'w option"
  s_view_get :: "'w \<Rightarrow> string \<Rightarrow> 'v option"
  s_view_keys :: "'w \<Rightarrow> string list"
  s_as_list :: "'v \<Rightarrow> 'v list option"
  s_as_int :: "'v \<Rightarrow> int option"
  s_as_float :: "'v \<Rightarrow> 64 word option"
  s_as_bytes :: "'v \<Rightarrow> bytes option"
  s_as_str :: "'v \<Rightarrow> ustr option"
  s_truthy :: "'v \<Rightarrow> bool option"

definition HASH_INDEX_THRESHOLD :: nat where
  "HASH_INDEX_THRESHOLD = 16"

datatype field_index = Small "(string \<times> val_tree) list" | Hashed "(string \<times> val_tree) list"

text \<open>Collecting pairs into a hash map: a later pair replaces an earlier one.\<close>

definition hash_collect :: "(string \<times> val_tree) list \<Rightarrow> (string \<times> val_tree) list" where
  "hash_collect pairs = foldl (\<lambda>m (k, v). AList.update k v m) [] pairs"

fun index_get :: "field_index \<Rightarrow> string \<Rightarrow> val_tree option" where
  "index_get (Small pairs) name = map_option snd (List.find (\<lambda>(k, _). k = name) pairs)"
| "index_get (Hashed m) name = map_of m name"

fun vs_map_view :: "val_tree \<Rightarrow> field_index option" where
  "vs_map_view (VMap pairs) =
     Some (if HASH_INDEX_THRESHOLD < length pairs then Hashed (hash_collect pairs) else Small pairs)"
| "vs_map_view _ = None"

fun vs_view_keys :: "field_index \<Rightarrow> string list" where
  "vs_view_keys (Small pairs) = map fst pairs"
| "vs_view_keys (Hashed m) = map fst m"

fun vs_as_list :: "val_tree \<Rightarrow> val_tree list option" where
  "vs_as_list (VList items) = Some items"
| "vs_as_list _ = None"

fun vs_as_int :: "val_tree \<Rightarrow> int option" where
  "vs_as_int (VInt i) = Some i"
| "vs_as_int (VBool b) = Some (of_bool b)"
| "vs_as_int _ = None"

fun vs_as_float :: "val_tree \<Rightarrow> 64 word option" where
  "vs_as_float (VFloat f) = Some f"
| "vs_as_float (VInt i) = Some (f64_of_int i)"
| "vs_as_float _ = None"

fun vs_as_bytes :: "val_tree \<Rightarrow> bytes option" where
  "vs_as_bytes (VBytes b) = Some b"
| "vs_as_bytes _ = None"

fun vs_as_str :: "val_tree \<Rightarrow> ustr option" where
  "vs_as_str (VStr s) = Some s"
| "vs_as_str _ = None"

fun vs_truthy :: "val_tree \<Rightarrow> bool option" where
  "vs_truthy (VBool b) = Some b"
| "vs_truthy (VInt i) = Some (i \<noteq> 0)"
| "vs_truthy (VFloat f) = Some (f64_nonzero f)"
| "vs_truthy (VStr s) = Some (s \<noteq> [])"
| "vs_truthy (VBytes b) = Some (b \<noteq> [])"
| "vs_truthy (VList l) = Some (l \<noteq> [])"
| "vs_truthy (VMap m) = Some (m \<noteq> [])"
| "vs_truthy VUnsupported = None"

definition value_source :: "(val_tree, field_index) source" where
  "value_source =
     \<lparr>s_map_view = vs_map_view, s_view_get = index_get, s_view_keys = vs_view_keys,
      s_as_list = vs_as_list, s_as_int = vs_as_int, s_as_float = vs_as_float,
      s_as_bytes = vs_as_bytes, s_as_str = vs_as_str, s_truthy = vs_truthy\<rparr>"

section \<open>The contracts\<close>

text \<open>
  What the unpacker relies on: the size hints of \<open>map_new\<close> and \<open>list_new\<close> do not show in what
  is built.
\<close>

locale builder_contract =
  fixes B :: "('v, 'm, 'l) builder"
  assumes map_hint: "b_map_new B n = b_map_new B 0"
    and list_hint: "b_list_new B n = b_list_new B 0"
begin

lemma render_map_insert:
  "b_map_finish B (foldl (\<lambda>m (k, v). b_map_set B m k v) (b_map_new B n) (map (map_prod id (render B)) ps)) =
     render B (VMap ps)"
  by (simp add: map_hint [of n])

lemma render_list:
  "b_list_finish B (foldl (b_list_push B) (b_list_new B n) (map (render B) vs)) = render B (VList vs)"
  by (simp add: list_hint [of n])

end

interpretation value_builder: builder_contract value_builder
  by unfold_locales (simp_all add: value_builder_def)

text \<open>
  What the packer relies on, over the value tree \<open>abs v\<close> that a source object stands for. \<open>ok\<close>
  holds of the objects whose maps have distinct keys, down to the leaves.
\<close>

fun distinct_keys :: "val_tree \<Rightarrow> bool" where
  "distinct_keys (VMap ps) \<longleftrightarrow> distinct (map fst ps) \<and> list_all (\<lambda>p. distinct_keys (snd p)) ps"
| "distinct_keys (VList vs) \<longleftrightarrow> list_all distinct_keys vs"
| "distinct_keys _ \<longleftrightarrow> True"

text \<open>The reference source: a map is its list of pairs, searched from the front.\<close>

fun as_pairs :: "val_tree \<Rightarrow> (string \<times> val_tree) list option" where
  "as_pairs (VMap ps) = Some ps"
| "as_pairs _ = None"

definition tree_source :: "(val_tree, (string \<times> val_tree) list) source" where
  "tree_source =
     \<lparr>s_map_view = as_pairs, s_view_get = map_of, s_view_keys = map fst,
      s_as_list = vs_as_list, s_as_int = vs_as_int, s_as_float = vs_as_float,
      s_as_bytes = vs_as_bytes, s_as_str = vs_as_str, s_truthy = vs_truthy\<rparr>"

locale source_contract =
  fixes S :: "('v, 'w) source" and abs :: "'v \<Rightarrow> val_tree" and ok :: "'v \<Rightarrow> bool"
  assumes view_None: "ok v \<Longrightarrow> s_map_view S v = None \<longleftrightarrow> as_pairs (abs v) = None"
    and view_get: "ok v \<Longrightarrow> s_map_view S v = Some w \<Longrightarrow> as_pairs (abs v) = Some ps \<Longrightarrow>
      map_option abs (s_view_get S w k) = map_of ps k"
    and view_keys: "ok v \<Longrightarrow> s_map_view S v = Some w \<Longrightarrow> as_pairs (abs v) = Some ps \<Longrightarrow>
      set (s_view_keys S w) = fst ` set ps"
    and view_ok: "ok v \<Longrightarrow> s_map_view S v = Some w \<Longrightarrow> s_view_get S w k = Some u \<Longrightarrow> ok u"
    and as_list: "ok v \<Longrightarrow> map_option (map abs) (s_as_list S v) = vs_as_list (abs v)"
    and list_ok: "ok v \<Longrightarrow> s_as_list S v = Some us \<Longrightarrow> u \<in> set us \<Longrightarrow> ok u"
    and as_int: "ok v \<Longrightarrow> s_as_int S v = vs_as_int (abs v)"
    and as_float: "ok v \<Longrightarrow> s_as_float S v = vs_as_float (abs v)"
    and as_bytes: "ok v \<Longrightarrow> s_as_bytes S v = vs_as_bytes (abs v)"
    and as_str: "ok v \<Longrightarrow> s_as_str S v = vs_as_str (abs v)"
    and truthy: "ok v \<Longrightarrow> s_truthy S v = vs_truthy (abs v)"

lemma map_of_hash_collect: "map_of (hash_collect ps) = map_of (rev ps)"
proof -
  have "map_of (foldl (\<lambda>m (k, v). AList.update k v m) m ps) = map_of m ++ map_of (rev ps)" for m
    by (induction ps arbitrary: m)
       (auto simp: update_conv' map_add_def fun_eq_iff split: option.split)
  then show ?thesis by (simp add: hash_collect_def)
qed

lemma map_of_hash_collect_distinct: "distinct (map fst ps) \<Longrightarrow> map_of (hash_collect ps) = map_of ps"
  by (simp add: map_of_hash_collect map_of_inject_set rev_map [symmetric])

lemma hash_collect_keys: "fst ` set (hash_collect ps) = fst ` set ps"
  by (simp only: dom_map_of_conv_image_fst [symmetric] map_of_hash_collect)
     (simp add: dom_map_of_conv_image_fst)

interpretation value_source: source_contract value_source "\<lambda>v. v" distinct_keys
proof unfold_locales
  fix v w ps k u us
  assume ok: "distinct_keys v"
  show "(s_map_view value_source v = None) = (as_pairs v = None)"
    by (cases v) (simp_all add: value_source_def)
  show "map_option (\<lambda>v. v) (s_view_get value_source w k) = map_of ps k"
    if "s_map_view value_source v = Some w" "as_pairs v = Some ps"
    using that ok by (cases v) (auto simp: value_source_def find_map_of map_of_hash_collect_distinct option.map_ident)
  show "set (s_view_keys value_source w) = fst ` set ps"
    if "s_map_view value_source v = Some w" "as_pairs v = Some ps"
  proof -
    have v: "v = VMap ps" using that(2) by (cases v) auto
    have "set (vs_view_keys (the (vs_map_view (VMap ps)))) = fst ` set ps"
      using hash_collect_keys [of ps] by simp
    moreover have "vs_map_view (VMap ps) = Some w" using that(1) by (simp only: v value_source_def source.simps)
    ultimately show ?thesis by (simp only: value_source_def source.simps option.sel)
  qed
  show "distinct_keys u" if view: "s_map_view value_source v = Some w" "s_view_get value_source w k = Some u"
  proof -
    obtain ps where v: "v = VMap ps" using view(1) by (cases v) (auto simp: value_source_def)
    have "map_of ps k = Some u" using view ok
      by (auto simp: value_source_def v find_map_of map_of_hash_collect_distinct split: if_splits)
    then show ?thesis using ok v map_of_SomeD by (fastforce simp: list_all_iff)
  qed
  show "map_option (map (\<lambda>v. v)) (s_as_list value_source v) = vs_as_list v"
    by (simp add: value_source_def option.map_ident)
  show "distinct_keys u" if "s_as_list value_source v = Some us" "u \<in> set us"
    using that ok by (cases v) (auto simp: value_source_def list_all_iff)
qed (simp_all add: value_source_def)

end
