(* ===== verification/Wire.thy ===== *)
theory Wire
  imports Programs
begin

text \<open>
  Integers and bit fields on the wire: \<open>read_uint\<close>, \<open>read_sint\<close> and \<open>read_bits\<close> of
  \<open>crates/rustruct/src/unpack.rs\<close>, \<open>write_int_at\<close>, \<open>write_uint_slice\<close>, \<open>or_bits\<close> and
  \<open>check_bits_range\<close> of \<open>pack.rs\<close>, and the laws that make each pair a codec.
\<close>

section \<open>Reading\<close>

definition read_uint :: "bytes \<Rightarrow> bool \<Rightarrow> 64 word" where
  "read_uint raw be = fold (\<lambda>b v. push_bit 8 v OR ucast b) (if be then raw else rev raw) 0"

definition read_sint :: "bytes \<Rightarrow> bool \<Rightarrow> int" where
  "read_sint raw be =
     (let u = read_uint raw be; bits = length raw * 8
      in if bits < 64
         then (if u AND push_bit (bits - 1) 1 \<noteq> 0 then uint u - 2 ^ bits else uint u)
         else (if uint u > i64_max then as_i64 (uint u) else uint u))"

text \<open>The value of an integer field: sign-extended for the signed primitives.\<close>

definition read_prim :: "int_prim \<Rightarrow> bool \<Rightarrow> bytes \<Rightarrow> int" where
  "read_prim prim be raw = (if prim_signed prim then read_sint raw be else uint (read_uint raw be))"

text \<open>\<open>read_bits\<close>: most significant bit first, within a byte and across bytes.\<close>

definition bit_step :: "bytes \<Rightarrow> nat \<Rightarrow> nat \<Rightarrow> 64 word \<Rightarrow> 64 word ures" where
  "bit_step buf base bit_index v =
     bind_res (nth_res buf (base + bit_index div 8)) (\<lambda>byte.
       Inr (push_bit 1 v OR ucast (drop_bit (7 - bit_index mod 8) byte AND 1)))"

definition read_bits_raw :: "bytes \<Rightarrow> nat \<Rightarrow> nat \<Rightarrow> nat \<Rightarrow> 64 word ures" where
  "read_bits_raw buf base bitpos width = fold_res (bit_step buf base) [bitpos..<bitpos + width] 0"

definition bits_value :: "nat \<Rightarrow> bool \<Rightarrow> 64 word \<Rightarrow> int" where
  "bits_value width sgnd v =
     (if sgnd
      then (if width < 64
            then (if v AND push_bit (width - 1) 1 \<noteq> 0 then uint v - 2 ^ width else uint v)
            else as_i64 (uint v))
      else uint v)"

definition read_bits :: "bytes \<Rightarrow> nat \<Rightarrow> nat \<Rightarrow> bit_item \<Rightarrow> int ures" where
  "read_bits buf base bitpos item =
     bind_res (read_bits_raw buf base bitpos (bi_width item))
       (\<lambda>v. Inr (bits_value (bi_width item) (bi_signed item) v))"

section \<open>Writing\<close>

definition write_uint_slice :: "nat \<Rightarrow> bool \<Rightarrow> 64 word \<Rightarrow> bytes" where
  "write_uint_slice w be v =
     map (\<lambda>i. ucast (drop_bit (if be then (w - 1 - i) * 8 else i * 8) v)) [0..<w]"

definition write_uint_at :: "bytes \<Rightarrow> nat \<Rightarrow> nat \<Rightarrow> bool \<Rightarrow> 64 word \<Rightarrow> bytes pres" where
  "write_uint_at out pos width be v = splice_res out pos (write_uint_slice width be v)"

definition mask_bytes :: "nat \<Rightarrow> 64 word" where
  "mask_bytes w = (if 8 \<le> w then - 1 else push_bit (w * 8) 1 - 1)"

definition write_int_at :: "bytes \<Rightarrow> nat \<Rightarrow> int_prim \<Rightarrow> bool \<Rightarrow> int \<Rightarrow> bytes pres" where
  "write_int_at out pos prim be v =
     (if v < prim_min prim \<or> v > prim_max prim then Inl (Fail (pfail KRange))
      else splice_res out pos
             (write_uint_slice (prim_width prim) be (word_of_int v AND mask_bytes (prim_width prim))))"

definition check_bits_range :: "int \<Rightarrow> nat \<Rightarrow> bool \<Rightarrow> unit pres" where
  "check_bits_range v width sgnd =
     (if (if sgnd then - (2 ^ (width - 1)) \<le> v \<and> v < 2 ^ (width - 1) else 0 \<le> v \<and> v < 2 ^ width)
      then Inr () else Inl (Fail (pfail KRange)))"

text \<open>The mask of \<open>width\<close> low bits in \<open>pack_bit_item\<close> and \<open>apply_inv\<close>.\<close>

definition bits_mask :: "nat \<Rightarrow> 64 word" where
  "bits_mask width = (if 64 \<le> width then - 1 else push_bit width 1 - 1)"

definition or_bit :: "nat \<Rightarrow> nat \<Rightarrow> nat \<Rightarrow> 64 word \<Rightarrow> nat \<Rightarrow> bytes \<Rightarrow> bytes pres" where
  "or_bit base bit_off width v i out =
     (if drop_bit (width - 1 - i) v AND 1 \<noteq> 0
      then (let idx = bit_off + i; k = base + idx div 8
            in bind_res (nth_res out k) (\<lambda>byte. update_res out k (byte OR push_bit (7 - idx mod 8) 1)))
      else Inr out)"

definition or_bits :: "bytes \<Rightarrow> nat \<Rightarrow> nat \<Rightarrow> nat \<Rightarrow> 64 word \<Rightarrow> bytes pres" where
  "or_bits out base bit_off width v = fold_res (or_bit base bit_off width v) [0..<width] out"

section \<open>Fixed-width codecs\<close>

text \<open>
  The contract between a writer and a reader of \<open>w\<close> bytes: what is written is read back, and
  what is read writes the same bytes.
\<close>

locale fixed_codec =
  fixes w :: nat
    and enc :: "'v \<Rightarrow> bytes"
    and dec :: "bytes \<Rightarrow> 'v"
    and valid :: "'v \<Rightarrow> bool"
  assumes enc_length: "length (enc v) = w"
    and dec_enc: "valid v \<Longrightarrow> dec (enc v) = v"
    and dec_valid: "length raw = w \<Longrightarrow> valid (dec raw)"
    and enc_dec: "length raw = w \<Longrightarrow> enc (dec raw) = raw"
begin

lemma splice_then_slice:
  assumes "splice_res out pos (enc v) = Inr out'" and "valid v"
  shows "slice_res out' pos (pos + w) = Inr (enc v)" and "dec (take w (drop pos out')) = v"
proof -
  have "take w (drop pos out') = enc v" using assms by (auto simp: enc_length)
  then show "slice_res out' pos (pos + w) = Inr (enc v)" "dec (take w (drop pos out')) = v"
    using assms enc_length [of v] by (auto simp: dec_enc)
qed

lemma enc_inj: "valid u \<Longrightarrow> valid v \<Longrightarrow> enc u = enc v \<Longrightarrow> u = v"
  by (metis dec_enc)

lemma dec_inj: "length r = w \<Longrightarrow> length s = w \<Longrightarrow> dec r = dec s \<Longrightarrow> r = s"
  by (metis enc_dec)

end

subsection \<open>Unsigned integers\<close>

lemma read_uint_be: "read_uint raw True = read_uint (rev raw) False"
  by (simp add: read_uint_def)

lemma read_uint_le_simps:
  "read_uint [] False = 0"
  "read_uint (b # bs) False = push_bit 8 (read_uint bs False) OR ucast b"
  by (simp_all add: read_uint_def)

lemma bit_read_uint_le:
  "bit (read_uint raw False) n \<longleftrightarrow> n < 64 \<and> n div 8 < length raw \<and> bit (raw ! (n div 8)) (n mod 8)"
proof (induction raw arbitrary: n)
  case Nil
  then show ?case by (simp add: read_uint_le_simps)
next
  case (Cons b bs)
  show ?case
  proof (cases "n < 8")
    case True
    then show ?thesis
      by (auto simp: read_uint_le_simps bit_or_iff bit_push_bit_iff bit_ucast_iff)
  next
    case False
    then obtain m where m: "n = m + 8" by (metis add.commute le_Suc_ex not_less)
    have nb: "\<not> bit b n" using False by (auto dest: bit_imp_le_length)
    have "(m + 8) div 8 = Suc (m div 8)" by simp
    then show ?thesis using Cons.IH [of m] nb
      by (auto simp: m read_uint_le_simps bit_or_iff bit_push_bit_iff bit_ucast_iff)
  qed
qed

lemma write_uint_be: "write_uint_slice w True v = rev (write_uint_slice w False v)"
  by (rule nth_equalityI) (auto simp: write_uint_slice_def rev_nth)

lemma length_write_uint [simp]: "length (write_uint_slice w be v) = w"
  by (simp add: write_uint_slice_def)

lemma read_write_uint_le:
  assumes "w \<le> 8" and "uint v < 2 ^ (8 * w)"
  shows "read_uint (write_uint_slice w False v) False = v"
proof (rule bit_word_eqI)
  fix n assume n: "n < LENGTH(64)"
  have vb: "bit v k \<Longrightarrow> k < 8 * w" for k
  proof -
    assume b: "bit v k"
    have "take_bit (8 * w) (uint v) = uint v" using assms(2) by (simp add: take_bit_int_eq_self)
    then show "k < 8 * w" using b by (metis bit_take_bit_iff bit_uint_iff b bit_imp_le_length)
  qed
  have "n div 8 * 8 + n mod 8 = n" by simp
  then show "bit (read_uint (write_uint_slice w False v) False) n = bit v n"
    using n vb [of n]
    by (auto simp: bit_read_uint_le write_uint_slice_def bit_ucast_iff bit_drop_bit_eq mult.commute
        add.commute div_less_iff_less_mult)
qed

lemma write_read_uint_le:
  assumes "length raw = w" and "w \<le> 8"
  shows "write_uint_slice w False (read_uint raw False) = raw"
proof (rule nth_equalityI)
  show "length (write_uint_slice w False (read_uint raw False)) = length raw" using assms by simp
  fix i assume "i < length (write_uint_slice w False (read_uint raw False))"
  then have i: "i < w" by simp
  show "write_uint_slice w False (read_uint raw False) ! i = raw ! i"
  proof (rule bit_word_eqI)
    fix n assume n: "n < LENGTH(8)"
    then have d: "(i * 8 + n) div 8 = i" "(i * 8 + n) mod 8 = n" by simp_all
    show "bit (write_uint_slice w False (read_uint raw False) ! i) n = bit (raw ! i) n"
      using i n assms d
      by (auto simp: write_uint_slice_def bit_ucast_iff bit_drop_bit_eq bit_read_uint_le)
  qed
qed

lemma read_uint_bound:
  assumes "length raw \<le> 8"
  shows "uint (read_uint raw be) < 2 ^ (8 * length raw)"
proof -
  have le: "uint (read_uint raw False) < 2 ^ (8 * length raw)" if "length raw \<le> 8" for raw
  proof -
    have "take_bit (8 * length raw) (read_uint raw False) = read_uint raw False"
      by (rule bit_word_eqI)
         (auto simp: bit_take_bit_iff bit_read_uint_le div_less_iff_less_mult mult.commute)
    then have "uint (read_uint raw False) = take_bit (8 * length raw) (uint (read_uint raw False))"
      by (metis unsigned_take_bit_eq)
    then show ?thesis by (metis take_bit_int_less_exp)
  qed
  show ?thesis using le [of raw] le [of "rev raw"] assms by (cases be) (auto simp: read_uint_be)
qed

lemma read_write_uint:
  assumes "w \<le> 8" and "uint v < 2 ^ (8 * w)"
  shows "read_uint (write_uint_slice w be v) be = v"
  using read_write_uint_le [OF assms] by (cases be) (simp_all add: read_uint_be write_uint_be)

lemma write_read_uint:
  assumes "length raw = w" and "w \<le> 8"
  shows "write_uint_slice w be (read_uint raw be) = raw"
  using write_read_uint_le [of raw w] write_read_uint_le [of "rev raw" w] assms
  by (cases be) (simp_all add: read_uint_be write_uint_be)

text \<open>Every integer primitive is a codec, in both byte orders.\<close>

interpretation uint_codec: fixed_codec "prim_width p" "write_uint_slice (prim_width p) be"
    "\<lambda>raw. read_uint raw be" "\<lambda>v. uint v < 2 ^ (8 * prim_width p)"
  for p :: int_prim and be :: bool
proof unfold_locales
  have w: "prim_width p \<le> 8" using prim_width_cases [of p] by auto
  show "read_uint (write_uint_slice (prim_width p) be v) be = v"
    if "uint v < 2 ^ (8 * prim_width p)" for v
    using read_write_uint [OF w that] .
  show "uint (read_uint raw be) < 2 ^ (8 * prim_width p)" if "length raw = prim_width p" for raw
    using read_uint_bound [of raw be] w that by simp
  show "write_uint_slice (prim_width p) be (read_uint raw be) = raw"
    if "length raw = prim_width p" for raw
    using write_read_uint [OF that w] .
qed simp

subsection \<open>Signed integers\<close>

lemma mask_bytes_and: "x AND mask_bytes w = take_bit (8 * w) x"
  by (auto simp: mask_bytes_def take_bit_eq_mask mask_eq_exp_minus_1 mult.commute
      take_bit_word_eq_self simp flip: push_bit_of_1)

lemma uint_take_bit_word_of_int:
  assumes "n \<le> 64"
  shows "uint (take_bit n (word_of_int v :: 64 word)) = take_bit n v"
  using assms by (simp add: unsigned_take_bit_eq uint_word_of_int_eq min_absorb1)

lemma and_push_bit_1_iff: "(u :: 64 word) AND push_bit k 1 \<noteq> 0 \<longleftrightarrow> bit u k"
proof
  assume "u AND push_bit k 1 \<noteq> 0"
  then obtain n where "bit (u AND push_bit k 1) n" using bit_eq_iff [of "u AND push_bit k 1" 0] by auto
  then show "bit u k" unfolding bit_and_iff bit_push_one by blast
next
  assume "bit u k"
  then have "bit (u AND push_bit k 1) k"
    by (simp only: bit_and_iff bit_push_one) (auto dest: bit_imp_le_length)
  then show "u AND push_bit k 1 \<noteq> 0" by (metis bit_0_eq bot_apply bot_bool_def)
qed

lemma sign_extend:
  fixes u :: "64 word"
  assumes "uint u < 2 ^ Suc n"
  shows "(if bit u n then uint u - 2 ^ Suc n else uint u) = signed_take_bit n (uint u)"
proof -
  have "take_bit (Suc n) (uint u) = uint u" using assms by (intro take_bit_int_eq_self) simp_all
  then show ?thesis by (simp add: signed_take_bit_eq_take_bit_minus bit_uint_iff del: power_Suc)
    (auto dest: bit_imp_le_length)
qed

lemma as_i64_uint:
  "(if uint u > i64_max then as_i64 (uint u) else uint u) = signed_take_bit 63 (uint (u :: 64 word))"
proof (cases "uint u > i64_max")
  case False
  then have "uint u < 2 ^ 63" by (simp add: i64_max_def)
  moreover have "- (2 ^ 63) \<le> uint u" by (rule order_trans [of _ 0]) simp_all
  ultimately have "signed_take_bit 63 (uint u) = uint u" by (rule signed_take_bit_int_eq_self [rotated])
  then show ?thesis using False by (simp only: if_False)
qed (simp add: as_i64_def)

lemma signed_take_bit_take_Suc:
  "signed_take_bit k (take_bit (Suc k) v) = signed_take_bit k (v :: int)"
  by (simp add: signed_take_bit_take_bit)

lemma read_sint_eq:
  assumes "0 < length raw" and "length raw \<le> 8"
  shows "read_sint raw be = signed_take_bit (8 * length raw - 1) (uint (read_uint raw be))"
proof -
  let ?u = "read_uint raw be"
  have b: "uint ?u < 2 ^ Suc (8 * length raw - 1)"
    using read_uint_bound [OF assms(2), of be] assms(1) by simp
  show ?thesis
  proof (cases "length raw * 8 < 64")
    case True
    have e: "Suc (8 * length raw - 1) = length raw * 8" using assms(1) by simp
    show ?thesis using sign_extend [OF b] True unfolding read_sint_def Let_def and_push_bit_1_iff e
      by (simp add: mult.commute)
  next
    case False
    then have "length raw = 8" using assms(2) by simp
    then show ?thesis using as_i64_uint [of ?u] by (simp add: read_sint_def Let_def)
  qed
qed

definition prim_valid :: "int_prim \<Rightarrow> int \<Rightarrow> bool" where
  "prim_valid p v \<longleftrightarrow> prim_min p \<le> v \<and> v \<le> prim_max p"

definition enc_prim :: "int_prim \<Rightarrow> bool \<Rightarrow> int \<Rightarrow> bytes" where
  "enc_prim p be v =
     write_uint_slice (prim_width p) be (word_of_int v AND mask_bytes (prim_width p))"

lemma write_int_at_eq:
  "write_int_at out pos p be v =
     (if prim_valid p v then splice_res out pos (enc_prim p be v) else Inl (Fail (pfail KRange)))"
  by (simp add: write_int_at_def prim_valid_def enc_prim_def not_le)

lemma prim_width_bound: "8 * prim_width p \<le> 64" "prim_width p \<le> 8"
  using prim_width_cases [of p] by auto

lemma enc_prim_word:
  "uint (word_of_int v AND mask_bytes (prim_width p) :: 64 word) = take_bit (8 * prim_width p) v"
  using prim_width_bound by (simp add: mask_bytes_and uint_take_bit_word_of_int)

lemma prim_valid_iff:
  "prim_valid p v \<longleftrightarrow>
     (if prim_signed p then signed_take_bit (8 * prim_width p - 1) v = v
      else take_bit (8 * prim_width p) v = v)"
  by (auto simp: prim_valid_def prim_min_def prim_max_def mult.commute signed_take_bit_int_eq_self_iff
      take_bit_int_eq_self_iff)

interpretation prim_codec: fixed_codec "prim_width p" "enc_prim p be" "read_prim p be" "prim_valid p"
  for p :: int_prim and be :: bool
proof unfold_locales
  let ?w = "prim_width p"
  let ?e = "\<lambda>v. word_of_int v AND mask_bytes ?w :: 64 word"
  have eb: "uint (?e v) < 2 ^ (8 * ?w)" for v by (simp only: enc_prim_word take_bit_int_less_exp)
  have suc: "Suc (8 * ?w - 1) = 8 * ?w" using prim_width_pos [of p] by simp
  show "length (enc_prim p be v) = ?w" for v by (simp add: enc_prim_def)
  show "read_prim p be (enc_prim p be v) = v" if "prim_valid p v" for v
  proof -
    have u: "uint (read_uint (enc_prim p be v) be) = take_bit (8 * ?w) v"
      unfolding enc_prim_def using read_write_uint [OF prim_width_bound(2) eb] by (simp add: enc_prim_word)
    have l: "length (enc_prim p be v) = ?w" by (simp add: enc_prim_def)
    show ?thesis
    proof (cases "prim_signed p")
      case True
      have "read_sint (enc_prim p be v) be = signed_take_bit (8 * ?w - 1) (take_bit (Suc (8 * ?w - 1)) v)"
        using read_sint_eq [of "enc_prim p be v" be] l u prim_width_bound suc by simp
      moreover have "signed_take_bit (8 * ?w - 1) (take_bit (Suc (8 * ?w - 1)) v) = signed_take_bit (8 * ?w - 1) v"
        by (rule signed_take_bit_take_Suc)
      ultimately show ?thesis using True that by (simp add: read_prim_def prim_valid_iff)
    next
      case False
      then show ?thesis using that u by (simp add: read_prim_def prim_valid_iff)
    qed
  qed
  show "prim_valid p (read_prim p be raw)" if l: "length raw = ?w" for raw
    using read_sint_eq [of raw be] read_uint_bound [of raw be] l prim_width_bound
    by (simp add: read_prim_def prim_valid_iff take_bit_int_eq_self_iff)
  show "enc_prim p be (read_prim p be raw) = raw" if l: "length raw = ?w" for raw
  proof -
    have "take_bit (8 * ?w) (read_prim p be raw) = uint (read_uint raw be)"
    proof (cases "prim_signed p")
      case True
      have "take_bit (Suc (8 * ?w - 1)) (signed_take_bit (8 * ?w - 1) (uint (read_uint raw be))) =
          take_bit (Suc (8 * ?w - 1)) (uint (read_uint raw be))"
        by (simp only: take_bit_signed_take_bit order_refl)
      then show ?thesis using True read_sint_eq [of raw be] read_uint_bound [of raw be] l prim_width_bound
        by (simp add: read_prim_def suc take_bit_int_eq_self_iff)
    next
      case False
      then show ?thesis using read_uint_bound [of raw be] l prim_width_bound
        by (simp add: read_prim_def take_bit_int_eq_self_iff)
    qed
    then have "?e (read_prim p be raw) = read_uint raw be"
      by (intro word_uint_eqI) (simp only: enc_prim_word)
    then show ?thesis using write_read_uint [OF l prim_width_bound(2), of be] by (simp add: enc_prim_def)
  qed
qed

subsection \<open>Bit fields\<close>

text \<open>The bit stream both directions walk: bit \<open>k\<close> after byte \<open>base\<close>, most significant first.\<close>

definition stream_bit :: "bytes \<Rightarrow> nat \<Rightarrow> nat \<Rightarrow> bool" where
  "stream_bit buf base k = bit (buf ! (base + k div 8)) (7 - k mod 8)"

lemma no_panic_bit_step [simp]: "no_panic (bit_step buf base k v) \<longleftrightarrow> base + k div 8 < length buf"
  by (simp add: bit_step_def no_panic_def bind_res_eq_Inl nth_res_def)

lemma bit_step_eq_Inr:
  "bit_step buf base k v = Inr v' \<longleftrightarrow>
     base + k div 8 < length buf \<and> v' = push_bit 1 v OR of_bool (stream_bit buf base k)"
  by (auto simp: bit_step_def bind_res_eq_Inr nth_res_def stream_bit_def bit_iff_and_drop_bit_eq_1
      and_one_eq odd_iff_mod_2_eq_one)

lemma stream_in_range:
  "0 < w \<Longrightarrow> base + (p + w - 1) div 8 < length buf \<Longrightarrow> k < p + w \<Longrightarrow> base + k div 8 < length buf"
proof -
  assume "0 < w" "base + (p + w - 1) div 8 < length buf" "k < p + w"
  moreover from this have "k div 8 \<le> (p + w - 1) div 8" by (intro div_le_mono) simp
  ultimately show ?thesis by simp
qed

text \<open>The bits a bit run occupies lie inside the buffer.\<close>

definition bits_fit :: "bytes \<Rightarrow> nat \<Rightarrow> nat \<Rightarrow> bool" where
  "bits_fit buf base n \<longleftrightarrow> base * 8 + n \<le> length buf * 8"

lemma bits_fitD: "bits_fit buf base n \<Longrightarrow> k < n \<Longrightarrow> base + k div 8 < length buf"
  unfolding bits_fit_def by linarith

lemma read_bits_raw_bits:
  assumes "bits_fit buf base (p + w)" and "w \<le> 64"
  shows "\<exists>v. read_bits_raw buf base p w = Inr v \<and>
           (\<forall>n. bit v n \<longleftrightarrow> n < w \<and> stream_bit buf base (p + (w - 1 - n)))"
  using assms
proof (induction w)
  case 0
  then show ?case by (simp add: read_bits_raw_def)
next
  case (Suc w)
  then have "bits_fit buf base (p + w)" by (simp add: bits_fit_def)
  from Suc.IH [OF this] Suc.prems(2) obtain v where v: "read_bits_raw buf base p w = Inr v"
    and bits: "\<And>n. bit v n \<longleftrightarrow> n < w \<and> stream_bit buf base (p + (w - 1 - n))"
    by (meson Suc_leD)
  have "base + (p + w) div 8 < length buf" using bits_fitD [OF Suc.prems(1), of "p + w"] by simp
  then have step: "bit_step buf base (p + w) v = Inr (push_bit 1 v OR of_bool (stream_bit buf base (p + w)))"
    by (simp add: bit_step_eq_Inr)
  have "read_bits_raw buf base p (Suc w) = Inr (push_bit 1 v OR of_bool (stream_bit buf base (p + w)))"
    using v step by (simp add: read_bits_raw_def fold_res_append)
  moreover have "bit (push_bit 1 v OR of_bool (stream_bit buf base (p + w))) n \<longleftrightarrow>
      n < Suc w \<and> stream_bit buf base (p + (Suc w - 1 - n))" for n
  proof (cases n)
    case 0
    then show ?thesis unfolding bit_or_iff bit_push_bit_iff bit_of_bool_iff by auto
  next
    case (Suc m)
    have "bit v m \<Longrightarrow> Suc m < 64" using bits [of m] Suc.prems(2) by simp
    then show ?thesis using bits [of m] Suc unfolding bit_or_iff bit_push_bit_iff bit_of_bool_iff
      by auto
  qed
  ultimately show ?case by blast
qed

lemma no_panic_read_bits:
  assumes "bits_fit buf base (p + bi_width item)" and "bi_width item \<le> 64"
  shows "no_panic (read_bits buf base p item)"
proof -
  obtain v where "read_bits_raw buf base p (bi_width item) = Inr v"
    using read_bits_raw_bits [OF assms] by blast
  then show ?thesis by (simp add: read_bits_def)
qed

lemma bits_value_eq:
  assumes "0 < w" "w \<le> 64" "uint v < 2 ^ w"
  shows "bits_value w s v = (if s then signed_take_bit (w - 1) (uint v) else uint v)"
proof (cases "s \<and> w < 64")
  case True
  have "uint v < 2 ^ Suc (w - 1)" using assms by simp
  moreover have "Suc (w - 1) = w" using assms(1) by simp
  ultimately have "(if bit v (w - 1) then uint v - 2 ^ w else uint v) = signed_take_bit (w - 1) (uint v)"
    using sign_extend [of v "w - 1"] by metis
  then show ?thesis using True unfolding bits_value_def and_push_bit_1_iff by simp
next
  case False
  then show ?thesis using assms by (auto simp: bits_value_def as_i64_def)
qed

lemma or_bit_spec:
  assumes "bits_fit out base (off + w)" and "i < w"
  shows "\<exists>out'. or_bit base off w v i out = Inr out' \<and> length out' = length out \<and>
      (\<forall>j. j < base + (off + i) div 8 \<or> base + (off + i) div 8 < j \<longrightarrow> out' ! j = out ! j) \<and>
      (\<forall>k. stream_bit out' base k \<longleftrightarrow>
         stream_bit out base k \<or> (k = off + i \<and> bit v (w - 1 - i)))"
proof -
  let ?k = "base + (off + i) div 8"
  have lt: "?k < length out" using bits_fitD [OF assms(1)] assms(2) by simp
  have iff: "drop_bit (w - 1 - i) v AND 1 \<noteq> 0 \<longleftrightarrow> bit v (w - 1 - i)"
    by (simp add: bit_iff_odd_drop_bit and_one_eq mod_2_eq_odd)
  show ?thesis
  proof (cases "bit v (w - 1 - i)")
    case False
    then show ?thesis using iff by (auto simp: or_bit_def)
  next
    case True
    let ?out' = "out[?k := out ! ?k OR push_bit (7 - (off + i) mod 8) 1]"
    have "or_bit base off w v i out = Inr ?out'"
      using True iff lt by (simp add: or_bit_def Let_def nth_res_def update_res_def)
    moreover have "stream_bit ?out' base k \<longleftrightarrow> stream_bit out base k \<or> k = off + i" for k
    proof (cases "k div 8 = (off + i) div 8")
      case same: True
      have e: "7 - k mod 8 = 7 - (off + i) mod 8 \<longleftrightarrow> k = off + i"
      proof
        assume "7 - k mod 8 = 7 - (off + i) mod 8"
        moreover have "k mod 8 < 8" "(off + i) mod 8 < 8" by simp_all
        ultimately have "k mod 8 = (off + i) mod 8" by linarith
        with same show "k = off + i" by (metis div_mult_mod_eq)
      qed simp
      have "stream_bit ?out' base k \<longleftrightarrow>
          bit (out ! ?k OR push_bit (7 - (off + i) mod 8) 1) (7 - k mod 8)"
        using lt by (simp only: stream_bit_def same nth_list_update_eq)
      also have "\<dots> \<longleftrightarrow> bit (out ! ?k) (7 - k mod 8) \<or> k = off + i"
        unfolding bit_or_iff bit_push_one e by auto
      also have "bit (out ! ?k) (7 - k mod 8) = stream_bit out base k"
        by (simp only: stream_bit_def same)
      finally show ?thesis .
    next
      case False
      then show ?thesis by (auto simp: stream_bit_def)
    qed
    ultimately show ?thesis using True by (auto intro!: exI [of _ ?out'])
  qed
qed

lemma or_bits_prefix_spec:
  assumes "bits_fit out base (off + w)" and "n \<le> w"
  shows "\<exists>out'. fold_res (or_bit base off w v) [0..<n] out = Inr out' \<and> length out' = length out \<and>
      (\<forall>j. j < base + off div 8 \<or> base + (off + w - 1) div 8 < j \<longrightarrow> out' ! j = out ! j) \<and>
      (\<forall>k. stream_bit out' base k \<longleftrightarrow>
         stream_bit out base k \<or> (off \<le> k \<and> k < off + n \<and> bit v (w - 1 - (k - off))))"
  using assms(2)
proof (induction n)
  case 0
  then show ?case by auto
next
  case (Suc n)
  then have "n \<le> w" by simp
  from Suc.IH [OF this] obtain o1
    where o1: "fold_res (or_bit base off w v) [0..<n] out = Inr o1" "length o1 = length out"
    and out1: "\<forall>j. j < base + off div 8 \<or> base + (off + w - 1) div 8 < j \<longrightarrow> o1 ! j = out ! j"
    and s1: "\<forall>k. stream_bit o1 base k \<longleftrightarrow>
         stream_bit out base k \<or> (off \<le> k \<and> k < off + n \<and> bit v (w - 1 - (k - off)))"
    by blast
  have "bits_fit o1 base (off + w)" using assms(1) o1(2) by (simp add: bits_fit_def)
  moreover have "n < w" using Suc.prems by simp
  ultimately obtain o2
    where o2: "or_bit base off w v n o1 = Inr o2" "length o2 = length o1"
    and out2: "\<forall>j. j < base + (off + n) div 8 \<or> base + (off + n) div 8 < j \<longrightarrow> o2 ! j = o1 ! j"
    and s2: "\<forall>k. stream_bit o2 base k \<longleftrightarrow> stream_bit o1 base k \<or> (k = off + n \<and> bit v (w - 1 - n))"
    using or_bit_spec [of o1 base off w n v] by blast
  have le: "off div 8 \<le> (off + n) div 8" "(off + n) div 8 \<le> (off + w - 1) div 8"
    using Suc.prems by (auto intro!: div_le_mono)
  have "\<forall>j. j < base + off div 8 \<or> base + (off + w - 1) div 8 < j \<longrightarrow> o2 ! j = out ! j"
    using out1 out2 le by (metis add_le_cancel_left le_less_trans less_le_trans)
  moreover have "\<forall>k. stream_bit o2 base k \<longleftrightarrow>
         stream_bit out base k \<or> (off \<le> k \<and> k < off + Suc n \<and> bit v (w - 1 - (k - off)))"
    using s1 s2 by (auto simp: less_Suc_eq)
  ultimately show ?case using o1 o2 by (auto simp: fold_res_append)
qed

lemmas or_bits_spec = or_bits_prefix_spec [where n = w and w = w for w, OF _ order_refl, folded or_bits_def]

lemma read_after_or_bits:
  assumes fit: "bits_fit out base (off + w)" and w: "w \<le> 64"
    and zero: "\<And>k. off \<le> k \<Longrightarrow> k < off + w \<Longrightarrow> \<not> stream_bit out base k"
    and or: "or_bits out base off w v = Inr out'" and v: "uint v < 2 ^ w"
  shows "read_bits_raw out' base off w = Inr v"
proof -
  from or_bits_spec [OF fit, of v] or have len: "length out' = length out"
    and s: "\<And>k. stream_bit out' base k \<longleftrightarrow>
         stream_bit out base k \<or> (off \<le> k \<and> k < off + w \<and> bit v (w - 1 - (k - off)))"
    by auto
  have "bits_fit out' base (off + w)" using fit len by (simp add: bits_fit_def)
  from read_bits_raw_bits [OF this w] obtain u where u: "read_bits_raw out' base off w = Inr u"
    and bits: "\<And>n. bit u n \<longleftrightarrow> n < w \<and> stream_bit out' base (off + (w - 1 - n))" by blast
  have vb: "bit v n \<Longrightarrow> n < w" for n
  proof -
    assume b: "bit v n"
    have "take_bit w (uint v) = uint v" using v by (intro take_bit_int_eq_self) simp_all
    then show "n < w" using b by (metis bit_take_bit_iff bit_uint_iff bit_imp_le_length)
  qed
  have "u = v"
  proof (rule bit_eqI)
    fix n
    show "bit u n \<longleftrightarrow> bit v n"
    proof (cases "n < w")
      case True
      then have "w - 1 - (off + (w - 1 - n) - off) = n" by simp
      then show ?thesis using True zero [of "off + (w - 1 - n)"] bits [of n] s [of "off + (w - 1 - n)"]
        by auto
    next
      case False
      then show ?thesis using vb bits by blast
    qed
  qed
  then show ?thesis using u by simp
qed

lemma bits_mask_and: "x AND bits_mask w = take_bit w x"
  by (auto simp: bits_mask_def take_bit_eq_mask mask_eq_exp_minus_1 take_bit_word_eq_self
      simp flip: push_bit_of_1)

text \<open>A value that passes the range check is the value of its masked bits.\<close>

lemma bits_value_masked:
  assumes "check_bits_range v w s = Inr ()" and w: "0 < w" "w \<le> 64"
  shows "uint (word_of_int v AND bits_mask w :: 64 word) < 2 ^ w"
    and "bits_value w s (word_of_int v AND bits_mask w) = v"
proof -
  have u: "uint (word_of_int v AND bits_mask w :: 64 word) = take_bit w v"
    using w by (simp add: bits_mask_and uint_take_bit_word_of_int)
  then show lt: "uint (word_of_int v AND bits_mask w :: 64 word) < 2 ^ w" by simp
  have suc: "Suc (w - 1) = w" using w by simp
  have "signed_take_bit (w - 1) (take_bit w v) = signed_take_bit (w - 1) v"
    using signed_take_bit_take_Suc [of "w - 1" v] suc by simp
  then show "bits_value w s (word_of_int v AND bits_mask w) = v"
    using assms(1) bits_value_eq [OF w lt, of s]
    by (auto simp: u check_bits_range_def signed_take_bit_int_eq_self take_bit_int_eq_self split: if_splits)
qed

section \<open>Properties\<close>

text \<open>
  C12: integers of every primitive survive the wire. A value \<open>write_int_at\<close> accepts is read back
  by the unpacker from the same place in either byte order; values outside the primitive's
  range are refused with \<open>Range\<close>; and no other byte of the output changes.
\<close>

theorem int_written_reads_back:
  "case write_int_at out pos p be v of
     Inr out' \<Rightarrow> prim_min p \<le> v \<and> v \<le> prim_max p \<and> length out' = length out \<and>
       read_prim p be (take (prim_width p) (drop pos out')) = v \<and>
       take pos out' = take pos out \<and> drop (pos + prim_width p) out' = drop (pos + prim_width p) out
   | Inl (Fail e) \<Rightarrow> e = pfail KRange \<and> (v < prim_min p \<or> prim_max p < v)
   | Inl Panic \<Rightarrow> length out < pos + prim_width p"
proof (cases "write_int_at out pos p be v")
  case (Inr out')
  then have v: "prim_valid p v" and sp: "splice_res out pos (enc_prim p be v) = (Inr out' :: bytes pres)"
    by (auto simp: write_int_at_eq split: if_splits)
  then show ?thesis
    using Inr prim_codec.splice_then_slice(2) [OF sp v] prim_codec.enc_length [of p be v]
    by (auto simp: prim_valid_def)
next
  case (Inl x)
  then show ?thesis using prim_codec.enc_length [of p be v]
    by (auto simp: write_int_at_eq splice_res_def prim_valid_def split: if_splits)
qed

text \<open>
  C13: reading is the inverse of writing for every field width: the bytes an integer field was
  read from are the bytes its value is written as.
\<close>

theorem int_read_writes_back:
  assumes "length raw = prim_width p"
  shows "write_int_at (replicate (prim_width p) 0) 0 p be (read_prim p be raw) = Inr raw"
  using assms prim_codec.dec_valid [of raw p be] prim_codec.enc_dec [of raw p be]
  by (simp add: write_int_at_eq splice_res_def)

theorem int_read_writes_back_witness:
  "write_int_at (replicate (prim_width I16) 0) 0 I16 False (read_prim I16 False [0xFE, 0xFF]) =
     Inr [0xFE, 0xFF]"
  by (rule int_read_writes_back) simp

text \<open>
  C11: bit fields survive the wire. A value of \<open>width\<close> bits that passes \<open>check_bits_range\<close>, masked
  and ORed into a zero stretch of a bit run at any bit offset, is read back as the same signed
  or unsigned value, and bytes outside the stretch keep their values.
\<close>

theorem bits_written_read_back:
  assumes "check_bits_range v (bi_width item) (bi_signed item) = Inr ()"
    and "0 < bi_width item" and "bi_width item \<le> 64"
    and "bits_fit out base (off + bi_width item)"
    and "\<forall>k. off \<le> k \<and> k < off + bi_width item \<longrightarrow> \<not> stream_bit out base k"
    and "or_bits out base off (bi_width item) (word_of_int v AND bits_mask (bi_width item)) = Inr out'"
  shows "read_bits out' base off item = Inr v \<and> length out' = length out \<and>
    (\<forall>j. j < base + off div 8 \<or> base + (off + bi_width item - 1) div 8 < j \<longrightarrow> out' ! j = out ! j)"
proof -
  note m = bits_value_masked [OF assms(1-3)]
  have z: "\<not> stream_bit out base k" if "off \<le> k" "k < off + bi_width item" for k
    using that assms(5) by blast
  have "read_bits_raw out' base off (bi_width item) = Inr (word_of_int v AND bits_mask (bi_width item))"
    by (rule read_after_or_bits [OF assms(4,3) z assms(6) m(1)])
  then have "read_bits out' base off item = Inr v"
    using m(2) by (simp add: read_bits_def)
  then show ?thesis
    using or_bits_spec [OF assms(4), of "word_of_int v AND bits_mask (bi_width item)"] assms(6) by auto
qed

definition sample_bits :: bit_item where
  "sample_bits = \<lparr>bi_width = 5, bi_signed = True, bi_reg = None, bi_derived = False, bi_key = Skip\<rparr>"

theorem bits_written_read_back_witness:
  "read_bits [0x80, 0x07, 0x40] 0 13 sample_bits = Inr (- 3)"
proof -
  have fold3: "[0..<5] = [0, 1, 2, 3, 4]" by (simp add: upt_rec)
  have "or_bits [0x80, 0x00, 0x00] 0 13 5 (word_of_int (- 3) AND bits_mask 5) = (Inr [0x80, 0x07, 0x40] :: bytes pres)"
    by code_simp
  then have "read_bits [0x80, 0x07, 0x40] 0 13 sample_bits = Inr (- 3) \<and> length [0x80, 0x07, 0x40 :: 8 word] = length [0x80, 0x00, 0x00 :: 8 word] \<and>
    (\<forall>j. j < 0 + 13 div 8 \<or> 0 + (13 + bi_width sample_bits - 1) div 8 < j \<longrightarrow>
       [0x80, 0x07, 0x40 :: 8 word] ! j = [0x80, 0x00, 0x00] ! j)"
    by (intro bits_written_read_back)
       (auto simp: sample_bits_def check_bits_range_def bits_fit_def stream_bit_def numeral_2_eq_2
         nth_Cons split: nat.splits)
  then show ?thesis by simp
qed

end
