(* ===== verification/Pack.thy ===== *)
theory Pack
  imports Model Wire
begin

text \<open>
  The packer, \<open>crates/rustruct/src/pack.rs\<close>: a program walked over the objects of a source,
  appending to the output and backpatching derived fields and digests.

  The context of the code (\<open>PCtx\<close>) is the record \<open>pctx\<close>, threaded through every function, with
  the top frame at the head of the list; the source and the hash functions are arguments.
  A shift \<open>1 << n\<close> wraps its amount at the width of the word, as in the release profile.
\<close>

datatype pack_outcome = POk bytes | PErr kind string

section \<open>State\<close>

text \<open>The reserved slot of a derived field.\<close>

datatype slot = SlotInt nat int_prim bool | SlotBits nat nat nat bool

record resv =
  rv_slot :: slot
  rv_value :: "int option"

record pdigest =
  pd_algo :: algo
  pd_over :: over
  pd_pos :: nat
  pd_width :: nat
  pd_be :: bool
  pd_key :: string

record pframe =
  pr_regs :: "int list"
  pr_known :: "16 word"
  pr_res :: "resv option list"
  pr_spans :: "(nat \<times> nat) list"
  pr_digests :: "pdigest list"

definition pframe_new :: pframe where
  "pframe_new =
     \<lparr>pr_regs = replicate MAX_REGS 0, pr_known = 0, pr_res = replicate MAX_REGS None,
      pr_spans = replicate MAX_SPANS (0, 0), pr_digests = []\<rparr>"

record pctx =
  pc_out :: bytes
  pc_frames :: "pframe list"

definition known_bit :: "nat \<Rightarrow> 16 word" where
  "known_bit idx = push_bit (idx mod 16) 1"

text \<open>\<open>self.frames.last_mut().expect("frame")\<close>, and the frame \<open>up\<close> scopes away.\<close>

definition with_top :: "(pframe \<Rightarrow> pframe pres) \<Rightarrow> pctx \<Rightarrow> pctx pres" where
  "with_top g ctx =
     (case pc_frames ctx of
        [] \<Rightarrow> panic
      | f # rest \<Rightarrow> bind_res (g f) (\<lambda>f. Inr (ctx\<lparr>pc_frames := f # rest\<rparr>)))"

definition mark_known :: "nat \<Rightarrow> int \<Rightarrow> pframe \<Rightarrow> pframe pres" where
  "mark_known idx v f =
     bind_res (update_res (pr_regs f) idx v) (\<lambda>regs.
       Inr (f\<lparr>pr_regs := regs, pr_known := pr_known f OR known_bit idx\<rparr>))"

definition pset_reg :: "nat option \<Rightarrow> int \<Rightarrow> pctx \<Rightarrow> pctx pres" where
  "pset_reg idx v ctx = (case idx of None \<Rightarrow> Inr ctx | Some i \<Rightarrow> with_top (mark_known i v) ctx)"

definition pset_span :: "nat option \<Rightarrow> nat \<Rightarrow> nat \<Rightarrow> pctx \<Rightarrow> pctx pres" where
  "pset_span idx start end ctx =
     (case idx of
        None \<Rightarrow> Inr ctx
      | Some i \<Rightarrow>
          with_top (\<lambda>f. bind_res (update_res (pr_spans f) i (start, end)) (\<lambda>spans. Inr (f\<lparr>pr_spans := spans\<rparr>))) ctx)"

definition pget_reg :: "pctx \<Rightarrow> reg \<Rightarrow> int pres" where
  "pget_reg ctx r =
     bind_res (nth_res (pc_frames ctx) (reg_up r)) (\<lambda>f.
       if pr_known f AND known_bit (reg_idx r) = 0 then Inl (Fail (pfail KMissing))
       else nth_res (pr_regs f) (reg_idx r))"

text \<open>
  The code keeps the failure of \<open>get_reg\<close> aside while the machine sees only its kind; both are
  \<open>Missing\<close> with an empty path, so the failure is rebuilt from the kind.
\<close>

definition peval :: "pctx \<Rightarrow> expr \<Rightarrow> int pres" where
  "peval ctx e = map_fail pfail (eval_expr (\<lambda>r. map_fail pf_kind (pget_reg ctx r)) e)"

section \<open>The output vector\<close>

text \<open>
  \<open>Vec::resize\<close> cuts a longer vector and fills a shorter one with zeros; \<open>extend_from_slice\<close> and \<open>push\<close>
  append. A vector never holds more than \<open>isize::MAX\<close> bytes: growing past that is the panic
  \<open>capacity overflow\<close>, as it is for \<open>Vec::with_capacity\<close>. How much a vector asks for beyond
  what it needs is not specified by the standard library and not part of the model.
\<close>

definition isize_max :: nat where
  "isize_max = 2 ^ 63 - 1"

definition with_capacity :: "nat \<Rightarrow> bytes pres" where
  "with_capacity n = (if isize_max < n then panic else Inr [])"

definition vec_resize :: "nat \<Rightarrow> bytes \<Rightarrow> bytes pres" where
  "vec_resize n out =
     (if n \<le> length out then Inr (take n out)
      else if isize_max < n then panic
      else Inr (out @ replicate (n - length out) 0))"

definition vec_extend :: "bytes \<Rightarrow> bytes \<Rightarrow> bytes pres" where
  "vec_extend b out = (if isize_max < length out + length b then panic else Inr (out @ b))"

text \<open>The same bounds without large unary numbers, for evaluation.\<close>

lemma isize_max_less: "isize_max < n \<longleftrightarrow> 9223372036854775807 < int n"
  by (auto simp: isize_max_def)

lemma with_capacity_code [code]: "with_capacity n = (if 9223372036854775807 < int n then panic else Inr [])"
  by (simp only: with_capacity_def isize_max_less)

lemma vec_resize_code [code]:
  "vec_resize n out =
     (if n \<le> length out then Inr (take n out)
      else if 9223372036854775807 < int n then panic
      else Inr (out @ replicate (n - length out) 0))"
  by (simp only: vec_resize_def isize_max_less)

lemma vec_extend_code [code]:
  "vec_extend b out = (if 9223372036854775807 < int (length out + length b) then panic else Inr (out @ b))"
  by (simp only: vec_extend_def isize_max_less)

text \<open>\<open>ctx.out.resize(ctx.out.len() + w, 0)\<close>, whose sum is not checked, and \<open>ctx.out.extend_from_slice(b)\<close>.\<close>

definition grow :: "nat \<Rightarrow> pctx \<Rightarrow> pctx pres" where
  "grow w ctx =
     bind_res (vec_resize (wrapping_add (length (pc_out ctx)) w) (pc_out ctx)) (\<lambda>out. Inr (ctx\<lparr>pc_out := out\<rparr>))"

definition append_bytes :: "bytes \<Rightarrow> pctx \<Rightarrow> pctx pres" where
  "append_bytes b ctx = bind_res (vec_extend b (pc_out ctx)) (\<lambda>out. Inr (ctx\<lparr>pc_out := out\<rparr>))"

section \<open>Backpatching\<close>

definition write_slot :: "slot \<Rightarrow> int \<Rightarrow> bytes \<Rightarrow> bytes pres" where
  "write_slot sl x out =
     (case sl of
        SlotInt pos prim be \<Rightarrow> write_int_at out pos prim be x
      | SlotBits base bit_off width sgnd \<Rightarrow>
          bind_res (check_bits_range x width sgnd) (\<lambda>_.
            or_bits out base bit_off width (word_of_int x AND bits_mask width)))"

text \<open>
  \<open>d % a\<close> and \<open>d / a\<close> panic for \<open>a = 0\<close>, and for \<open>a = -1\<close> with the least \<open>d\<close>.
\<close>

definition apply_inv :: "inv \<Rightarrow> int \<Rightarrow> pctx \<Rightarrow> pctx pres" where
  "apply_inv iv actual ctx =
     (let d = actual - inv_b iv in
      if \<not> in_i64 d then Inl (Fail (pfail KRange))
      else if inv_a iv = 0 \<or> (inv_a iv = - 1 \<and> d = i64_min) then panic
      else if d smod inv_a iv \<noteq> 0 then Inl (Fail (pfail KIndivisible))
      else
        let x = d sdiv inv_a iv; fi = reg_up (inv_reg iv); idx = reg_idx (inv_reg iv) in
        bind_res (nth_res (pc_frames ctx) fi) (\<lambda>f.
        bind_res (nth_res (pr_res f) idx) (\<lambda>slot_opt.
          case slot_opt of
            None \<Rightarrow>
              if pr_known f AND known_bit idx \<noteq> 0
              then bind_res (nth_res (pr_regs f) idx) (\<lambda>v.
                if v = x then Inr ctx else Inl (Fail (pfail KInconsistent)))
              else Inl (Fail (pfail KInconsistent))
          | Some rv \<Rightarrow>
              (case rv_value rv of
                 Some prev \<Rightarrow> if prev \<noteq> x then Inl (Fail (pfail KInconsistent)) else Inr ctx
               | None \<Rightarrow>
                   bind_res (write_slot (rv_slot rv) x (pc_out ctx)) (\<lambda>out.
                   bind_res (mark_known idx x (f\<lparr>pr_res := (pr_res f)[idx := Some (rv\<lparr>rv_value := Some x\<rparr>)]\<rparr>)) (\<lambda>f.
                     Inr \<lparr>pc_out = out, pc_frames = (pc_frames ctx)[fi := f]\<rparr>))))))"

definition finish_len :: "len_src \<Rightarrow> nat \<Rightarrow> pctx \<Rightarrow> pctx pres" where
  "finish_len len actual ctx =
     (case len of
        LenGreedy \<Rightarrow> Inr ctx
      | LenExpr e (Some iv) \<Rightarrow>
          if in_i64 (int actual) then apply_inv iv (int actual) ctx else Inl (Fail (pfail KRange))
      | LenExpr e None \<Rightarrow>
          bind_res (expect (as_const e)) (\<lambda>n.
            if int actual \<noteq> n then Inl (Fail (pfail KLength)) else Inr ctx))"

section \<open>Leaves\<close>

definition seg_key :: "key \<Rightarrow> pack_fail \<Rightarrow> pack_fail" where
  "seg_key k e = (case key_name k of Some n \<Rightarrow> pfail_seg (SegField n) e | None \<Rightarrow> e)"

definition lookup :: "('v, 'w) source \<Rightarrow> 'w \<Rightarrow> key \<Rightarrow> 'v option" where
  "lookup S view k = (case key_name k of Some n \<Rightarrow> s_view_get S view n | None \<Rightarrow> None)"

text \<open>The value of a field that may be unnamed: an unnamed one has a default, a named one must be given.\<close>

definition given :: "('v \<Rightarrow> 'a option) \<Rightarrow> 'a \<Rightarrow> key \<Rightarrow> 'v option \<Rightarrow> 'a pres" where
  "given read dflt k v =
     (case v of
        Some x \<Rightarrow> ok_or (pfail KType) (read x)
      | None \<Rightarrow> if key_name k \<noteq> None then Inl (Fail (pfail KMissing)) else Inr dflt)"

definition float_of :: "('v, 'w) source \<Rightarrow> 'v option \<Rightarrow> key \<Rightarrow> 64 word pres" where
  "float_of S v k = given (s_as_float S) 0 k v"

definition put :: "nat \<Rightarrow> bytes \<Rightarrow> pctx \<Rightarrow> pctx pres" where
  "put pos b ctx = bind_res (splice_res (pc_out ctx) pos b) (\<lambda>out. Inr (ctx\<lparr>pc_out := out\<rparr>))"

text \<open>\<open>to_be_bytes\<close>, reversed for little endian.\<close>

definition float_bytes :: "nat \<Rightarrow> bool \<Rightarrow> 64 word \<Rightarrow> bytes" where
  "float_bytes w be bits =
     (let b = write_uint_slice w True bits in if be then b else rev b)"

definition reserve :: "nat \<Rightarrow> slot \<Rightarrow> pctx \<Rightarrow> pctx pres" where
  "reserve r sl =
     with_top (\<lambda>f. bind_res (update_res (pr_res f) r (Some \<lparr>rv_slot = sl, rv_value = None\<rparr>)) (\<lambda>res.
       Inr (f\<lparr>pr_res := res\<rparr>)))"

definition pack_fixed_item ::
    "('v, 'w) source \<Rightarrow> nat \<Rightarrow> fixed_item \<Rightarrow> 'v option \<Rightarrow> pctx \<Rightarrow> pctx pres" where
  "pack_fixed_item S base item v ctx =
     (let pos = wrapping_add base (fi_off item); key = fi_key item in
      case fi_kind item of
        FInt prim be ex derived \<Rightarrow>
          (let write = (\<lambda>x. bind_res (write_int_at (pc_out ctx) pos prim be x) (\<lambda>out.
                 pset_reg (fi_reg item) (as_i64 x) (ctx\<lparr>pc_out := out\<rparr>)))
           in bind_res
                (case ex of
                   Some x \<Rightarrow> write x
                 | None \<Rightarrow>
                     if derived
                     then bind_res (expect (fi_reg item)) (\<lambda>r. reserve r (SlotInt pos prim be) ctx)
                     else bind_res (given (s_as_int S) 0 key v) write)
                (pset_span (fi_span item) pos (pos + prim_width prim)))
      | F32 be \<Rightarrow>
          bind_res (float_of S v key) (\<lambda>f.
          bind_res (put pos (float_bytes 4 be (ucast (narrow f))) ctx)
            (pset_span (fi_span item) pos (pos + 4)))
      | F64 be \<Rightarrow>
          bind_res (float_of S v key) (\<lambda>f.
          bind_res (put pos (float_bytes 8 be f) ctx)
            (pset_span (fi_span item) pos (pos + 8)))
      | FBool ex \<Rightarrow>
          bind_res (case ex of Some b \<Rightarrow> Inr b | None \<Rightarrow> given (s_truthy S) False key v) (\<lambda>val.
          bind_res (put pos [of_bool val] ctx)
            (pset_span (fi_span item) pos (pos + 1)))
      | FRaw len ex \<Rightarrow>
          bind_res
            (case ex of
               Some b \<Rightarrow> if length b \<noteq> len then panic else put pos b ctx
             | None \<Rightarrow>
                 (case v of
                    Some x \<Rightarrow>
                      bind_res (ok_or (pfail KType) (s_as_bytes S x)) (\<lambda>b.
                        if length b \<noteq> len then Inl (Fail (pfail KLength)) else put pos b ctx)
                  | None \<Rightarrow>
                      if key_name key \<noteq> None then Inl (Fail (pfail KMissing)) else Inr ctx))
            (pset_span (fi_span item) pos (pos + len)))"

definition pack_bit_item ::
    "('v, 'w) source \<Rightarrow> nat \<Rightarrow> nat \<Rightarrow> bit_item \<Rightarrow> 'v option \<Rightarrow> pctx \<Rightarrow> pctx pres" where
  "pack_bit_item S base bit_off item v ctx =
     (if bi_derived item
      then bind_res (expect (bi_reg item)) (\<lambda>r.
        reserve r (SlotBits base bit_off (bi_width item) (bi_signed item)) ctx)
      else
        bind_res (given (s_as_int S) 0 (bi_key item) v) (\<lambda>val.
        bind_res (check_bits_range val (bi_width item) (bi_signed item)) (\<lambda>_.
        bind_res (or_bits (pc_out ctx) base bit_off (bi_width item)
            (word_of_int val AND bits_mask (bi_width item))) (\<lambda>out.
          pset_reg (bi_reg item) (as_i64 val) (ctx\<lparr>pc_out := out\<rparr>)))))"

definition count_ones :: "64 word \<Rightarrow> nat" where
  "count_ones w = length (filter (bit w) [0..<64])"

definition flag_step ::
    "('v, 'w) source \<Rightarrow> 'w \<Rightarrow> flag_item \<Rightarrow> 64 word \<Rightarrow> 64 word pres" where
  "flag_step S view item raw =
     (let field = s_view_get S view (fl_key item) in
      if fl_is_bool item
      then bind_res (case field of None \<Rightarrow> Inr False | Some x \<Rightarrow> ok_or (pfail KType) (s_truthy S x)) (\<lambda>b.
        Inr (if b then raw OR fl_mask item else raw))
      else bind_res (case field of None \<Rightarrow> Inr 0 | Some x \<Rightarrow> ok_or (pfail KType) (s_as_int S x)) (\<lambda>val.
        let width = count_ones (drop_bit (fl_shift item) (fl_mask item)) in
        if val < 0 \<or> uint (push_bit (width mod 64) 1 - 1 :: 64 word) < val then Inl (Fail (pfail KRange))
        else Inr (raw OR push_bit (fl_shift item) (word_of_int val))))"

definition flags_word ::
    "('v, 'w) source \<Rightarrow> flag_item list \<Rightarrow> rest_policy \<Rightarrow> 64 word \<Rightarrow> 'w \<Rightarrow> 64 word pres" where
  "flags_word S items rest rest_mask view =
     (if \<not> list_all (\<lambda>k. list_ex (\<lambda>i. fl_key i = k) items \<or> (rest = Keep \<and> k = ''_rest''))
           (s_view_keys S view)
      then Inl (Fail (pfail KUnknownFlag))
      else bind_res (fold_res (flag_step S view) items 0) (\<lambda>raw.
        if rest = Keep
        then bind_res
          (case s_view_get S view ''_rest'' of None \<Rightarrow> Inr 0 | Some x \<Rightarrow> ok_or (pfail KType) (s_as_int S x))
          (\<lambda>leftover.
            if leftover < 0 \<or> 2 ^ 64 \<le> leftover \<or> word_of_int leftover AND NOT rest_mask \<noteq> 0
            then Inl (Fail (pfail KRange))
            else Inr (raw OR (word_of_int leftover AND rest_mask)))
        else Inr raw))"

definition pack_flags ::
    "('v, 'w) source \<Rightarrow> int_prim \<Rightarrow> bool \<Rightarrow> flag_item list \<Rightarrow> rest_policy \<Rightarrow> 64 word \<Rightarrow> 'v \<Rightarrow> pctx \<Rightarrow> pctx pres" where
  "pack_flags S prim be items rest rest_mask v ctx =
     bind_res (ok_or (pfail KType) (s_map_view S v)) (\<lambda>view.
     bind_res (flags_word S items rest rest_mask view) (\<lambda>raw.
       let w = prim_width prim; pos = length (pc_out ctx) in
       bind_res (grow w ctx) (\<lambda>ctx.
       bind_res (write_uint_at (pc_out ctx) pos w be raw) (\<lambda>out. Inr (ctx\<lparr>pc_out := out\<rparr>)))))"

section \<open>Digests of a scope\<close>

definition feed_out :: "bytes \<Rightarrow> (nat \<times> nat) list \<Rightarrow> nat \<Rightarrow> hasher \<Rightarrow> hasher pres" where
  "feed_out out spans i h =
     bind_res (nth_res spans i) (\<lambda>(s, e). bind_res (slice_res out s e) (\<lambda>b. Inr (update b h)))"

definition write_digest ::
    "hashes \<Rightarrow> nat \<Rightarrow> nat \<Rightarrow> (nat \<times> nat) list \<Rightarrow> pdigest \<Rightarrow> bytes \<Rightarrow> bytes pres" where
  "write_digest H scope_start scope_end spans d out =
     bind_res
       (case pd_over d of
          Star \<Rightarrow>
            bind_res (slice_res out scope_start scope_end) (\<lambda>b. Inr (update b (hasher_new (pd_algo d))))
        | Spans idxs \<Rightarrow> fold_res (feed_out out spans) idxs (hasher_new (pd_algo d)))
       (\<lambda>h. case finalize H h of
          DInt v \<Rightarrow> write_uint_at out (pd_pos d) (pd_width d) (pd_be d) v
        | DBytes b \<Rightarrow> if length b \<noteq> pd_width d then panic else splice_res out (pd_pos d) b)"

section \<open>Opcodes\<close>

definition pack_fixed ::
    "('v, 'w) source \<Rightarrow> 'w \<Rightarrow> nat \<Rightarrow> fixed_item list \<Rightarrow> pctx \<Rightarrow> pctx pres" where
  "pack_fixed S view width items ctx =
     (let base = length (pc_out ctx) in
      bind_res (grow width ctx)
        (fold_res (\<lambda>item ctx. map_fail (seg_key (fi_key item))
            (pack_fixed_item S base item (lookup S view (fi_key item)) ctx)) items))"

definition pack_bits_step ::
    "('v, 'w) source \<Rightarrow> 'w \<Rightarrow> nat \<Rightarrow> bit_item \<Rightarrow> nat \<times> pctx \<Rightarrow> (nat \<times> pctx) pres" where
  "pack_bits_step S view base item st = (case st of (bit_off, ctx) \<Rightarrow>
     bind_res (map_fail (seg_key (bi_key item))
         (pack_bit_item S base bit_off item (lookup S view (bi_key item)) ctx))
       (\<lambda>ctx. Inr (bit_off + bi_width item, ctx)))"

definition pack_bits ::
    "('v, 'w) source \<Rightarrow> 'w \<Rightarrow> nat \<Rightarrow> bit_item list \<Rightarrow> pctx \<Rightarrow> pctx pres" where
  "pack_bits S view nbytes items ctx =
     (let base = length (pc_out ctx) in
      bind_res (grow nbytes ctx) (\<lambda>ctx.
      bind_res (fold_res (pack_bits_step S view base) items (0, ctx)) (\<lambda>(_, ctx). Inr ctx)))"

definition pack_digest :: "algo \<Rightarrow> over \<Rightarrow> bool \<Rightarrow> common \<Rightarrow> pctx \<Rightarrow> pctx pres" where
  "pack_digest algo over be c ctx =
     (let w = width_bytes algo; pos = length (pc_out ctx) in
      bind_res (grow w ctx) (\<lambda>ctx.
      bind_res (pset_span (c_span c) pos (pos + w) ctx) (\<lambda>ctx.
      bind_res (expect (key_name (c_key c))) (\<lambda>key.
        with_top (\<lambda>f. Inr (f\<lparr>pr_digests := pr_digests f @
            [\<lparr>pd_algo = algo, pd_over = over, pd_pos = pos, pd_width = w, pd_be = be, pd_key = key\<rparr>]\<rparr>)) ctx))))"

text \<open>The ordinary named field: look it up, pack it, record its span.\<close>

definition pack_named ::
    "('v, 'w) source \<Rightarrow> 'w \<Rightarrow> common \<Rightarrow> ('v \<Rightarrow> pctx \<Rightarrow> pctx pres) \<Rightarrow> pctx \<Rightarrow> pctx pres" where
  "pack_named S view c pack ctx =
     bind_res (expect (key_name (c_key c))) (\<lambda>name.
     bind_res (ok_or (pfail_seg (SegField name) (pfail KMissing)) (s_view_get S view name)) (\<lambda>v.
     bind_res (map_fail (seg_key (c_key c)) (pack v ctx)) (\<lambda>ctx'.
       pset_span (c_span c) (length (pc_out ctx)) (length (pc_out ctx')) ctx')))"

text \<open>The text of \<open>Op::Str\<close> and \<open>Op::CStr\<close>: a string of the source, encoded.\<close>

definition encoded :: "('v, 'w) source \<Rightarrow> enc \<Rightarrow> 'v \<Rightarrow> bytes pres" where
  "encoded S enc v =
     bind_res (ok_or (pfail KType) (s_as_str S v)) (\<lambda>s. ok_or (pfail KEncode) (encode s enc))"

definition pack_blob :: "len_src \<Rightarrow> nat \<Rightarrow> bytes \<Rightarrow> pctx \<Rightarrow> pctx pres" where
  "pack_blob len mx b ctx =
     (if mx < length b then Inl (Fail (pfail KLimit))
      else bind_res (append_bytes b ctx) (finish_len len (length b)))"

definition pack_cstr :: "nat \<Rightarrow> bytes \<Rightarrow> pctx \<Rightarrow> pctx pres" where
  "pack_cstr mx b ctx =
     (if list_ex (\<lambda>x. x = 0) b then Inl (Fail (pfail KNulInCstr))
      else if mx < length b then Inl (Fail (pfail KLimit))
      else bind_res (append_bytes b ctx) (append_bytes [0]))"

type_synonym 'v pvalue = "'v \<Rightarrow> pctx \<Rightarrow> pctx pres"

definition pack_nest :: "'v pvalue \<Rightarrow> len_src option \<Rightarrow> 'v pvalue" where
  "pack_nest pack_struct sz v ctx =
     bind_res (pack_struct v ctx) (\<lambda>ctx'.
       case sz of
         None \<Rightarrow> Inr ctx'
       | Some len \<Rightarrow> finish_len len (wrapping_sub (length (pc_out ctx')) (length (pc_out ctx))) ctx')"

definition pack_array :: "('v, 'w) source \<Rightarrow> 'v pvalue \<Rightarrow> count_src \<Rightarrow> 'v pvalue" where
  "pack_array S elem count v ctx =
     bind_res (ok_or (pfail KType) (s_as_list S v)) (\<lambda>list.
     bind_res (fold_res (\<lambda>(i, item) ctx. map_fail (pfail_seg (SegIndex i)) (elem item ctx)) (enumerate 0 list) ctx)
       (\<lambda>ctx. case count of
          UntilEof \<Rightarrow> Inr ctx
        | CountExpr e iv \<Rightarrow> finish_len (LenExpr e iv) (length list) ctx))"

definition pack_switch ::
    "(op \<Rightarrow> 'v pvalue) \<Rightarrow> expr \<Rightarrow> (int \<times> op) list \<Rightarrow> op option \<Rightarrow> 'v pvalue" where
  "pack_switch pack_value on cases dflt v ctx =
     bind_res (peval ctx on) (\<lambda>tag.
       case switch_branch tag cases dflt of
         Some op \<Rightarrow> pack_value op v ctx
       | None \<Rightarrow> Inl (Fail (pfail KNoCase)))"

lemma pvalue_ext: "(\<And>v c. r v c = r' v c) \<Longrightarrow> r = (r' :: 'v pvalue)"
  by (simp add: fun_eq_iff)

lemma pack_nest_cong [fundef_cong]:
  "(\<And>v c. r v c = r' v c) \<Longrightarrow> pack_nest r sz v ctx = pack_nest r' sz v ctx"
  by (drule pvalue_ext) simp

lemma pack_array_cong [fundef_cong]:
  "(\<And>v c. r v c = r' v c) \<Longrightarrow> pack_array S r count v ctx = pack_array S r' count v ctx"
  by (drule pvalue_ext) simp

lemma pack_named_cong [fundef_cong]:
  "(\<And>v c. r v c = r' v c) \<Longrightarrow> pack_named S view c r ctx = pack_named S view c r' ctx"
  by (drule pvalue_ext) simp

lemma pack_switch_cong [fundef_cong]:
  assumes "cases = cases'" and "dflt = dflt'"
    and "\<And>tag op v c. switch_branch tag cases' dflt' = Some op \<Longrightarrow> r op v c = r' op v c"
  shows "pack_switch r on cases dflt v ctx = pack_switch r' on cases' dflt' v ctx"
  using assms by (auto simp: pack_switch_def intro!: bind_res_cong split: option.split)

lemma size_prog_op: "op \<in> set (prog_ops prog) \<Longrightarrow> size op < size prog"
  by (cases prog) (auto dest: size_op_in_program)

function
  pack_struct :: "hashes \<Rightarrow> ('v, 'w) source \<Rightarrow> program \<Rightarrow> 'v pvalue" and
  pack_op :: "hashes \<Rightarrow> ('v, 'w) source \<Rightarrow> op \<Rightarrow> 'w \<Rightarrow> pctx \<Rightarrow> pctx pres" and
  pack_value :: "hashes \<Rightarrow> ('v, 'w) source \<Rightarrow> op \<Rightarrow> 'v pvalue" where
  "pack_struct H S prog v ctx =
     bind_res (ok_or (pfail KType) (s_map_view S v)) (\<lambda>view.
     bind_res (fold_res (\<lambda>op ctx. pack_op H S op view ctx) (prog_ops prog)
                (ctx\<lparr>pc_frames := pframe_new # pc_frames ctx\<rparr>))
       (\<lambda>ctx'. case pc_frames ctx' of
          [] \<Rightarrow> panic
        | f # rest \<Rightarrow>
            bind_res
              (fold_res (write_digest H (length (pc_out ctx)) (length (pc_out ctx')) (pr_spans f))
                (pr_digests f) (pc_out ctx'))
              (\<lambda>out. Inr \<lparr>pc_out = out, pc_frames = rest\<rparr>)))"
| "pack_op H S op view ctx =
     (case op of
        OpFixed width items \<Rightarrow> pack_fixed S view width items ctx
      | OpBitRun nbytes items \<Rightarrow> pack_bits S view nbytes items ctx
      | OpDigest algo over _ be c \<Rightarrow> pack_digest algo over be c ctx
      | OpCond pred thn c \<Rightarrow>
          bind_res (peval ctx pred) (\<lambda>b.
            if b \<noteq> 0 then pack_named S view c (pack_value H S thn) ctx else Inr ctx)
      | _ \<Rightarrow> bind_res (expect (op_common op)) (\<lambda>c. pack_named S view c (pack_value H S op) ctx))"
| "pack_value H S op v ctx =
     (case op of
        OpFixed width items \<Rightarrow>
          bind_res (grow width ctx) (\<lambda>ctx'.
          bind_res (nth_res items 0) (\<lambda>item.
            pack_fixed_item S (length (pc_out ctx)) item (Some v) ctx'))
      | OpBytes len mx _ \<Rightarrow>
          bind_res (ok_or (pfail KType) (s_as_bytes S v)) (\<lambda>b. pack_blob len mx b ctx)
      | OpStr len mx enc _ \<Rightarrow> bind_res (encoded S enc v) (\<lambda>b. pack_blob len mx b ctx)
      | OpCStr mx enc _ \<Rightarrow> bind_res (encoded S enc v) (\<lambda>b. pack_cstr mx b ctx)
      | OpFlags prim be items rest rest_mask _ \<Rightarrow> pack_flags S prim be items rest rest_mask v ctx
      | OpNest prog sz _ \<Rightarrow> pack_nest (pack_struct H S prog) sz v ctx
      | OpArray count _ elem _ _ \<Rightarrow> pack_array S (pack_value H S elem) count v ctx
      | OpSwitch on cases dflt _ \<Rightarrow> pack_switch (pack_value H S) on cases dflt v ctx
      | OpBitRun _ _ \<Rightarrow> panic
      | OpDigest _ _ _ _ _ \<Rightarrow> panic
      | OpCond _ _ _ \<Rightarrow> panic)"
  by pat_completeness auto

termination
  by (relation "measure (\<lambda>x. case x of
        Inl (_, _, prog, _) \<Rightarrow> 2 * size prog
      | Inr (Inl (_, _, op, _)) \<Rightarrow> 2 * size op + 1
      | Inr (Inr (_, _, op, _)) \<Rightarrow> 2 * size op)")
     (auto dest: size_prog_op size_switch_branch)

declare pack_struct.simps [simp del] pack_op.simps [simp del] pack_value.simps [simp del]

section \<open>Top level\<close>

definition pack_root :: "hashes \<Rightarrow> ('v, 'w) source \<Rightarrow> program \<Rightarrow> 'v \<Rightarrow> bytes pres" where
  "pack_root H S prog v =
     bind_res (with_capacity (prog_min_size prog)) (\<lambda>out.
     bind_res (pack_struct H S prog v \<lparr>pc_out = out, pc_frames = []\<rparr>) (\<lambda>ctx. Inr (pc_out ctx)))"

definition pack_with :: "hashes \<Rightarrow> ('v, 'w) source \<Rightarrow> program \<Rightarrow> 'v \<Rightarrow> (unit, pack_outcome) res" where
  "pack_with H S prog v =
     (case pack_root H S prog v of
        Inr out \<Rightarrow> Inr (POk out)
      | Inl (Fail e) \<Rightarrow> Inr (PErr (pf_kind e) (format_path (pf_path e)))
      | Inl Panic \<Rightarrow> panic)"

definition pack_run :: "hashes \<Rightarrow> program \<Rightarrow> val_tree \<Rightarrow> (unit, pack_outcome) res" where
  "pack_run H prog v = pack_with H value_source prog v"

text \<open>\<open>run_into_with\<close>: the destination after the call, and the outcome.\<close>

definition pack_into ::
    "hashes \<Rightarrow> ('v, 'w) source \<Rightarrow> program \<Rightarrow> 'v \<Rightarrow> bytes \<Rightarrow> nat \<Rightarrow> (unit, bytes \<times> pack_outcome) res" where
  "pack_into H S prog v dst offset =
     (case pack_root H S prog v of
        Inr out \<Rightarrow>
          if length dst < offset \<or> length dst - offset < length out
          then Inr (dst, PErr KBuffer [])
          else bind_res (splice_res dst offset out) (\<lambda>dst. Inr (dst, POk out))
      | Inl (Fail e) \<Rightarrow> Inr (dst, PErr (pf_kind e) (format_path (pf_path e)))
      | Inl Panic \<Rightarrow> panic)"

end
