(* ===== verification/Unpack.thy ===== *)
theory Unpack
  imports Model Wire
begin

text \<open>
  The unpacker, \<open>crates/rustruct/src/unpack.rs\<close>: the walk of a program over a buffer, generic
  over the builder of \<open>Model\<close>.

  The context of the code (\<open>Ctx\<close>) is split into what a run never changes, the record \<open>uenv\<close>
  (the buffer, the builder and the hash functions), and the frame stack, which is threaded
  through every function. The top frame is the head of the list, so the register \<open>up\<close> scopes
  away is in the element \<open>up\<close>. Errors abandon the run, and with it the frames.

  Positions are below the length of the buffer, which is at most \<open>isize::MAX\<close>, so their sums
  after a successful \<open>need\<close> do not wrap and are written with \<open>+\<close>. \<open>limit - pos\<close> relies on
  \<open>pos \<le> limit\<close>, a lemma of \<open>Unpack_Safety\<close>.

  The recursion of the code runs through \<open>run_struct\<close>, \<open>run_op\<close> and \<open>op_value\<close>. \<open>do_nest\<close>,
  \<open>do_array\<close> and \<open>do_switch\<close> take the function they call back as an argument.
\<close>

datatype 'v outcome = OOk 'v nat | OIncomplete nat | OInvalid kind nat string

record frame =
  fr_regs :: "int list"
  fr_spans :: "(nat \<times> nat) list"

record ('v, 'm, 'l) uenv =
  ue_buf :: bytes
  ue_builder :: "('v, 'm, 'l) builder"
  ue_hashes :: hashes

definition new_frame :: frame where
  "new_frame = \<lparr>fr_regs = replicate MAX_REGS 0, fr_spans = replicate MAX_SPANS (0, 0)\<rparr>"

section \<open>The context\<close>

definition get_reg :: "frame list \<Rightarrow> getter" where
  "get_reg frames r =
     bind_res (nth_res frames (reg_up r)) (\<lambda>f. nth_res (fr_regs f) (reg_idx r))"

definition set_reg :: "frame list \<Rightarrow> nat \<Rightarrow> int \<Rightarrow> frame list ures" where
  "set_reg frames idx v =
     (case frames of
        [] \<Rightarrow> panic
      | f # rest \<Rightarrow> bind_res (update_res (fr_regs f) idx v) (\<lambda>regs. Inr (f\<lparr>fr_regs := regs\<rparr> # rest)))"

definition set_span :: "frame list \<Rightarrow> nat option \<Rightarrow> nat \<Rightarrow> nat \<Rightarrow> frame list ures" where
  "set_span frames idx start end =
     (case idx of
        None \<Rightarrow> Inr frames
      | Some i \<Rightarrow>
          (case frames of
             [] \<Rightarrow> panic
           | f # rest \<Rightarrow>
               bind_res (update_res (fr_spans f) i (start, end)) (\<lambda>spans. Inr (f\<lparr>fr_spans := spans\<rparr> # rest))))"

definition need :: "bytes \<Rightarrow> nat \<Rightarrow> nat \<Rightarrow> nat \<Rightarrow> unit ures" where
  "need buf pos limit n =
     (if saturating_add pos n \<le> limit then Inr ()
      else if limit = length buf
        then Inl (Fail (Incomplete (wrapping_sub (wrapping_add pos n) (length buf))))
      else Inl (Fail (invalid_at KTruncated pos)))"

definition eval :: "frame list \<Rightarrow> expr \<Rightarrow> nat \<Rightarrow> int ures" where
  "eval frames e pos = map_fail (\<lambda>k. invalid_at k pos) (eval_expr (get_reg frames) e)"

definition eval_len :: "frame list \<Rightarrow> expr \<Rightarrow> nat \<Rightarrow> nat ures" where
  "eval_len frames e pos =
     bind_res (eval frames e pos) (\<lambda>v.
       if v < 0 then Inl (Fail (invalid_at KNegativeLen pos)) else Inr (nat v))"

definition resolve_len :: "frame list \<Rightarrow> len_src \<Rightarrow> nat \<Rightarrow> nat \<Rightarrow> nat \<Rightarrow> nat ures" where
  "resolve_len frames len mx pos limit =
     bind_res (case len of LenGreedy \<Rightarrow> Inr (limit - pos) | LenExpr e _ \<Rightarrow> eval_len frames e pos)
       (\<lambda>n. if mx < n then Inl (Fail (invalid_at KLimit pos)) else Inr n)"

definition push_key :: "key \<Rightarrow> ufail \<Rightarrow> ufail" where
  "push_key k e = (case key_name k of Some n \<Rightarrow> ufail_seg (SegField n) e | None \<Rightarrow> e)"

section \<open>Deferred digests\<close>

record deferred =
  d_algo :: algo
  d_over :: over
  d_verify :: bool
  d_read :: digest_val
  d_field :: "nat \<times> nat"
  d_key :: string

definition feed_span :: "bytes \<Rightarrow> (nat \<times> nat) list \<Rightarrow> nat \<Rightarrow> hasher \<Rightarrow> hasher ures" where
  "feed_span buf spans i h =
     bind_res (nth_res spans i) (\<lambda>(s, e). bind_res (slice_res buf s e) (\<lambda>b. Inr (update b h)))"

definition compute :: "hashes \<Rightarrow> bytes \<Rightarrow> nat \<Rightarrow> nat \<Rightarrow> (nat \<times> nat) list \<Rightarrow> deferred \<Rightarrow> digest_val ures" where
  "compute H buf scope_start scope_end spans d =
     bind_res
       (case d_over d of
          Star \<Rightarrow>
            bind_res (slice_res buf scope_start (fst (d_field d))) (\<lambda>pre.
            bind_res (slice_res buf (snd (d_field d)) scope_end) (\<lambda>post.
              Inr (update post (update_zeros (snd (d_field d) - fst (d_field d))
                     (update pre (hasher_new (d_algo d)))))))
        | Spans idxs \<Rightarrow> fold_res (feed_span buf spans) idxs (hasher_new (d_algo d)))
       (\<lambda>h. Inr (finalize H h))"

definition check_deferred :: "hashes \<Rightarrow> bytes \<Rightarrow> nat \<Rightarrow> nat \<Rightarrow> (nat \<times> nat) list \<Rightarrow> deferred \<Rightarrow> unit \<Rightarrow> unit ures" where
  "check_deferred H buf scope_start scope_end spans d u =
     (if \<not> d_verify d then Inr ()
      else bind_res (compute H buf scope_start scope_end spans d) (\<lambda>computed.
        if computed \<noteq> d_read d
        then Inl (Fail (ufail_seg (SegField (d_key d)) (invalid_at KChecksum (fst (d_field d)))))
        else Inr ()))"

section \<open>Values without recursion\<close>

definition insert_key :: "('v, 'm, 'l) builder \<Rightarrow> key \<Rightarrow> 'v \<Rightarrow> 'm \<Rightarrow> 'm" where
  "insert_key B k v m = (case key_name k of Some n \<Rightarrow> b_map_set B m n v | None \<Rightarrow> m)"

definition read_fixed_item ::
    "('v, 'm, 'l) uenv \<Rightarrow> fixed_item \<Rightarrow> nat \<Rightarrow> frame list \<Rightarrow> ('v \<times> frame list) ures" where
  "read_fixed_item E item base frames =
     (let pos = base + fi_off item; buf = ue_buf E; B = ue_builder E in
      case fi_kind item of
        FInt prim be ex _ \<Rightarrow>
          (let w = prim_width prim in
           bind_res (slice_res buf pos (pos + w)) (\<lambda>raw.
             let v = read_prim prim be raw in
             if ex \<noteq> None \<and> ex \<noteq> Some v then Inl (Fail (invalid_at KConst pos))
             else
               bind_res
                 (case fi_reg item of
                    None \<Rightarrow> Inr frames
                  | Some r \<Rightarrow>
                      if in_i64 v then set_reg frames r v else Inl (Fail (invalid_at KOverflow pos)))
                 (\<lambda>frames. bind_res (set_span frames (fi_span item) pos (pos + w))
                   (\<lambda>frames. Inr (b_int B v, frames)))))
      | F32 be \<Rightarrow>
          bind_res (slice_res buf pos (pos + 4)) (\<lambda>raw.
          bind_res (set_span frames (fi_span item) pos (pos + 4)) (\<lambda>frames.
            Inr (b_float B (widen (ucast (read_uint raw be))), frames)))
      | F64 be \<Rightarrow>
          bind_res (slice_res buf pos (pos + 8)) (\<lambda>raw.
          bind_res (set_span frames (fi_span item) pos (pos + 8)) (\<lambda>frames.
            Inr (b_float B (read_uint raw be), frames)))
      | FBool ex \<Rightarrow>
          bind_res (nth_res buf pos) (\<lambda>byte.
            let v = (byte \<noteq> 0) in
            if ex \<noteq> None \<and> ex \<noteq> Some v then Inl (Fail (invalid_at KConst pos))
            else bind_res (set_span frames (fi_span item) pos (pos + 1)) (\<lambda>frames.
              Inr (b_bool B v, frames)))
      | FRaw len ex \<Rightarrow>
          bind_res (slice_res buf pos (pos + len)) (\<lambda>raw.
            if ex \<noteq> None \<and> ex \<noteq> Some raw then Inl (Fail (invalid_at KConst pos))
            else bind_res (set_span frames (fi_span item) pos (pos + len)) (\<lambda>frames.
              Inr (b_bytes B raw, frames))))"

definition flag_value :: "('v, 'm, 'l) builder \<Rightarrow> 64 word \<Rightarrow> flag_item \<Rightarrow> 'v" where
  "flag_value B raw item =
     (let extracted = drop_bit (fl_shift item) (raw AND fl_mask item)
      in if fl_is_bool item then b_bool B (extracted \<noteq> 0) else b_int B (uint extracted))"

definition do_flags ::
    "('v, 'm, 'l) uenv \<Rightarrow> int_prim \<Rightarrow> bool \<Rightarrow> flag_item list \<Rightarrow> rest_policy \<Rightarrow> 64 word \<Rightarrow>
     nat \<Rightarrow> nat \<Rightarrow> ('v \<times> nat) ures" where
  "do_flags E prim be items rest rest_mask pos limit =
     (let w = prim_width prim; B = ue_builder E in
      bind_res (need (ue_buf E) pos limit w) (\<lambda>_.
      bind_res (slice_res (ue_buf E) pos (pos + w)) (\<lambda>raw_bytes.
        let raw = read_uint raw_bytes be;
            fmap = foldl (\<lambda>m item. b_map_set B m (fl_key item) (flag_value B raw item))
                     (b_map_new B (length items + 1)) items;
            leftover = raw AND rest_mask
        in case rest of
             Keep \<Rightarrow>
               Inr (b_map_finish B (b_map_set B fmap ''_rest'' (b_int B (uint leftover))), pos + w)
           | Strict \<Rightarrow>
               if leftover \<noteq> 0 then Inl (Fail (invalid_at KReservedBits pos))
               else Inr (b_map_finish B fmap, pos + w)
           | Ignore \<Rightarrow> Inr (b_map_finish B fmap, pos + w))))"

definition do_cstr ::
    "('v, 'm, 'l) uenv \<Rightarrow> nat \<Rightarrow> enc \<Rightarrow> nat \<Rightarrow> nat \<Rightarrow> ('v \<times> nat) ures" where
  "do_cstr E mx enc pos limit =
     (let buf = ue_buf E; window = limit - pos; scan = min window (saturating_add mx 1) in
      bind_res (slice_res buf pos (pos + scan)) (\<lambda>scanned.
        case position (\<lambda>b. b = 0) scanned of
          Some i \<Rightarrow>
            bind_res (slice_res buf pos (pos + i)) (\<lambda>raw.
            bind_res (ok_or (invalid_at KDecode pos) (decode raw enc)) (\<lambda>s.
              Inr (b_string (ue_builder E) s, pos + i + 1)))
        | None \<Rightarrow>
            if mx < window then Inl (Fail (invalid_at KLimit pos))
            else if limit = length buf then Inl (Fail (Incomplete 1))
            else Inl (Fail (invalid_at KUnterminated pos))))"

section \<open>The steps of a struct's own fields\<close>

text \<open>The state a struct's opcodes thread: position, map so far, deferred digests, frames.\<close>

type_synonym 'm ustate = "nat \<times> 'm \<times> deferred list \<times> frame list"

definition fixed_step ::
    "('v, 'm, 'l) uenv \<Rightarrow> nat \<Rightarrow> fixed_item \<Rightarrow> 'm \<times> frame list \<Rightarrow> ('m \<times> frame list) ures" where
  "fixed_step E pos item st = (case st of (m, frames) \<Rightarrow>
     bind_res (map_fail (push_key (fi_key item)) (read_fixed_item E item pos frames)) (\<lambda>(v, frames).
       Inr (insert_key (ue_builder E) (fi_key item) v m, frames)))"

definition run_fixed ::
    "('v, 'm, 'l) uenv \<Rightarrow> nat \<Rightarrow> fixed_item list \<Rightarrow> nat \<Rightarrow> 'm ustate \<Rightarrow> 'm ustate ures" where
  "run_fixed E width items limit st = (case st of (pos, m, deferred, frames) \<Rightarrow>
     bind_res (need (ue_buf E) pos limit width) (\<lambda>_.
     bind_res (fold_res (fixed_step E pos) items (m, frames)) (\<lambda>(m, frames).
       Inr (pos + width, m, deferred, frames))))"

definition bit_item_step ::
    "('v, 'm, 'l) uenv \<Rightarrow> nat \<Rightarrow> bit_item \<Rightarrow> nat \<times> 'm \<times> frame list \<Rightarrow> (nat \<times> 'm \<times> frame list) ures" where
  "bit_item_step E pos item st = (case st of (bitpos, m, frames) \<Rightarrow>
     bind_res (read_bits (ue_buf E) pos bitpos item) (\<lambda>v.
     bind_res
       (case bi_reg item of
          None \<Rightarrow> Inr frames
        | Some r \<Rightarrow>
            if in_i64 v then set_reg frames r v
            else Inl (Fail (push_key (bi_key item) (invalid_at KOverflow pos))))
       (\<lambda>frames.
         Inr (bitpos + bi_width item, insert_key (ue_builder E) (bi_key item) (b_int (ue_builder E) v) m, frames))))"

definition run_bits ::
    "('v, 'm, 'l) uenv \<Rightarrow> nat \<Rightarrow> bit_item list \<Rightarrow> nat \<Rightarrow> 'm ustate \<Rightarrow> 'm ustate ures" where
  "run_bits E nbytes items limit st = (case st of (pos, m, deferred, frames) \<Rightarrow>
     bind_res (need (ue_buf E) pos limit nbytes) (\<lambda>_.
     bind_res (fold_res (bit_item_step E pos) items (0, m, frames)) (\<lambda>(_, m, frames).
       Inr (pos + nbytes, m, deferred, frames))))"

definition run_digest ::
    "('v, 'm, 'l) uenv \<Rightarrow> algo \<Rightarrow> over \<Rightarrow> bool \<Rightarrow> bool \<Rightarrow> common \<Rightarrow> nat \<Rightarrow> 'm ustate \<Rightarrow> 'm ustate ures" where
  "run_digest E algo over verify be c limit st = (case st of (pos, m, deferred, frames) \<Rightarrow>
     (let w = width_bytes algo; B = ue_builder E in
      bind_res (map_fail (push_key (c_key c)) (need (ue_buf E) pos limit w)) (\<lambda>_.
      bind_res (slice_res (ue_buf E) pos (pos + w)) (\<lambda>raw.
        let (v, read) =
              (if is_int algo then (let u = read_uint raw be in (b_int B (uint u), DInt u))
               else (b_bytes B raw, DBytes raw))
        in bind_res (expect (key_name (c_key c))) (\<lambda>key.
           bind_res (set_span frames (c_span c) pos (pos + w)) (\<lambda>frames.
             Inr (pos + w, insert_key B (c_key c) v m,
                  deferred @ [\<lparr>d_algo = algo, d_over = over, d_verify = verify, d_read = read,
                     d_field = (pos, pos + w), d_key = key\<rparr>], frames)))))))"

text \<open>A value that takes its place in the map: the end of \<open>run_op\<close> for the other opcodes.\<close>

definition place_value ::
    "('v, 'm, 'l) uenv \<Rightarrow> common \<Rightarrow> ('v \<times> nat \<times> frame list) ures \<Rightarrow> 'm ustate \<Rightarrow> 'm ustate ures" where
  "place_value E c r st = (case st of (pos, m, deferred, _) \<Rightarrow>
     bind_res (map_fail (push_key (c_key c)) r) (\<lambda>(v, end, frames).
     bind_res (set_span frames (c_span c) pos end) (\<lambda>frames.
       Inr (end, insert_key (ue_builder E) (c_key c) v m, deferred, frames))))"

section \<open>Composite values\<close>

type_synonym 'v uvalue = "frame list \<Rightarrow> nat \<Rightarrow> nat \<Rightarrow> ('v \<times> nat \<times> frame list) ures"

definition do_nest ::
    "('v, 'm, 'l) uenv \<Rightarrow> 'v uvalue \<Rightarrow> len_src option \<Rightarrow> 'v uvalue" where
  "do_nest E run_struct sz frames pos limit =
     (case sz of
        None \<Rightarrow> run_struct frames pos limit
      | Some LenGreedy \<Rightarrow> panic
      | Some (LenExpr e _) \<Rightarrow>
          bind_res (eval_len frames e pos) (\<lambda>n.
          bind_res (need (ue_buf E) pos limit n) (\<lambda>_.
          bind_res (run_struct frames pos (pos + n)) (\<lambda>(v, end, frames).
            if end \<noteq> pos + n then Inl (Fail (invalid_at KTrailing end))
            else Inr (v, pos + n, frames)))))"

type_synonym 'l astate = "nat \<times> 'l \<times> frame list"

text \<open>One round of either loop of \<open>do_array\<close>.\<close>

definition array_step ::
    "('v, 'm, 'l) builder \<Rightarrow> 'v uvalue \<Rightarrow> nat \<Rightarrow> nat \<Rightarrow> 'l astate \<Rightarrow> 'l astate ures" where
  "array_step B elem limit i st = (case st of (pos, out, frames) \<Rightarrow>
     bind_res (map_fail (ufail_seg (SegIndex i)) (elem frames pos limit)) (\<lambda>(v, np, frames).
       Inr (np, b_list_push B out v, frames)))"

text \<open>The loop \<open>while pos < limit\<close>, which stops with \<open>Limit\<close> after \<open>max_count\<close> rounds.\<close>

function eof_loop ::
    "(nat \<Rightarrow> 'l astate \<Rightarrow> 'l astate ures) \<Rightarrow> nat \<Rightarrow> nat \<Rightarrow> nat \<Rightarrow> 'l astate \<Rightarrow> 'l astate ures" where
  "eof_loop step max_count limit i st = (case st of (pos, out, frames) \<Rightarrow>
     if pos < limit then
       (if max_count \<le> i then Inl (Fail (invalid_at KLimit pos))
        else bind_res (step i st) (eof_loop step max_count limit (i + 1)))
     else Inr st)"
  by pat_completeness auto
termination by (relation "measure (\<lambda>(_, max_count, _, i, _). max_count - i)") auto

declare eof_loop.simps [simp del]

lemma eof_loop_cong [fundef_cong]:
  assumes "\<And>i st. step i st = step' i st"
    and "max_count = max_count'" and "limit = limit'" and "i = i'" and "st = st'"
  shows "eof_loop step max_count limit i st = eof_loop step' max_count' limit' i' st'"
proof -
  have "step = step'" using assms(1) by (simp add: fun_eq_iff)
  then show ?thesis using assms by simp
qed

definition do_array ::
    "('v, 'm, 'l) uenv \<Rightarrow> 'v uvalue \<Rightarrow> count_src \<Rightarrow> nat \<Rightarrow> nat \<Rightarrow> 'v uvalue" where
  "do_array E elem count max_count elem_min frames pos limit =
     (let B = ue_builder E; finish = (\<lambda>(pos, out, frames). Inr (b_list_finish B out, pos, frames)) in
      case count of
        CountExpr e _ \<Rightarrow>
          bind_res (eval frames e pos) (\<lambda>n.
            if n < 0 then Inl (Fail (invalid_at KNegativeLen pos))
            else let n = nat n in
              if max_count < n then Inl (Fail (invalid_at KLimit pos))
              else let fit = (limit - pos) div max elem_min 1 + 1 in
                bind_res (fold_res (array_step B elem limit) [0..<n] (pos, b_list_new B (min n fit), frames))
                  finish)
      | UntilEof \<Rightarrow>
          bind_res (eof_loop (array_step B elem limit) max_count limit 0 (pos, b_list_new B 0, frames))
            finish)"

definition do_switch ::
    "(op \<Rightarrow> 'v uvalue) \<Rightarrow> expr \<Rightarrow> (int \<times> op) list \<Rightarrow> op option \<Rightarrow> 'v uvalue" where
  "do_switch op_value on cases dflt frames pos limit =
     bind_res (eval frames on pos) (\<lambda>tag.
       case switch_branch tag cases dflt of
         Some op \<Rightarrow> op_value op frames pos limit
       | None \<Rightarrow> Inl (Fail (invalid_at KNoCase pos)))"

lemma uvalue_ext: "(\<And>f p l. r f p l = r' f p l) \<Longrightarrow> r = (r' :: 'v uvalue)"
  by (simp add: fun_eq_iff)

lemma do_nest_cong [fundef_cong]:
  "(\<And>f p l. r f p l = r' f p l) \<Longrightarrow> do_nest E r sz frames pos limit = do_nest E r' sz frames pos limit"
  by (drule uvalue_ext) simp

lemma do_array_cong [fundef_cong]:
  "(\<And>f p l. r f p l = r' f p l) \<Longrightarrow>
     do_array E r count mc em frames pos limit = do_array E r' count mc em frames pos limit"
  by (drule uvalue_ext) simp

lemma do_switch_cong [fundef_cong]:
  assumes "cases = cases'" and "dflt = dflt'"
    and "\<And>tag op f p l. switch_branch tag cases' dflt' = Some op \<Longrightarrow> r op f p l = r' op f p l"
  shows "do_switch r on cases dflt frames pos limit = do_switch r' on cases' dflt' frames pos limit"
  using assms by (auto simp: do_switch_def intro!: bind_res_cong split: option.split)

section \<open>The walk\<close>

lemma size_prog_ops: "op \<in> set (prog_ops prog) \<Longrightarrow> size op < size prog"
  by (cases prog) (auto dest: size_op_in_program)

function
  run_struct :: "('v, 'm, 'l) uenv \<Rightarrow> program \<Rightarrow> 'v uvalue" and
  run_op :: "('v, 'm, 'l) uenv \<Rightarrow> op \<Rightarrow> nat \<Rightarrow> 'm ustate \<Rightarrow> 'm ustate ures" and
  op_value :: "('v, 'm, 'l) uenv \<Rightarrow> op \<Rightarrow> 'v uvalue" where
  "run_struct E prog frames pos limit =
     (if MAX_DEPTH \<le> length frames then Inl (Fail (invalid_at KDepth pos))
      else
        bind_res
          (fold_res (\<lambda>op st. run_op E op limit st) (prog_ops prog)
             (pos, b_map_new (ue_builder E) (length (prog_ops prog)), [], new_frame # frames))
          (\<lambda>(end, m, deferred, frames).
             case frames of
               [] \<Rightarrow> panic
             | f # rest \<Rightarrow>
                 bind_res
                   (fold_res (check_deferred (ue_hashes E) (ue_buf E) pos end (fr_spans f)) deferred ())
                   (\<lambda>_. Inr (b_map_finish (ue_builder E) m, end, rest))))"
| "run_op E op limit st =
     (case op of
        OpFixed width items \<Rightarrow> run_fixed E width items limit st
      | OpBitRun nbytes items \<Rightarrow> run_bits E nbytes items limit st
      | OpDigest algo over verify be c \<Rightarrow> run_digest E algo over verify be c limit st
      | OpCond pred thn c \<Rightarrow>
          (case st of (pos, m, deferred, frames) \<Rightarrow>
             bind_res (eval frames pred pos) (\<lambda>b.
               if b \<noteq> 0 then place_value E c (op_value E thn frames pos limit) st else Inr st))
      | _ \<Rightarrow>
          (case st of (pos, m, deferred, frames) \<Rightarrow>
             bind_res (expect (op_common op)) (\<lambda>c.
               place_value E c (op_value E op frames pos limit) st)))"
| "op_value E op frames pos limit =
     (let buf = ue_buf E; B = ue_builder E in
      case op of
        OpFixed width items \<Rightarrow>
          bind_res (need buf pos limit width) (\<lambda>_.
          bind_res (nth_res items 0) (\<lambda>item.
          bind_res (read_fixed_item E item pos frames) (\<lambda>(v, frames).
            Inr (v, pos + width, frames))))
      | OpBytes len mx _ \<Rightarrow>
          bind_res (resolve_len frames len mx pos limit) (\<lambda>n.
          bind_res (need buf pos limit n) (\<lambda>_.
          bind_res (slice_res buf pos (pos + n)) (\<lambda>raw.
            Inr (b_bytes B raw, pos + n, frames))))
      | OpStr len mx enc _ \<Rightarrow>
          bind_res (resolve_len frames len mx pos limit) (\<lambda>n.
          bind_res (need buf pos limit n) (\<lambda>_.
          bind_res (slice_res buf pos (pos + n)) (\<lambda>raw.
          bind_res (ok_or (invalid_at KDecode pos) (decode raw enc)) (\<lambda>s.
            Inr (b_string B s, pos + n, frames)))))
      | OpCStr mx enc _ \<Rightarrow>
          bind_res (do_cstr E mx enc pos limit) (\<lambda>(v, end). Inr (v, end, frames))
      | OpFlags prim be items rest rest_mask _ \<Rightarrow>
          bind_res (do_flags E prim be items rest rest_mask pos limit) (\<lambda>(v, end). Inr (v, end, frames))
      | OpNest prog sz _ \<Rightarrow> do_nest E (run_struct E prog) sz frames pos limit
      | OpArray count max_count elem elem_min _ \<Rightarrow>
          do_array E (op_value E elem) count max_count elem_min frames pos limit
      | OpSwitch on cases dflt _ \<Rightarrow> do_switch (op_value E) on cases dflt frames pos limit
      | OpBitRun _ _ \<Rightarrow> panic
      | OpDigest _ _ _ _ _ \<Rightarrow> panic
      | OpCond _ _ _ \<Rightarrow> panic)"
  by pat_completeness auto

termination
  by (relation "measure (\<lambda>x. case x of
        Inl (_, prog, _) \<Rightarrow> 2 * size prog
      | Inr (Inl (_, op, _)) \<Rightarrow> 2 * size op + 1
      | Inr (Inr (_, op, _)) \<Rightarrow> 2 * size op)")
     (auto dest: size_prog_ops size_switch_branch)

declare run_struct.simps [simp del] run_op.simps [simp del] op_value.simps [simp del]

section \<open>Top level\<close>

definition run_with ::
    "hashes \<Rightarrow> ('v, 'm, 'l) builder \<Rightarrow> program \<Rightarrow> bytes \<Rightarrow> nat \<Rightarrow> bool \<Rightarrow> bool \<Rightarrow> (unit, 'v outcome) res" where
  "run_with H B prog buf offset exact stream =
     (case run_struct \<lparr>ue_buf = buf, ue_builder = B, ue_hashes = H\<rparr> prog [] (min offset (length buf)) (length buf) of
        Inr (v, pos, _) \<Rightarrow>
          Inr (if exact \<and> pos \<noteq> length buf then OInvalid KTrailing pos [] else OOk v pos)
      | Inl (Fail (Incomplete n)) \<Rightarrow>
          Inr (if stream then OIncomplete n else OInvalid KTruncated (length buf) [])
      | Inl (Fail (Invalid i)) \<Rightarrow> Inr (OInvalid (inv_kind i) (inv_offset i) (format_path (inv_path i)))
      | Inl Panic \<Rightarrow> panic)"

definition run :: "hashes \<Rightarrow> program \<Rightarrow> bytes \<Rightarrow> nat \<Rightarrow> bool \<Rightarrow> bool \<Rightarrow> (unit, val_tree outcome) res" where
  "run H prog buf offset exact stream = run_with H value_builder prog buf offset exact stream"

end
