(* ===== verification/Schema.thy ===== *)
theory Schema
  imports Programs
begin

text \<open>
  The compiler's input, \<open>crates/rustruct/src/schema.rs\<close>: expressions, field types and fields,
  and the errors \<open>compile\<close> can return. A \<open>SchemaError\<close> of the code is a formatted message;
  here each place that builds one has a constructor holding the values the message shows.
\<close>

datatype (plugins only: code size) byte_order = Big | Little

datatype (plugins only: code size) binop =
    BAdd | BSub | BMul | BDiv | BShl | BShr | BAnd | BOr | BXor | BEq | BNe | BLt | BLe | BGt | BGe

datatype (plugins only: code size) expr_in =
    EImm int
  | EGreedy
  | ERef string
  | EBin binop expr_in expr_in

record crc_overrides =
  ov_poly :: "64 word option"
  ov_init :: "64 word option"
  ov_xorout :: "64 word option"
  ov_refin :: "bool option"
  ov_refout :: "bool option"

definition overrides_any :: "crc_overrides \<Rightarrow> bool" where
  "overrides_any ov \<longleftrightarrow>
     ov_poly ov \<noteq> None \<or> ov_init ov \<noteq> None \<or> ov_xorout ov \<noteq> None \<or>
     ov_refin ov \<noteq> None \<or> ov_refout ov \<noteq> None"

datatype over_in = StarIn | NamesIn "string list"

datatype (plugins only: code size) type_in =
    TInt int_prim "byte_order option" "int option"
  | TFloat bool "byte_order option"
  | TBool "bool option"
  | TRaw "nat option" "bytes option"
  | TBytes expr_in "nat option"
  | TStr expr_in "nat option" string string
  | TCStr "nat option" string string
  | TBits nat bool
  | TFlags int_prim "byte_order option" "(string \<times> 64 word) list" string
  | TDigest string crc_overrides over_in bool
  | TStruct "field_in list" "byte_order option" "expr_in option"
  | TArray type_in "expr_in option" bool
  | TSwitch expr_in "(int \<times> type_in) list" "type_in option"
  | TCond expr_in type_in
and field_in = FieldIn (field_name: "string option") (field_ty: type_in)

datatype (plugins only: code) schema_error =
    EmptyName | DuplicateField string
  | RefToFlags string | RefNotInteger string | TooManyRegs | UnknownRef string
  | NegativeConstLen string int | NotInvertible string | ZeroCoefficient string
  | ExprTooDeep | GreedyInside
  | ConstOutOfRange int int_prim
  | RawLenMismatch | RawLenRequired
  | BitsWidth nat
  | FlagsBaseSigned | FlagsBadName string | FlagsDuplicate string | FlagsZeroMask string
  | FlagsMaskTooWide string | FlagsOverlap string | FlagsNonContiguous string
  | UnknownName name_error
  | DigestEmptyOver | DigestDuplicateOver string | DigestSelfOver
  | UnknownAlgo string | OverridesOnHash
  | SizeGreedy | SizeMismatch int nat
  | CountAndEof | CountRequired
  | NoBranches | DuplicateBranch int
  | ElemBits | ElemDigest | ElemCond
  | Unnamed string
  | ErrorsUnsupported string
  | BitAlignment nat
  | DigestUnknownOver string string | DigestUnspannable string string | TooManySpans
  | ConstOverflow | DivByConstZero | ConstShift
  | NestsTooDeep nat

type_synonym 'a sres = "(schema_error, 'a) res"

end
