(* ===== verification/Lowering.thy ===== *)
theory Lowering
  imports Schema
begin

text \<open>
  Expressions on their way from the schema to the program, the pure part of
  \<open>crates/rustruct/src/compile.rs\<close>: constant folding, the linear analysis behind derived
  lengths, the postfix order of \<open>emit_into\<close> and the stack depth it needs. Their reference is
  \<open>ieval\<close>, the meaning of a schema expression over the values of the fields it names.
\<close>

section \<open>Constant folding and linear form\<close>

fun apply_const :: "binop \<Rightarrow> int \<Rightarrow> int \<Rightarrow> int sres" where
  "apply_const BAdd a b = (if in_i64 (a + b) then Inr (a + b) else Inl (Fail ConstOverflow))"
| "apply_const BSub a b = (if in_i64 (a - b) then Inr (a - b) else Inl (Fail ConstOverflow))"
| "apply_const BMul a b = (if in_i64 (a * b) then Inr (a * b) else Inl (Fail ConstOverflow))"
| "apply_const BDiv a b =
     (if b = 0 then Inl (Fail DivByConstZero)
      else if in_i64 (a sdiv b) then Inr (a sdiv b) else Inl (Fail ConstOverflow))"
| "apply_const BShl a b =
     (if \<not> (0 \<le> b \<and> b < 64) then Inl (Fail ConstShift) else Inr (as_i64 (push_bit (nat b) a)))"
| "apply_const BShr a b =
     (if \<not> (0 \<le> b \<and> b < 64) then Inl (Fail ConstShift) else Inr (drop_bit (nat b) a))"
| "apply_const BAnd a b = Inr (a AND b)"
| "apply_const BOr a b = Inr (a OR b)"
| "apply_const BXor a b = Inr (a XOR b)"
| "apply_const BEq a b = Inr (bool_i64 (a = b))"
| "apply_const BNe a b = Inr (bool_i64 (a \<noteq> b))"
| "apply_const BLt a b = Inr (bool_i64 (a < b))"
| "apply_const BLe a b = Inr (bool_i64 (a \<le> b))"
| "apply_const BGt a b = Inr (bool_i64 (a > b))"
| "apply_const BGe a b = Inr (bool_i64 (a \<ge> b))"

fun fold_expr :: "expr_in \<Rightarrow> expr_in sres" where
  "fold_expr (EImm n) = Inr (EImm n)"
| "fold_expr (ERef name) = Inr (ERef name)"
| "fold_expr EGreedy = Inl (Fail GreedyInside)"
| "fold_expr (EBin op l r) =
     bind_res (fold_expr l) (\<lambda>l'. bind_res (fold_expr r) (\<lambda>r'.
       (case (l', r') of
          (EImm a, EImm b) \<Rightarrow> bind_res (apply_const op a b) (\<lambda>v. Inr (EImm v))
        | _ \<Rightarrow> Inr (EBin op l' r'))))"

record lin =
  lin_ref :: "(string \<times> int) option"
  lin_b :: int

definition checked_opt :: "int \<Rightarrow> int option" where
  "checked_opt x = (if in_i64 x then Some x else None)"

text \<open>
  The three operators \<open>linear\<close> accepts, each an arm of its \<open>match op\<close>. \<open>None\<close> is
  \<open>Err(NonLinear)\<close>.
\<close>

definition lin_add :: "lin \<Rightarrow> lin \<Rightarrow> lin option" where
  "lin_add ll rr =
     (case (lin_ref ll, lin_ref rr) of
        (Some _, Some _) \<Rightarrow> None
      | (x, y) \<Rightarrow>
          map_option (\<lambda>b. \<lparr>lin_ref = (case x of Some _ \<Rightarrow> x | None \<Rightarrow> y), lin_b = b\<rparr>)
            (checked_opt (lin_b ll + lin_b rr)))"

definition lin_sub :: "lin \<Rightarrow> lin \<Rightarrow> lin option" where
  "lin_sub ll rr =
     (let with_ref = (\<lambda>x. map_option (\<lambda>b. \<lparr>lin_ref = x, lin_b = b\<rparr>) (checked_opt (lin_b ll - lin_b rr)))
      in case (lin_ref ll, lin_ref rr) of
           (Some _, Some _) \<Rightarrow> None
         | (Some x, None) \<Rightarrow> with_ref (Some x)
         | (None, Some (n, a)) \<Rightarrow>
             (case checked_opt (- a) of None \<Rightarrow> None | Some a' \<Rightarrow> with_ref (Some (n, a')))
         | (None, None) \<Rightarrow> with_ref None)"

definition lin_scale :: "lin \<Rightarrow> int \<Rightarrow> lin option" where
  "lin_scale with_ref konst =
     (case (case lin_ref with_ref of
              Some (n, a) \<Rightarrow> map_option (\<lambda>a'. Some (n, a')) (checked_opt (a * konst))
            | None \<Rightarrow> Some None) of
        None \<Rightarrow> None
      | Some ref \<Rightarrow>
          map_option (\<lambda>b. \<lparr>lin_ref = ref, lin_b = b\<rparr>) (checked_opt (lin_b with_ref * konst)))"

definition lin_mul :: "lin \<Rightarrow> lin \<Rightarrow> lin option" where
  "lin_mul ll rr =
     (case (lin_ref ll, lin_ref rr) of
        (Some _, Some _) \<Rightarrow> None
      | (Some _, None) \<Rightarrow> lin_scale ll (lin_b rr)
      | (None, _) \<Rightarrow> lin_scale rr (lin_b ll))"

fun linear :: "expr_in \<Rightarrow> lin option" where
  "linear (EImm n) = Some \<lparr>lin_ref = None, lin_b = n\<rparr>"
| "linear (ERef name) = Some \<lparr>lin_ref = Some (name, 1), lin_b = 0\<rparr>"
| "linear EGreedy = None"
| "linear (EBin op l r) =
     (case linear l of None \<Rightarrow> None | Some ll \<Rightarrow>
      (case linear r of None \<Rightarrow> None | Some rr \<Rightarrow>
       (case op of
          BAdd \<Rightarrow> lin_add ll rr
        | BSub \<Rightarrow> lin_sub ll rr
        | BMul \<Rightarrow> lin_mul ll rr
        | _ \<Rightarrow> None)))"

section \<open>Postfix emission\<close>

fun ins_of :: "binop \<Rightarrow> ins" where
  "ins_of BAdd = IAdd" | "ins_of BSub = ISub" | "ins_of BMul = IMul" | "ins_of BDiv = IDiv"
| "ins_of BShl = IShl" | "ins_of BShr = IShr" | "ins_of BAnd = IAnd" | "ins_of BOr = IOr"
| "ins_of BXor = IXor" | "ins_of BEq = IEq" | "ins_of BNe = INe" | "ins_of BLt = ILt"
| "ins_of BLe = ILe" | "ins_of BGt = IGt" | "ins_of BGe = IGe"

text \<open>One step of \<open>postfix_depth\<close>: the current depth and the maximum so far.\<close>

definition depth_step :: "ins \<Rightarrow> nat \<times> nat \<Rightarrow> nat \<times> nat" where
  "depth_step i dm = (case dm of (depth, mx) \<Rightarrow>
     (case i of
        IImm _ \<Rightarrow> (depth + 1, max mx (depth + 1))
      | IReg _ \<Rightarrow> (depth + 1, max mx (depth + 1))
      | _ \<Rightarrow> (depth - 1, mx)))"

definition postfix_depth :: "ins list \<Rightarrow> nat" where
  "postfix_depth is = snd (fold depth_step is (0, 0))"

text \<open>The instruction order of \<open>emit_into\<close>, for a given assignment of registers to names.\<close>

fun postfix :: "(string \<Rightarrow> reg) \<Rightarrow> expr_in \<Rightarrow> ins list" where
  "postfix \<rho> (EImm n) = [IImm n]"
| "postfix \<rho> EGreedy = []"
| "postfix \<rho> (ERef name) = [IReg (\<rho> name)]"
| "postfix \<rho> (EBin op l r) = postfix \<rho> l @ postfix \<rho> r @ [ins_of op]"

section \<open>The meaning of a schema expression\<close>

fun ieval :: "(string \<Rightarrow> (kind, int) res) \<Rightarrow> expr_in \<Rightarrow> (kind, int) res" where
  "ieval env (EImm n) = Inr n"
| "ieval env EGreedy = panic"
| "ieval env (ERef name) = env name"
| "ieval env (EBin op l r) =
     bind_res (ieval env l) (\<lambda>a. bind_res (ieval env r) (\<lambda>b. apply_ins (ins_of op) a b))"

fun greedy_free :: "expr_in \<Rightarrow> bool" where
  "greedy_free EGreedy = False"
| "greedy_free (EBin op l r) = (greedy_free l \<and> greedy_free r)"
| "greedy_free _ = True"

fun refs :: "expr_in \<Rightarrow> string set" where
  "refs (ERef n) = {n}"
| "refs (EBin op l r) = refs l \<union> refs r"
| "refs _ = {}"

fun stack_need :: "expr_in \<Rightarrow> nat" where
  "stack_need (EBin op l r) = max (stack_need l) (1 + stack_need r)"
| "stack_need _ = 1"

section \<open>Folding keeps the meaning\<close>

lemma apply_const_apply_ins: "apply_const op a b = Inr v \<Longrightarrow> apply_ins (ins_of op) a b = Inr v"
  by (cases op) (auto simp: checked_def split: if_splits)

lemma fold_expr_EBinE:
  assumes "fold_expr (EBin op l r) = Inr e'"
  obtains (const) a b v where "fold_expr l = Inr (EImm a)" "fold_expr r = Inr (EImm b)"
      "apply_const op a b = Inr v" "e' = EImm v"
  | (bin) l' r' where "fold_expr l = Inr l'" "fold_expr r = Inr r'" "e' = EBin op l' r'"
      "\<not> ((\<exists>a. l' = EImm a) \<and> (\<exists>b. r' = EImm b))"
proof -
  from assms obtain l' r' where l: "fold_expr l = Inr l'" and r: "fold_expr r = Inr r'"
    and e': "(case (l', r') of
          (EImm a, EImm b) \<Rightarrow> bind_res (apply_const op a b) (\<lambda>v. Inr (EImm v))
        | _ \<Rightarrow> Inr (EBin op l' r')) = Inr e'"
    by (auto simp: bind_res_eq_Inr)
  show thesis
  proof (cases "(\<exists>a. l' = EImm a) \<and> (\<exists>b. r' = EImm b)")
    case True
    then show ?thesis using l r e' const by (auto simp: bind_res_eq_Inr)
  next
    case False
    then have "e' = EBin op l' r'" using e' by (cases l'; cases r') auto
    then show ?thesis using bin l r False by blast
  qed
qed

lemma fold_expr_ieval: "fold_expr e = Inr e' \<Longrightarrow> ieval env e' = ieval env e"
proof (induction e arbitrary: e')
  case (EBin op l r)
  from EBin.prems show ?case
  proof (cases rule: fold_expr_EBinE)
    case (const a b v)
    then have "ieval env l = Inr a" "ieval env r = Inr b"
      using EBin.IH(1) [OF const(1)] EBin.IH(2) [OF const(2)] by simp_all
    then show ?thesis using const by (simp add: apply_const_apply_ins)
  next
    case (bin l' r')
    then show ?thesis using EBin.IH by simp
  qed
qed auto

lemma fold_expr_greedy_free: "fold_expr e = Inr e' \<Longrightarrow> greedy_free e'"
proof (induction e arbitrary: e')
  case (EBin op l r)
  from EBin.prems show ?case by (cases rule: fold_expr_EBinE) (use EBin.IH in auto)
qed auto

lemma fold_expr_refs: "fold_expr e = Inr e' \<Longrightarrow> refs e' \<subseteq> refs e"
proof (induction e arbitrary: e')
  case (EBin op l r)
  from EBin.prems show ?case by (cases rule: fold_expr_EBinE) (use EBin.IH in fastforce)+
qed auto

text \<open>A folded expression without a reference is a single constant.\<close>

lemma fold_expr_closed: "fold_expr e = Inr e' \<Longrightarrow> refs e' = {} \<Longrightarrow> \<exists>n. e' = EImm n"
proof (induction e arbitrary: e')
  case (EBin op l r)
  from EBin.prems(1) show ?case by (cases rule: fold_expr_EBinE) (use EBin in auto)
qed auto

section \<open>The linear form is the meaning\<close>

lemma checked_opt_eq_Some [simp]: "checked_opt x = Some y \<longleftrightarrow> in_i64 x \<and> y = x"
  by (auto simp: checked_opt_def)

definition lin_value :: "(string \<Rightarrow> (kind, int) res) \<Rightarrow> lin \<Rightarrow> int \<Rightarrow> bool" where
  "lin_value env ln v \<longleftrightarrow>
     (case lin_ref ln of None \<Rightarrow> v = lin_b ln
      | Some (n, a) \<Rightarrow> \<exists>x. env n = Inr x \<and> v = a * x + lin_b ln)"

text \<open>The names a linear form reads: at most one.\<close>

definition lin_names :: "lin \<Rightarrow> string set" where
  "lin_names ln = (case lin_ref ln of None \<Rightarrow> {} | Some (n, _) \<Rightarrow> {n})"

lemma lin_add_sound:
  assumes "lin_add ll rr = Some ln"
  shows "lin_value env ll a \<Longrightarrow> lin_value env rr b \<Longrightarrow> lin_value env ln (a + b)"
    and "lin_names ln = lin_names ll \<union> lin_names rr"
  using assms
  by (auto simp: lin_add_def lin_value_def lin_names_def split: option.splits)

lemma lin_sub_sound:
  assumes "lin_sub ll rr = Some ln"
  shows "lin_value env ll a \<Longrightarrow> lin_value env rr b \<Longrightarrow> lin_value env ln (a - b)"
    and "lin_names ln = lin_names ll \<union> lin_names rr"
  using assms
  by (auto simp: lin_sub_def lin_value_def lin_names_def Let_def split: option.splits)

lemma lin_scale_sound:
  assumes "lin_scale ll k = Some ln"
  shows "lin_value env ll a \<Longrightarrow> lin_value env ln (a * k)"
    and "lin_names ln = lin_names ll"
  using assms
  by (auto simp: lin_scale_def lin_value_def lin_names_def algebra_simps split: option.splits)

lemma lin_mul_sound:
  assumes "lin_mul ll rr = Some ln"
  shows "lin_value env ll a \<Longrightarrow> lin_value env rr b \<Longrightarrow> lin_value env ln (a * b)"
    and "lin_names ln = lin_names ll \<union> lin_names rr"
proof -
  consider (left) "lin_ref rr = None" "lin_scale ll (lin_b rr) = Some ln"
    | (right) "lin_ref ll = None" "lin_scale rr (lin_b ll) = Some ln"
    using assms by (auto simp: lin_mul_def split: option.splits)
  then have "(lin_value env ll a \<longrightarrow> lin_value env rr b \<longrightarrow> lin_value env ln (a * b)) \<and>
      lin_names ln = lin_names ll \<union> lin_names rr"
  proof cases
    case left
    then show ?thesis using lin_scale_sound [OF left(2)]
      by (auto simp: lin_value_def [of _ rr] lin_names_def [of rr])
  next
    case right
    then show ?thesis using lin_scale_sound [OF right(2)]
      by (auto simp: lin_value_def [of _ ll] lin_names_def [of ll] mult.commute)
  qed
  then show "lin_value env ll a \<Longrightarrow> lin_value env rr b \<Longrightarrow> lin_value env ln (a * b)"
    and "lin_names ln = lin_names ll \<union> lin_names rr" by blast+
qed

lemma linear_EBinE:
  assumes "linear (EBin op l r) = Some ln"
  obtains ll rr where "linear l = Some ll" "linear r = Some rr"
    "(op = BAdd \<and> lin_add ll rr = Some ln) \<or> (op = BSub \<and> lin_sub ll rr = Some ln) \<or>
     (op = BMul \<and> lin_mul ll rr = Some ln)"
proof -
  from assms obtain ll rr where "linear l = Some ll" "linear r = Some rr"
    by (auto split: option.splits)
  with assms that show thesis by (cases op) simp_all
qed

lemma linear_value:
  "linear e = Some ln \<Longrightarrow> ieval env e = Inr v \<Longrightarrow> lin_value env ln v"
proof (induction e arbitrary: ln v)
  case (EBin op l r)
  from EBin.prems(1) obtain ll rr where lr: "linear l = Some ll" "linear r = Some rr"
    and op: "(op = BAdd \<and> lin_add ll rr = Some ln) \<or> (op = BSub \<and> lin_sub ll rr = Some ln) \<or>
     (op = BMul \<and> lin_mul ll rr = Some ln)" by (rule linear_EBinE)
  from EBin.prems(2) obtain a b where ab: "ieval env l = Inr a" "ieval env r = Inr b"
      "apply_ins (ins_of op) a b = Inr v"
    by (auto simp: bind_res_eq_Inr)
  have "lin_value env ll a" "lin_value env rr b" using EBin.IH lr ab by blast+
  then show ?case using op ab(3) lin_add_sound(1) lin_sub_sound(1) lin_mul_sound(1) by auto
qed (auto simp: lin_value_def)

lemma linear_refs: "linear e = Some ln \<Longrightarrow> refs e = lin_names ln"
proof (induction e arbitrary: ln)
  case (EBin op l r)
  from EBin.prems(1) obtain ll rr where lr: "linear l = Some ll" "linear r = Some rr"
    and op: "(op = BAdd \<and> lin_add ll rr = Some ln) \<or> (op = BSub \<and> lin_sub ll rr = Some ln) \<or>
     (op = BMul \<and> lin_mul ll rr = Some ln)" by (rule linear_EBinE)
  then show ?case using EBin.IH lin_add_sound(2) lin_sub_sound(2) lin_mul_sound(2) by auto
qed (auto simp: lin_names_def)

section \<open>The machine computes the meaning\<close>

lemma depth_step_simps [simp]:
  "depth_step (IImm n) (d, m) = (d + 1, max m (d + 1))"
  "depth_step (IReg r) (d, m) = (d + 1, max m (d + 1))"
  "depth_step (ins_of op) (d, m) = (d - 1, m)"
  by (simp_all add: depth_step_def) (cases op; simp)

lemma fold_depth_step:
  "greedy_free e \<Longrightarrow> fold depth_step (postfix \<rho> e) (d, m) = (d + 1, max m (d + stack_need e))"
proof (induction e arbitrary: d m)
  case (EBin op l r)
  then show ?case by (simp add: max.assoc max_add_distrib_right add.commute)
qed auto

lemma postfix_depth_eq: "greedy_free e \<Longrightarrow> postfix_depth (postfix \<rho> e) = stack_need e"
  by (simp add: postfix_depth_def fold_depth_step)

lemma stack_need_pos: "0 < stack_need e"
  by (induction e) auto

lemma exec_binary:
  "exec get (ins_of op) st =
     bind_res (pop_two st) (\<lambda>(a, b, sp). bind_res (apply_ins (ins_of op) a b) (\<lambda>v. push_cell v (fst st, sp)))"
  by (cases op) simp_all

definition pushed :: "int list \<Rightarrow> nat \<Rightarrow> int \<Rightarrow> int list \<Rightarrow> bool" where
  "pushed stack sp v stack' \<longleftrightarrow>
     length stack' = length stack \<and> take sp stack' = take sp stack \<and> stack' ! sp = v"

lemma push_cell_pushed:
  assumes "sp < length stack"
  shows "\<exists>stack'. push_cell v (stack, sp) = Inr (stack', sp + 1) \<and> pushed stack sp v stack'"
  using assms by (simp add: push_cell_def update_res_def pushed_def)

lemma pushed_twice:
  assumes "pushed stack sp a s1" "pushed s1 (sp + 1) b s2" "sp < length stack"
  shows "pushed stack sp a s2"
proof -
  have "take (sp + 1) s2 = take (sp + 1) s1" using assms(2) by (simp add: pushed_def)
  then have "take sp (take (sp + 1) s2) = take sp (take (sp + 1) s1)"
    and "take (sp + 1) s2 ! sp = take (sp + 1) s1 ! sp" by simp_all
  then have "take sp s2 = take sp s1" "s2 ! sp = s1 ! sp" by (simp_all add: take_take)
  then show ?thesis using assms by (simp add: pushed_def)
qed

lemma exec_postfix:
  assumes "greedy_free e" and "length stack = EXPR_STACK" and "sp + stack_need e \<le> EXPR_STACK"
  shows "case ieval (\<lambda>n. get (\<rho> n)) e of
       Inl x \<Rightarrow> fold_res (exec get) (postfix \<rho> e) (stack, sp) = Inl x
     | Inr v \<Rightarrow> \<exists>stack'. fold_res (exec get) (postfix \<rho> e) (stack, sp) = Inr (stack', sp + 1) \<and>
                 pushed stack sp v stack'"
  using assms
proof (induction e arbitrary: stack sp)
  case (EImm n)
  then show ?case using push_cell_pushed [of sp stack n] by auto
next
  case (ERef name)
  then show ?case
    using push_cell_pushed [of sp stack] by (cases "get (\<rho> name)") auto
next
  case (EBin op l r)
  let ?env = "\<lambda>n. get (\<rho> n)"
  have gl: "greedy_free l" and gr: "greedy_free r" using EBin.prems by simp_all
  have nl: "sp + stack_need l \<le> EXPR_STACK" and nr: "sp + 1 + stack_need r \<le> EXPR_STACK"
    using EBin.prems(3) by simp_all
  show ?case
  proof (cases "ieval ?env l")
    case (Inl x)
    then show ?thesis using EBin.IH(1) [OF gl EBin.prems(2) nl] by (simp add: fold_res_append)
  next
    case l: (Inr a)
    then obtain s1 where s1: "fold_res (exec get) (postfix \<rho> l) (stack, sp) = Inr (s1, sp + 1)"
      and p1: "pushed stack sp a s1"
      using EBin.IH(1) [OF gl EBin.prems(2) nl] by auto
    have len1: "length s1 = EXPR_STACK" using p1 EBin.prems(2) by (simp add: pushed_def)
    show ?thesis
    proof (cases "ieval ?env r")
      case (Inl x)
      then show ?thesis using l s1 EBin.IH(2) [OF gr len1 nr] by (simp add: fold_res_append)
    next
      case r: (Inr b)
      then obtain s2 where s2: "fold_res (exec get) (postfix \<rho> r) (s1, sp + 1) = Inr (s2, sp + 2)"
        and p2: "pushed s1 (sp + 1) b s2"
        using EBin.IH(2) [OF gr len1 nr] by auto
      have lt: "sp + 1 < length stack" using nr EBin.prems(2) stack_need_pos [of r] by linarith
      then have a2: "pushed stack sp a s2" using pushed_twice [OF p1 p2] by simp
      have len2: "length s2 = length stack" using a2 by (simp add: pushed_def)
      have pop: "pop_two (s2, sp + 2) = Inr (a, b, sp)"
        using lt len2 a2 p2 by (simp add: pop_two_def nth_res_def pushed_def)
      show ?thesis
      proof (cases "apply_ins (ins_of op) a b")
        case (Inl x)
        then show ?thesis using l r s1 s2 pop by (simp add: fold_res_append exec_binary)
      next
        case (Inr v)
        have "sp < length s2" using lt len2 by simp
        then obtain s3 where s3: "push_cell v (s2, sp) = Inr (s3, sp + 1)" and p3: "pushed s2 sp v s3"
          using push_cell_pushed [of sp s2 v] by blast
        then have "pushed stack sp v s3" using a2 by (simp add: pushed_def)
        then show ?thesis using l r s1 s2 s3 pop Inr by (auto simp: fold_res_append exec_binary)
      qed
    qed
  qed
qed simp

lemma eval_expr_postfix:
  assumes "greedy_free e" and "postfix_depth (postfix \<rho> e) \<le> EXPR_STACK"
  shows "eval_expr get (Expr (postfix \<rho> e)) = ieval (\<lambda>n. get (\<rho> n)) e"
proof -
  have "0 + stack_need e \<le> EXPR_STACK" using assms by (simp add: postfix_depth_eq)
  from exec_postfix [OF assms(1) _ this, of "replicate EXPR_STACK 0" get \<rho>]
  show ?thesis
    by (cases "ieval (\<lambda>n. get (\<rho> n)) e") (auto simp: eval_expr_def pushed_def nth_res_def EXPR_STACK_def)
qed

section \<open>Inverting a length\<close>

text \<open>
  The value \<open>apply_inv\<close> stores in a derived register is the one that makes the linear form
  equal to the actual length.
\<close>

lemma sdiv_exact:
  fixes d a :: int
  assumes "d smod a = 0"
  shows "a * (d sdiv a) = d"
  using assms sdiv_mult_smod_eq [of d a] by (simp add: mult.commute)

text \<open>
  A linear expression whose name has a value can fail in one way only: an intermediate result
  that leaves the range of \<open>i64\<close>.
\<close>

lemma linear_fails_by_overflow:
  assumes "linear e = Some ln" and "\<And>n. n \<in> refs e \<Longrightarrow> \<exists>x. env n = Inr x"
  shows "(\<exists>v. ieval env e = Inr v) \<or> ieval env e = Inl (Fail KOverflow)"
  using assms
proof (induction e arbitrary: ln)
  case (EBin op l r)
  from EBin.prems(1) obtain ll rr where lr: "linear l = Some ll" "linear r = Some rr"
    and op: "(op = BAdd \<and> lin_add ll rr = Some ln) \<or> (op = BSub \<and> lin_sub ll rr = Some ln) \<or>
     (op = BMul \<and> lin_mul ll rr = Some ln)" by (rule linear_EBinE)
  have "(\<exists>v. ieval env l = Inr v) \<or> ieval env l = Inl (Fail KOverflow)"
    and "(\<exists>v. ieval env r = Inr v) \<or> ieval env r = Inl (Fail KOverflow)"
    using EBin.IH lr EBin.prems(2) by (auto simp del: ex_simps)
  then show ?case using op by (auto simp: checked_def split: if_splits)
qed auto

section \<open>Properties\<close>

text \<open>
  C9: the compiled form of a schema expression computes its meaning: folding the constants,
  emitting the postfix code and running it on the eight-cell stack gives the value of the
  expression as written, or the same error, whenever the code passes the depth check of
  \<open>emit_expr\<close>.
\<close>

theorem compiled_expr_computes:
  assumes "fold_expr e = Inr e'" and "postfix_depth (postfix \<rho> e') \<le> EXPR_STACK"
  shows "eval_expr get (Expr (postfix \<rho> e')) = ieval (\<lambda>n. get (\<rho> n)) e"
  using eval_expr_postfix [OF fold_expr_greedy_free [OF assms(1)] assms(2), of get]
    fold_expr_ieval [OF assms(1), of "\<lambda>n. get (\<rho> n)"] by simp

theorem compiled_expr_computes_witness:
  "eval_expr (\<lambda>_. Inr 5) (Expr [IReg \<lparr>reg_up = 0, reg_idx = 1\<rparr>, IImm 12, IMul]) =
     ieval (\<lambda>_. Inr 5) (EBin BMul (ERef ''n'') (EBin BAdd (EImm 4) (EImm 8)))"
  using compiled_expr_computes [of "EBin BMul (ERef ''n'') (EBin BAdd (EImm 4) (EImm 8))"
      "EBin BMul (ERef ''n'') (EImm 12)" "\<lambda>_. \<lparr>reg_up = 0, reg_idx = 1\<rparr>" "\<lambda>_. Inr 5"]
  by (simp add: in_i64_iff postfix_depth_def EXPR_STACK_def depth_step_def)

text \<open>
  C10: inverting a length. When \<open>linear\<close> reads a length expression as \<open>a * name + b\<close> and the
  packer stores \<open>(actual - b) / a\<close>, with no remainder, in the field \<open>name\<close>, then evaluating
  the expression gives back the actual length, or fails with \<open>Overflow\<close>; it never gives
  another length.
\<close>

theorem inverted_length_reads_back:
  assumes "linear e = Some ln" and "lin_ref ln = Some (n, a)"
    and "(actual - lin_b ln) smod a = 0"
    and "env n = Inr ((actual - lin_b ln) sdiv a)"
  shows "ieval env e = Inr actual \<or> ieval env e = Inl (Fail KOverflow)"
proof -
  have "refs e = {n}" using linear_refs [OF assms(1)] assms(2) by (simp add: lin_names_def)
  then have "(\<exists>v. ieval env e = Inr v) \<or> ieval env e = Inl (Fail KOverflow)"
    using linear_fails_by_overflow [OF assms(1), of env] assms(4) by auto
  moreover have "v = actual" if "ieval env e = Inr v" for v
    using linear_value [OF assms(1) that] assms(2,4) sdiv_exact [OF assms(3)]
    by (auto simp: lin_value_def)
  ultimately show ?thesis by blast
qed

theorem inverted_length_reads_back_witness:
  "ieval (\<lambda>_. Inr 7) (EBin BSub (EBin BMul (ERef ''n'') (EImm 4)) (EImm 8)) = Inr 20 \<or>
   ieval (\<lambda>_. Inr 7) (EBin BSub (EBin BMul (ERef ''n'') (EImm 4)) (EImm 8)) = Inl (Fail KOverflow)"
  by (rule inverted_length_reads_back [where ln = "\<lparr>lin_ref = Some (''n'', 4), lin_b = - 8\<rparr>" and n = "''n''" and a = 4])
     (simp_all add: lin_sub_def lin_mul_def lin_scale_def checked_opt_def in_i64_iff Let_def
       signed_divide_int_def signed_modulo_int_def)

end
