(* ===== verification/Sizes.thy ===== *)
theory Sizes
  imports Programs
begin

text \<open>
  What the compiler measures of a program, at the end of \<open>crates/rustruct/src/compile.rs\<close>: the
  least number of bytes an opcode takes, its size where that is fixed, and the frames a program
  needs. \<open>Extent\<close> shows that the unpacker and the packer agree with the sizes.
\<close>

section \<open>Sizes\<close>

text \<open>A cast \<open>as usize\<close>.\<close>

definition as_usize :: "int \<Rightarrow> nat" where
  "as_usize n = nat (n mod 2 ^ 64)"

definition len_const :: "len_src \<Rightarrow> nat option" where
  "len_const len = (case len of LenExpr e None \<Rightarrow> map_option as_usize (as_const e) | _ \<Rightarrow> None)"

fun op_min :: "op \<Rightarrow> nat" where
  "op_min (OpFixed width _) = width"
| "op_min (OpBytes len _ _) = (case len_const len of Some n \<Rightarrow> n | None \<Rightarrow> 0)"
| "op_min (OpStr len _ _ _) = (case len_const len of Some n \<Rightarrow> n | None \<Rightarrow> 0)"
| "op_min (OpCStr _ _ _) = 1"
| "op_min (OpBitRun nbytes _) = nbytes"
| "op_min (OpFlags prim _ _ _ _ _) = prim_width prim"
| "op_min (OpDigest algo _ _ _ _) = width_bytes algo"
| "op_min (OpNest prog sz _) =
     (case sz of
        Some (LenExpr e None) \<Rightarrow>
          (case as_const e of Some n \<Rightarrow> as_usize n | None \<Rightarrow> prog_min_size prog)
      | _ \<Rightarrow> prog_min_size prog)"
| "op_min (OpArray count _ _ elem_min _) =
     (case count of
        CountExpr e None \<Rightarrow>
          (case as_const e of Some n \<Rightarrow> saturating_mul (as_usize n) elem_min | None \<Rightarrow> 0)
      | _ \<Rightarrow> 0)"
| "op_min (OpSwitch _ cases dflt _) =
     (let m = fold (\<lambda>c m. min m (op_min (snd c))) cases usize_max;
          m = (case dflt of Some d \<Rightarrow> min m (op_min d) | None \<Rightarrow> m)
      in if m = usize_max then 0 else m)"
| "op_min (OpCond _ _ _) = 0"

definition checked_mul :: "nat \<Rightarrow> nat \<Rightarrow> nat option" where
  "checked_mul a b = (if a * b \<le> usize_max then Some (a * b) else None)"

fun op_static :: "op \<Rightarrow> nat option" where
  "op_static (OpFixed width _) = Some width"
| "op_static (OpBytes len _ _) = len_const len"
| "op_static (OpStr len _ _ _) = len_const len"
| "op_static (OpCStr _ _ _) = None"
| "op_static (OpBitRun nbytes _) = Some nbytes"
| "op_static (OpFlags prim _ _ _ _ _) = Some (prim_width prim)"
| "op_static (OpDigest algo _ _ _ _) = Some (width_bytes algo)"
| "op_static (OpNest prog sz _) =
     (case sz of
        Some (LenExpr e None) \<Rightarrow> map_option as_usize (as_const e)
      | Some _ \<Rightarrow> None
      | None \<Rightarrow> prog_static_size prog)"
| "op_static (OpArray count _ elem _ _) =
     (case count of
        CountExpr e None \<Rightarrow>
          (case as_const e of
             Some n \<Rightarrow> (case op_static elem of Some s \<Rightarrow> checked_mul (as_usize n) s | None \<Rightarrow> None)
           | None \<Rightarrow> None)
      | _ \<Rightarrow> None)"
| "op_static (OpSwitch _ cases dflt _) =
     (let sizes = map (\<lambda>c. op_static (snd c)) cases in
      case sizes of
        Some first # rest \<Rightarrow>
          if list_all (\<lambda>s. s = Some first) rest \<and>
             (case dflt of Some d \<Rightarrow> op_static d = Some first | None \<Rightarrow> True)
          then Some first else None
      | _ \<Rightarrow> None)"
| "op_static (OpCond _ _ _) = None"

text \<open>The sums over a scope. The minimum saturates, the static size is added unchecked.\<close>

definition add_static :: "nat option \<Rightarrow> nat option \<Rightarrow> nat option" where
  "add_static a b = (case (a, b) of (Some a, Some b) \<Rightarrow> Some (wrapping_add a b) | _ \<Rightarrow> None)"

definition ops_min :: "op list \<Rightarrow> nat" where
  "ops_min ops = foldl (\<lambda>m op. saturating_add m (op_min op)) 0 ops"

definition ops_static :: "op list \<Rightarrow> nat option" where
  "ops_static ops = foldl (\<lambda>m op. add_static m (op_static op)) (Some 0) ops"

lemmas ops_size_defs = ops_min_def ops_static_def saturating_add_def add_static_def wrapping_add_def len_const_def usize_max_def

section \<open>Depth\<close>

text \<open>How many frames unpacking needs at its deepest.\<close>

fun frame_depth :: "program \<Rightarrow> nat" and op_depth :: "op \<Rightarrow> nat" where
  "frame_depth (Program ops _ _ _ _) = 1 + fold max (map op_depth ops) 0"
| "op_depth (OpNest prog _ _) = frame_depth prog"
| "op_depth (OpArray _ _ elem _ _) = op_depth elem"
| "op_depth (OpCond _ thn _) = op_depth thn"
| "op_depth (OpSwitch _ cases dflt _) =
     fold max (map (\<lambda>c. op_depth (snd c)) cases @ (case dflt of Some d \<Rightarrow> [op_depth d] | None \<Rightarrow> [])) 0"
| "op_depth _ = 0"

end
