(* ===== verification/Wellformed.thy ===== *)
theory Wellformed
  imports Wire Lowering Sizes
begin

text \<open>
  What the unpacker and the packer take for granted about a program, as executable checks:
  expressions fit the stack and read registers that exist, the items of a run lie inside it,
  registers and spans are in range, the sizes noted in
  programs and arrays are those of their opcodes, fields in a struct are named where the code expects it, and
  only opcodes that make a value stand in value positions. That compiled programs satisfy them
  is the subject of \<open>Compile_Safety\<close>.
\<close>

section \<open>Expressions\<close>

text \<open>\<open>d\<close> is the number of frames in scope, \<open>sp\<close> the stack pointer before the instructions.\<close>

definition reg_ok :: "nat \<Rightarrow> reg \<Rightarrow> bool" where
  "reg_ok d r \<longleftrightarrow> reg_up r < d \<and> reg_idx r < MAX_REGS"

fun ins_ok :: "nat \<Rightarrow> ins list \<Rightarrow> nat \<Rightarrow> bool" where
  "ins_ok d [] sp \<longleftrightarrow> 1 \<le> sp"
| "ins_ok d (i # is) sp \<longleftrightarrow>
     (case i of
        IImm n \<Rightarrow> in_i64 n \<and> sp < EXPR_STACK \<and> ins_ok d is (sp + 1)
      | IReg r \<Rightarrow> reg_ok d r \<and> sp < EXPR_STACK \<and> ins_ok d is (sp + 1)
      | _ \<Rightarrow> 2 \<le> sp \<and> ins_ok d is (sp - 1))"

definition expr_ok :: "nat \<Rightarrow> expr \<Rightarrow> bool" where
  "expr_ok d e \<longleftrightarrow> ins_ok d (expr_ins e) 0"

definition inv_ok :: "nat \<Rightarrow> inv \<Rightarrow> bool" where
  "inv_ok d iv \<longleftrightarrow> reg_ok d (inv_reg iv) \<and> inv_a iv \<noteq> 0 \<and> in_i64 (inv_a iv) \<and> in_i64 (inv_b iv)"

text \<open>A length without an inversion is a constant.\<close>

definition len_ok :: "nat \<Rightarrow> expr \<Rightarrow> inv option \<Rightarrow> bool" where
  "len_ok d e iv \<longleftrightarrow>
     expr_ok d e \<and> (case iv of Some iv \<Rightarrow> inv_ok d iv | None \<Rightarrow> as_const e \<noteq> None)"

fun len_src_ok :: "nat \<Rightarrow> len_src \<Rightarrow> bool" where
  "len_src_ok d LenGreedy \<longleftrightarrow> True"
| "len_src_ok d (LenExpr e iv) \<longleftrightarrow> len_ok d e iv"

fun count_src_ok :: "nat \<Rightarrow> count_src \<Rightarrow> bool" where
  "count_src_ok d UntilEof \<longleftrightarrow> True"
| "count_src_ok d (CountExpr e iv) \<longleftrightarrow> len_ok d e iv"

section \<open>Items\<close>

definition idx_ok :: "nat \<Rightarrow> nat option \<Rightarrow> bool" where
  "idx_ok n i \<longleftrightarrow> (case i of Some k \<Rightarrow> k < n | None \<Rightarrow> True)"

fun kind_ok :: "nat option \<Rightarrow> fix_kind \<Rightarrow> bool" where
  "kind_ok reg (FInt prim be ex derived) \<longleftrightarrow>
     (derived \<longrightarrow> reg \<noteq> None) \<and> (case ex of Some x \<Rightarrow> prim_valid prim x | None \<Rightarrow> True)"
| "kind_ok reg (FRaw len (Some b)) \<longleftrightarrow> length b = len"
| "kind_ok reg _ \<longleftrightarrow> True"

definition fixed_item_ok :: "nat \<Rightarrow> fixed_item \<Rightarrow> bool" where
  "fixed_item_ok width item \<longleftrightarrow>
     fi_off item + fix_width (fi_kind item) \<le> width \<and> kind_ok (fi_reg item) (fi_kind item) \<and>
     idx_ok MAX_REGS (fi_reg item) \<and> idx_ok MAX_SPANS (fi_span item)"

definition bit_item_ok :: "bit_item \<Rightarrow> bool" where
  "bit_item_ok item \<longleftrightarrow>
     0 < bi_width item \<and> bi_width item \<le> 64 \<and> idx_ok MAX_REGS (bi_reg item) \<and>
     (bi_derived item \<longrightarrow> bi_reg item \<noteq> None)"

definition bits_width :: "bit_item list \<Rightarrow> nat" where
  "bits_width items = sum_list (map bi_width items)"

definition common_ok :: "common \<Rightarrow> bool" where
  "common_ok c \<longleftrightarrow> idx_ok MAX_SPANS (c_span c)"

definition named :: "common \<Rightarrow> bool" where
  "named c \<longleftrightarrow> key_name (c_key c) \<noteq> None"

section \<open>Opcodes and programs\<close>

fun wf_prog :: "nat \<Rightarrow> program \<Rightarrow> bool"
and wf_op :: "nat \<Rightarrow> op \<Rightarrow> bool"
and wf_val :: "nat \<Rightarrow> op \<Rightarrow> bool" where
  "wf_prog d (Program ops _ _ mn st) \<longleftrightarrow>
     list_all (wf_op (Suc d)) ops \<and> mn = ops_min ops \<and> st = ops_static ops"
| "wf_op d op \<longleftrightarrow>
     (case op of
        OpFixed width items \<Rightarrow> list_all (fixed_item_ok width) items
      | OpBitRun nbytes items \<Rightarrow> list_all bit_item_ok items \<and> bits_width items \<le> 8 * nbytes
      | OpDigest algo over _ _ c \<Rightarrow>
          named c \<and> common_ok c \<and>
          (case over of Spans is \<Rightarrow> list_all (\<lambda>i. i < MAX_SPANS) is | Star \<Rightarrow> True)
      | OpCond pred thn c \<Rightarrow> named c \<and> common_ok c \<and> expr_ok d pred \<and> wf_val d thn
      | _ \<Rightarrow> (case op_common op of Some c \<Rightarrow> named c \<and> common_ok c \<and> wf_val d op | None \<Rightarrow> False))"
| "wf_val d op \<longleftrightarrow>
     (case op of
        OpFixed width items \<Rightarrow> items \<noteq> [] \<and> fixed_item_ok width (items ! 0)
      | OpBytes len mx c \<Rightarrow> len_src_ok d len
      | OpStr len mx e c \<Rightarrow> len_src_ok d len
      | OpCStr mx e c \<Rightarrow> True
      | OpFlags prim be items rest m c \<Rightarrow> True
      | OpNest prog sz c \<Rightarrow> wf_prog d prog \<and>
          (case sz of Some len \<Rightarrow> len \<noteq> LenGreedy \<and> len_src_ok d len | None \<Rightarrow> True)
      | OpArray count mc elem em c \<Rightarrow> count_src_ok d count \<and> em = op_min elem \<and> wf_val d elem
      | OpSwitch on cases dflt c \<Rightarrow> expr_ok d on \<and>
          list_all (\<lambda>x. wf_val d (snd x)) cases \<and>
          (case dflt of Some op \<Rightarrow> wf_val d op | None \<Rightarrow> True)
      | _ \<Rightarrow> False)"

lemma wf_switch_branch:
  assumes "switch_branch tag cases dflt = Some b" "wf_val d (OpSwitch on cases dflt c)"
  shows "wf_val d b"
  using switch_branch_cases [OF assms(1)] assms(2) by (force simp: list_all_iff)

end
