(* ===== verification/Unpack_Safety.thy ===== *)
theory Unpack_Safety
  imports Unpack Wellformed
begin

text \<open>
  Unpacking a well-formed program never panics, for any buffer and any builder, and moves
  forward inside its window: every position is between the one it started from and the limit.
\<close>

section \<open>The stack machine on checked expressions\<close>

definition stack_ok :: "int list \<times> nat \<Rightarrow> nat \<Rightarrow> bool" where
  "stack_ok st sp \<longleftrightarrow> length (fst st) = EXPR_STACK \<and> snd st = sp \<and> sp \<le> EXPR_STACK \<and>
     (\<forall>k < sp. in_i64 (fst st ! k))"

lemma safe_push_cell:
  "stack_ok st sp \<Longrightarrow> sp < EXPR_STACK \<Longrightarrow> in_i64 v \<Longrightarrow> safe (push_cell v st) (\<lambda>st. stack_ok st (sp + 1))"
proof -
  assume a: "stack_ok st sp" "sp < EXPR_STACK" "in_i64 v"
  obtain stack sp' where st: "st = (stack, sp')" by fastforce
  have ok: "length stack = EXPR_STACK" "sp' = sp" "\<forall>k < sp. in_i64 (stack ! k)"
    using a(1) by (auto simp: stack_ok_def st)
  then have "push_cell v st = Inr (stack[sp := v], sp + 1)"
    using a(2) by (simp add: push_cell_def st update_res_def)
  then show ?thesis using a(2,3) ok by (auto simp: stack_ok_def nth_list_update less_Suc_eq)
qed

lemma safe_apply_ins: "is_binary i \<Longrightarrow> in_i64 a \<Longrightarrow> in_i64 b \<Longrightarrow> safe (apply_ins i a b) in_i64"
  by (rule safeI, erule no_panic_apply_ins, rule apply_ins_in_i64)

lemma safe_exec_binary:
  assumes "is_binary i" and "stack_ok st sp" and "2 \<le> sp"
  shows "safe (exec get i st) (\<lambda>st. stack_ok st (sp - 1))"
proof -
  obtain stack sp' where st: "st = (stack, sp')" by fastforce
  have ok: "length stack = EXPR_STACK" "sp' = sp" "sp \<le> EXPR_STACK" "\<forall>k < sp. in_i64 (stack ! k)"
    using assms(2) by (auto simp: stack_ok_def st)
  have lt: "sp - 1 < EXPR_STACK" "sp - 2 < EXPR_STACK" using ok assms(3) by linarith+
  have pop: "pop_two st = Inr (stack ! (sp - 2), stack ! (sp - 1), sp - 2)"
    using assms(3) ok lt by (simp add: pop_two_def nth_res_def st)
  have "exec get i st = bind_res (apply_ins i (stack ! (sp - 2)) (stack ! (sp - 1)))
      (\<lambda>v. push_cell v (stack, sp - 2))"
    using assms(1) pop by (cases i) (simp_all add: is_binary_def st)
  moreover have "stack_ok (stack, sp - 2) (sp - 2)" using ok assms(3) by (auto simp: stack_ok_def)
  then have "safe (push_cell v (stack, sp - 2)) (\<lambda>st. stack_ok st (sp - 1))" if "in_i64 v" for v
    using safe_push_cell [of "(stack, sp - 2)" "sp - 2" v] that ok assms(3)
    by (simp add: numeral_2_eq_2 Suc_diff_Suc)
  ultimately show ?thesis
    using safe_apply_ins [OF assms(1), of "stack ! (sp - 2)" "stack ! (sp - 1)"] ok assms(3)
    by (auto intro: safe_bind)
qed

lemma safe_exec_list:
  assumes "\<And>r. reg_ok d r \<Longrightarrow> safe (get r) in_i64"
  shows "ins_ok d is sp \<Longrightarrow> stack_ok st sp \<Longrightarrow> safe (fold_res (exec get) is st) (\<lambda>st. \<exists>sp \<ge> 1. stack_ok st sp)"
proof (induction "is" arbitrary: sp st)
  case (Cons i "is")
  have step: "\<exists>sp'. ins_ok d is sp' \<and> safe (exec get i st) (\<lambda>st. stack_ok st sp')"
  proof (cases "is_binary i")
    case True
    then have "2 \<le> sp" "ins_ok d is (sp - 1)" using Cons.prems(1) by (cases i; simp add: is_binary_def)+
    then show ?thesis using safe_exec_binary [OF True Cons.prems(2)] by blast
  next
    case False
    then show ?thesis using Cons.prems assms
      by (cases i) (auto simp: is_binary_def intro!: exI [of _ "sp + 1"] safe_push_cell intro: safe_bind)
  qed
  then show ?case using Cons.IH by (auto intro: safe_bind)
qed auto

lemma safe_eval_expr:
  assumes "expr_ok d e" and "\<And>r. reg_ok d r \<Longrightarrow> safe (get r) in_i64"
  shows "safe (eval_expr get e) in_i64"
proof -
  have "stack_ok (replicate EXPR_STACK 0, 0) 0" by (simp add: stack_ok_def)
  then have "safe (fold_res (exec get) (expr_ins e) (replicate EXPR_STACK 0, 0)) (\<lambda>st. \<exists>sp \<ge> 1. stack_ok st sp)"
    using assms by (intro safe_exec_list) (auto simp: expr_ok_def)
  then show ?thesis
    unfolding eval_expr_def by (rule safe_bind) (auto simp: stack_ok_def)
qed

section \<open>Frames\<close>

definition spans_ok :: "nat \<Rightarrow> (nat \<times> nat) list \<Rightarrow> bool" where
  "spans_ok n spans \<longleftrightarrow> length spans = MAX_SPANS \<and> (\<forall>(s, e) \<in> set spans. s \<le> e \<and> e \<le> n)"

definition frame_ok :: "nat \<Rightarrow> frame \<Rightarrow> bool" where
  "frame_ok n f \<longleftrightarrow> length (fr_regs f) = MAX_REGS \<and> (\<forall>x \<in> set (fr_regs f). in_i64 x) \<and> spans_ok n (fr_spans f)"

text \<open>Evaluating or reading keeps the frames below the top as they are.\<close>

definition frames_ok :: "nat \<Rightarrow> nat \<Rightarrow> frame list \<Rightarrow> bool" where
  "frames_ok n d frames \<longleftrightarrow> length frames = d \<and> list_all (frame_ok n) frames"

lemma frame_ok_new [simp]: "frame_ok n new_frame"
  by (simp add: frame_ok_def spans_ok_def new_frame_def in_i64_iff)

lemma safe_get_reg: "frames_ok n d frames \<Longrightarrow> reg_ok d r \<Longrightarrow> safe (get_reg frames r) in_i64"
  by (auto simp: get_reg_def frames_ok_def reg_ok_def list_all_length frame_ok_def intro!: safe_bind [where P = "frame_ok n"])

lemma safe_eval: "frames_ok n d frames \<Longrightarrow> expr_ok d e \<Longrightarrow> safe (eval frames e pos) in_i64"
  by (auto simp: eval_def intro: safe_eval_expr safe_get_reg)

lemma safe_eval_len: "frames_ok n d frames \<Longrightarrow> expr_ok d e \<Longrightarrow> safe (eval_len frames e pos) (\<lambda>_. True)"
  by (auto simp: eval_len_def intro!: safe_bind [OF safe_eval])

lemma safe_set_reg:
  "frames_ok n (Suc d) frames \<Longrightarrow> i < MAX_REGS \<Longrightarrow> in_i64 v \<Longrightarrow>
     safe (set_reg frames i v) (frames_ok n (Suc d))"
  by (cases frames)
     (auto simp: set_reg_def frames_ok_def frame_ok_def dest!: set_update_subset_insert [THEN subsetD]
       intro!: safe_bind [where P = "\<lambda>regs. length regs = MAX_REGS \<and> (\<forall>x \<in> set regs. in_i64 x)"])

lemma safe_set_span:
  "frames_ok n (Suc d) frames \<Longrightarrow> idx_ok MAX_SPANS i \<Longrightarrow> s \<le> e \<Longrightarrow> e \<le> n \<Longrightarrow>
     safe (set_span frames i s e) (frames_ok n (Suc d))"
  by (cases frames; cases i)
     (auto simp: set_span_def frames_ok_def frame_ok_def spans_ok_def idx_ok_def
       dest!: set_update_subset_insert [THEN subsetD]
       intro!: safe_bind [where P = "spans_ok n"])

lemma safe_need: "limit \<le> length buf \<Longrightarrow> length buf < usize_max \<Longrightarrow> safe (need buf pos limit n) (\<lambda>_. pos + n \<le> limit)"
  by (auto simp: need_def saturating_add_def)

section \<open>Leaf values\<close>

text \<open>The bounds of a run: the buffer and the window, and the buffer's length below \<open>usize::MAX\<close>.\<close>

definition window_ok :: "('v, 'm, 'l) uenv \<Rightarrow> nat \<Rightarrow> nat \<Rightarrow> bool" where
  "window_ok E pos limit \<longleftrightarrow> pos \<le> limit \<and> limit \<le> length (ue_buf E) \<and> length (ue_buf E) < usize_max"

lemma safe_need_window:
  "window_ok E pos limit \<Longrightarrow> safe (need (ue_buf E) pos limit n) (\<lambda>_. pos + n \<le> limit)"
  by (auto simp: window_ok_def intro: safe_need)

lemma window_okD: "window_ok E pos limit \<Longrightarrow> limit \<le> length (ue_buf E)" "window_ok E pos limit \<Longrightarrow> pos \<le> limit"
  by (simp_all add: window_ok_def)

lemma safe_read_fixed_item:
  assumes "fixed_item_ok width item" and "base + width \<le> length (ue_buf E)"
    and "frames_ok (length (ue_buf E)) (Suc d) frames"
  shows "safe (read_fixed_item E item base frames) (\<lambda>(v, frames). frames_ok (length (ue_buf E)) (Suc d) frames)"
proof -
  let ?n = "length (ue_buf E)"
  have span: "safe (set_span fr (fi_span item) (base + fi_off item) (base + fi_off item + w)) (frames_ok ?n (Suc d))"
    if "w \<le> fix_width (fi_kind item)" "frames_ok ?n (Suc d) fr" for w fr
    using assms(1,2) that by (intro safe_set_span) (auto simp: fixed_item_ok_def)
  have fits: "base + fi_off item + fix_width (fi_kind item) \<le> ?n"
    using assms(1,2) by (simp add: fixed_item_ok_def)
  show ?thesis
  proof (cases "fi_kind item")
    case (FInt prim be ex derived)
    have reg: "safe (case fi_reg item of None \<Rightarrow> Inr frames
        | Some r \<Rightarrow> if in_i64 v then set_reg frames r v else Inl (Fail (invalid_at KOverflow p)))
        (frames_ok ?n (Suc d))" for v p
      using assms(1,3) by (auto simp: fixed_item_ok_def idx_ok_def intro: safe_set_reg split: option.splits)
    show ?thesis unfolding read_fixed_item_def Let_def FInt fix_kind.case
      by (rule safe_bind [where P = "\<lambda>_. True"])
        (use fits span in \<open>auto simp: FInt intro!: safe_bind [OF reg] safe_bind [OF span]\<close>)
  next
    case (F32 be)
    show ?thesis unfolding read_fixed_item_def Let_def F32 fix_kind.case
      by (rule safe_bind [where P = "\<lambda>_. True", rotated])
        (use fits assms(3) in \<open>auto simp: F32 intro!: safe_bind [OF span]\<close>)
  next
    case (F64 be)
    show ?thesis unfolding read_fixed_item_def Let_def F64 fix_kind.case
      by (rule safe_bind [where P = "\<lambda>_. True", rotated])
        (use fits assms(3) in \<open>auto simp: F64 intro!: safe_bind [OF span]\<close>)
  next
    case (FBool ex)
    show ?thesis unfolding read_fixed_item_def Let_def FBool fix_kind.case
      by (rule safe_bind [where P = "\<lambda>_. True", rotated])
        (use fits assms(3) in \<open>auto simp: FBool intro!: safe_bind [OF span [where w = 1, simplified]]\<close>)
  next
    case (FRaw len ex)
    show ?thesis unfolding read_fixed_item_def Let_def FRaw fix_kind.case
      by (rule safe_bind [where P = "\<lambda>_. True", rotated])
        (use fits assms(3) in \<open>auto simp: FRaw intro!: safe_bind [OF span]\<close>)
  qed
qed

text \<open>The state of a struct between two opcodes.\<close>

definition deferred_ok :: "nat \<Rightarrow> nat \<Rightarrow> deferred \<Rightarrow> bool" where
  "deferred_ok start pos df \<longleftrightarrow>
     start \<le> fst (d_field df) \<and> fst (d_field df) \<le> snd (d_field df) \<and> snd (d_field df) \<le> pos \<and>
     (case d_over df of Spans is \<Rightarrow> list_all (\<lambda>i. i < MAX_SPANS) is | Star \<Rightarrow> True)"

definition state_ok :: "('v, 'm, 'l) uenv \<Rightarrow> nat \<Rightarrow> nat \<Rightarrow> nat \<Rightarrow> 'm ustate \<Rightarrow> bool" where
  "state_ok E d start limit st = (case st of (pos, m, deferred, frames) \<Rightarrow>
     start \<le> pos \<and> window_ok E pos limit \<and> list_all (deferred_ok start pos) deferred \<and>
     frames_ok (length (ue_buf E)) (Suc d) frames)"

lemma deferred_ok_mono: "deferred_ok start pos df \<Longrightarrow> pos \<le> pos' \<Longrightarrow> deferred_ok start pos' df"
  by (simp add: deferred_ok_def)

lemma state_ok_advance:
  assumes "state_ok E d start limit (pos, m, deferred, frames)" and "pos \<le> end" and "end \<le> limit"
    and "frames_ok (length (ue_buf E)) (Suc d) frames'"
  shows "state_ok E d start limit (end, m', deferred, frames')"
  using assms by (auto simp: state_ok_def window_ok_def list_all_iff intro: deferred_ok_mono)

lemma safe_run_fixed:
  assumes "list_all (fixed_item_ok width) items" and "state_ok E d start limit st"
  shows "safe (run_fixed E width items limit st) (state_ok E d start limit)"
proof -
  obtain pos m deferred frames where st: "st = (pos, m, deferred, frames)" by (cases st)
  have w: "window_ok E pos limit" and fr: "frames_ok (length (ue_buf E)) (Suc d) frames"
    using assms(2) by (auto simp: st state_ok_def)
  have step: "safe (fixed_step E pos item s) (\<lambda>(m, frames). frames_ok (length (ue_buf E)) (Suc d) frames)"
    if "pos + width \<le> limit" "item \<in> set items" "(\<lambda>(m, frames). frames_ok (length (ue_buf E)) (Suc d) frames) s"
    for item s
    using that assms(1) window_okD(1) [OF w]
    by (cases s) (auto simp: fixed_step_def list_all_iff intro!: safe_bind_map_fail [OF safe_read_fixed_item [where d = d and width = width]])
  show ?thesis unfolding run_fixed_def st prod.case
  proof (rule safe_bind [OF safe_need_window [OF w]])
    assume le: "pos + width \<le> limit"
    have "safe (fold_res (fixed_step E pos) items (m, frames)) (\<lambda>(m, frames). frames_ok (length (ue_buf E)) (Suc d) frames)"
      by (rule safe_fold_res) (use step le fr in auto)
    then show "safe (bind_res (fold_res (fixed_step E pos) items (m, frames)) (\<lambda>(m, frames).
       Inr (pos + width, m, deferred, frames))) (state_ok E d start limit)"
      by (rule safe_bind) (use le in \<open>auto intro!: state_ok_advance [OF assms(2) [unfolded st]]\<close>)
  qed
qed

lemma safe_read_bits:
  assumes "bits_fit buf base (p + bi_width item)" and "bit_item_ok item"
  shows "safe (read_bits buf base p item) (\<lambda>_. True)"
  using assms by (auto simp: bit_item_ok_def intro!: safeI no_panic_read_bits)

lemma safe_run_bits:
  assumes items: "list_all bit_item_ok items" "bits_width items \<le> 8 * nbytes"
    and ok: "state_ok E d start limit st"
  shows "safe (run_bits E nbytes items limit st) (state_ok E d start limit)"
proof -
  obtain pos m deferred frames where st: "st = (pos, m, deferred, frames)" by (cases st)
  let ?fr = "frames_ok (length (ue_buf E)) (Suc d)"
  have w: "window_ok E pos limit" and fr: "?fr frames" using ok by (auto simp: st state_ok_def)
  have loop: "safe (fold_res (bit_item_step E pos) xs (bp, m, frames)) (\<lambda>(_, m, frames). ?fr frames)"
    if "pos + nbytes \<le> limit" "list_all bit_item_ok xs" "bp + bits_width xs \<le> 8 * nbytes" "?fr frames"
    for xs bp m frames
    using that(2-)
  proof (induction xs arbitrary: bp m frames)
    case (Cons x xs)
    have fit: "bits_fit (ue_buf E) pos (bp + bi_width x)"
      using that(1) Cons.prems(2) window_okD(1) [OF w] by (simp add: bits_fit_def bits_width_def)
    have reg: "safe (case bi_reg x of None \<Rightarrow> Inr frames
        | Some r \<Rightarrow> if in_i64 v then set_reg frames r v else Inl (Fail e)) ?fr" for v e
      using Cons.prems by (auto simp: bit_item_ok_def idx_ok_def intro: safe_set_reg split: option.splits)
    have step: "safe (bit_item_step E pos x (bp, m, frames)) (\<lambda>(b, m, frames). b = bp + bi_width x \<and> ?fr frames)"
      unfolding bit_item_step_def prod.case
      by (rule safe_bind [OF safe_read_bits [OF fit]])
        (use Cons.prems in \<open>auto intro!: safe_bind [OF reg]\<close>)
    show ?case unfolding fold_res.simps
      by (rule safe_bind [OF step]) (use Cons in \<open>auto simp: bits_width_def add.assoc\<close>)
  qed simp
  show ?thesis unfolding run_bits_def st prod.case
  proof (rule safe_bind [OF safe_need_window [OF w]])
    assume le: "pos + nbytes \<le> limit"
    have "safe (fold_res (bit_item_step E pos) items (0, m, frames)) (\<lambda>(_, m, frames). ?fr frames)"
      by (rule loop [OF le]) (use items fr in auto)
    then show "safe (bind_res (fold_res (bit_item_step E pos) items (0, m, frames)) (\<lambda>(_, m, frames).
       Inr (pos + nbytes, m, deferred, frames))) (state_ok E d start limit)"
      by (rule safe_bind) (use le in \<open>auto intro!: state_ok_advance [OF ok [unfolded st]]\<close>)
  qed
qed

lemma safe_run_digest:
  assumes c: "named c" "common_ok c"
    and over: "case over of Spans is \<Rightarrow> list_all (\<lambda>i. i < MAX_SPANS) is | Star \<Rightarrow> True"
    and ok: "state_ok E d start limit st"
  shows "safe (run_digest E algo over verify be c limit st) (state_ok E d start limit)"
proof -
  obtain pos m deferred frames where st: "st = (pos, m, deferred, frames)" by (cases st)
  let ?w = "width_bytes algo" and ?fr = "frames_ok (length (ue_buf E)) (Suc d)"
  have w: "window_ok E pos limit" and fr: "?fr frames" using ok by (auto simp: st state_ok_def)
  obtain name where name: "key_name (c_key c) = Some name" using c(1) by (auto simp: named_def)
  have need: "safe (map_fail (push_key (c_key c)) (need (ue_buf E) pos limit ?w)) (\<lambda>_. pos + ?w \<le> limit)"
    using safe_need_window [OF w] by simp
  have span: "safe (set_span frames (c_span c) pos (pos + ?w)) ?fr" if "pos + ?w \<le> limit"
    using c(2) that window_okD(1) [OF w] fr by (intro safe_set_span) (auto simp: common_ok_def)
  have old: "list_all (deferred_ok start (pos + ?w)) deferred"
    using ok by (auto simp: st state_ok_def list_all_iff intro: deferred_ok_mono)
  have new: "deferred_ok start (pos + ?w) \<lparr>d_algo = algo, d_over = over, d_verify = verify, d_read = read,
      d_field = (pos, pos + ?w), d_key = name\<rparr>" for read
    using ok over by (simp add: st state_ok_def deferred_ok_def)
  show ?thesis
    unfolding run_digest_def st prod.case Let_def
    by (rule safe_bind [OF need], rule safe_bind [where P = "\<lambda>_. True"])
      (use window_okD(1) [OF w] ok old new in
        \<open>auto simp: st name state_ok_def window_ok_def intro!: safe_bind [OF span] split: prod.splits\<close>)
qed

lemma safe_do_flags:
  assumes "window_ok E pos limit"
  shows "safe (do_flags E prim be items rest rest_mask pos limit) (\<lambda>(v, end). pos \<le> end \<and> end \<le> limit)"
  unfolding do_flags_def Let_def
  by (rule safe_bind [OF safe_need_window [OF assms]], rule safe_bind [where P = "\<lambda>_. True"])
    (use window_okD(1) [OF assms] in \<open>auto split: rest_policy.split\<close>)

lemma safe_do_cstr:
  assumes "window_ok E pos limit"
  shows "safe (do_cstr E mx enc pos limit) (\<lambda>(v, end). pos \<le> end \<and> end \<le> limit)"
proof -
  define scan where "scan = min (limit - pos) (saturating_add mx 1)"
  have le: "pos + scan \<le> limit" using window_okD(2) [OF assms] by (simp add: scan_def)
  then have len: "pos + scan \<le> length (ue_buf E)" using window_okD(1) [OF assms] by simp
  define scanned where "scanned = take scan (drop pos (ue_buf E))"
  have sl: "slice_res (ue_buf E) pos (pos + scan) = (Inr scanned :: bytes ures)"
    using len by (simp add: slice_res_def scanned_def)
  have "i < scan" if "position (\<lambda>b. b = 0) scanned = Some i" for i
    using position_Some [OF that] len by (simp add: scanned_def)
  then show ?thesis
    unfolding do_cstr_def Let_def scan_def [symmetric] sl bind_res_simps
    using le len by (fastforce split: option.split intro!: safe_bind [where P = "\<lambda>_. True"])
qed

section \<open>Digests\<close>

lemma safe_compute:
  assumes "deferred_ok start pos df" and "pos \<le> length buf" and "spans_ok (length buf) spans"
  shows "safe (compute H buf start pos spans df) (\<lambda>_. True)"
proof (cases "d_over df")
  case Star
  then show ?thesis using assms by (auto simp: compute_def deferred_ok_def intro!: safe_bind [where P = "\<lambda>_. True"])
next
  case (Spans ixs)
  have "safe (feed_span buf spans i h) (\<lambda>_. True)" if "i \<in> set ixs" for i h
  proof -
    have i: "i < length spans" using that assms(1,3) Spans by (auto simp: deferred_ok_def list_all_iff spans_ok_def)
    obtain s e where se: "spans ! i = (s, e)" by fastforce
    then have "(s, e) \<in> set spans" using i by (metis nth_mem)
    then have "s \<le> e" "e \<le> length buf" using assms(3) by (auto simp: spans_ok_def)
    then show ?thesis using i se by (simp add: feed_span_def nth_res_def slice_res_def)
  qed
  then have "safe (fold_res (feed_span buf spans) ixs h) (\<lambda>_. True)" for h
    by (intro safe_fold_res) auto
  then show ?thesis using Spans by (auto simp: compute_def intro!: safe_bind [where P = "\<lambda>_. True"])
qed

lemma safe_check_deferred:
  assumes "deferred_ok start pos df" and "pos \<le> length buf" and "spans_ok (length buf) spans"
  shows "safe (check_deferred H buf start pos spans df u) (\<lambda>_. True)"
  unfolding check_deferred_def
  by (cases "d_verify df") (auto intro!: safe_bind [OF safe_compute [OF assms]])

section \<open>Composite values\<close>

definition value_ok :: "('v, 'm, 'l) uenv \<Rightarrow> nat \<Rightarrow> nat \<Rightarrow> nat \<Rightarrow> 'v \<times> nat \<times> frame list \<Rightarrow> bool" where
  "value_ok E d pos limit r = (case r of (v, end, frames) \<Rightarrow>
     pos \<le> end \<and> end \<le> limit \<and> frames_ok (length (ue_buf E)) d frames)"

text \<open>What a recursive call promises, for frames of depth \<open>d\<close>.\<close>

definition safe_value :: "('v, 'm, 'l) uenv \<Rightarrow> nat \<Rightarrow> 'v uvalue \<Rightarrow> bool" where
  "safe_value E d f \<longleftrightarrow>
     (\<forall>frames pos limit. frames_ok (length (ue_buf E)) d frames \<longrightarrow> window_ok E pos limit \<longrightarrow>
        safe (f frames pos limit) (value_ok E d pos limit))"

lemma safe_valueD:
  "safe_value E d f \<Longrightarrow> frames_ok (length (ue_buf E)) d frames \<Longrightarrow> window_ok E pos limit \<Longrightarrow>
     safe (f frames pos limit) (value_ok E d pos limit)"
  by (simp add: safe_value_def)

lemma safe_do_nest:
  assumes rs: "safe_value E d rs" and sz: "case sz of Some len \<Rightarrow> len \<noteq> LenGreedy \<and> len_src_ok d len | None \<Rightarrow> True"
  shows "safe_value E d (do_nest E rs sz)"
  unfolding safe_value_def
proof (intro allI impI)
  fix frames pos limit
  assume fr: "frames_ok (length (ue_buf E)) d frames" and w: "window_ok E pos limit"
  show "safe (do_nest E rs sz frames pos limit) (value_ok E d pos limit)"
  proof (cases sz)
    case None
    then show ?thesis using safe_valueD [OF rs fr w] by (simp add: do_nest_def)
  next
    case (Some len)
    then obtain e iv where e: "sz = Some (LenExpr e iv)" "expr_ok d e"
      using sz by (cases len) (auto simp: len_ok_def)
    have inner: "safe (rs frames pos (pos + n)) (value_ok E d pos (pos + n))" if "pos + n \<le> limit" for n
      using that w by (intro safe_valueD [OF rs fr]) (simp add: window_ok_def)
    show ?thesis unfolding do_nest_def e(1) option.case len_src.case
      by (rule safe_bind [OF safe_eval_len [OF fr e(2)]], rule safe_bind [OF safe_need_window [OF w]],
          rule safe_bind [OF inner]) (auto simp: value_ok_def)
  qed
qed

definition astate_ok :: "('v, 'm, 'l) uenv \<Rightarrow> nat \<Rightarrow> nat \<Rightarrow> nat \<Rightarrow> 'b astate \<Rightarrow> bool" where
  "astate_ok E d start limit st = (case st of (pos, out, frames) \<Rightarrow>
     start \<le> pos \<and> window_ok E pos limit \<and> frames_ok (length (ue_buf E)) d frames)"

lemma safe_array_step:
  assumes "safe_value E d f" and "astate_ok E d start limit st"
  shows "safe (array_step B f limit i st) (astate_ok E d start limit)"
proof -
  obtain pos out frames where st: "st = (pos, out, frames)" by (cases st)
  have w: "window_ok E pos limit" "start \<le> pos" and fr: "frames_ok (length (ue_buf E)) d frames"
    using assms(2) by (auto simp: st astate_ok_def)
  show ?thesis unfolding array_step_def st prod.case
    by (rule safe_bind_map_fail [OF safe_valueD [OF assms(1) fr w(1)]])
      (use w in \<open>auto simp: value_ok_def astate_ok_def window_ok_def\<close>)
qed

lemma safe_eof_loop:
  assumes "\<And>i st. P st \<Longrightarrow> safe (step i st) P"
  shows "P st \<Longrightarrow> safe (eof_loop step mc limit i st) P"
  using assms
proof (induction step mc limit i st rule: eof_loop.induct)
  case (1 step mc limit i st)
  obtain pos out frames where st: "st = (pos, out, frames)" by (cases st)
  show ?case
  proof (cases "pos < limit \<and> \<not> mc \<le> i")
    case True
    then have "safe (bind_res (step i st) (eof_loop step mc limit (i + 1))) P"
      using 1 by (intro safe_bind [where P = P]) (auto simp: st)
    then show ?thesis using True by (subst eof_loop.simps) (simp add: st)
  next
    case False
    then show ?thesis using 1 by (subst eof_loop.simps) (auto simp: st)
  qed
qed

lemma safe_do_array:
  assumes f: "safe_value E d f" and count: "count_src_ok d count"
  shows "safe_value E d (do_array E f count mc em)"
  unfolding safe_value_def
proof (intro allI impI)
  fix frames pos limit
  assume fr: "frames_ok (length (ue_buf E)) d frames" and w: "window_ok E pos limit"
  have init: "astate_ok E d pos limit (pos, out, frames)" for out using fr w by (simp add: astate_ok_def)
  have fin: "value_ok E d pos limit (v, end, frames)"
    if "astate_ok E d pos limit (end, out, frames)" for v out "end" frames
    using that by (auto simp: astate_ok_def value_ok_def window_ok_def)
  note step = safe_array_step [OF f]
  show "safe (do_array E f count mc em frames pos limit) (value_ok E d pos limit)"
  proof (cases count)
    case (CountExpr e iv)
    then have e: "expr_ok d e" using count by (simp add: len_ok_def)
    have loop: "safe (fold_res (array_step B f limit) ixs (pos, out, frames)) (astate_ok E d pos limit)" for B ixs out
      by (rule safe_fold_res, rule init, rule step)
    show ?thesis unfolding do_array_def Let_def CountExpr count_src.case
      by (rule safe_bind [OF safe_eval [OF fr e]])
        (auto intro!: safe_bind [OF loop] dest: fin)
  next
    case UntilEof
    have loop: "safe (eof_loop (array_step B f limit) mc limit 0 (pos, out, frames)) (astate_ok E d pos limit)" for B out
      by (rule safe_eof_loop [OF step init])
    show ?thesis unfolding do_array_def Let_def UntilEof count_src.case
      by (rule safe_bind [OF loop]) (auto dest: fin)
  qed
qed

lemma safe_do_switch:
  assumes f: "\<And>tag op. switch_branch tag cases dflt = Some op \<Longrightarrow> safe_value E d (f op)" and on: "expr_ok d on"
  shows "safe_value E d (do_switch f on cases dflt)"
  unfolding safe_value_def
proof (intro allI impI)
  fix frames pos limit
  assume fr: "frames_ok (length (ue_buf E)) d frames" and w: "window_ok E pos limit"
  show "safe (do_switch f on cases dflt frames pos limit) (value_ok E d pos limit)"
    unfolding do_switch_def
    by (rule safe_bind [OF safe_eval [OF fr on]])
      (auto split: option.split intro: safe_valueD [OF f fr w])
qed

lemma safe_resolve_len:
  "frames_ok n d frames \<Longrightarrow> len_src_ok d len \<Longrightarrow> safe (resolve_len frames len mx pos limit) (\<lambda>_. True)"
  by (cases len) (auto simp: resolve_len_def len_ok_def intro!: safe_bind [OF safe_eval_len])

lemma safe_place_value:
  assumes c: "common_ok c" and r: "safe r (value_ok E (Suc d) pos limit)"
    and ok: "state_ok E d start limit (pos, m, deferred, frames)"
  shows "safe (place_value E c r (pos, m, deferred, frames)) (state_ok E d start limit)"
proof -
  have lim: "limit \<le> length (ue_buf E)" using ok by (simp add: state_ok_def window_ok_def)
  have span: "safe (set_span fr (c_span c) pos end) (frames_ok (length (ue_buf E)) (Suc d))"
    if "pos \<le> end" "end \<le> limit" "frames_ok (length (ue_buf E)) (Suc d) fr" for fr "end"
    using c that lim by (intro safe_set_span) (auto simp: common_ok_def)
  show ?thesis unfolding place_value_def prod.case
    by (rule safe_bind_map_fail [OF r])
      (auto simp: value_ok_def intro!: safe_bind [OF span] state_ok_advance [OF ok])
qed

section \<open>The walk\<close>

lemma fixed_item_ok_nth: "items \<noteq> [] \<Longrightarrow> nth_res items 0 = Inr (items ! 0)"
  by (simp add: nth_res_def)

lemma safe_fixed_value:
  assumes "items \<noteq> []" and "fixed_item_ok width (items ! 0)"
    and fr: "frames_ok (length (ue_buf E)) (Suc d) frames" and w: "window_ok E pos limit"
  shows "safe (bind_res (need (ue_buf E) pos limit width) (\<lambda>_.
     bind_res (nth_res items 0) (\<lambda>item.
     bind_res (read_fixed_item E item pos frames) (\<lambda>(v, frames). Inr (v, pos + width, frames)))))
     (value_ok E (Suc d) pos limit)"
  unfolding fixed_item_ok_nth [OF assms(1)] bind_res_simps
proof (rule safe_bind [OF safe_need_window [OF w]])
  assume "pos + width \<le> limit"
  then show "safe (bind_res (read_fixed_item E (items ! 0) pos frames) (\<lambda>(v, frames). Inr (v, pos + width, frames)))
      (value_ok E (Suc d) pos limit)"
    using window_okD(1) [OF w]
    by (intro safe_bind [OF safe_read_fixed_item [OF assms(2) _ fr]]) (auto simp: value_ok_def)
qed

lemma safe_blob:
  assumes fr: "frames_ok (length (ue_buf E)) d frames" and len: "len_src_ok d len" and w: "window_ok E pos limit"
    and k: "\<And>n raw. pos + n \<le> limit \<Longrightarrow> safe (k n raw) Q"
  shows "safe (bind_res (resolve_len frames len mx pos limit) (\<lambda>n.
     bind_res (need (ue_buf E) pos limit n) (\<lambda>_.
     bind_res (slice_res (ue_buf E) pos (pos + n)) (k n)))) Q"
  by (rule safe_bind [OF safe_resolve_len [OF fr len]], rule safe_bind [OF safe_need_window [OF w]],
      rule safe_bind [where P = "\<lambda>_. True"])
    (use window_okD(1) [OF w] k in auto)

lemma safe_end_pair:
  "safe r (\<lambda>(v, end). pos \<le> end \<and> end \<le> limit) \<Longrightarrow> frames_ok (length (ue_buf E)) d frames \<Longrightarrow>
     safe (bind_res r (\<lambda>(v, end). Inr (v, end, frames))) (value_ok E d pos limit)"
  by (erule safe_bind) (auto simp: value_ok_def)

lemma safe_run_struct_step:
  assumes ops: "\<And>op start limit st. op \<in> set (prog_ops prog) \<Longrightarrow> state_ok E d start limit st \<Longrightarrow>
      safe (run_op E op limit st) (state_ok E d start limit)"
  shows "safe_value E d (run_struct E prog)"
  unfolding safe_value_def
proof (intro allI impI)
  fix frames pos limit
  assume fr: "frames_ok (length (ue_buf E)) d frames" and w: "window_ok E pos limit"
  let ?init = "(pos, b_map_new (ue_builder E) (length (prog_ops prog)), [], new_frame # frames)"
  have init: "state_ok E d pos limit ?init" using fr w by (simp add: state_ok_def frames_ok_def)
  have loop: "safe (fold_res (\<lambda>op st. run_op E op limit st) (prog_ops prog) ?init) (state_ok E d pos limit)"
    by (rule safe_fold_res [where P = "state_ok E d pos limit"]) (use init ops in auto)
  show "safe (run_struct E prog frames pos limit) (value_ok E d pos limit)"
  proof (cases "MAX_DEPTH \<le> length frames")
    case True
    then show ?thesis by (simp add: run_struct.simps)
  next
    case False
    have check: "safe (fold_res (check_deferred (ue_hashes E) (ue_buf E) pos end (fr_spans f)) df ()) (\<lambda>_. True)"
      if "list_all (deferred_ok pos end) df" "end \<le> length (ue_buf E)" "frame_ok (length (ue_buf E)) f" for "end" f df
      by (rule safe_fold_res) (use that in \<open>auto simp: list_all_iff frame_ok_def intro!: safe_check_deferred\<close>)
    show ?thesis unfolding run_struct.simps using False
      by (simp only: if_False, intro safe_bind [OF loop])
        (auto simp: state_ok_def frames_ok_def value_ok_def window_ok_def intro!: safe_bind [OF check] split: list.splits)
  qed
qed

lemma safe_op_value_step:
  assumes wf: "wf_val (Suc d) op"
    and nest: "\<And>prog sz c. op = OpNest prog sz c \<Longrightarrow> safe_value E (Suc d) (run_struct E prog)"
    and elem: "\<And>count mc elem em c. op = OpArray count mc elem em c \<Longrightarrow> safe_value E (Suc d) (op_value E elem)"
    and branch: "\<And>on cases dflt c tag b. op = OpSwitch on cases dflt c \<Longrightarrow> switch_branch tag cases dflt = Some b \<Longrightarrow>
      safe_value E (Suc d) (op_value E b)"
  shows "safe_value E (Suc d) (op_value E op)"
  unfolding safe_value_def
proof (intro allI impI)
  fix frames pos limit
  assume fr: "frames_ok (length (ue_buf E)) (Suc d) frames" and w: "window_ok E pos limit"
  show "safe (op_value E op frames pos limit) (value_ok E (Suc d) pos limit)"
  proof (cases op)
    case (OpFixed width items)
    then show ?thesis using safe_fixed_value [OF _ _ fr w] wf by (simp add: op_value.simps)
  next
    case (OpBytes len mx c)
    then have "len_src_ok (Suc d) len" using wf by simp
    then show ?thesis unfolding OpBytes op_value.simps Let_def op.case
      by (rule safe_blob [OF fr _ w]) (use fr in \<open>simp add: value_ok_def\<close>)
  next
    case (OpStr len mx e c)
    then have "len_src_ok (Suc d) len" using wf by simp
    then show ?thesis unfolding OpStr op_value.simps Let_def op.case
      by (rule safe_blob [OF fr _ w])
        (use fr in \<open>auto simp: value_ok_def intro!: safe_bind [where P = "\<lambda>_. True"]\<close>)
  next
    case (OpCStr mx e c)
    then show ?thesis using safe_end_pair [OF safe_do_cstr [OF w] fr] by (simp add: op_value.simps)
  next
    case (OpFlags prim be items rest rest_mask c)
    then show ?thesis using safe_end_pair [OF safe_do_flags [OF w] fr] by (simp add: op_value.simps)
  next
    case (OpNest prog sz c)
    then have "case sz of Some len \<Rightarrow> len \<noteq> LenGreedy \<and> len_src_ok (Suc d) len | None \<Rightarrow> True" using wf by simp
    from safe_valueD [OF safe_do_nest [OF nest [OF OpNest] this] fr w]
    show ?thesis by (simp add: op_value.simps OpNest)
  next
    case (OpArray count mc elem_op em c)
    then have "count_src_ok (Suc d) count" using wf by simp
    from safe_valueD [OF safe_do_array [OF elem [OF OpArray] this] fr w]
    show ?thesis by (simp add: op_value.simps OpArray)
  next
    case (OpSwitch on cases dflt c)
    then have "expr_ok (Suc d) on" using wf by simp
    from safe_valueD [OF safe_do_switch [OF branch [OF OpSwitch] this] fr w]
    show ?thesis by (simp add: op_value.simps OpSwitch)
  qed (use wf in simp_all)
qed

lemma safe_run_op_step:
  assumes wf: "wf_op (Suc d) op" and ok: "state_ok E d start limit st"
    and val: "wf_val (Suc d) op \<Longrightarrow> safe_value E (Suc d) (op_value E op)"
    and thn: "\<And>pred thn c. op = OpCond pred thn c \<Longrightarrow> safe_value E (Suc d) (op_value E thn)"
  shows "safe (run_op E op limit st) (state_ok E d start limit)"
proof -
  obtain pos m deferred frames where st: "st = (pos, m, deferred, frames)" by (cases st)
  have fr: "frames_ok (length (ue_buf E)) (Suc d) frames" and w: "window_ok E pos limit"
    using ok by (simp_all add: st state_ok_def)
  note ok' = ok [unfolded st]
  have plain: "safe (bind_res (expect (op_common op)) (\<lambda>c.
      place_value E c (op_value E op frames pos limit) (pos, m, deferred, frames))) (state_ok E d start limit)"
    if "op_common op = Some c" "common_ok c" "wf_val (Suc d) op" for c
    using safe_place_value [OF that(2) safe_valueD [OF val [OF that(3)] fr w] ok'] that(1) by simp
  show ?thesis
  proof (cases op)
    case (OpFixed width items)
    then show ?thesis using safe_run_fixed [OF _ ok] wf by (simp add: run_op.simps)
  next
    case (OpBitRun nbytes items)
    then show ?thesis using safe_run_bits [OF _ _ ok] wf by (simp add: run_op.simps)
  next
    case (OpDigest algo over verify be c)
    then show ?thesis using safe_run_digest [OF _ _ _ ok] wf by (simp add: run_op.simps)
  next
    case (OpCond pred t c)
    then have e: "expr_ok (Suc d) pred" and c: "common_ok c" using wf by simp_all
    show ?thesis unfolding run_op.simps OpCond op.case st prod.case
      by (rule safe_bind [OF safe_eval [OF fr e]])
        (use ok' safe_place_value [OF c safe_valueD [OF thn [OF OpCond] fr w] ok'] in auto)
  qed (use wf plain in \<open>auto simp: run_op.simps st split: option.splits\<close>)
qed

lemma safe_walk:
  "(\<forall>prog d. 2 * size prog < n \<longrightarrow> wf_prog d prog \<longrightarrow> safe_value E d (run_struct E prog)) \<and>
   (\<forall>op d start limit st. 2 * size op + 1 < n \<longrightarrow> wf_op (Suc d) op \<longrightarrow> state_ok E d start limit st \<longrightarrow>
      safe (run_op E op limit st) (state_ok E d start limit)) \<and>
   (\<forall>op d. 2 * size op < n \<longrightarrow> wf_val (Suc d) op \<longrightarrow> safe_value E (Suc d) (op_value E op))"
proof (induction n)
  case (Suc n)
  then have ih3: "safe_value E (Suc d) (op_value E op)" if "2 * size op < n" "wf_val (Suc d) op" for op d
    using that by blast
  have 1: "safe_value E d (run_struct E prog)" if "2 * size prog < Suc n" "wf_prog d prog" for prog d
  proof (rule safe_run_struct_step)
    fix op start limit st
    assume op: "op \<in> set (prog_ops prog)" and ok: "state_ok E d start limit st"
    have "wf_op (Suc d) op" using that(2) op by (cases prog) (auto simp: list_all_iff)
    moreover have "2 * size op + 1 < n" using size_prog_ops [OF op] that(1) by simp
    ultimately show "safe (run_op E op limit st) (state_ok E d start limit)" using Suc ok by blast
  qed
  have 3: "safe_value E (Suc d) (op_value E op)" if "2 * size op < Suc n" "wf_val (Suc d) op" for op d
  proof (rule safe_op_value_step [OF that(2)])
    show "safe_value E (Suc d) (run_struct E prog)" if "op = OpNest prog sz c" for prog sz c
      using that \<open>2 * size op < Suc n\<close> \<open>wf_val (Suc d) op\<close> by (intro 1) simp_all
    show "safe_value E (Suc d) (op_value E elem)" if "op = OpArray count mc elem em c" for count mc elem em c
      using that \<open>2 * size op < Suc n\<close> \<open>wf_val (Suc d) op\<close> by (intro ih3) simp_all
    show "safe_value E (Suc d) (op_value E b)"
      if "op = OpSwitch on cases dflt c" and b: "switch_branch tag cases dflt = Some b" for on cases dflt c tag b
      using that(1) \<open>2 * size op < Suc n\<close> \<open>wf_val (Suc d) op\<close> size_switch_branch [OF b] wf_switch_branch [OF b]
      by (intro ih3) simp_all
  qed
  have 2: "safe (run_op E op limit st) (state_ok E d start limit)"
    if "2 * size op + 1 < Suc n" "wf_op (Suc d) op" "state_ok E d start limit st" for op d start limit st
    using that(2,3)
  proof (rule safe_run_op_step)
    show "safe_value E (Suc d) (op_value E op)" if "wf_val (Suc d) op"
      using that \<open>2 * size op + 1 < Suc n\<close> by (intro 3) simp_all
    show "safe_value E (Suc d) (op_value E thn)" if "op = OpCond pred thn c" for pred thn c
      using that \<open>2 * size op + 1 < Suc n\<close> \<open>wf_op (Suc d) op\<close> by (intro 3) simp_all
  qed
  show ?case using 1 2 3 by blast
qed simp

section \<open>Properties\<close>

lemma safe_run_struct: "wf_prog d prog \<Longrightarrow> safe_value E d (run_struct E prog)"
  using safe_walk [of "Suc (2 * size prog)" E] by blast

lemma safe_op_value: "wf_val (Suc d) op \<Longrightarrow> safe_value E (Suc d) (op_value E op)"
  using safe_walk [of "Suc (2 * size op)" E] by blast

lemma safe_run_op:
  "wf_op (Suc d) op \<Longrightarrow> state_ok E d start limit st \<Longrightarrow> safe (run_op E op limit st) (state_ok E d start limit)"
  using safe_walk [of "Suc (2 * size op + 1)" E] by blast

text \<open>What an outcome promises: the position is between the start and the end of the buffer.\<close>

definition outcome_ok :: "bytes \<Rightarrow> nat \<Rightarrow> bool \<Rightarrow> bool \<Rightarrow> 'v outcome \<Rightarrow> bool" where
  "outcome_ok buf offset exact stream r =
     (case r of
        OOk v pos \<Rightarrow> min offset (length buf) \<le> pos \<and> pos \<le> length buf \<and> (exact \<longrightarrow> pos = length buf)
      | OIncomplete n \<Rightarrow> stream
      | OInvalid k at path \<Rightarrow> True)"

lemma safe_run_top:
  assumes "wf_prog 0 prog" and "length buf < usize_max"
  shows "safe (run_struct \<lparr>ue_buf = buf, ue_builder = B, ue_hashes = H\<rparr> prog [] (min offset (length buf)) (length buf))
    (\<lambda>(v, pos, _). min offset (length buf) \<le> pos \<and> pos \<le> length buf)"
  by (rule safe_mono [OF safe_valueD [OF safe_run_struct [OF assms(1)], where pos = "min offset (length buf)" and limit = "length buf"]])
    (use assms(2) in \<open>auto simp: frames_ok_def window_ok_def value_ok_def\<close>)

lemma run_with_outcome:
  assumes "wf_prog 0 prog" and "length buf < usize_max"
  shows "\<exists>r. run_with H B prog buf offset exact stream = Inr r \<and> outcome_ok buf offset exact stream r"
  using safe_run_top [OF assms, of B H offset]
  by (auto simp: run_with_def safe_def outcome_ok_def split: sum.splits fault.splits ufail.splits)

text \<open>C3: unpacking a well-formed program returns, for every builder, buffer, offset and mode, an
  outcome and never panics; a decoded value ends between the offset and the end of the buffer,
  at its very end when \<open>exact\<close> asks for it, and \<open>Incomplete\<close> is answered only to a stream.\<close>

theorem unpack_never_panics:
  assumes "wf_prog 0 prog" and "length buf < usize_max"
  shows "\<exists>r. run_with H B prog buf offset exact stream = Inr r \<and> outcome_ok buf offset exact stream r"
  by (rule run_with_outcome [OF assms])

theorem unpack_never_panics_witness:
  "\<exists>r. run_with zero_hashes value_builder
      (Program [OpFixed 1 [\<lparr>fi_off = 0, fi_kind = FInt U8 True None True, fi_reg = Some 0, fi_span = None, fi_key = Named ''n''\<rparr>],
        OpBytes (LenExpr (Expr [IReg \<lparr>reg_up = 0, reg_idx = 0\<rparr>])
          (Some \<lparr>inv_reg = \<lparr>reg_up = 0, reg_idx = 0\<rparr>, inv_a = 1, inv_b = 0\<rparr>)) 10 (common_named ''b'')] 1 0 1 None)
      [2, 65, 66] 0 True False = Inr r \<and> outcome_ok [2, 65, 66] 0 True False r"
  by (rule unpack_never_panics)
    (simp_all add: fixed_item_ok_def idx_ok_def named_def common_ok_def expr_ok_def reg_ok_def ops_size_defs common_named_def
      len_ok_def inv_ok_def in_i64_iff MAX_REGS_def EXPR_STACK_def)

end
