(* ===== verification/Compile.thy ===== *)
theory Compile
  imports Lowering Sizes
begin

text \<open>
  The compiler, \<open>crates/rustruct/src/compile.rs\<close>: from schema fields to a program. The
  compiler's state is its stack of scopes, threaded through every function with the innermost
  scope at the head; the options are an argument. Every \<open>err(..)\<close> of the code is a
  \<open>schema_error\<close>, and the places marked \<open>unreachable!\<close> or \<open>expect\<close> are panics.
\<close>

record options =
  o_byteorder :: byte_order
  o_max_default :: nat
  o_max_count :: nat

definition default_options :: options where
  "default_options = \<lparr>o_byteorder = Big, o_max_default = 67108864, o_max_count = 16777216\<rparr>"

text \<open>Where a field physically lives.\<close>

datatype loc = LocFix nat nat | LocBit nat nat | LocOp nat

record sym =
  sy_name :: string
  sy_loc :: loc
  sy_refable :: bool
  sy_is_flags :: bool
  sy_is_const :: bool
  sy_spannable :: bool
  sy_reg :: "nat option"
  sy_span :: "nat option"
  sy_derived :: bool
  sy_len_referenced :: bool
  sy_used_in_on :: bool

record scope =
  sc_ops :: "op list"
  sc_syms :: "sym list"
  sc_nregs :: nat
  sc_nspans :: nat
  sc_digests :: "(nat \<times> over_in \<times> string) list"

datatype ref_ctx = RLen | ROn | RPred

definition empty_scope :: scope where
  "empty_scope = \<lparr>sc_ops = [], sc_syms = [], sc_nregs = 0, sc_nspans = 0, sc_digests = []\<rparr>"

type_synonym 'a cres = "('a \<times> scope list) sres"

section \<open>Patching\<close>

definition patch_fixed :: "nat \<Rightarrow> nat \<Rightarrow> (fixed_item \<Rightarrow> fixed_item) \<Rightarrow> scope \<Rightarrow> scope sres" where
  "patch_fixed i item g s =
     bind_res (nth_res (sc_ops s) i) (\<lambda>op.
       case op of
         OpFixed width items \<Rightarrow>
           bind_res (nth_res items item) (\<lambda>it.
             Inr (s\<lparr>sc_ops := (sc_ops s)[i := OpFixed width (items[item := g it])]\<rparr>))
       | _ \<Rightarrow> Inr s)"

definition patch_bit :: "nat \<Rightarrow> nat \<Rightarrow> (bit_item \<Rightarrow> bit_item) \<Rightarrow> scope \<Rightarrow> scope sres" where
  "patch_bit i item g s =
     bind_res (nth_res (sc_ops s) i) (\<lambda>op.
       case op of
         OpBitRun nbytes items \<Rightarrow>
           bind_res (nth_res items item) (\<lambda>it.
             Inr (s\<lparr>sc_ops := (sc_ops s)[i := OpBitRun nbytes (items[item := g it])]\<rparr>))
       | _ \<Rightarrow> Inr s)"

definition patch_reg :: "nat \<Rightarrow> nat \<Rightarrow> scope \<Rightarrow> scope sres" where
  "patch_reg pos idx s =
     bind_res (nth_res (sc_syms s) pos) (\<lambda>y.
       case sy_loc y of
         LocFix i item \<Rightarrow> patch_fixed i item (\<lambda>it. it\<lparr>fi_reg := Some idx\<rparr>) s
       | LocBit i item \<Rightarrow> patch_bit i item (\<lambda>it. it\<lparr>bi_reg := Some idx\<rparr>) s
       | LocOp _ \<Rightarrow> panic)"

fun mark_derived :: "fix_kind \<Rightarrow> fix_kind" where
  "mark_derived (FInt prim be ex _) = FInt prim be ex True"
| "mark_derived k = k"

definition patch_derived :: "nat \<Rightarrow> scope \<Rightarrow> scope sres" where
  "patch_derived pos s =
     bind_res (nth_res (sc_syms s) pos) (\<lambda>y.
       case sy_loc y of
         LocFix i item \<Rightarrow> patch_fixed i item (\<lambda>it. it\<lparr>fi_kind := mark_derived (fi_kind it)\<rparr>) s
       | LocBit i item \<Rightarrow> patch_bit i item (\<lambda>it. it\<lparr>bi_derived := True\<rparr>) s
       | LocOp _ \<Rightarrow> panic)"

definition set_sym :: "nat \<Rightarrow> (sym \<Rightarrow> sym) \<Rightarrow> scope \<Rightarrow> scope sres" where
  "set_sym pos g s =
     bind_res (nth_res (sc_syms s) pos) (\<lambda>y. Inr (s\<lparr>sc_syms := (sc_syms s)[pos := g y]\<rparr>))"

text \<open>\<open>op_common_mut\<close>, as a change of the opcode's \<open>Common\<close> where it has one.\<close>

fun map_common :: "(common \<Rightarrow> common) \<Rightarrow> op \<Rightarrow> op" where
  "map_common g (OpFixed width items) = OpFixed width items"
| "map_common g (OpBitRun nbytes items) = OpBitRun nbytes items"
| "map_common g (OpBytes len mx c) = OpBytes len mx (g c)"
| "map_common g (OpStr len mx e c) = OpStr len mx e (g c)"
| "map_common g (OpCStr mx e c) = OpCStr mx e (g c)"
| "map_common g (OpFlags prim be items rest rest_mask c) = OpFlags prim be items rest rest_mask (g c)"
| "map_common g (OpDigest algo over verify be c) = OpDigest algo over verify be (g c)"
| "map_common g (OpNest prog sz c) = OpNest prog sz (g c)"
| "map_common g (OpArray count max_count elem elem_min c) = OpArray count max_count elem elem_min (g c)"
| "map_common g (OpSwitch on cases dflt c) = OpSwitch on cases dflt (g c)"
| "map_common g (OpCond pred thn c) = OpCond pred thn (g c)"

section \<open>Names, symbols and references\<close>

definition with_top_scope :: "(scope \<Rightarrow> ('a \<times> scope) sres) \<Rightarrow> scope list \<Rightarrow> 'a cres" where
  "with_top_scope g scopes =
     (case scopes of
        [] \<Rightarrow> panic
      | s # rest \<Rightarrow> bind_res (g s) (\<lambda>(a, s). Inr (a, s # rest)))"

definition check_name :: "string option \<Rightarrow> scope list \<Rightarrow> (string option) sres" where
  "check_name name scopes =
     (case name of
        None \<Rightarrow> Inr None
      | Some n \<Rightarrow>
          if n = [] then Inl (Fail EmptyName)
          else (case scopes of
            [] \<Rightarrow> panic
          | s # _ \<Rightarrow>
              if list_ex (\<lambda>y. sy_name y = n) (sc_syms s) then Inl (Fail (DuplicateField n))
              else Inr (Some n)))"

definition add_sym ::
    "string option \<Rightarrow> loc \<Rightarrow> bool \<Rightarrow> bool \<Rightarrow> bool \<Rightarrow> bool \<Rightarrow> scope list \<Rightarrow> scope list sres" where
  "add_sym name l refable is_flags is_const spannable scopes =
     (case name of
        None \<Rightarrow> Inr scopes
      | Some n \<Rightarrow>
          (case scopes of
             [] \<Rightarrow> panic
           | s # rest \<Rightarrow>
               Inr (s\<lparr>sc_syms := sc_syms s @
                 [\<lparr>sy_name = n, sy_loc = l, sy_refable = refable, sy_is_flags = is_flags,
                   sy_is_const = is_const, sy_spannable = spannable, sy_reg = None, sy_span = None,
                   sy_derived = False, sy_len_referenced = False, sy_used_in_on = False\<rparr>]\<rparr> # rest)))"

text \<open>
  A fixed-width field joins the run of fixed fields before it. The run's width is a \<open>usize\<close>
  sum without a check.
\<close>

definition push_fixed :: "fix_kind \<Rightarrow> key \<Rightarrow> scope list \<Rightarrow> loc cres" where
  "push_fixed kind key = with_top_scope (\<lambda>s.
     let w = fix_width kind; ops = sc_ops s;
         item = (\<lambda>off. \<lparr>fi_off = off, fi_kind = kind, fi_reg = None, fi_span = None, fi_key = key\<rparr>);
         fresh = Inr (LocFix (length ops) 0, s\<lparr>sc_ops := ops @ [OpFixed w [item 0]]\<rparr>)
     in if ops = [] then fresh
        else case last ops of
          OpFixed width items \<Rightarrow>
            Inr (LocFix (length ops - 1) (length items),
                 s\<lparr>sc_ops := butlast ops @ [OpFixed (wrapping_add width w) (items @ [item width])]\<rparr>)
        | _ \<Rightarrow> fresh)"

definition push_op :: "op \<Rightarrow> scope list \<Rightarrow> loc cres" where
  "push_op op = with_top_scope (\<lambda>s. Inr (LocOp (length (sc_ops s)), s\<lparr>sc_ops := sc_ops s @ [op]\<rparr>))"

definition push_bits :: "bit_item \<Rightarrow> scope list \<Rightarrow> loc cres" where
  "push_bits item = with_top_scope (\<lambda>s.
     let ops = sc_ops s;
         fresh = Inr (LocBit (length ops) 0, s\<lparr>sc_ops := ops @ [OpBitRun 0 [item]]\<rparr>)
     in if ops = [] then fresh
        else case last ops of
          OpBitRun nbytes items \<Rightarrow>
            Inr (LocBit (length ops - 1) (length items),
                 s\<lparr>sc_ops := butlast ops @ [OpBitRun nbytes (items @ [item])]\<rparr>)
        | _ \<Rightarrow> fresh)"

text \<open>The body of the search loop of \<open>resolve_ref\<close>, once the scope and the symbol are found.\<close>

definition alloc_reg :: "nat \<Rightarrow> scope \<Rightarrow> scope sres" where
  "alloc_reg pos s =
     (if MAX_REGS \<le> sc_nregs s then Inl (Fail TooManyRegs)
      else let idx = sc_nregs s in
        bind_res (set_sym pos (\<lambda>y. y\<lparr>sy_reg := Some idx\<rparr>) (s\<lparr>sc_nregs := idx + 1\<rparr>)) (patch_reg pos idx))"

definition mark_ref :: "ref_ctx \<Rightarrow> sym \<Rightarrow> sym" where
  "mark_ref ctx y =
     (case ctx of
        RLen \<Rightarrow> if sy_is_const y then y else y\<lparr>sy_len_referenced := True\<rparr>
      | ROn \<Rightarrow> y\<lparr>sy_used_in_on := True\<rparr>
      | RPred \<Rightarrow> y)"

definition ref_in_scope :: "string \<Rightarrow> ref_ctx \<Rightarrow> nat \<Rightarrow> scope \<Rightarrow> (nat \<times> scope) sres" where
  "ref_in_scope name ctx pos s =
     bind_res (nth_res (sc_syms s) pos) (\<lambda>y.
       if sy_is_flags y then Inl (Fail (RefToFlags name))
       else if \<not> sy_refable y then Inl (Fail (RefNotInteger name))
       else
         bind_res (if sy_reg y = None then alloc_reg pos s else Inr s) (\<lambda>s.
         bind_res (set_sym pos (mark_ref ctx) s) (\<lambda>s.
         bind_res (nth_res (sc_syms s) pos) (\<lambda>y.
         bind_res (expect (sy_reg y)) (\<lambda>idx. Inr (idx, s))))))"

fun resolve_from :: "string \<Rightarrow> ref_ctx \<Rightarrow> nat \<Rightarrow> scope list \<Rightarrow> reg cres" where
  "resolve_from name ctx up [] = Inl (Fail (UnknownRef name))"
| "resolve_from name ctx up (s # rest) =
     (case position (\<lambda>y. sy_name y = name) (sc_syms s) of
        None \<Rightarrow> bind_res (resolve_from name ctx (up + 1) rest) (\<lambda>(r, rest). Inr (r, s # rest))
      | Some pos \<Rightarrow>
          bind_res (ref_in_scope name ctx pos s) (\<lambda>(idx, s).
            Inr (\<lparr>reg_up = up mod 256, reg_idx = idx\<rparr>, s # rest)))"

definition resolve_ref :: "string \<Rightarrow> ref_ctx \<Rightarrow> scope list \<Rightarrow> reg cres" where
  "resolve_ref name ctx scopes = resolve_from name ctx 0 scopes"

section \<open>Expressions\<close>

fun emit_into :: "expr_in \<Rightarrow> ref_ctx \<Rightarrow> ins list \<Rightarrow> scope list \<Rightarrow> (ins list) cres" where
  "emit_into (EImm n) ctx out scopes = Inr (out @ [IImm n], scopes)"
| "emit_into EGreedy ctx out scopes = Inl (Fail GreedyInside)"
| "emit_into (ERef name) ctx out scopes =
     bind_res (resolve_ref name ctx scopes) (\<lambda>(r, scopes). Inr (out @ [IReg r], scopes))"
| "emit_into (EBin op l r) ctx out scopes =
     bind_res (emit_into l ctx out scopes) (\<lambda>(out, scopes).
     bind_res (emit_into r ctx out scopes) (\<lambda>(out, scopes).
       Inr (out @ [ins_of op], scopes)))"

definition emit_expr :: "expr_in \<Rightarrow> ref_ctx \<Rightarrow> scope list \<Rightarrow> expr cres" where
  "emit_expr e ctx scopes =
     bind_res (emit_into e ctx [] scopes) (\<lambda>(out, scopes).
       if EXPR_STACK < postfix_depth out then Inl (Fail ExprTooDeep) else Inr (Expr out, scopes))"

definition build_len :: "expr_in \<Rightarrow> string \<Rightarrow> scope list \<Rightarrow> len_src cres" where
  "build_len e what scopes =
     (if e = EGreedy then Inr (LenGreedy, scopes)
      else
        bind_res (fold_expr e) (\<lambda>folded.
          case folded of
            EImm n \<Rightarrow>
              if n < 0 then Inl (Fail (NegativeConstLen what n))
              else Inr (LenExpr (expr_imm n) None, scopes)
          | _ \<Rightarrow>
              bind_res (ok_or (NotInvertible what) (linear folded)) (\<lambda>ln.
                case lin_ref ln of
                  None \<Rightarrow> panic
                | Some (name, a) \<Rightarrow>
                    if a = 0 then Inl (Fail (ZeroCoefficient what))
                    else
                      bind_res (resolve_ref name RLen scopes) (\<lambda>(r, scopes).
                      bind_res (emit_expr folded RLen scopes) (\<lambda>(ex, scopes).
                        Inr (LenExpr ex (Some \<lparr>inv_reg = r, inv_a = a, inv_b = lin_b ln\<rparr>), scopes))))))"

section \<open>Leaf types\<close>

definition named_only :: "string option \<Rightarrow> string \<Rightarrow> string sres" where
  "named_only name what = ok_or (Unnamed what) name"

definition is_big :: "byte_order option \<Rightarrow> byte_order \<Rightarrow> bool" where
  "is_big order bo = (case order of Some x \<Rightarrow> x = Big | None \<Rightarrow> bo = Big)"

definition parse_enc :: "string \<Rightarrow> string \<Rightarrow> enc sres" where
  "parse_enc encoding errors =
     (if errors \<noteq> ''strict'' then Inl (Fail (ErrorsUnsupported errors))
      else map_fail UnknownName (parse_name ENCODINGS encoding))"

definition override :: "'a option \<Rightarrow> 'a \<Rightarrow> 'a" where
  "override x dflt = (case x of Some a \<Rightarrow> a | None \<Rightarrow> dflt)"

definition parse_algo :: "string \<Rightarrow> crc_overrides \<Rightarrow> algo sres" where
  "parse_algo name ov =
     bind_res (ok_or (UnknownAlgo name) (preset name)) (\<lambda>a.
       case a of
         Crc spec \<Rightarrow>
           Inr (Crc (spec\<lparr>crc_poly := override (ov_poly ov) (crc_poly spec),
                         crc_init := override (ov_init ov) (crc_init spec),
                         crc_xorout := override (ov_xorout ov) (crc_xorout spec),
                         crc_refin := override (ov_refin ov) (crc_refin spec),
                         crc_refout := override (ov_refout ov) (crc_refout spec)\<rparr>))
       | other \<Rightarrow> if overrides_any ov then Inl (Fail OverridesOnHash) else Inr other)"

definition int_kind :: "int_prim \<Rightarrow> byte_order option \<Rightarrow> int option \<Rightarrow> byte_order \<Rightarrow> fix_kind sres" where
  "int_kind prim order const bo =
     (case const of
        Some c \<Rightarrow>
          if c < prim_min prim \<or> prim_max prim < c then Inl (Fail (ConstOutOfRange c prim))
          else Inr (FInt prim (is_big order bo) const False)
      | None \<Rightarrow> Inr (FInt prim (is_big order bo) const False))"

definition float_kind :: "bool \<Rightarrow> byte_order option \<Rightarrow> byte_order \<Rightarrow> fix_kind" where
  "float_kind is64 order bo = (if is64 then F64 (is_big order bo) else F32 (is_big order bo))"

definition raw_kind :: "nat option \<Rightarrow> bytes option \<Rightarrow> fix_kind sres" where
  "raw_kind len const =
     (case (len, const) of
        (Some l, Some c) \<Rightarrow> if l \<noteq> length c then Inl (Fail RawLenMismatch) else Inr (FRaw l const)
      | (Some l, None) \<Rightarrow> Inr (FRaw l const)
      | (None, Some c) \<Rightarrow> Inr (FRaw (length c) const)
      | (None, None) \<Rightarrow> Inl (Fail RawLenRequired))"

definition fixed1 :: "fix_kind \<Rightarrow> op" where
  "fixed1 kind =
     OpFixed (fix_width kind)
       [\<lparr>fi_off = 0, fi_kind = kind, fi_reg = None, fi_span = None, fi_key = Skip\<rparr>]"

definition trailing_zeros :: "64 word \<Rightarrow> nat" where
  "trailing_zeros w = length (takeWhile (\<lambda>i. \<not> bit w i) [0..<64])"

definition popcount :: "64 word \<Rightarrow> nat" where
  "popcount w = length (filter (bit w) [0..<64])"

text \<open>One mask of a flags field, checked against the base and the masks before it.\<close>

definition flag_mask_step ::
    "64 word \<Rightarrow> string \<times> 64 word \<Rightarrow> flag_item list \<times> 64 word \<Rightarrow> (flag_item list \<times> 64 word) sres" where
  "flag_mask_step base_mask nm st = (case (nm, st) of ((fname, m), (items, used)) \<Rightarrow>
     if fname = [] \<or> fname = ''_rest'' then Inl (Fail (FlagsBadName fname))
     else if list_ex (\<lambda>i. fl_key i = fname) items then Inl (Fail (FlagsDuplicate fname))
     else if m = 0 then Inl (Fail (FlagsZeroMask fname))
     else if m AND NOT base_mask \<noteq> 0 then Inl (Fail (FlagsMaskTooWide fname))
     else if m AND used \<noteq> 0 then Inl (Fail (FlagsOverlap fname))
     else
       let shift = trailing_zeros m; low = drop_bit shift m in
       if low AND (low + 1) \<noteq> 0 then Inl (Fail (FlagsNonContiguous fname))
       else Inr (items @ [\<lparr>fl_key = fname, fl_mask = m, fl_shift = shift, fl_is_bool = (popcount m = 1)\<rparr>],
                 used OR m))"

definition flags_op ::
    "int_prim \<Rightarrow> byte_order option \<Rightarrow> (string \<times> 64 word) list \<Rightarrow> string \<Rightarrow> byte_order \<Rightarrow> string \<Rightarrow> op sres" where
  "flags_op base order fnames rest bo name =
     (if prim_signed base then Inl (Fail FlagsBaseSigned)
      else
        let base_mask = (if prim_width base = 8 then - 1 else push_bit (prim_width base * 8) 1 - 1) in
        bind_res (fold_res (flag_mask_step base_mask) fnames ([], 0)) (\<lambda>(items, used).
        bind_res (map_fail UnknownName (parse_name REST_POLICIES rest)) (\<lambda>policy.
          Inr (OpFlags base (is_big order bo) items policy (base_mask AND NOT used) (common_named name)))))"

fun digest_names_ok :: "string \<Rightarrow> string list \<Rightarrow> string list \<Rightarrow> unit sres" where
  "digest_names_ok name seen [] = Inr ()"
| "digest_names_ok name seen (n # ns) =
     (if n \<in> set seen then Inl (Fail (DigestDuplicateOver n))
      else if n = name then Inl (Fail DigestSelfOver)
      else digest_names_ok name (seen @ [n]) ns)"

definition check_over :: "string \<Rightarrow> over_in \<Rightarrow> unit sres" where
  "check_over name over =
     (case over of
        StarIn \<Rightarrow> Inr ()
      | NamesIn ns \<Rightarrow> if ns = [] then Inl (Fail DigestEmptyOver) else digest_names_ok name [] ns)"

definition count_src_of ::
    "expr_in option \<Rightarrow> bool \<Rightarrow> scope list \<Rightarrow> count_src cres" where
  "count_src_of count until_eof scopes =
     (case (count, until_eof) of
        (Some _, True) \<Rightarrow> Inl (Fail CountAndEof)
      | (None, False) \<Rightarrow> Inl (Fail CountRequired)
      | (None, True) \<Rightarrow> Inr (UntilEof, scopes)
      | (Some e, False) \<Rightarrow>
          if e = EGreedy then Inr (UntilEof, scopes)
          else bind_res (build_len e ''array.count'' scopes) (\<lambda>(len, scopes).
            case len of
              LenExpr ex iv \<Rightarrow> Inr (CountExpr ex iv, scopes)
            | LenGreedy \<Rightarrow> Inr (UntilEof, scopes)))"

definition nest_size :: "expr_in option \<Rightarrow> scope list \<Rightarrow> (len_src option) cres" where
  "nest_size sz scopes =
     (case sz of
        None \<Rightarrow> Inr (None, scopes)
      | Some e \<Rightarrow>
          bind_res (build_len e ''struct.size'' scopes) (\<lambda>(len, scopes).
            if len = LenGreedy then Inl (Fail SizeGreedy) else Inr (Some len, scopes)))"

text \<open>A declared constant size must match a static body.\<close>

definition check_size :: "len_src option \<Rightarrow> program \<Rightarrow> unit sres" where
  "check_size sz prog =
     (case (sz, prog_static_size prog) of
        (Some (LenExpr e None), Some st) \<Rightarrow>
          (case as_const e of
             Some n \<Rightarrow> if n \<noteq> int st then Inl (Fail (SizeMismatch n st)) else Inr ()
           | None \<Rightarrow> Inr ())
      | _ \<Rightarrow> Inr ())"

section \<open>Closing a scope\<close>

definition derive_step :: "nat \<Rightarrow> scope \<Rightarrow> scope sres" where
  "derive_step pos s =
     bind_res (nth_res (sc_syms s) pos) (\<lambda>y.
       if sy_len_referenced y \<and> \<not> sy_used_in_on y \<and> \<not> sy_is_const y \<and> \<not> sy_derived y
       then bind_res (patch_derived pos s) (set_sym pos (\<lambda>y. y\<lparr>sy_derived := True\<rparr>))
       else Inr s)"

definition resolve_deferred_derives :: "scope \<Rightarrow> scope sres" where
  "resolve_deferred_derives s = fold_res derive_step [0..<length (sc_syms s)] s"

definition bit_total :: "bit_item list \<Rightarrow> nat" where
  "bit_total items = sum_list (map bi_width items)"

fun align_bit_runs :: "op list \<Rightarrow> op list sres" where
  "align_bit_runs [] = Inr []"
| "align_bit_runs (op # ops) =
     bind_res
       (case op of
          OpBitRun _ items \<Rightarrow>
            if bit_total items mod 8 \<noteq> 0 then Inl (Fail (BitAlignment (bit_total items)))
            else Inr (OpBitRun (bit_total items div 8) items)
        | _ \<Rightarrow> Inr op)
       (\<lambda>op. bind_res (align_bit_runs ops) (\<lambda>ops. Inr (op # ops)))"

text \<open>A span register for the symbol a digest covers.\<close>

definition alloc_span :: "nat \<Rightarrow> sym \<Rightarrow> scope \<Rightarrow> scope sres" where
  "alloc_span pos y s =
     (if MAX_SPANS \<le> sc_nspans s then Inl (Fail TooManySpans)
      else let idx = sc_nspans s in
        bind_res (set_sym pos (\<lambda>y. y\<lparr>sy_span := Some idx\<rparr>) (s\<lparr>sc_nspans := idx + 1\<rparr>)) (\<lambda>s.
          case sy_loc y of
            LocFix i item \<Rightarrow> patch_fixed i item (\<lambda>it. it\<lparr>fi_span := Some idx\<rparr>) s
          | LocOp i \<Rightarrow>
              bind_res (nth_res (sc_ops s) i) (\<lambda>op.
                Inr (s\<lparr>sc_ops := (sc_ops s)[i := map_common (\<lambda>c. c\<lparr>c_span := Some idx\<rparr>) op]\<rparr>))
          | LocBit _ _ \<Rightarrow> panic))"

definition span_step :: "string \<Rightarrow> string \<Rightarrow> nat list \<times> scope \<Rightarrow> (nat list \<times> scope) sres" where
  "span_step dname n st = (case st of (spans, s) \<Rightarrow>
     case position (\<lambda>y. sy_name y = n) (sc_syms s) of
       None \<Rightarrow> Inl (Fail (DigestUnknownOver dname n))
     | Some pos \<Rightarrow>
         bind_res (nth_res (sc_syms s) pos) (\<lambda>y.
           if \<not> sy_spannable y then Inl (Fail (DigestUnspannable dname n))
           else
             bind_res (if sy_span y = None then alloc_span pos y s else Inr s) (\<lambda>s.
             bind_res (nth_res (sc_syms s) pos) (\<lambda>y.
             bind_res (expect (sy_span y)) (\<lambda>idx. Inr (spans @ [idx], s))))))"

fun set_over :: "over \<Rightarrow> op \<Rightarrow> op" where
  "set_over o' (OpDigest algo _ verify be c) = OpDigest algo o' verify be c"
| "set_over o' op = op"

definition digest_step :: "nat \<times> over_in \<times> string \<Rightarrow> scope \<Rightarrow> scope sres" where
  "digest_step d s = (case d of (op_idx, over_in, dname) \<Rightarrow>
     bind_res
       (case over_in of
          StarIn \<Rightarrow> Inr (Star, s)
        | NamesIn ns \<Rightarrow> bind_res (fold_res (span_step dname) ns ([], s)) (\<lambda>(spans, s). Inr (Spans spans, s)))
       (\<lambda>(over, s).
         bind_res (nth_res (sc_ops s) op_idx) (\<lambda>op.
           Inr (s\<lparr>sc_ops := (sc_ops s)[op_idx := set_over over op]\<rparr>))))"

definition finish_scope :: "scope \<Rightarrow> program sres" where
  "finish_scope s =
     bind_res (align_bit_runs (sc_ops s)) (\<lambda>ops.
     bind_res (fold_res digest_step (sc_digests s) (s\<lparr>sc_ops := ops, sc_digests := []\<rparr>)) (\<lambda>s.
       Inr (Program (sc_ops s) (sc_nregs s) (sc_nspans s)
             (ops_min (sc_ops s)) (ops_static (sc_ops s)))))"

text \<open>\<open>pop\<close> of the finished scope, and the program it becomes.\<close>

definition close_scope :: "scope list \<Rightarrow> program cres" where
  "close_scope scopes =
     (case scopes of
        [] \<Rightarrow> panic
      | s # rest \<Rightarrow>
          bind_res (resolve_deferred_derives s) (\<lambda>s.
          bind_res (finish_scope s) (\<lambda>prog. Inr (prog, rest))))"

section \<open>Fields\<close>

text \<open>
  An opcode of a named field, with its symbol. Symbols that are opcodes of their own are never
  referenced as integers.
\<close>

definition push_named :: "op \<Rightarrow> string \<Rightarrow> bool \<Rightarrow> bool \<Rightarrow> scope list \<Rightarrow> scope list sres" where
  "push_named op name is_flags spannable scopes =
     bind_res (push_op op scopes) (\<lambda>(l, scopes).
       add_sym (Some name) l False is_flags False spannable scopes)"

definition push_fixed_field ::
    "fix_kind \<Rightarrow> string option \<Rightarrow> bool \<Rightarrow> bool \<Rightarrow> scope list \<Rightarrow> scope list sres" where
  "push_fixed_field kind name refable is_const scopes =
     bind_res (push_fixed kind (case name of Some n \<Rightarrow> Named n | None \<Rightarrow> Skip) scopes) (\<lambda>(l, scopes).
       add_sym name l refable False is_const True scopes)"

definition push_bits_field :: "nat \<Rightarrow> bool \<Rightarrow> string option \<Rightarrow> scope list \<Rightarrow> scope list sres" where
  "push_bits_field width sgnd name scopes =
     (if \<not> (1 \<le> width \<and> width \<le> 64) then Inl (Fail (BitsWidth width))
      else
        bind_res (push_bits \<lparr>bi_width = width, bi_signed = sgnd, bi_reg = None, bi_derived = False,
            bi_key = (case name of Some n \<Rightarrow> Named n | None \<Rightarrow> Skip)\<rparr> scopes) (\<lambda>(l, scopes).
          add_sym name l True False False False scopes))"

definition push_digest_field ::
    "string \<Rightarrow> crc_overrides \<Rightarrow> over_in \<Rightarrow> bool \<Rightarrow> byte_order \<Rightarrow> string \<Rightarrow> scope list \<Rightarrow> scope list sres" where
  "push_digest_field aname ov over verify bo name scopes =
     bind_res (parse_algo aname ov) (\<lambda>algo.
     bind_res (check_over name over) (\<lambda>_.
     bind_res (push_op (OpDigest algo (Spans []) verify (bo = Big) (common_named name)) scopes) (\<lambda>(l, scopes).
       case l of
         LocOp i \<Rightarrow>
           bind_res (with_top_scope (\<lambda>s. Inr ((), s\<lparr>sc_digests := sc_digests s @ [(i, over, name)]\<rparr>)) scopes)
             (\<lambda>(_, scopes). add_sym (Some name) (LocOp i) False False False True scopes)
       | _ \<Rightarrow> panic)))"

text \<open>
  The branches of a switch, in order, with the tags seen so far; \<open>ce\<close> compiles a branch.
\<close>

definition case_step ::
    "(type_in \<Rightarrow> scope list \<Rightarrow> op cres) \<Rightarrow> int \<times> type_in \<Rightarrow>
     int list \<times> (int \<times> op) list \<times> scope list \<Rightarrow> (int list \<times> (int \<times> op) list \<times> scope list) sres" where
  "case_step ce tc st = (case (tc, st) of ((tag, ty), (tags, compiled, scopes)) \<Rightarrow>
     if tag \<in> set tags then Inl (Fail (DuplicateBranch tag))
     else bind_res (ce ty scopes) (\<lambda>(op, scopes). Inr (tags @ [tag], compiled @ [(tag, op)], scopes)))"

definition switch_parts ::
    "(type_in \<Rightarrow> scope list \<Rightarrow> op cres) \<Rightarrow> expr_in \<Rightarrow> (int \<times> type_in) list \<Rightarrow> type_in option \<Rightarrow>
     scope list \<Rightarrow> (expr \<times> (int \<times> op) list \<times> op option) cres" where
  "switch_parts ce on cases dflt scopes =
     (if cases = [] \<and> dflt = None then Inl (Fail NoBranches)
      else
        bind_res (fold_expr on) (\<lambda>folded.
        bind_res (emit_expr folded ROn scopes) (\<lambda>(on_expr, scopes).
        bind_res (fold_res (case_step ce) cases ([], [], scopes)) (\<lambda>(_, compiled, scopes).
          case dflt of
            None \<Rightarrow> Inr ((on_expr, compiled, None), scopes)
          | Some ty \<Rightarrow>
              bind_res (ce ty scopes) (\<lambda>(op, scopes). Inr ((on_expr, compiled, Some op), scopes))))))"

lemma switch_parts_cong [fundef_cong]:
  assumes "cases = cases'" and "dflt = dflt'"
    and "\<And>tag ty s. (tag, ty) \<in> set cases' \<Longrightarrow> ce ty s = ce' ty s"
    and "\<And>ty s. dflt' = Some ty \<Longrightarrow> ce ty s = ce' ty s"
  shows "switch_parts ce on cases dflt scopes = switch_parts ce' on cases' dflt' scopes"
proof -
  have "case_step ce tc st = case_step ce' tc st" if "tc \<in> set cases'" for tc st
    using assms(3) that by (auto simp: case_step_def split: prod.split)
  then have "fold_res (case_step ce) cases' st = fold_res (case_step ce') cases' st" for st
    by (intro fold_res_cong) auto
  then show ?thesis using assms(1,2,4)
    by (auto simp: switch_parts_def intro!: bind_res_cong split: option.split prod.split)
qed

definition array_op ::
    "options \<Rightarrow> (type_in \<Rightarrow> scope list \<Rightarrow> op cres) \<Rightarrow> type_in \<Rightarrow> expr_in option \<Rightarrow> bool \<Rightarrow> common \<Rightarrow>
     scope list \<Rightarrow> op cres" where
  "array_op opts ce elem count until_eof c scopes =
     bind_res (count_src_of count until_eof scopes) (\<lambda>(src, scopes).
     bind_res (ce elem scopes) (\<lambda>(op, scopes).
       Inr (OpArray src (o_max_count opts) op (op_min op) c, scopes)))"

lemma array_op_cong [fundef_cong]:
  "(\<And>s. ce elem s = ce' elem s) \<Longrightarrow>
     array_op opts ce elem count until_eof c scopes = array_op opts ce' elem count until_eof c scopes"
  by (simp add: array_op_def)

lemma size_field_in_fields: "f \<in> set flds \<Longrightarrow> size (f :: field_in) \<le> size_list size flds"
  using size_list_estimation' [of f flds "size f" size] by simp

lemma size_case_type:
  "(tag, ty) \<in> set cases \<Longrightarrow> size (ty :: type_in) \<le> size_list (size_prod (\<lambda>_. 0) size) cases"
  using size_list_estimation' [of "(tag, ty)" cases "size ty" "size_prod (\<lambda>_. 0) size"] by simp

function
  compile_scope :: "options \<Rightarrow> field_in list \<Rightarrow> byte_order \<Rightarrow> scope list \<Rightarrow> program cres" and
  compile_field :: "options \<Rightarrow> field_in \<Rightarrow> byte_order \<Rightarrow> scope list \<Rightarrow> scope list sres" and
  compile_elem :: "options \<Rightarrow> type_in \<Rightarrow> byte_order \<Rightarrow> scope list \<Rightarrow> op cres" and
  elem_via_field :: "options \<Rightarrow> type_in \<Rightarrow> byte_order \<Rightarrow> scope list \<Rightarrow> op cres" where
  "compile_scope opts flds bo scopes =
     bind_res (fold_res (\<lambda>f s. compile_field opts f bo s) flds (empty_scope # scopes)) close_scope"
| "compile_field opts f bo scopes =
     bind_res (check_name (field_name f) scopes) (\<lambda>name.
       case field_ty f of
         TInt prim order const \<Rightarrow>
           bind_res (int_kind prim order const bo) (\<lambda>kind.
             push_fixed_field kind name True (const \<noteq> None) scopes)
       | TFloat is64 order \<Rightarrow> push_fixed_field (float_kind is64 order bo) name False False scopes
       | TBool const \<Rightarrow> push_fixed_field (FBool const) name False (const \<noteq> None) scopes
       | TRaw len const \<Rightarrow>
           bind_res (raw_kind len const) (\<lambda>kind.
             push_fixed_field kind name False (const \<noteq> None) scopes)
       | TBytes len mx \<Rightarrow>
           bind_res (named_only name ''bytes'') (\<lambda>name.
           bind_res (build_len len ''bytes.len'' scopes) (\<lambda>(len, scopes).
             push_named (OpBytes len (override mx (o_max_default opts)) (common_named name))
               name False True scopes))
       | TStr len mx encoding errors \<Rightarrow>
           bind_res (named_only name ''str'') (\<lambda>name.
           bind_res (parse_enc encoding errors) (\<lambda>enc.
           bind_res (build_len len ''str.len'' scopes) (\<lambda>(len, scopes).
             push_named (OpStr len (override mx (o_max_default opts)) enc (common_named name))
               name False True scopes)))
       | TCStr mx encoding errors \<Rightarrow>
           bind_res (named_only name ''cstr'') (\<lambda>name.
           bind_res (parse_enc encoding errors) (\<lambda>enc.
             push_named (OpCStr (override mx (o_max_default opts)) enc (common_named name))
               name False True scopes))
       | TBits width sgnd \<Rightarrow> push_bits_field width sgnd name scopes
       | TFlags base order fnames rest \<Rightarrow>
           bind_res (named_only name ''flags'') (\<lambda>name.
           bind_res (flags_op base order fnames rest bo name) (\<lambda>op.
             push_named op name True True scopes))
       | TDigest aname ov over verify \<Rightarrow>
           bind_res (named_only name ''digest'') (\<lambda>name.
             push_digest_field aname ov over verify bo name scopes)
       | TStruct flds order sz \<Rightarrow>
           bind_res (named_only name ''struct'') (\<lambda>name.
           bind_res (nest_size sz scopes) (\<lambda>(size_src, scopes).
           bind_res (compile_scope opts flds (override order bo) scopes) (\<lambda>(prog, scopes).
           bind_res (check_size size_src prog) (\<lambda>_.
             push_named (OpNest prog size_src (common_named name)) name False True scopes))))
       | TArray elem count until_eof \<Rightarrow>
           bind_res (named_only name ''array'') (\<lambda>name.
           bind_res (array_op opts (\<lambda>ty s. compile_elem opts ty bo s) elem count until_eof
               (common_named name) scopes) (\<lambda>(op, scopes).
             push_named op name False True scopes))
       | TSwitch on cases dflt \<Rightarrow>
           bind_res (named_only name ''switch'') (\<lambda>name.
           bind_res (switch_parts (\<lambda>ty s. compile_elem opts ty bo s) on cases dflt scopes)
             (\<lambda>((on_expr, compiled, d), scopes).
             push_named (OpSwitch on_expr compiled d (common_named name)) name False True scopes))
       | TCond pred thn \<Rightarrow>
           bind_res (named_only name ''when'') (\<lambda>name.
           bind_res (fold_expr pred) (\<lambda>folded.
           bind_res (emit_expr folded RPred scopes) (\<lambda>(pred_expr, scopes).
           bind_res (compile_elem opts thn bo scopes) (\<lambda>(op, scopes).
             push_named (OpCond pred_expr op (common_named name)) name False False scopes)))))"
| "compile_elem opts ty bo scopes =
     (case ty of
        TInt prim order const \<Rightarrow>
          bind_res (int_kind prim order const bo) (\<lambda>kind. Inr (fixed1 kind, scopes))
      | TFloat is64 order \<Rightarrow> Inr (fixed1 (float_kind is64 order bo), scopes)
      | TBool const \<Rightarrow> Inr (fixed1 (FBool const), scopes)
      | TRaw len const \<Rightarrow> bind_res (raw_kind len const) (\<lambda>kind. Inr (fixed1 kind, scopes))
      | TBytes len mx \<Rightarrow>
          bind_res (build_len len ''bytes.len'' scopes) (\<lambda>(len, scopes).
            Inr (OpBytes len (override mx (o_max_default opts)) common_skip, scopes))
      | TStr len mx encoding errors \<Rightarrow>
          bind_res (build_len len ''str.len'' scopes) (\<lambda>(len, scopes).
          bind_res (parse_enc encoding errors) (\<lambda>enc.
            Inr (OpStr len (override mx (o_max_default opts)) enc common_skip, scopes)))
      | TCStr mx encoding errors \<Rightarrow>
          bind_res (parse_enc encoding errors) (\<lambda>enc.
            Inr (OpCStr (override mx (o_max_default opts)) enc common_skip, scopes))
      | TFlags _ _ _ _ \<Rightarrow> elem_via_field opts ty bo scopes
      | TStruct flds order sz \<Rightarrow>
          bind_res (nest_size sz scopes) (\<lambda>(size_src, scopes).
          bind_res (compile_scope opts flds (override order bo) scopes) (\<lambda>(prog, scopes).
            Inr (OpNest prog size_src common_skip, scopes)))
      | TArray elem count until_eof \<Rightarrow>
          array_op opts (\<lambda>ty s. compile_elem opts ty bo s) elem count until_eof common_skip scopes
      | TSwitch on cases dflt \<Rightarrow>
          bind_res (switch_parts (\<lambda>ty s. compile_elem opts ty bo s) on cases dflt scopes)
            (\<lambda>((on_expr, compiled, d), scopes).
            Inr (OpSwitch on_expr compiled d common_skip, scopes))
      | TBits _ _ \<Rightarrow> Inl (Fail ElemBits)
      | TDigest _ _ _ _ \<Rightarrow> Inl (Fail ElemDigest)
      | TCond _ _ \<Rightarrow> Inl (Fail ElemCond))"
| "elem_via_field opts ty bo scopes =
     bind_res (compile_field opts (FieldIn (Some ''_elem'') ty) bo (empty_scope # scopes)) (\<lambda>scopes.
       case scopes of
         [] \<Rightarrow> panic
       | s # rest \<Rightarrow>
           if sc_ops s = [] then panic
           else Inr (map_common (\<lambda>c. c\<lparr>c_key := Skip\<rparr>) (last (sc_ops s)), rest))"
  by pat_completeness auto

termination
proof (relation "measure (\<lambda>x. case x of
        Inl (Inl (_, flds, _)) \<Rightarrow> 3 * size_list size flds + 1
      | Inl (Inr (_, f, _)) \<Rightarrow> 3 * size (field_ty f)
      | Inr (Inl (_, ty, _)) \<Rightarrow> 3 * size ty + 2
      | Inr (Inr (_, ty, _)) \<Rightarrow> 3 * size ty + 1)", goal_cases)
  case (2 opts flds bo scopes f s)
  then have "size f \<le> size_list size flds" by (rule size_field_in_fields)
  moreover have "size (field_ty f) < size f" by (cases f) simp
  ultimately show ?case by simp
qed (auto dest: size_case_type)

declare compile_scope.simps [simp del] compile_field.simps [simp del] compile_elem.simps [simp del]
  elem_via_field.simps [simp del]

text \<open>The entry point: a schema too deep for the unpacker is refused.\<close>

definition compile :: "field_in list \<Rightarrow> options \<Rightarrow> program sres" where
  "compile flds opts =
     bind_res (compile_scope opts flds (o_byteorder opts) []) (\<lambda>(prog, _).
       if MAX_DEPTH < frame_depth prog then Inl (Fail (NestsTooDeep (frame_depth prog)))
       else Inr prog)"

end
