(* ===== verification/Pack_Safety.thy ===== *)
theory Pack_Safety
  imports Pack Unpack_Safety Compile
begin

text \<open>
  Packing a well-formed program never panics, whatever the source answers: the output only
  grows, every reserved slot, span and digest field lies inside it, and backpatching changes
  bytes in place. The one panic that depends on the value is \<open>Vec\<close>'s capacity overflow, so
  the theorem asks for room: what the program and the value can make the packer write.
\<close>

section \<open>Guarded results\<close>

text \<open>
  Under \<open>G\<close> there is room for all that is written, and then nothing panics. Under \<open>F\<close> no run is wider than a
  vector can be. A result satisfies \<open>Q\<close> under either: without both, an overflow of the unchecked sum
  in \<open>resize\<close> cuts the output.
\<close>

definition guarded :: "bool \<Rightarrow> bool \<Rightarrow> ('e, 'a) res \<Rightarrow> ('a \<Rightarrow> bool) \<Rightarrow> bool" where
  "guarded G F m Q \<longleftrightarrow> (G \<longrightarrow> no_panic m) \<and> (G \<or> F \<longrightarrow> (\<forall>a. m = Inr a \<longrightarrow> Q a))"

lemma guarded_safe: "safe m Q \<Longrightarrow> guarded G F m Q"
  by (auto simp: guarded_def dest: safe_no_panic safe_Inr)

lemma safe_guarded: "guarded True F m Q \<Longrightarrow> safe m Q"
  by (auto simp: guarded_def intro: safeI)

lemma guarded_Inr: "guarded G F m Q \<Longrightarrow> G \<or> F \<Longrightarrow> m = Inr a \<Longrightarrow> Q a"
  by (simp add: guarded_def)

lemma guarded_simps [simp]: "guarded G F (Inl (Fail e)) Q" "guarded G F (Inr a) Q \<longleftrightarrow> (G \<or> F \<longrightarrow> Q a)"
  by (auto simp: guarded_def)

lemma guarded_bind:
  "guarded G F m P \<Longrightarrow> (\<And>a. m = Inr a \<Longrightarrow> P a \<Longrightarrow> guarded G F (f a) Q) \<Longrightarrow> guarded G F (bind_res m f) Q"
  by (auto simp: guarded_def no_panic_def bind_res_eq_Inr bind_res_eq_Inl)

lemma guarded_mono:
  "guarded G F m P \<Longrightarrow> (G' \<Longrightarrow> G) \<Longrightarrow> (\<And>a. m = Inr a \<Longrightarrow> P a \<Longrightarrow> Q a) \<Longrightarrow> guarded G' F m Q"
  by (auto simp: guarded_def)

lemma guarded_map_fail [simp]: "guarded G F (map_fail g m) Q \<longleftrightarrow> guarded G F m Q"
  by (simp add: guarded_def)

lemma guarded_then: "guarded G F m P \<Longrightarrow> (\<And>a. P a \<Longrightarrow> safe (f a) Q) \<Longrightarrow> guarded G F (bind_res m f) Q"
  by (rule guarded_bind [where P = P]) (auto intro: guarded_safe)

section \<open>State\<close>

fun slot_ok :: "nat \<Rightarrow> slot \<Rightarrow> bool" where
  "slot_ok n (SlotInt pos prim be) \<longleftrightarrow> pos + prim_width prim \<le> n"
| "slot_ok n (SlotBits base off width sgnd) \<longleftrightarrow>
     0 < width \<and> width \<le> 64 \<and> base * 8 + (off + width) \<le> n * 8"

definition pdigest_ok :: "nat \<Rightarrow> pdigest \<Rightarrow> bool" where
  "pdigest_ok n d \<longleftrightarrow> pd_pos d + pd_width d \<le> n \<and> pd_width d = width_bytes (pd_algo d) \<and>
     (case pd_over d of Spans idxs \<Rightarrow> list_all (\<lambda>i. i < MAX_SPANS) idxs | Star \<Rightarrow> True)"

definition pframe_ok :: "nat \<Rightarrow> pframe \<Rightarrow> bool" where
  "pframe_ok n f \<longleftrightarrow>
     length (pr_regs f) = MAX_REGS \<and> (\<forall>x \<in> set (pr_regs f). in_i64 x) \<and>
     length (pr_res f) = MAX_REGS \<and> (\<forall>r. Some r \<in> set (pr_res f) \<longrightarrow> slot_ok n (rv_slot r)) \<and>
     spans_ok n (pr_spans f) \<and> list_all (pdigest_ok n) (pr_digests f)"

definition pctx_ok :: "nat \<Rightarrow> pctx \<Rightarrow> bool" where
  "pctx_ok d ctx \<longleftrightarrow> length (pc_out ctx) \<le> isize_max \<and>
     length (pc_frames ctx) = d \<and> list_all (pframe_ok (length (pc_out ctx))) (pc_frames ctx)"

lemma pctx_ok_length: "pctx_ok d ctx \<Longrightarrow> length (pc_out ctx) \<le> isize_max"
  by (simp add: pctx_ok_def)

text \<open>A step that keeps the length of the output, and one that may append to it.\<close>

definition stays :: "nat \<Rightarrow> pctx \<Rightarrow> pctx \<Rightarrow> bool" where
  "stays d ctx ctx' \<longleftrightarrow> pctx_ok d ctx' \<and> length (pc_out ctx') = length (pc_out ctx)"

definition appends :: "nat \<Rightarrow> pctx \<Rightarrow> pctx \<Rightarrow> bool" where
  "appends d ctx ctx' \<longleftrightarrow> pctx_ok d ctx' \<and> length (pc_out ctx) \<le> length (pc_out ctx')"

text \<open>A step that appends \<open>n\<close> bytes, and one that appends at most \<open>n\<close>.\<close>

definition within :: "nat \<Rightarrow> nat \<Rightarrow> pctx \<Rightarrow> pctx \<Rightarrow> bool" where
  "within d n ctx ctx' \<longleftrightarrow> appends d ctx ctx' \<and> length (pc_out ctx') \<le> length (pc_out ctx) + n"

definition adds :: "nat \<Rightarrow> nat \<Rightarrow> pctx \<Rightarrow> pctx \<Rightarrow> bool" where
  "adds d n ctx ctx' \<longleftrightarrow> pctx_ok d ctx' \<and> length (pc_out ctx') = length (pc_out ctx) + n"

lemma adds_within: "adds d n ctx ctx' \<Longrightarrow> within d n ctx ctx'"
  by (simp add: adds_def within_def appends_def)

lemma within_appends: "within d n ctx ctx' \<Longrightarrow> appends d ctx ctx'"
  by (simp add: within_def)

lemma within_stays: "within d n ctx c \<Longrightarrow> stays d c ctx' \<Longrightarrow> within d n ctx ctx'"
  by (simp add: within_def appends_def stays_def)

definition roomy :: "nat \<Rightarrow> pctx \<Rightarrow> bool" where
  "roomy n ctx \<longleftrightarrow> length (pc_out ctx) + n \<le> isize_max"

lemma slot_ok_mono: "slot_ok n sl \<Longrightarrow> n \<le> m \<Longrightarrow> slot_ok m sl"
  by (cases sl) auto

lemma pframe_ok_mono: "pframe_ok n f \<Longrightarrow> n \<le> m \<Longrightarrow> pframe_ok m f"
  by (auto simp: pframe_ok_def spans_ok_def pdigest_ok_def list_all_iff intro: slot_ok_mono order_trans)

lemma pframe_ok_new [simp]: "pframe_ok n pframe_new"
  by (auto simp: pframe_ok_def pframe_new_def spans_ok_def in_i64_iff)

text \<open>The output with bytes appended: what a growth that succeeds gives, when its sum does not wrap.\<close>

definition extended :: "bytes \<Rightarrow> pctx \<Rightarrow> pctx" where
  "extended b ctx = ctx\<lparr>pc_out := pc_out ctx @ b\<rparr>"

lemma length_extended [simp]: "length (pc_out (extended b ctx)) = length (pc_out ctx) + length b"
  by (simp add: extended_def)

lemma pctx_ok_extended: "pctx_ok d ctx \<Longrightarrow> roomy (length b) ctx \<Longrightarrow> pctx_ok d (extended b ctx)"
  by (auto simp: pctx_ok_def roomy_def extended_def list_all_iff intro: pframe_ok_mono)

lemma wrapping_add_small: "a + b \<le> isize_max \<Longrightarrow> wrapping_add a b = a + b"
  by (simp add: wrapping_add_def isize_max_def)

lemma grow_roomy: "roomy w ctx \<Longrightarrow> grow w ctx = Inr (extended (replicate w 0) ctx)"
  by (auto simp: roomy_def grow_def vec_resize_def wrapping_add_small extended_def)

lemma grow_Inr:
  assumes "grow w ctx = Inr c" and "length (pc_out ctx) \<le> isize_max" and "w \<le> isize_max"
  shows "roomy w ctx \<and> c = extended (replicate w 0) ctx"
proof -
  have "wrapping_add (length (pc_out ctx)) w = length (pc_out ctx) + w"
    using assms(2,3) by (simp add: wrapping_add_def isize_max_def)
  then show ?thesis using assms(1,2)
    by (auto simp: roomy_def grow_def vec_resize_def extended_def bind_res_eq_Inr split: if_splits)
qed

lemma append_Inr: "append_bytes b ctx = Inr c \<longleftrightarrow> roomy (length b) ctx \<and> c = extended b ctx"
  by (auto simp: append_bytes_def vec_extend_def roomy_def extended_def bind_res_eq_Inr)

lemma append_roomy: "roomy (length b) ctx \<Longrightarrow> append_bytes b ctx = Inr (extended b ctx)"
  by (simp add: append_Inr)

lemma guarded_grow:
  assumes "pctx_ok d ctx" and "F \<Longrightarrow> w \<le> isize_max"
  shows "guarded (roomy w ctx) F (grow w ctx) (\<lambda>c. roomy w ctx \<and> c = extended (replicate w 0) ctx)"
proof (cases "roomy w ctx")
  case True
  then show ?thesis by (simp add: grow_roomy)
next
  case False
  then show ?thesis using grow_Inr [OF _ pctx_ok_length [OF assms(1)]] assms(2) by (auto simp: guarded_def)
qed

lemma guarded_append: "guarded (roomy (length b) ctx) F (append_bytes b ctx) (\<lambda>c. roomy (length b) ctx \<and> c = extended b ctx)"
  by (auto simp: guarded_def append_Inr append_roomy)

lemma pctx_ok_out: "pctx_ok d ctx \<Longrightarrow> length out = length (pc_out ctx) \<Longrightarrow> pctx_ok d (ctx\<lparr>pc_out := out\<rparr>)"
  by (simp add: pctx_ok_def)

lemma pctx_ok_grow: "pctx_ok d ctx \<Longrightarrow> length (pc_out ctx) \<le> length out \<Longrightarrow> length out \<le> isize_max \<Longrightarrow> pctx_ok d (ctx\<lparr>pc_out := out\<rparr>)"
  by (auto simp: pctx_ok_def list_all_iff intro: pframe_ok_mono)

lemma stays_appends: "stays d ctx ctx' \<Longrightarrow> appends d ctx ctx'"
  by (simp add: stays_def appends_def)

lemma appends_trans: "appends d a b \<Longrightarrow> appends d b c \<Longrightarrow> appends d a c"
  by (auto simp: appends_def)

lemma safe_with_top:
  assumes ok: "pctx_ok (Suc d) ctx" and g: "\<And>f. pframe_ok (length (pc_out ctx)) f \<Longrightarrow> safe (g f) (pframe_ok (length (pc_out ctx)))"
  shows "safe (with_top g ctx) (stays (Suc d) ctx)"
proof -
  obtain f rest where f: "pc_frames ctx = f # rest" using ok by (cases "pc_frames ctx") (auto simp: pctx_ok_def)
  then have "pframe_ok (length (pc_out ctx)) f" using ok by (simp add: pctx_ok_def)
  then show ?thesis using ok by (auto simp: with_top_def f stays_def pctx_ok_def intro!: safe_bind [OF g])
qed

lemma safe_mark_known:
  "pframe_ok n f \<Longrightarrow> idx < MAX_REGS \<Longrightarrow> in_i64 v \<Longrightarrow> safe (mark_known idx v f) (pframe_ok n)"
  by (auto simp: mark_known_def pframe_ok_def dest!: set_update_subset_insert [THEN subsetD]
    intro!: safe_bind [where P = "\<lambda>regs. length regs = MAX_REGS \<and> (\<forall>x \<in> set regs. in_i64 x)"])

lemma safe_pset_reg:
  "pctx_ok (Suc d) ctx \<Longrightarrow> idx_ok MAX_REGS idx \<Longrightarrow> in_i64 v \<Longrightarrow> safe (pset_reg idx v ctx) (stays (Suc d) ctx)"
  by (cases idx) (auto simp: pset_reg_def idx_ok_def stays_def [of _ ctx ctx] intro!: safe_with_top safe_mark_known)

lemma safe_pset_span:
  "pctx_ok (Suc d) ctx \<Longrightarrow> idx_ok MAX_SPANS idx \<Longrightarrow> s \<le> e \<Longrightarrow> e \<le> length (pc_out ctx) \<Longrightarrow>
     safe (pset_span idx s e ctx) (stays (Suc d) ctx)"
  by (cases idx) (auto simp: pset_span_def idx_ok_def stays_def [of _ ctx ctx] pframe_ok_def spans_ok_def
    dest!: set_update_subset_insert [THEN subsetD]
    intro!: safe_with_top safe_bind [where P = "spans_ok (length (pc_out ctx))"])

lemma safe_pget_reg: "pctx_ok d ctx \<Longrightarrow> reg_ok d r \<Longrightarrow> safe (pget_reg ctx r) in_i64"
  by (auto simp: pget_reg_def pctx_ok_def reg_ok_def list_all_length pframe_ok_def
    intro!: safe_bind [where P = "pframe_ok (length (pc_out ctx))"])

lemma safe_peval: "pctx_ok d ctx \<Longrightarrow> expr_ok d e \<Longrightarrow> safe (peval ctx e) in_i64"
  by (auto simp: peval_def intro!: safe_eval_expr [of d] safe_pget_reg [of d])

section \<open>Writing in place\<close>

lemma safe_write_int_at:
  "pos + prim_width prim \<le> length out \<Longrightarrow> safe (write_int_at out pos prim be v) (\<lambda>out'. length out' = length out)"
  by (simp add: write_int_at_eq enc_prim_def length_write_uint)

lemma safe_write_uint_at:
  "pos + w \<le> length out \<Longrightarrow> safe (write_uint_at out pos w be v) (\<lambda>out'. length out' = length out)"
  by (simp add: write_uint_at_def length_write_uint)

lemma safe_or_bits:
  "base * 8 + (off + w) \<le> length out * 8 \<Longrightarrow> safe (or_bits out base off w v) (\<lambda>out'. length out' = length out)"
  using or_bits_spec [of out base off w v] by (auto simp: bits_fit_def)

lemma safe_check_bits_range: "safe (check_bits_range v w s) (\<lambda>_. True)"
  by (simp add: check_bits_range_def)

lemma safe_write_slot: "slot_ok (length out) sl \<Longrightarrow> safe (write_slot sl x out) (\<lambda>out'. length out' = length out)"
  by (cases sl) (auto simp: write_slot_def intro!: safe_write_int_at safe_bind [OF safe_check_bits_range] safe_or_bits)

lemma safe_put:
  assumes "pctx_ok d ctx" and "pos + length b \<le> length (pc_out ctx)"
  shows "safe (put pos b ctx) (stays d ctx)"
  using assms by (auto simp: put_def stays_def intro!: safe_bind [where P = "\<lambda>out. length out = length (pc_out ctx)"] pctx_ok_out)

lemma safe_reserve:
  assumes "pctx_ok (Suc d) ctx" and "r < MAX_REGS" and "slot_ok (length (pc_out ctx)) sl"
  shows "safe (reserve r sl ctx) (stays (Suc d) ctx)"
  unfolding reserve_def using assms
  by (intro safe_with_top) (auto simp: pframe_ok_def dest!: set_update_subset_insert [THEN subsetD]
    intro!: safe_bind [where P = "\<lambda>res. length res = MAX_REGS \<and> (\<forall>r. Some r \<in> set res \<longrightarrow> slot_ok (length (pc_out ctx)) (rv_slot r))"])

section \<open>Lengths\<close>

lemma sdiv_in_i64:
  assumes "in_i64 d" and "a \<noteq> 0" and "d \<noteq> i64_min"
  shows "in_i64 (d sdiv a)"
proof -
  have "\<bar>d\<bar> div \<bar>a\<bar> \<le> \<bar>d\<bar> div 1" using assms(2) by (intro zdiv_mono2) auto
  moreover have "0 \<le> \<bar>d\<bar> div \<bar>a\<bar>" using assms(2) by (simp add: pos_imp_zdiv_nonneg_iff)
  ultimately have "\<bar>d sdiv a\<bar> \<le> \<bar>d\<bar>" by (auto simp: signed_divide_int_def abs_mult sgn_if)
  then show ?thesis using assms(1,3) by (auto simp: in_i64_def i64_min_def i64_max_def)
qed

text \<open>The register of an inversion: its frame and its slot exist.\<close>

lemma safe_apply_inv:
  assumes ok: "pctx_ok d ctx" and inv: "inv_ok d iv" and actual: "0 \<le> actual"
  shows "safe (apply_inv iv actual ctx) (stays d ctx)"
proof -
  let ?d = "actual - inv_b iv" and ?fi = "reg_up (inv_reg iv)" and ?idx = "reg_idx (inv_reg iv)"
  have a: "inv_a iv \<noteq> 0" and b: "in_i64 (inv_b iv)" and reg: "?fi < d" "?idx < MAX_REGS"
    using inv by (simp_all add: inv_ok_def reg_ok_def)
  have not_min: "?d \<noteq> i64_min" using b actual by (auto simp: in_i64_def i64_min_def i64_max_def)
  let ?n = "length (pc_out ctx)" and ?f = "pc_frames ctx ! ?fi"
  have fi: "?fi < length (pc_frames ctx)" and f: "pframe_ok ?n ?f"
    using ok reg by (auto simp: pctx_ok_def list_all_length)
  then have idx: "?idx < length (pr_res ?f)" "?idx < length (pr_regs ?f)" using reg by (simp_all add: pframe_ok_def)
  have same: "stays d ctx ctx" using ok by (simp add: stays_def)
  have fill: "safe (bind_res (write_slot (rv_slot rv) x (pc_out ctx)) (\<lambda>out.
      bind_res (mark_known ?idx x (?f\<lparr>pr_res := (pr_res ?f)[?idx := Some (rv\<lparr>rv_value := Some x\<rparr>)]\<rparr>)) (\<lambda>f.
        Inr \<lparr>pc_out = out, pc_frames = (pc_frames ctx)[?fi := f]\<rparr>))) (stays d ctx)"
    if rv: "pr_res ?f ! ?idx = Some rv" and x: "in_i64 x" for rv x
  proof -
    have "Some rv \<in> set (pr_res ?f)" using nth_mem [OF idx(1)] rv by simp
    then have slot: "slot_ok ?n (rv_slot rv)" using f by (simp add: pframe_ok_def)
    have f1: "pframe_ok ?n (?f\<lparr>pr_res := (pr_res ?f)[?idx := Some (rv\<lparr>rv_value := Some x\<rparr>)]\<rparr>)"
      using f slot by (auto simp: pframe_ok_def dest!: set_update_subset_insert [THEN subsetD])
    show ?thesis
      by (rule safe_bind [OF safe_write_slot [OF slot]], rule safe_bind [OF safe_mark_known [OF f1 reg(2) x]])
        (use ok in \<open>auto simp: stays_def pctx_ok_def list_all_iff dest!: set_update_subset_insert [THEN subsetD]\<close>)
  qed
  show ?thesis
  proof (cases "in_i64 ?d \<and> ?d smod inv_a iv = 0")
    case True
    then have x: "in_i64 (?d sdiv inv_a iv)" using a not_min by (intro sdiv_in_i64) simp_all
    show ?thesis using True a not_min fi idx fill [OF _ x] same
      by (auto simp: apply_inv_def Let_def nth_res_def split: option.split)
  qed (use a not_min in \<open>auto simp: apply_inv_def Let_def\<close>)
qed

lemma safe_finish_len:
  assumes "pctx_ok d ctx" and "len_src_ok d len"
  shows "safe (finish_len len actual ctx) (stays d ctx)"
proof (cases len)
  case (LenExpr e iv)
  then show ?thesis using assms safe_apply_inv [OF assms(1)]
    by (cases iv) (auto simp: finish_len_def len_ok_def stays_def [of _ ctx ctx] intro!: safe_bind [where P = "\<lambda>_. True"])
qed (use assms in \<open>simp add: finish_len_def stays_def\<close>)

section \<open>Items\<close>

lemma safe_given: "safe (given read dflt k v) (\<lambda>_. True)"
  by (auto simp: given_def split: option.split)

lemma length_float_bytes: "length (float_bytes w be bits) = w"
  by (simp add: float_bytes_def Let_def length_write_uint)

lemma safe_then_span:
  assumes m: "safe m (stays (Suc d) ctx)" and "idx_ok MAX_SPANS idx" and "s \<le> e" and "e \<le> length (pc_out ctx)"
  shows "safe (bind_res m (pset_span idx s e)) (stays (Suc d) ctx)"
  by (rule safe_bind [OF m], rule safe_mono [OF safe_pset_span]) (use assms(2-) in \<open>auto simp: stays_def\<close>)

lemma safe_then_reg:
  assumes "safe m (\<lambda>out. length out = length (pc_out ctx))" and ok: "pctx_ok (Suc d) ctx" and "idx_ok MAX_REGS idx"
  shows "safe (bind_res m (\<lambda>out. pset_reg idx (as_i64 x) (ctx\<lparr>pc_out := out\<rparr>))) (stays (Suc d) ctx)"
  by (rule safe_bind [OF assms(1)], rule safe_mono [OF safe_pset_reg [OF pctx_ok_out [OF ok] assms(3) in_i64_as_i64]])
    (simp_all add: stays_def)

lemma safe_pack_fixed_item:
  assumes ok: "pctx_ok (Suc d) ctx" and item: "fixed_item_ok width item" and fits: "base + width \<le> length (pc_out ctx)"
  shows "safe (pack_fixed_item S base item v ctx) (stays (Suc d) ctx)"
proof -
  let ?pos = "wrapping_add base (fi_off item)"
  have "base + fi_off item \<le> isize_max" using item fits pctx_ok_length [OF ok] by (simp add: fixed_item_ok_def)
  note at = wrapping_add_small [OF this]
  have pos: "?pos + fix_width (fi_kind item) \<le> length (pc_out ctx)"
    and regs: "idx_ok MAX_REGS (fi_reg item)" and spans: "idx_ok MAX_SPANS (fi_span item)" and kind: "kind_ok (fi_reg item) (fi_kind item)"
    using item fits by (auto simp: fixed_item_ok_def at)
  note span = safe_then_span [OF _ spans]
  have put: "safe (put ?pos b ctx) (stays (Suc d) ctx)" if "length b = fix_width (fi_kind item)" for b
    using pos that by (intro safe_put ok) simp
  note putspan = safe_bind [OF safe_given] span [OF put]
  show ?thesis
  proof (cases "fi_kind item")
    case (FInt prim be ex derived)
    have wr: "safe (bind_res (write_int_at (pc_out ctx) ?pos prim be x) (\<lambda>out.
        pset_reg (fi_reg item) (as_i64 x) (ctx\<lparr>pc_out := out\<rparr>))) (stays (Suc d) ctx)" for x
      using pos FInt by (intro safe_then_reg [OF safe_write_int_at ok regs]) simp
    have slot: "safe (bind_res (expect (fi_reg item)) (\<lambda>r. reserve r (SlotInt ?pos prim be) ctx)) (stays (Suc d) ctx)" if "derived"
      using that kind FInt regs pos
      by (auto simp: idx_ok_def split: option.splits intro!: safe_bind [where P = "\<lambda>r. fi_reg item = Some r"] safe_reserve ok)
    show ?thesis unfolding pack_fixed_item_def Let_def FInt fix_kind.case
      by (rule span) (use FInt pos wr slot in \<open>auto split: option.split intro!: safe_bind [OF safe_given]\<close>)
  next
    case (F32 be)
    then show ?thesis using pos
      by (auto simp: pack_fixed_item_def Let_def float_of_def length_float_bytes intro!: putspan)
  next
    case (F64 be)
    then show ?thesis using pos
      by (auto simp: pack_fixed_item_def Let_def float_of_def length_float_bytes intro!: putspan)
  next
    case (FBool ex)
    have pick: "safe (case ex of None \<Rightarrow> given (s_truthy S) False (fi_key item) v | Some b \<Rightarrow> Inr b) (\<lambda>_. True)"
      using safe_given by (auto split: option.split)
    show ?thesis using pos FBool
      by (auto simp: pack_fixed_item_def Let_def intro!: safe_bind [OF pick] span put)
  next
    case (FRaw len ex)
    have "safe (case ex of Some b \<Rightarrow> if length b \<noteq> len then panic else put ?pos b ctx
        | None \<Rightarrow> (case v of Some x \<Rightarrow> bind_res (ok_or (pfail KType) (s_as_bytes S x)) (\<lambda>b.
              if length b \<noteq> len then Inl (Fail (pfail KLength)) else put ?pos b ctx)
          | None \<Rightarrow> if key_name (fi_key item) \<noteq> None then Inl (Fail (pfail KMissing)) else Inr ctx)) (stays (Suc d) ctx)"
      using FRaw kind put ok by (auto simp: stays_def [of _ ctx ctx] split: option.split intro!: safe_bind [where P = "\<lambda>_. True"])
    then show ?thesis unfolding pack_fixed_item_def Let_def FRaw fix_kind.case
      by (rule span) (use FRaw pos in auto)
  qed
qed

lemma safe_pack_bit_item:
  assumes ok: "pctx_ok (Suc d) ctx" and item: "bit_item_ok item"
    and fits: "base * 8 + (off + bi_width item) \<le> length (pc_out ctx) * 8"
  shows "safe (pack_bit_item S base off item v ctx) (stays (Suc d) ctx)"
proof (cases "bi_derived item")
  case True
  then show ?thesis using item fits
    by (auto simp: pack_bit_item_def bit_item_ok_def idx_ok_def split: option.splits
      intro!: safe_bind [where P = "\<lambda>r. bi_reg item = Some r"] safe_reserve ok)
next
  case False
  have "idx_ok MAX_REGS (bi_reg item)" using item by (simp add: bit_item_ok_def)
  then show ?thesis using False fits
    by (auto simp: pack_bit_item_def intro!: safe_bind [OF safe_given] safe_bind [OF safe_check_bits_range]
      safe_then_reg [OF safe_or_bits ok])
qed

section \<open>Flags\<close>

lemma safe_opt: "safe (case x of None \<Rightarrow> Inr dflt | Some a \<Rightarrow> ok_or e (g a)) (\<lambda>_. True)"
  by (auto split: option.split)

lemma prim_width_le: "prim_width prim \<le> isize_max"
  by (cases prim) (simp_all add: isize_max_def)

lemma safe_pack_flags:
  assumes "pctx_ok d ctx"
  shows "guarded (roomy (prim_width prim) ctx) F (pack_flags S prim be items rest rest_mask v ctx) (adds d (prim_width prim) ctx)"
proof -
  let ?w = "prim_width prim"
  have step: "safe (flag_step S view item raw) (\<lambda>_. True)" for view item raw
    by (auto simp: flag_step_def Let_def intro!: safe_bind [OF safe_opt])
  have word: "safe (flags_word S items rest rest_mask view) (\<lambda>_. True)" for view
    by (auto simp: flags_word_def intro!: safe_bind [OF safe_fold_res [where P = "\<lambda>_. True"]] step safe_bind [OF safe_opt])
  have out: "guarded (roomy ?w ctx) F (bind_res (grow ?w ctx) (\<lambda>c. bind_res (write_uint_at (pc_out c) (length (pc_out ctx)) ?w be raw)
      (\<lambda>out. Inr (c\<lparr>pc_out := out\<rparr>)))) (adds d ?w ctx)" for raw
  proof (rule guarded_then [OF guarded_grow [OF assms prim_width_le]], elim conjE)
    fix c
    assume r: "roomy ?w ctx" and c: "c = extended (replicate ?w 0) ctx"
    have "pctx_ok d c" using pctx_ok_extended [OF assms] r c by simp
    then show "safe (bind_res (write_uint_at (pc_out c) (length (pc_out ctx)) ?w be raw) (\<lambda>out. Inr (c\<lparr>pc_out := out\<rparr>))) (adds d ?w ctx)"
      by (auto simp: adds_def c intro!: safe_bind [OF safe_write_uint_at] pctx_ok_out)
  qed
  show ?thesis unfolding pack_flags_def Let_def
    by (rule guarded_bind [OF guarded_safe [where Q = "\<lambda>_. True"]], simp, rule guarded_bind [OF guarded_safe [OF word]], rule out)
qed

section \<open>Digests\<close>

fun hash_len :: "hasher \<Rightarrow> nat option" where
  "hash_len (HMd5 _) = Some 16"
| "hash_len (HSha1 _) = Some 20"
| "hash_len (HSha256 _) = Some 32"
| "hash_len _ = None"

lemma hash_len_ip_update: "hash_len (ip_update b acc pend) = None"
  by (cases "(b, acc, pend)" rule: ip_update.cases) (auto simp: Let_def split: prod.split)

lemma hash_len_update [simp]: "hash_len (update b h) = hash_len h"
  by (cases h) (auto simp: hash_len_ip_update)

lemma finalize_width:
  assumes "hash_lengths H" and "hash_len h = hash_len (hasher_new a)" and "finalize H h = DBytes b"
  shows "length b = width_bytes a"
  using assms by (cases h; cases a) (auto simp: hash_lengths_def Let_def)

lemma safe_write_digest:
  assumes H: "hash_lengths H" and dg: "pdigest_ok (length out) dg" and sp: "spans_ok (length out) spans"
    and s: "ss \<le> se" "se \<le> length out"
  shows "safe (write_digest H ss se spans dg out) (\<lambda>out'. length out' = length out)"
proof -
  let ?fed = "\<lambda>h. hash_len h = hash_len (hasher_new (pd_algo dg))"
  have "safe (feed_out out spans i h) ?fed" if "i < MAX_SPANS" "?fed h" for i h
  proof -
    obtain a b where "spans ! i = (a, b)" by fastforce
    moreover have "spans ! i \<in> set spans" "i < length spans" using that sp by (simp_all add: spans_ok_def)
    ultimately show ?thesis using that sp
      by (auto simp: feed_out_def spans_ok_def intro!: safe_bind [where P = "\<lambda>p. p = (a, b)"] safe_bind [where P = "\<lambda>_. True"])
  qed
  then have "safe (case pd_over dg of
      Star \<Rightarrow> bind_res (slice_res out ss se) (\<lambda>b. Inr (update b (hasher_new (pd_algo dg))))
    | Spans idxs \<Rightarrow> fold_res (feed_out out spans) idxs (hasher_new (pd_algo dg))) ?fed"
    using dg s by (auto simp: pdigest_ok_def list_all_iff split: over.split
      intro!: safe_fold_res safe_bind [where P = "\<lambda>_. True"])
  then show ?thesis unfolding write_digest_def
  proof (rule safe_bind)
    fix h
    assume "?fed h"
    then show "safe (case finalize H h of DInt v \<Rightarrow> write_uint_at out (pd_pos dg) (pd_width dg) (pd_be dg) v
        | DBytes b \<Rightarrow> if length b \<noteq> pd_width dg then panic else splice_res out (pd_pos dg) b) (\<lambda>out'. length out' = length out)"
      using finalize_width [OF H] dg by (auto simp: pdigest_ok_def split: digest_val.split intro!: safe_write_uint_at)
  qed
qed

section \<open>Opcodes of a struct\<close>

lemma safe_pack_fixed:
  assumes ok: "pctx_ok (Suc d) ctx" and items: "list_all (fixed_item_ok width) items" and w: "F \<Longrightarrow> width \<le> isize_max"
  shows "guarded (roomy width ctx) F (pack_fixed S view width items ctx) (adds (Suc d) width ctx)"
  unfolding pack_fixed_def Let_def
proof (rule guarded_then [OF guarded_grow [OF ok w]], assumption, elim conjE)
  fix c0
  assume r: "roomy width ctx" and c0: "c0 = extended (replicate width 0) ctx"
  let ?inv = "\<lambda>c. pctx_ok (Suc d) c \<and> length (pc_out c) = length (pc_out ctx) + width"
  have "safe (fold_res (\<lambda>item c. map_fail (seg_key (fi_key item))
      (pack_fixed_item S (length (pc_out ctx)) item (lookup S view (fi_key item)) c)) items c0) ?inv"
  proof (rule safe_fold_res)
    fix item c
    assume "item \<in> set items" "?inv c"
    then show "safe (map_fail (seg_key (fi_key item))
        (pack_fixed_item S (length (pc_out ctx)) item (lookup S view (fi_key item)) c)) ?inv"
      using items by (auto simp: list_all_iff stays_def intro!: safe_mono [OF safe_pack_fixed_item])
  qed (use ok r in \<open>simp add: c0 pctx_ok_extended\<close>)
  then show "safe (fold_res (\<lambda>item c. map_fail (seg_key (fi_key item))
      (pack_fixed_item S (length (pc_out ctx)) item (lookup S view (fi_key item)) c)) items c0) (adds (Suc d) width ctx)"
    by (auto simp: adds_def elim!: safe_mono)
qed

lemma safe_pack_bits:
  assumes ok: "pctx_ok (Suc d) ctx" and items: "list_all bit_item_ok items" and w: "bits_width items \<le> 8 * nbytes"
    and n: "F \<Longrightarrow> nbytes \<le> isize_max"
  shows "guarded (roomy nbytes ctx) F (pack_bits S view nbytes items ctx) (adds (Suc d) nbytes ctx)"
proof -
  let ?base = "length (pc_out ctx)"
  let ?inv = "\<lambda>n c. pctx_ok (Suc d) c \<and> length (pc_out c) = ?base + nbytes"
  have walk: "safe (fold_res (pack_bits_step S view ?base) its (off, c)) (\<lambda>(_, c). ?inv n c)"
    if "list_all bit_item_ok its" "off + bits_width its \<le> 8 * nbytes" "?inv n c" for its off c n
    using that
  proof (induction its arbitrary: off c)
    case (Cons item its)
    have item: "safe (pack_bit_item S ?base off item x c) (\<lambda>c. ?inv n c)" for x
      using Cons.prems by (auto simp: stays_def bits_width_def intro!: safe_mono [OF safe_pack_bit_item])
    have "safe (pack_bits_step S view ?base item (off, c)) (\<lambda>(off', c'). off' = off + bi_width item \<and> ?inv n c')"
      by (auto simp: pack_bits_step_def intro!: safe_bind [OF iffD2 [OF safe_map_fail item]])
    then show ?case unfolding fold_res.simps
      by (rule safe_bind) (use Cons.prems in \<open>auto simp: bits_width_def intro!: Cons.IH\<close>)
  qed simp
  show ?thesis unfolding pack_bits_def Let_def
  proof (rule guarded_then [OF guarded_grow [OF ok n]], assumption, elim conjE)
    fix c
    assume "roomy nbytes ctx" "c = extended (replicate nbytes 0) ctx"
    then have "safe (fold_res (pack_bits_step S view ?base) items (0, c)) (\<lambda>(_, c). ?inv 0 c)"
      using ok items w by (intro walk) (auto simp: pctx_ok_extended)
    then show "safe (bind_res (fold_res (pack_bits_step S view ?base) items (0, c)) (\<lambda>(_, c). Inr c)) (adds (Suc d) nbytes ctx)"
      by (auto simp: adds_def intro!: safe_bind)
  qed
qed

lemma safe_pack_digest:
  assumes ok: "pctx_ok (Suc d) ctx" and c: "named c" "common_ok c"
    and over: "case over of Spans idxs \<Rightarrow> list_all (\<lambda>i. i < MAX_SPANS) idxs | Star \<Rightarrow> True"
    and w: "F \<Longrightarrow> width_bytes algo \<le> isize_max"
  shows "guarded (roomy (width_bytes algo) ctx) F (pack_digest algo over be c ctx) (adds (Suc d) (width_bytes algo) ctx)"
  unfolding pack_digest_def Let_def
proof (rule guarded_then [OF guarded_grow [OF ok w]], assumption, elim conjE)
  let ?w = "width_bytes algo" and ?pos = "length (pc_out ctx)"
  fix c0
  assume r: "roomy ?w ctx" and c0: "c0 = extended (replicate ?w 0) ctx"
  have ok1: "pctx_ok (Suc d) c0" using pctx_ok_extended [OF ok] r c0 by simp
  have span: "safe (pset_span (c_span c) ?pos (?pos + ?w) c0) (stays (Suc d) c0)"
    using c by (intro safe_pset_span ok1) (simp_all add: common_ok_def c0)
  have push: "safe (with_top (\<lambda>f. Inr (f\<lparr>pr_digests := pr_digests f @
      [\<lparr>pd_algo = algo, pd_over = over, pd_pos = ?pos, pd_width = ?w, pd_be = be, pd_key = key\<rparr>]\<rparr>)) c1) (adds (Suc d) ?w ctx)"
    if "stays (Suc d) c0 c1" for c1 key
    using that over
    by (intro safe_mono [OF safe_with_top]) (auto simp: stays_def adds_def pframe_ok_def pdigest_ok_def c0)
  obtain key where "key_name (c_key c) = Some key" using c(1) by (auto simp: named_def)
  then show "safe (bind_res (pset_span (c_span c) ?pos (?pos + ?w) c0) (\<lambda>ctx. bind_res (expect (key_name (c_key c))) (\<lambda>key.
      with_top (\<lambda>f. Inr (f\<lparr>pr_digests := pr_digests f @
        [\<lparr>pd_algo = algo, pd_over = over, pd_pos = ?pos, pd_width = ?w, pd_be = be, pd_key = key\<rparr>]\<rparr>)) ctx))) (adds (Suc d) ?w ctx)"
    by (auto intro!: safe_bind [OF span] push)
qed

section \<open>Room\<close>

text \<open>What a program and a value can make the packer write: the widths of the runs and the bytes of the
  values that \<open>pack\<close> looks up, the widest branch of a switch, every element of a list.\<close>

definition room_named :: "('v, 'w) source \<Rightarrow> 'w \<Rightarrow> common \<Rightarrow> ('v \<Rightarrow> nat) \<Rightarrow> nat" where
  "room_named S view c rm = (case lookup S view (c_key c) of Some v \<Rightarrow> rm v | None \<Rightarrow> 0)"

definition room_text :: "('v, 'w) source \<Rightarrow> enc \<Rightarrow> 'v \<Rightarrow> nat" where
  "room_text S e v = (case encoded S e v of Inr b \<Rightarrow> length b | Inl _ \<Rightarrow> 0)"

lemma size_branch: "c \<in> set cases \<Longrightarrow> size (snd c) \<le> size_list (size_prod (\<lambda>_. 0) (size :: op \<Rightarrow> nat)) cases"
  using size_list_estimation' [of c cases "size (snd c)" "size_prod (\<lambda>_. 0) size"] by (cases c) simp

function
  room_prog :: "('v, 'w) source \<Rightarrow> program \<Rightarrow> 'v \<Rightarrow> nat" and
  room_op :: "('v, 'w) source \<Rightarrow> op \<Rightarrow> 'w \<Rightarrow> nat" and
  room_val :: "('v, 'w) source \<Rightarrow> op \<Rightarrow> 'v \<Rightarrow> nat" where
  "room_prog S prog v =
     (case s_map_view S v of
        Some view \<Rightarrow> sum_list (map (\<lambda>op. room_op S op view) (prog_ops prog))
      | None \<Rightarrow> 0)"
| "room_op S op view =
     (case op of
        OpFixed width _ \<Rightarrow> width
      | OpBitRun nbytes _ \<Rightarrow> nbytes
      | OpDigest algo _ _ _ _ \<Rightarrow> width_bytes algo
      | OpCond _ thn c \<Rightarrow> room_named S view c (room_val S thn)
      | _ \<Rightarrow> (case op_common op of Some c \<Rightarrow> room_named S view c (room_val S op) | None \<Rightarrow> 0))"
| "room_val S op v =
     (case op of
        OpFixed width _ \<Rightarrow> width
      | OpBytes _ _ _ \<Rightarrow> (case s_as_bytes S v of Some b \<Rightarrow> length b | None \<Rightarrow> 0)
      | OpStr _ _ e _ \<Rightarrow> room_text S e v
      | OpCStr _ e _ \<Rightarrow> room_text S e v + 1
      | OpFlags prim _ _ _ _ _ \<Rightarrow> prim_width prim
      | OpNest prog _ _ \<Rightarrow> room_prog S prog v
      | OpArray _ _ elem _ _ \<Rightarrow>
          (case s_as_list S v of Some xs \<Rightarrow> sum_list (map (room_val S elem) xs) | None \<Rightarrow> 0)
      | OpSwitch _ cases dflt _ \<Rightarrow>
          foldr max (map (\<lambda>c. room_val S (snd c) v) cases)
            (case dflt of Some op \<Rightarrow> room_val S op v | None \<Rightarrow> 0)
      | _ \<Rightarrow> 0)"
  by pat_completeness auto

termination
  by (relation "measure (\<lambda>x. case x of
        Inl (_, prog, _) \<Rightarrow> 2 * size prog
      | Inr (Inl (_, op, _)) \<Rightarrow> 2 * size op + 1
      | Inr (Inr (_, op, _)) \<Rightarrow> 2 * size op)")
     (auto dest: size_prog_op size_branch)

declare room_prog.simps [simp del] room_op.simps [simp del] room_val.simps [simp del]

lemma le_foldr_max: "x \<in> set xs \<Longrightarrow> x \<le> foldr max xs (k :: nat)" "k \<le> foldr max xs k"
  by (induction xs) (auto simp: le_max_iff_disj)

lemma room_branch:
  assumes "switch_branch tag cases dflt = Some b"
  shows "room_val S b v \<le> room_val S (OpSwitch on cases dflt c) v"
proof -
  from switch_branch_cases [OF assms] consider "(tag, b) \<in> set cases" | "dflt = Some b" by blast
  then show ?thesis
  proof cases
    case 1
    then have "room_val S b v \<in> set (map (\<lambda>c. room_val S (snd c) v) cases)" by force
    then show ?thesis unfolding room_val.simps [of S "OpSwitch on cases dflt c"] op.case by (rule le_foldr_max(1))
  next
    case 2
    then show ?thesis unfolding room_val.simps [of S "OpSwitch on cases dflt c"] op.case by (simp add: le_foldr_max(2))
  qed
qed

text \<open>No run of the program is wider than a vector can be.\<close>

fun fits_prog :: "program \<Rightarrow> bool" and fits_op :: "op \<Rightarrow> bool" where
  "fits_prog (Program ops _ _ _ _) \<longleftrightarrow> list_all fits_op ops"
| "fits_op (OpFixed width _) \<longleftrightarrow> width \<le> isize_max"
| "fits_op (OpBitRun nbytes _) \<longleftrightarrow> nbytes \<le> isize_max"
| "fits_op (OpDigest algo _ _ _ _) \<longleftrightarrow> width_bytes algo \<le> isize_max"
| "fits_op (OpNest prog _ _) \<longleftrightarrow> fits_prog prog"
| "fits_op (OpArray _ _ elem _ _) \<longleftrightarrow> fits_op elem"
| "fits_op (OpSwitch _ cases dflt _) \<longleftrightarrow> list_all (\<lambda>c. fits_op (snd c)) cases \<and> (case dflt of Some op \<Rightarrow> fits_op op | None \<Rightarrow> True)"
| "fits_op (OpCond _ thn _) \<longleftrightarrow> fits_op thn"
| "fits_op _ \<longleftrightarrow> True"

lemma fits_branch:
  assumes "switch_branch tag cases dflt = Some b" and "fits_op (OpSwitch on cases dflt c)"
  shows "fits_op b"
  using switch_branch_cases [OF assms(1)] assms(2) by (force simp: list_all_iff)

section \<open>The walk\<close>

lemma safe_pack_named:
  assumes ok: "pctx_ok (Suc d) ctx" and c: "named c" "common_ok c"
    and p: "\<And>v. guarded (roomy (rm v) ctx) F (p v ctx) (within (Suc d) (rm v) ctx)"
  shows "guarded (roomy (room_named S view c rm) ctx) F (pack_named S view c p ctx) (within (Suc d) (room_named S view c rm) ctx)"
proof -
  have span: "safe (pset_span (c_span c) (length (pc_out ctx)) (length (pc_out c1)) c1) (within (Suc d) n ctx)"
    if "within (Suc d) n ctx c1" for c1 n
    using that c by (intro safe_mono [OF safe_pset_span]) (auto simp: within_def appends_def stays_def common_ok_def)
  obtain n where n: "key_name (c_key c) = Some n" using c(1) by (auto simp: named_def)
  show ?thesis
  proof (cases "s_view_get S view n")
    case (Some v)
    have "guarded (roomy (rm v) ctx) F (bind_res (map_fail (seg_key (c_key c)) (p v ctx))
        (\<lambda>c1. pset_span (c_span c) (length (pc_out ctx)) (length (pc_out c1)) c1)) (within (Suc d) (rm v) ctx)"
      by (rule guarded_then [where P = "within (Suc d) (rm v) ctx"]) (simp_all add: p span)
    then show ?thesis by (simp add: pack_named_def room_named_def lookup_def n Some)
  qed (simp add: pack_named_def n)
qed

definition packs :: "nat \<Rightarrow> bool \<Rightarrow> ('v \<Rightarrow> nat) \<Rightarrow> 'v pvalue \<Rightarrow> bool" where
  "packs d F rm p \<longleftrightarrow> (\<forall>v ctx. pctx_ok d ctx \<longrightarrow> guarded (roomy (rm v) ctx) F (p v ctx) (within d (rm v) ctx))"

lemma packsD: "packs d F rm p \<Longrightarrow> pctx_ok d ctx \<Longrightarrow> guarded (roomy (rm v) ctx) F (p v ctx) (within d (rm v) ctx)"
  by (simp add: packs_def)

lemma packs_Inr: "packs d True rm p \<Longrightarrow> pctx_ok d ctx \<Longrightarrow> p v ctx = Inr ctx' \<Longrightarrow> appends d ctx ctx'"
  using guarded_Inr [OF packsD] within_appends by fastforce

text \<open>Steps one after the other need the room of them all.\<close>

lemma guarded_walk:
  assumes "\<And>x c. x \<in> set xs \<Longrightarrow> pctx_ok d c \<Longrightarrow> guarded (roomy (rm x) c) F (f x c) (within d (rm x) c)"
  shows "pctx_ok d ctx \<Longrightarrow> guarded (roomy (sum_list (map rm xs)) ctx) F (fold_res f xs ctx) (within d (sum_list (map rm xs)) ctx)"
  using assms
proof (induction xs arbitrary: ctx)
  case Nil
  then show ?case by (simp add: within_def appends_def)
next
  case (Cons x xs)
  let ?n = "sum_list (map rm xs)"
  have head: "guarded (roomy (rm x + ?n) ctx) F (f x ctx) (within d (rm x) ctx)"
    by (rule guarded_mono [OF Cons.prems(2) [of x]]) (use Cons.prems(1) in \<open>auto simp: roomy_def\<close>)
  have tail: "guarded (roomy (rm x + ?n) ctx) F (fold_res f xs c) (within d (rm x + ?n) ctx)" if c: "within d (rm x) ctx c" for c
  proof -
    have "pctx_ok d c" using c by (simp add: within_def appends_def)
    from Cons.IH [OF this Cons.prems(2)] have "guarded (roomy ?n c) F (fold_res f xs c) (within d ?n c)" by simp
    then show ?thesis by (rule guarded_mono) (use c in \<open>auto simp: roomy_def within_def appends_def\<close>)
  qed
  show ?case by simp (rule guarded_bind [OF head tail])
qed

lemma safe_then_finish_len:
  assumes "guarded G F m (within d n ctx)" and "len_src_ok d len"
  shows "guarded G F (bind_res m (\<lambda>c. finish_len len (k c) c)) (within d n ctx)"
  by (rule guarded_then [OF assms(1)], rule safe_mono [OF safe_finish_len [OF _ assms(2)]])
    (auto simp: within_def appends_def stays_def)

lemma safe_pack_blob:
  assumes "pctx_ok d ctx" and "len_src_ok d len"
  shows "guarded (roomy (length b) ctx) F (pack_blob len mx b ctx) (within d (length b) ctx)"
proof -
  have "guarded (roomy (length b) ctx) F (bind_res (append_bytes b ctx) (\<lambda>c. finish_len len (length b) c)) (within d (length b) ctx)"
    by (rule safe_then_finish_len [OF guarded_mono [OF guarded_append] assms(2)])
      (use pctx_ok_extended [OF assms(1)] in \<open>auto simp: within_def appends_def\<close>)
  then show ?thesis by (simp add: pack_blob_def)
qed

lemma safe_pack_cstr:
  assumes ok: "pctx_ok d ctx"
  shows "guarded (roomy (length b + 1) ctx) F (pack_cstr mx b ctx) (within d (length b + 1) ctx)"
proof -
  have "guarded (roomy (length b + 1) ctx) F (bind_res (append_bytes b ctx) (append_bytes [0])) (within d (length b + 1) ctx)"
  proof (rule guarded_bind [OF guarded_mono [OF guarded_append]], simp add: roomy_def, assumption, elim conjE)
    fix c
    assume c: "roomy (length b) ctx" "c = extended b ctx"
    have "guarded (roomy (length [0 :: 8 word]) c) F (append_bytes [0] c) (\<lambda>c'. roomy (length [0 :: 8 word]) c \<and> c' = extended [0] c)"
      by (rule guarded_append)
    then show "guarded (roomy (length b + 1) ctx) F (append_bytes [0] c) (within d (length b + 1) ctx)"
      by (rule guarded_mono) (use c pctx_ok_extended [OF pctx_ok_extended [OF ok]] in \<open>auto simp: roomy_def within_def appends_def\<close>)
  qed
  then show ?thesis by (simp add: pack_cstr_def)
qed

lemma safe_pack_nest:
  assumes p: "packs d F rm p" and sz: "case sz of Some len \<Rightarrow> len_src_ok d len | None \<Rightarrow> True"
  shows "packs d F rm (pack_nest p sz)"
  unfolding packs_def pack_nest_def
proof (intro allI impI)
  fix v ctx
  assume ok: "pctx_ok d ctx"
  show "guarded (roomy (rm v) ctx) F (bind_res (p v ctx) (\<lambda>ctx'. case sz of None \<Rightarrow> Inr ctx'
      | Some len \<Rightarrow> finish_len len (wrapping_sub (length (pc_out ctx')) (length (pc_out ctx))) ctx')) (within d (rm v) ctx)"
    using safe_then_finish_len [OF packsD [OF p ok]] packsD [OF p ok] sz
    by (cases sz) auto
qed

lemma safe_pack_items:
  assumes "packs d F rm p" and "pctx_ok d ctx"
  shows "guarded (roomy (sum_list (map (\<lambda>x. rm (snd x)) xs)) ctx) F
    (fold_res (\<lambda>(i, item) ctx. map_fail (pfail_seg (SegIndex i)) (p item ctx)) xs ctx) (within d (sum_list (map (\<lambda>x. rm (snd x)) xs)) ctx)"
  by (rule guarded_walk [OF _ assms(2)]) (use packsD [OF assms(1)] in \<open>auto split: prod.split\<close>)

lemma safe_pack_array:
  assumes p: "packs d F rm p" and count: "count_src_ok d count"
  shows "packs d F (\<lambda>v. case s_as_list S v of Some xs \<Rightarrow> sum_list (map rm xs) | None \<Rightarrow> 0) (pack_array S p count)"
  unfolding packs_def
proof (intro allI impI)
  fix v ctx
  assume ok: "pctx_ok d ctx"
  show "guarded (roomy (case s_as_list S v of Some xs \<Rightarrow> sum_list (map rm xs) | None \<Rightarrow> 0) ctx) F (pack_array S p count v ctx)
      (within d (case s_as_list S v of Some xs \<Rightarrow> sum_list (map rm xs) | None \<Rightarrow> 0) ctx)"
  proof (cases "s_as_list S v")
    case (Some xs)
    have "map (\<lambda>x. rm (snd x)) (enumerate 0 xs) = map rm xs"
      using arg_cong [OF map_snd_enumerate [of 0 xs], of "map rm"] by (simp only: map_map comp_def)
    note items = safe_pack_items [OF p ok, of "enumerate 0 xs", unfolded this]
    show ?thesis using items safe_then_finish_len [OF items] count
      by (cases count) (auto simp: pack_array_def Some)
  qed (simp add: pack_array_def)
qed

lemma safe_pack_switch:
  assumes "expr_ok d on" and p: "\<And>tag op. switch_branch tag cases dflt = Some op \<Longrightarrow> packs d F (rm op) (p op)"
    and le: "\<And>tag op v. switch_branch tag cases dflt = Some op \<Longrightarrow> rm op v \<le> n v"
  shows "packs d F n (pack_switch p on cases dflt)"
  unfolding packs_def pack_switch_def
proof (intro allI impI)
  fix v ctx
  assume ok: "pctx_ok d ctx"
  show "guarded (roomy (n v) ctx) F (bind_res (peval ctx on) (\<lambda>tag. case switch_branch tag cases dflt of
      Some op \<Rightarrow> p op v ctx | None \<Rightarrow> Inl (Fail (pfail KNoCase)))) (within d (n v) ctx)"
  proof (rule guarded_bind [OF guarded_safe [OF safe_peval [OF ok assms(1)]]])
    fix tag
    show "guarded (roomy (n v) ctx) F (case switch_branch tag cases dflt of Some op \<Rightarrow> p op v ctx | None \<Rightarrow> Inl (Fail (pfail KNoCase))) (within d (n v) ctx)"
    proof (cases "switch_branch tag cases dflt")
      case (Some op)
      show ?thesis unfolding Some option.case
        by (rule guarded_mono [OF packsD [OF p [OF Some] ok]]) (use le [OF Some, of v] in \<open>auto simp: roomy_def within_def\<close>)
    qed simp
  qed
qed

lemma safe_write_digests:
  assumes H: "hash_lengths H" and f: "pframe_ok (length out) f" and s: "ss \<le> length out"
  shows "safe (fold_res (write_digest H ss (length out) (pr_spans f)) (pr_digests f) out) (\<lambda>out'. length out' = length out)"
proof (rule safe_fold_res)
  fix dg and out' :: bytes
  assume dg: "dg \<in> set (pr_digests f)" and out: "length out' = length out"
  have "pdigest_ok (length out') dg" "spans_ok (length out') (pr_spans f)"
    using f dg out by (auto simp: pframe_ok_def list_all_iff)
  then show "safe (write_digest H ss (length out) (pr_spans f) dg out') (\<lambda>out'. length out' = length out)"
    using safe_write_digest [OF H, of out' dg "pr_spans f" ss "length out"] s out by simp
qed simp

definition op_packs :: "hashes \<Rightarrow> ('v, 'w) source \<Rightarrow> nat \<Rightarrow> bool \<Rightarrow> op \<Rightarrow> bool" where
  "op_packs H S d F op \<longleftrightarrow> (\<forall>view ctx. pctx_ok d ctx \<longrightarrow>
     guarded (roomy (room_op S op view) ctx) F (pack_op H S op view ctx) (within d (room_op S op view) ctx))"

lemma op_packs_Inr: "op_packs H S d True op \<Longrightarrow> pctx_ok d ctx \<Longrightarrow> pack_op H S op view ctx = Inr c \<Longrightarrow> appends d ctx c"
  using guarded_Inr within_appends unfolding op_packs_def by fastforce

lemma ops_packs_Inr:
  assumes "\<And>op. op \<in> set ops \<Longrightarrow> op_packs H S d True op" and "pctx_ok d ctx"
    and "fold_res (\<lambda>op ctx. pack_op H S op view ctx) ops ctx = Inr c"
  shows "appends d ctx c"
proof -
  have "guarded (roomy (sum_list (map (\<lambda>op. room_op S op view) ops)) ctx) True (fold_res (\<lambda>op ctx. pack_op H S op view ctx) ops ctx)
      (within d (sum_list (map (\<lambda>op. room_op S op view) ops)) ctx)"
    by (rule guarded_walk [OF _ assms(2)]) (use assms(1) in \<open>auto simp: op_packs_def\<close>)
  from within_appends [OF guarded_Inr [OF this _ assms(3)]] show ?thesis by simp
qed

lemma safe_pack_struct_step:
  assumes H: "hash_lengths H" and ops: "\<And>op. op \<in> set (prog_ops prog) \<Longrightarrow> op_packs H S (Suc d) F op"
  shows "packs d F (room_prog S prog) (pack_struct H S prog)"
  unfolding packs_def
proof (intro allI impI)
  fix v ctx
  assume ok: "pctx_ok d ctx"
  let ?ctx = "ctx\<lparr>pc_frames := pframe_new # pc_frames ctx\<rparr>"
  have ok1: "pctx_ok (Suc d) ?ctx" using ok by (simp add: pctx_ok_def)
  have digests: "safe (bind_res (fold_res (write_digest H (length (pc_out ctx)) (length (pc_out c)) (pr_spans f)) (pr_digests f) (pc_out c))
      (\<lambda>out. Inr \<lparr>pc_out = out, pc_frames = rest\<rparr>)) (within d n ctx)"
    if c: "within (Suc d) n ?ctx c" and f: "pc_frames c = f # rest" for c f rest n
    using c f by (auto simp: within_def appends_def pctx_ok_def intro!: safe_bind [OF safe_write_digests [OF H]])
  show "guarded (roomy (room_prog S prog v) ctx) F (pack_struct H S prog v ctx) (within d (room_prog S prog v) ctx)"
  proof (cases "s_map_view S v")
    case (Some view)
    let ?n = "sum_list (map (\<lambda>op. room_op S op view) (prog_ops prog))"
    have walk: "guarded (roomy ?n ?ctx) F (fold_res (\<lambda>op ctx. pack_op H S op view ctx) (prog_ops prog) ?ctx) (within (Suc d) ?n ?ctx)"
      by (rule guarded_walk [OF _ ok1]) (use ops in \<open>auto simp: op_packs_def\<close>)
    then have walk: "guarded (roomy ?n ctx) F (fold_res (\<lambda>op ctx. pack_op H S op view ctx) (prog_ops prog) ?ctx) (within (Suc d) ?n ?ctx)"
      by (simp add: roomy_def)
    have "guarded (roomy ?n ctx) F (bind_res (fold_res (\<lambda>op ctx. pack_op H S op view ctx) (prog_ops prog) ?ctx) (\<lambda>c. case pc_frames c of [] \<Rightarrow> panic
        | f # rest \<Rightarrow> bind_res (fold_res (write_digest H (length (pc_out ctx)) (length (pc_out c)) (pr_spans f)) (pr_digests f) (pc_out c))
            (\<lambda>out. Inr \<lparr>pc_out = out, pc_frames = rest\<rparr>))) (within d ?n ctx)"
    proof (rule guarded_then [OF walk])
      fix c
      assume c: "within (Suc d) ?n ?ctx c"
      then obtain f rest where "pc_frames c = f # rest" by (cases "pc_frames c") (auto simp: within_def appends_def pctx_ok_def)
      then show "safe (case pc_frames c of [] \<Rightarrow> panic
        | f # rest \<Rightarrow> bind_res (fold_res (write_digest H (length (pc_out ctx)) (length (pc_out c)) (pr_spans f)) (pr_digests f) (pc_out c))
            (\<lambda>out. Inr \<lparr>pc_out = out, pc_frames = rest\<rparr>)) (within d ?n ctx)" using digests [OF c] by simp
    qed
    then show ?thesis by (simp add: pack_struct.simps room_prog.simps Some)
  qed (simp add: pack_struct.simps)
qed

lemma room_leaf:
  "room_val S (OpStr len mx e c) v = room_text S e v" "room_val S (OpCStr mx e c) v = room_text S e v + 1"
  "room_val S (OpFlags prim be items rest rest_mask c) v = prim_width prim"
  by (simp_all add: room_val.simps)

lemma pack_leaf:
  "pack_value H S (OpStr len mx e c) v ctx = bind_res (encoded S e v) (\<lambda>b. pack_blob len mx b ctx)"
  "pack_value H S (OpCStr mx e c) v ctx = bind_res (encoded S e v) (\<lambda>b. pack_cstr mx b ctx)"
  "pack_value H S (OpFlags prim be items rest rest_mask c) v ctx = pack_flags S prim be items rest rest_mask v ctx"
  by (simp_all add: pack_value.simps)

lemma packs_cong: "packs d F rm p \<Longrightarrow> (\<And>v. rm v = rm' v) \<Longrightarrow> (\<And>v ctx. p v ctx = p' v ctx) \<Longrightarrow> packs d F rm' p'"
  by (simp add: packs_def)

lemma safe_encoded: "safe (encoded S e v) (\<lambda>b. room_text S e v = length b)"
  by (cases "encoded S e v") (auto simp: room_text_def encoded_def safe_def bind_res_eq_Inl split: fault.split)

lemma safe_pack_value_step:
  assumes wf: "wf_val (Suc d) op" and F: "F \<Longrightarrow> fits_op op"
    and nest: "\<And>prog sz c. op = OpNest prog sz c \<Longrightarrow> packs (Suc d) F (room_prog S prog) (pack_struct H S prog)"
    and elem: "\<And>count mc elem em c. op = OpArray count mc elem em c \<Longrightarrow> packs (Suc d) F (room_val S elem) (pack_value H S elem)"
    and branch: "\<And>on cases dflt c tag b. op = OpSwitch on cases dflt c \<Longrightarrow> switch_branch tag cases dflt = Some b \<Longrightarrow>
      packs (Suc d) F (room_val S b) (pack_value H S b)"
  shows "packs (Suc d) F (room_val S op) (pack_value H S op)"
proof (cases op)
  case (OpFixed width items)
  then have item: "items \<noteq> []" "fixed_item_ok width (items ! 0)" using wf by simp_all
  show ?thesis unfolding packs_def
  proof (intro allI impI)
    fix v ctx
    assume ok: "pctx_ok (Suc d) ctx"
    have "guarded (roomy width ctx) F (bind_res (grow width ctx) (\<lambda>c. bind_res (nth_res items 0) (\<lambda>item.
        pack_fixed_item S (length (pc_out ctx)) item (Some v) c))) (within (Suc d) width ctx)"
    proof (rule guarded_then [OF guarded_grow [OF ok]], use F OpFixed in simp, elim conjE)
      fix c
      assume r: "roomy width ctx" and c: "c = extended (replicate width 0) ctx"
      have ok1: "pctx_ok (Suc d) c" using pctx_ok_extended [OF ok] r c by simp
      have "safe (pack_fixed_item S (length (pc_out ctx)) (items ! 0) (Some v) c) (within (Suc d) width ctx)"
        by (rule safe_mono [OF safe_pack_fixed_item [OF ok1 item(2)]]) (simp_all add: c stays_def within_def appends_def)
      then show "safe (bind_res (nth_res items 0) (\<lambda>item. pack_fixed_item S (length (pc_out ctx)) item (Some v) c)) (within (Suc d) width ctx)"
        using item by (simp add: nth_res_def)
    qed
    then show "guarded (roomy (room_val S op v) ctx) F (pack_value H S op v ctx) (within (Suc d) (room_val S op v) ctx)"
      by (simp add: pack_value.simps room_val.simps OpFixed)
  qed
next
  case (OpBytes len mx c)
  then have len: "len_src_ok (Suc d) len" using wf by simp
  show ?thesis using safe_pack_blob [OF _ len]
    by (auto simp: packs_def OpBytes pack_value.simps room_val.simps ok_or_def split: option.split)
next
  case (OpStr len mx e c)
  then have len: "len_src_ok (Suc d) len" using wf by simp
  show ?thesis unfolding packs_def OpStr room_leaf pack_leaf
    by (intro allI impI guarded_bind [OF guarded_safe [OF safe_encoded]]) (simp add: safe_pack_blob [OF _ len])
next
  case (OpCStr mx e c)
  show ?thesis unfolding packs_def OpCStr room_leaf pack_leaf
    by (intro allI impI guarded_bind [OF guarded_safe [OF safe_encoded]]) (simp only: safe_pack_cstr)
next
  case (OpFlags prim be items rest rest_mask c)
  show ?thesis unfolding packs_def OpFlags room_leaf pack_leaf
    by (intro allI impI, rule guarded_mono [OF safe_pack_flags]) (auto intro: adds_within)
next
  case (OpNest prog sz c)
  have "packs (Suc d) F (room_prog S prog) (pack_nest (pack_struct H S prog) sz)"
    using wf OpNest by (intro safe_pack_nest nest) (auto split: option.splits)
  then show ?thesis by (rule packs_cong) (simp_all add: OpNest pack_value.simps room_val.simps)
next
  case (OpArray count mc elem_op em c)
  have "count_src_ok (Suc d) count" using wf OpArray by simp
  from safe_pack_array [OF elem [OF OpArray] this, where S = S] show ?thesis
    by (rule packs_cong) (simp_all add: OpArray pack_value.simps room_val.simps [of S "OpArray _ _ _ _ _"])
next
  case (OpSwitch on cases dflt c)
  have "packs (Suc d) F (room_val S op) (pack_switch (pack_value H S) on cases dflt)"
    unfolding OpSwitch
    by (rule safe_pack_switch [where rm = "room_val S", OF _ branch [OF OpSwitch] room_branch]) (use wf OpSwitch in simp)
  then show ?thesis by (rule packs_cong) (simp_all add: OpSwitch pack_value.simps)
qed (use wf in simp_all)

lemma safe_pack_op_step:
  assumes wf: "wf_op (Suc d) op" and F: "F \<Longrightarrow> fits_op op"
    and val: "wf_val (Suc d) op \<Longrightarrow> packs (Suc d) F (room_val S op) (pack_value H S op)"
    and thn: "\<And>pred thn c. op = OpCond pred thn c \<Longrightarrow> packs (Suc d) F (room_val S thn) (pack_value H S thn)"
  shows "op_packs H S (Suc d) F op"
  unfolding op_packs_def
proof (intro allI impI)
  fix view ctx
  assume ok: "pctx_ok (Suc d) ctx"
  let ?goal = "guarded (roomy (room_op S op view) ctx) F (pack_op H S op view ctx) (within (Suc d) (room_op S op view) ctx)"
  have plain: ?goal if "op_common op = Some c" "named c" "common_ok c" "wf_val (Suc d) op"
      "\<And>a ov v be c. op \<noteq> OpDigest a ov v be c" "\<And>p t c. op \<noteq> OpCond p t c" for c
  proof -
    have "room_op S op view = room_named S view c (room_val S op)" "pack_op H S op view ctx = pack_named S view c (pack_value H S op) ctx"
      using that(1,5,6) by (cases op; simp add: room_op.simps pack_op.simps)+
    then show ?goal by simp (rule safe_pack_named [OF ok that(2,3)], rule packsD [OF val [OF that(4)] ok])
  qed
  show ?goal
  proof (cases op)
    case (OpFixed width items)
    then show ?thesis using wf F
      by (auto simp: pack_op.simps room_op.simps intro!: guarded_mono [OF safe_pack_fixed [OF ok]] adds_within)
  next
    case (OpBitRun nbytes items)
    then show ?thesis using wf F
      by (auto simp: pack_op.simps room_op.simps intro!: guarded_mono [OF safe_pack_bits [OF ok]] adds_within)
  next
    case (OpDigest algo over verify be c)
    then show ?thesis using wf F
      by (auto simp: pack_op.simps room_op.simps intro!: guarded_mono [OF safe_pack_digest [OF ok]] adds_within)
  next
    case (OpCond pred t c)
    then have e: "expr_ok (Suc d) pred" and c: "named c" "common_ok c" using wf by simp_all
    have "within (Suc d) n ctx ctx" for n using ok by (simp add: within_def appends_def)
    then show ?thesis unfolding pack_op.simps [of H S "OpCond pred t c"] room_op.simps [of S "OpCond pred t c"] OpCond op.case
      by (intro guarded_bind [OF guarded_safe [OF safe_peval [OF ok e]]])
        (auto intro!: safe_pack_named [OF ok c] packsD [OF thn [OF OpCond] ok])
  qed (use wf plain in \<open>auto split: option.splits\<close>)
qed

lemma safe_pack_walk:
  assumes H: "hash_lengths H"
  shows "(\<forall>prog d. 2 * size prog < n \<longrightarrow> wf_prog d prog \<longrightarrow> (F \<longrightarrow> fits_prog prog) \<longrightarrow> packs d F (room_prog S prog) (pack_struct H S prog)) \<and>
   (\<forall>op d. 2 * size op + 1 < n \<longrightarrow> wf_op (Suc d) op \<longrightarrow> (F \<longrightarrow> fits_op op) \<longrightarrow> op_packs H S (Suc d) F op) \<and>
   (\<forall>op d. 2 * size op < n \<longrightarrow> wf_val (Suc d) op \<longrightarrow> (F \<longrightarrow> fits_op op) \<longrightarrow> packs (Suc d) F (room_val S op) (pack_value H S op))"
proof (induction n)
  case (Suc n)
  then have ih3: "packs (Suc d) F (room_val S op) (pack_value H S op)" if "2 * size op < n" "wf_val (Suc d) op" "F \<longrightarrow> fits_op op" for op d
    using that by blast
  have 1: "packs d F (room_prog S prog) (pack_struct H S prog)" if "2 * size prog < Suc n" "wf_prog d prog" "F \<longrightarrow> fits_prog prog" for prog d
  proof (rule safe_pack_struct_step [OF H])
    fix op
    assume op: "op \<in> set (prog_ops prog)"
    have "wf_op (Suc d) op" "F \<longrightarrow> fits_op op" using that(2,3) op by (cases prog; auto simp: list_all_iff)+
    moreover have "2 * size op + 1 < n" using size_prog_op [OF op] that(1) by simp
    ultimately show "op_packs H S (Suc d) F op" using Suc by blast
  qed
  have 3: "packs (Suc d) F (room_val S op) (pack_value H S op)" if "2 * size op < Suc n" "wf_val (Suc d) op" "F \<longrightarrow> fits_op op" for op d
  proof (rule safe_pack_value_step [OF that(2)])
    show "fits_op op" if F using that \<open>F \<longrightarrow> fits_op op\<close> by blast
    show "packs (Suc d) F (room_prog S prog) (pack_struct H S prog)" if "op = OpNest prog sz c" for prog sz c
      using that \<open>2 * size op < Suc n\<close> \<open>wf_val (Suc d) op\<close> \<open>F \<longrightarrow> fits_op op\<close> by (intro 1) simp_all
    show "packs (Suc d) F (room_val S elem) (pack_value H S elem)" if "op = OpArray count mc elem em c" for count mc elem em c
      using that \<open>2 * size op < Suc n\<close> \<open>wf_val (Suc d) op\<close> \<open>F \<longrightarrow> fits_op op\<close> by (intro ih3) simp_all
    show "packs (Suc d) F (room_val S b) (pack_value H S b)"
      if "op = OpSwitch on cases dflt c" and b: "switch_branch tag cases dflt = Some b" for on cases dflt c tag b
      using that(1) \<open>2 * size op < Suc n\<close> \<open>wf_val (Suc d) op\<close> \<open>F \<longrightarrow> fits_op op\<close> size_switch_branch [OF b] wf_switch_branch [OF b] fits_branch [OF b]
      by (intro ih3) simp_all
  qed
  have 2: "op_packs H S (Suc d) F op" if "2 * size op + 1 < Suc n" "wf_op (Suc d) op" "F \<longrightarrow> fits_op op" for op d
  proof (rule safe_pack_op_step [OF that(2)])
    show "fits_op op" if F using that \<open>F \<longrightarrow> fits_op op\<close> by blast
    show "packs (Suc d) F (room_val S op) (pack_value H S op)" if "wf_val (Suc d) op"
      using that \<open>2 * size op + 1 < Suc n\<close> \<open>F \<longrightarrow> fits_op op\<close> by (intro 3) simp_all
    show "packs (Suc d) F (room_val S thn) (pack_value H S thn)" if "op = OpCond pred thn c" for pred thn c
      using that \<open>2 * size op + 1 < Suc n\<close> \<open>wf_op (Suc d) op\<close> \<open>F \<longrightarrow> fits_op op\<close> by (intro 3) simp_all
  qed
  show ?case using 1 2 3 by blast
qed simp

lemma safe_pack_struct: "hash_lengths H \<Longrightarrow> wf_prog d prog \<Longrightarrow> (F \<Longrightarrow> fits_prog prog) \<Longrightarrow> packs d F (room_prog S prog) (pack_struct H S prog)"
  using safe_pack_walk [of H "Suc (2 * size prog)" F S] by blast

lemma safe_pack_value: "hash_lengths H \<Longrightarrow> wf_val (Suc d) op \<Longrightarrow> (F \<Longrightarrow> fits_op op) \<Longrightarrow> packs (Suc d) F (room_val S op) (pack_value H S op)"
  using safe_pack_walk [of H "Suc (2 * size op)" F S] by blast

lemma safe_pack_op: "hash_lengths H \<Longrightarrow> wf_op (Suc d) op \<Longrightarrow> (F \<Longrightarrow> fits_op op) \<Longrightarrow> op_packs H S (Suc d) F op"
  using safe_pack_walk [of H "Suc (2 * size op + 1)" F S] by blast

section \<open>Properties\<close>

lemma safe_pack_root:
  assumes "wf_prog 0 prog" and "hash_lengths H" and "prog_min_size prog \<le> isize_max" and "room_prog S prog v \<le> isize_max"
  shows "safe (pack_root H S prog v) (\<lambda>_. True)"
proof -
  let ?ctx = "\<lparr>pc_out = [], pc_frames = []\<rparr>"
  have "guarded (roomy (room_prog S prog v) ?ctx) False (pack_struct H S prog v ?ctx) (within 0 (room_prog S prog v) ?ctx)"
    by (rule packsD [OF safe_pack_struct [OF assms(2,1)]]) (simp_all add: pctx_ok_def isize_max_def)
  then have "safe (pack_struct H S prog v ?ctx) (\<lambda>_. True)"
    using assms(4) by (auto simp: roomy_def guarded_def intro: safeI)
  then show ?thesis using assms(3)
    by (auto simp: pack_root_def with_capacity_def intro!: safe_bind)
qed

text \<open>C4: packing a well-formed program returns, for every source and value, the bytes or an error and
  never panics: no register, slot, span or digest field is outside the output, no division in
  the inversion of a length traps. The hash functions return digests of their length, and what
  the code asks of the allocator has to fit a vector: the program's minimal size, reserved in
  advance, and the room that the program and the value ask for, half of what a vector can hold
  because vectors grow by doubling. \<open>pack_capacity_overflow\<close> and \<open>pack_resize_overflow\<close> are the
  panics without these two bounds.\<close>

theorem pack_never_panics:
  assumes "wf_prog 0 prog" and "hash_lengths H" and "prog_min_size prog \<le> isize_max" and "2 * room_prog S prog v \<le> isize_max"
  shows "\<exists>r. pack_with H S prog v = Inr r"
  using safe_pack_root [OF assms(1-3), of S v] assms(4)
  by (auto simp: pack_with_def safe_def split: sum.splits fault.splits)

theorem pack_never_panics_witness:
  "\<exists>r. pack_with zero_hashes value_source
      (Program [OpFixed 1 [\<lparr>fi_off = 0, fi_kind = FInt U8 True None False, fi_reg = None, fi_span = None, fi_key = Named ''n''\<rparr>],
        OpDigest Md5 Star True True (common_named ''m'')] 0 0 17 (Some 17)) (VMap [(''n'', VInt 7)]) = Inr r"
  by (rule pack_never_panics)
    (simp_all add: fixed_item_ok_def idx_ok_def named_def common_ok_def common_named_def ops_size_defs zero_hashes_lengths isize_max_def
      room_prog.simps room_op.simps value_source_def)

text \<open>C27: \<open>pack_into\<close> writes the packed bytes at the offset and nothing else: on success the destination
  is the old one with the bytes in place, which are what \<open>pack\<close> returns; on any error it is
  left as it was.\<close>

theorem pack_into_frame:
  assumes "pack_into H S prog v dst offset = Inr (dst', r)"
  shows "case r of
      POk out \<Rightarrow> pack_with H S prog v = Inr (POk out) \<and> offset + length out \<le> length dst \<and>
        dst' = take offset dst @ out @ drop (offset + length out) dst
    | PErr k path \<Rightarrow> dst' = dst"
  using assms
  by (auto simp: pack_into_def pack_with_def splice_res_def split: sum.splits fault.splits if_splits)

theorem pack_into_frame_witness:
  "pack_with zero_hashes value_source
     (Program [OpFixed 1 [\<lparr>fi_off = 0, fi_kind = FInt U8 True None False, fi_reg = None, fi_span = None, fi_key = Named ''n''\<rparr>]]
       0 0 1 (Some 1)) (VMap [(''n'', VInt 7)]) = Inr (POk [7])"
proof -
  let ?prog = "Program [OpFixed 1 [\<lparr>fi_off = 0, fi_kind = FInt U8 True None False, fi_reg = None, fi_span = None, fi_key = Named ''n''\<rparr>]]
       0 0 1 (Some 1)"
  have "pack_into zero_hashes value_source ?prog (VMap [(''n'', VInt 7)]) [1, 2, 3] 1 = Inr ([1, 7, 3], POk [7])"
    by code_simp
  from pack_into_frame [OF this] show ?thesis by simp
qed

text \<open>A schema whose minimal size exceeds \<open>isize::MAX\<close> compiles, and then packing any value
  panics: the capacity reserved for the output overflows before the value is looked at.\<close>

theorem pack_capacity_overflow:
  "\<exists>prog. compile [FieldIn (Some ''a'') (TBytes (EImm (2 ^ 63 - 1)) None), FieldIn (Some ''b'') (TInt U8 None None)] opts = Inr prog \<and>
     (\<forall>v. pack_run H prog v = panic)"
proof -
  let ?item = "\<lparr>fi_off = 0, fi_kind = FInt U8 (o_byteorder opts = Big) None False, fi_reg = None, fi_span = None, fi_key = Named ''b''\<rparr>"
  let ?prog = "Program [OpBytes (LenExpr (expr_imm (2 ^ 63 - 1)) None) (o_max_default opts) (common_named ''a''), OpFixed 1 [?item]]
      0 0 (2 ^ 63) (Some (2 ^ 63))"
  have "compile [FieldIn (Some ''a'') (TBytes (EImm (2 ^ 63 - 1)) None), FieldIn (Some ''b'') (TInt U8 None None)] opts = Inr ?prog"
    by (simp add: compile_def compile_scope.simps compile_field.simps check_name_def named_only_def build_len_def
      push_named_def push_op_def int_kind_def is_big_def override_def push_fixed_field_def
      push_fixed_def with_top_scope_def add_sym_def empty_scope_def close_scope_def resolve_deferred_derives_def derive_step_def nth_res_def
      finish_scope_def len_const_def as_usize_def expr_imm_def usize_max_def wrapping_add_def saturating_add_def add_static_def ops_min_def ops_static_def MAX_DEPTH_def upt_rec)
  moreover have "pack_run H ?prog v = panic" for v
    by (simp add: pack_run_def pack_with_def pack_root_def with_capacity_def isize_max_def)
  ultimately show ?thesis by blast
qed


text \<open>The length \<open>resize\<close> is given is a sum without a check: after one byte, a run of \<open>2 ^ 64 - 1\<close> bytes gives
  zero, and the byte already written is cut off.\<close>

lemma pack_resize_wraps:
  "\<exists>prog. compile [FieldIn None (TRaw None (Some [7])),
        FieldIn (Some ''s'') (TCond (EImm 1) (TStruct [FieldIn None (TRaw (Some (2 ^ 64 - 1)) None)] None None))] opts = Inr prog \<and>
     prog_min_size prog = 1 \<and> pack_run H prog (VMap [(''s'', VMap [])]) = Inr (POk [])"
proof -
  let ?i = "\<lparr>fi_off = 0, fi_kind = FRaw 1 (Some [7]), fi_reg = None, fi_span = None, fi_key = Skip\<rparr>"
  let ?r = "\<lparr>fi_off = 0, fi_kind = FRaw 18446744073709551615 None, fi_reg = None, fi_span = None, fi_key = Skip\<rparr>"
  let ?inner = "Program [OpFixed 18446744073709551615 [?r]] 0 0 18446744073709551615 (Some 18446744073709551615)"
  let ?prog = "Program [OpFixed 1 [?i], OpCond (Expr [IImm 1]) (OpNest ?inner None common_skip) (common_named ''s'')] 0 0 1 None"
  have "compile [FieldIn None (TRaw None (Some [7])),
        FieldIn (Some ''s'') (TCond (EImm 1) (TStruct [FieldIn None (TRaw (Some (2 ^ 64 - 1)) None)] None None))] opts = Inr ?prog"
    by (simp add: compile_def compile_scope.simps compile_field.simps compile_elem.simps check_name_def named_only_def raw_kind_def int_kind_def is_big_def
      emit_expr_def postfix_depth_def depth_step_def EXPR_STACK_def push_named_def push_op_def push_fixed_field_def push_fixed_def with_top_scope_def add_sym_def empty_scope_def close_scope_def
      resolve_deferred_derives_def derive_step_def nth_res_def finish_scope_def ops_min_def ops_static_def saturating_add_def add_static_def
      wrapping_add_def usize_max_def nest_size_def override_def MAX_DEPTH_def upt_rec)
  moreover have "pack_run H ?prog (VMap [(''s'', VMap [])]) = Inr (POk [])"
    by (simp add: pack_run_def pack_with_def pack_root_def with_capacity_def pack_struct.simps pack_op.simps pack_value.simps peval_def eval_expr_def
      push_cell_def update_res_def nth_res_def EXPR_STACK_def pack_named_def common_named_def grow_def vec_resize_def wrapping_add_def isize_max_def
      value_source_def HASH_INDEX_THRESHOLD_def pack_fixed_def pack_fixed_item_def put_def splice_res_def pset_span_def pack_nest_def lookup_def common_skip_def pframe_new_def)
  ultimately show ?thesis by auto
qed

end
