(* ===== verification/Slots.thy ===== *)
theory Slots
  imports Pack_Safety
begin

text \<open>
  The bits of an output and the slots reserved in it: what a slot holds once it is written, and
  that it holds the same in every buffer with the same bits there. A derived field and a field
  written at once are the same thing here, a slot written later or now.
\<close>

section \<open>Bits\<close>

text \<open>Bit \<open>p\<close> of a buffer, the most significant bit of a byte first.\<close>

definition sbit :: "bytes \<Rightarrow> nat \<Rightarrow> bool" where
  "sbit out p = bit (out ! (p div 8)) (7 - p mod 8)"

lemma stream_sbit: "stream_bit out base k = sbit out (8 * base + k)"
  by (simp add: stream_bit_def sbit_def)

lemma sbit_append: "sbit (xs @ ys) p = (if p < 8 * length xs then sbit xs p else sbit ys (p - 8 * length xs))"
proof (cases "p < 8 * length xs")
  case True
  then have "p div 8 < length xs" by (simp add: less_mult_imp_div_less mult.commute)
  then show ?thesis using True by (simp add: sbit_def nth_append)
next
  case False
  then obtain q where p: "p = 8 * length xs + q" by (metis le_Suc_ex not_less)
  then have "p div 8 = length xs + q div 8" "p mod 8 = q mod 8" by simp_all
  then show ?thesis by (simp add: p sbit_def nth_append)
qed

lemma sbit_replicate_0 [simp]: "p < 8 * n \<Longrightarrow> \<not> sbit (replicate n 0) p"
proof -
  assume "p < 8 * n"
  then have "p div 8 < n" by (simp add: less_mult_imp_div_less mult.commute)
  then show ?thesis by (simp add: sbit_def)
qed

text \<open>The bits of \<open>n\<close> bytes at \<open>pos\<close>.\<close>

definition byte_bits :: "nat \<Rightarrow> nat \<Rightarrow> nat set" where
  "byte_bits pos n = {8 * pos ..< 8 * (pos + n)}"

lemma byte_eqI:
  assumes "\<And>p. p \<in> byte_bits i 1 \<Longrightarrow> sbit a p = sbit b p"
  shows "a ! i = b ! i"
proof (rule bit_word_eqI)
  fix n
  assume "n < LENGTH(8)"
  then obtain m where m: "m < 8" "7 - m = n" by (intro that [of "7 - n"]) simp_all
  then have "sbit a (8 * i + m) = sbit b (8 * i + m)" by (intro assms) (simp add: byte_bits_def)
  moreover have "(8 * i + m) div 8 = i" "7 - (8 * i + m) mod 8 = n" using m by simp_all
  ultimately show "bit (a ! i) n = bit (b ! i) n" by (simp add: sbit_def)
qed

lemma bytes_eqI:
  assumes "\<And>p. p \<in> byte_bits pos n \<Longrightarrow> sbit a p = sbit b p" and "pos + n \<le> length a" and "pos + n \<le> length b"
  shows "take n (drop pos a) = take n (drop pos b)"
proof (rule nth_equalityI)
  fix i
  assume "i < length (take n (drop pos a))"
  then have i: "i < n" by simp
  have "a ! (pos + i) = b ! (pos + i)"
    by (rule byte_eqI, rule assms(1)) (use i in \<open>auto simp: byte_bits_def\<close>)
  then show "take n (drop pos a) ! i = take n (drop pos b) ! i" using i assms(2,3) by simp
qed (use assms in simp)

lemma sbit_splice:
  assumes "splice_res out pos b = Inr out'" and "p \<notin> byte_bits pos (length b)"
  shows "sbit out' p = sbit out p"
proof -
  have eq: "out' = take pos out @ b @ drop (pos + length b) out" and len: "pos + length b \<le> length out"
    using assms(1) by simp_all
  have "p < pos * 8 \<or> (pos + length b) * 8 \<le> p" using assms(2) by (auto simp: byte_bits_def mult.commute)
  then have "p div 8 < pos \<or> pos + length b \<le> p div 8"
    using less_mult_imp_div_less [of p pos 8] by (auto simp: less_eq_div_iff_mult_less_eq)
  then have "out' ! (p div 8) = out ! (p div 8)" using len by (auto simp: eq nth_append)
  then show ?thesis by (simp add: sbit_def)
qed

section \<open>Slots\<close>

fun slot_bits :: "slot \<Rightarrow> nat set" where
  "slot_bits (SlotInt pos prim be) = byte_bits pos (prim_width prim)"
| "slot_bits (SlotBits base off width sgnd) = {8 * base + off ..< 8 * base + off + width}"

text \<open>What the unpacker reads at a slot.\<close>

fun slot_reads :: "bytes \<Rightarrow> slot \<Rightarrow> int \<Rightarrow> bool" where
  "slot_reads buf (SlotInt pos prim be) x \<longleftrightarrow> read_prim prim be (take (prim_width prim) (drop pos buf)) = x"
| "slot_reads buf (SlotBits base off width sgnd) x \<longleftrightarrow>
     (\<exists>v. read_bits_raw buf base off width = Inr v \<and> bits_value width sgnd v = x)"

lemma slot_reads_unique: "slot_reads buf sl x \<Longrightarrow> slot_reads buf sl y \<Longrightarrow> x = y"
  by (cases sl) auto

lemma slot_bits_bound: "slot_ok n sl \<Longrightarrow> p \<in> slot_bits sl \<Longrightarrow> p < 8 * n"
  by (cases sl) (auto simp: byte_bits_def)

lemma slot_reads_agree:
  assumes ok: "slot_ok (length a) sl" and len: "length a \<le> length b"
    and agree: "\<And>p. p \<in> slot_bits sl \<Longrightarrow> sbit a p = sbit b p" and reads: "slot_reads a sl x"
  shows "slot_reads b sl x"
proof (cases sl)
  case (SlotInt pos prim be)
  then have "take (prim_width prim) (drop pos a) = take (prim_width prim) (drop pos b)"
    using ok len by (intro bytes_eqI agree) simp_all
  then show ?thesis using reads SlotInt by simp
next
  case (SlotBits base off width sgnd)
  have fit: "bits_fit a base (off + width)" "width \<le> 64" using ok SlotBits by (simp_all add: bits_fit_def)
  then have fit': "bits_fit b base (off + width)" using len by (simp add: bits_fit_def)
  obtain v where v: "read_bits_raw a base off width = Inr v" "bits_value width sgnd v = x"
    using reads SlotBits by auto
  from read_bits_raw_bits [OF fit' fit(2)] obtain u where u: "read_bits_raw b base off width = Inr u"
    "\<forall>n. bit u n \<longleftrightarrow> n < width \<and> stream_bit b base (off + (width - 1 - n))" by (elim exE conjE)
  from read_bits_raw_bits [OF fit] obtain v' where v': "read_bits_raw a base off width = Inr v'"
    "\<forall>n. bit v' n \<longleftrightarrow> n < width \<and> stream_bit a base (off + (width - 1 - n))" by (elim exE conjE)
  have "v' = v" using v(1) v'(1) by simp
  then have "bit v n \<longleftrightarrow> n < width \<and> stream_bit a base (off + (width - 1 - n))" for n using v'(2) by blast
  moreover have "stream_bit a base (off + (width - 1 - n)) = stream_bit b base (off + (width - 1 - n))" if "n < width" for n
    unfolding stream_sbit by (rule agree) (use that in \<open>auto simp: SlotBits\<close>)
  ultimately have "bit v n \<longleftrightarrow> bit u n" for n using u(2) by metis
  then have "v = u" by (rule bit_eqI)
  then show ?thesis using u(1) v(2) SlotBits by simp
qed

text \<open>Writing a slot: a value out of range is refused, one in range is there afterwards.\<close>

lemma write_slot_reads:
  assumes w: "write_slot sl x out = Inr out'" and ok: "slot_ok (length out) sl"
    and zero: "\<And>p. p \<in> slot_bits sl \<Longrightarrow> \<not> sbit out p"
  shows "length out' = length out" and "slot_reads out' sl x" and "\<And>p. p \<notin> slot_bits sl \<Longrightarrow> sbit out' p = sbit out p"
proof -
  have "length out' = length out \<and> slot_reads out' sl x \<and> (\<forall>p. p \<notin> slot_bits sl \<longrightarrow> sbit out' p = sbit out p)"
  proof (cases sl)
    case (SlotInt pos prim be)
    then have v: "prim_valid prim x" and sp: "splice_res out pos (enc_prim prim be x) = Inr out'"
      using w by (auto simp: write_slot_def write_int_at_eq split: if_splits)
    then have "read_prim prim be (take (prim_width prim) (drop pos out')) = x"
      using prim_codec.splice_then_slice(2) [OF sp v] by simp
    then show ?thesis using sbit_splice [OF sp] sp by (auto simp: SlotInt prim_codec.enc_length)
  next
    case (SlotBits base off width sgnd)
    let ?v = "word_of_int x AND bits_mask width :: 64 word"
    have check: "check_bits_range x width sgnd = Inr ()" and wr: "or_bits out base off width ?v = Inr out'"
      using w by (auto simp: write_slot_def SlotBits bind_res_eq_Inr)
    have wd: "0 < width" "width \<le> 64" and fit: "bits_fit out base (off + width)" using ok by (simp_all add: SlotBits bits_fit_def)
    note m = bits_value_masked [OF check wd]
    have z: "\<not> stream_bit out base k" if "off \<le> k" "k < off + width" for k
      unfolding stream_sbit using that zero by (simp add: SlotBits)
    have reads: "read_bits_raw out' base off width = Inr ?v"
      by (rule read_after_or_bits [OF fit wd(2) z wr m(1)])
    have spec: "length out' = length out" "\<And>j. j < base + off div 8 \<Longrightarrow> out' ! j = out ! j"
      "\<And>k. stream_bit out' base k \<longleftrightarrow> stream_bit out base k \<or> (off \<le> k \<and> k < off + width \<and> bit ?v (width - 1 - (k - off)))"
      using or_bits_spec [OF fit, of ?v] wr by auto
    have "sbit out' p = sbit out p" if "p \<notin> slot_bits sl" for p
    proof (cases "8 * base \<le> p")
      case True
      then obtain k where "p = 8 * base + k" using le_Suc_ex by blast
      then show ?thesis using spec(3) [of k] that by (auto simp: stream_sbit SlotBits)
    next
      case False
      then have "p div 8 < base" by (intro less_mult_imp_div_less) simp
      then have "p div 8 < base + off div 8" by (rule trans_less_add1)
      then show ?thesis by (simp add: sbit_def spec(2))
    qed
    then show ?thesis using spec(1) reads m(2) by (auto simp: SlotBits)
  qed
  then show "length out' = length out" "slot_reads out' sl x" "\<And>p. p \<notin> slot_bits sl \<Longrightarrow> sbit out' p = sbit out p" by blast+
qed

end
