(* ===== verification/Pack_Trace.thy ===== *)
theory Pack_Trace
  imports Slots
begin

text \<open>
  What packing does to the output and the frames, step by step: bytes are appended, a fresh field
  is written or reserved, an open slot is filled. Nothing else changes, so a buffer that agrees with
  the output after a step agrees with the output before it, open slots aside.
\<close>

section \<open>The view of a state\<close>

definition frame_slot :: "pframe \<Rightarrow> nat \<Rightarrow> slot option" where
  "frame_slot f r =
     (if r < MAX_REGS
      then (case pr_res f ! r of
              Some rv \<Rightarrow> if rv_value rv = None then Some (rv_slot rv) else None
            | None \<Rightarrow> None)
      else None)"

definition frame_known :: "pframe \<Rightarrow> nat \<Rightarrow> bool" where
  "frame_known f r \<longleftrightarrow> r < MAX_REGS \<and> bit (pr_known f) r"

definition frame_touched :: "pframe \<Rightarrow> nat \<Rightarrow> bool" where
  "frame_touched f r \<longleftrightarrow> frame_known f r \<or> (r < MAX_REGS \<and> pr_res f ! r \<noteq> None)"

text \<open>The open slot of a register, if it is reserved and not yet filled.\<close>

definition slot_at :: "pctx \<Rightarrow> nat \<Rightarrow> nat \<Rightarrow> slot option" where
  "slot_at ctx i r = (if i < length (pc_frames ctx) then frame_slot (pc_frames ctx ! i) r else None)"

definition known_at :: "pctx \<Rightarrow> nat \<Rightarrow> nat \<Rightarrow> bool" where
  "known_at ctx i r \<longleftrightarrow> i < length (pc_frames ctx) \<and> frame_known (pc_frames ctx ! i) r"

definition touched :: "pctx \<Rightarrow> nat \<Rightarrow> nat \<Rightarrow> bool" where
  "touched ctx i r \<longleftrightarrow> i < length (pc_frames ctx) \<and> frame_touched (pc_frames ctx ! i) r"

definition open_bits :: "pctx \<Rightarrow> nat set" where
  "open_bits ctx = {p. \<exists>i r sl. slot_at ctx i r = Some sl \<and> p \<in> slot_bits sl}"

text \<open>No digest is pending, an open slot has no value yet, and a filled one has the value it was filled
  with.\<close>

definition frame_tidy :: "pframe \<Rightarrow> bool" where
  "frame_tidy f \<longleftrightarrow> pr_digests f = [] \<and>
     (\<forall>r rv. r < MAX_REGS \<longrightarrow> pr_res f ! r = Some rv \<longrightarrow>
        (rv_value rv = None \<longrightarrow> \<not> frame_known f r) \<and>
        (\<forall>x. rv_value rv = Some x \<longrightarrow> frame_known f r \<and> pr_regs f ! r = x))"

lemma frame_tidyI:
  assumes "pr_digests f = []"
    and "\<And>r rv. r < MAX_REGS \<Longrightarrow> pr_res f ! r = Some rv \<Longrightarrow> rv_value rv = None \<Longrightarrow> \<not> frame_known f r"
    and "\<And>r rv x. r < MAX_REGS \<Longrightarrow> pr_res f ! r = Some rv \<Longrightarrow> rv_value rv = Some x \<Longrightarrow> frame_known f r \<and> pr_regs f ! r = x"
  shows "frame_tidy f"
  using assms unfolding frame_tidy_def by blast

lemma frame_tidyD:
  assumes "frame_tidy f" and "r < MAX_REGS" and "pr_res f ! r = Some rv"
  shows "rv_value rv = None \<Longrightarrow> \<not> frame_known f r" and "rv_value rv = Some x \<Longrightarrow> frame_known f r \<and> pr_regs f ! r = x"
  using assms unfolding frame_tidy_def by blast+

text \<open>Open slots are zero and no two of them overlap.\<close>

definition tidy :: "pctx \<Rightarrow> bool" where
  "tidy ctx \<longleftrightarrow>
     list_all frame_tidy (pc_frames ctx) \<and>
     (\<forall>i r sl. slot_at ctx i r = Some sl \<longrightarrow> (\<forall>p\<in>slot_bits sl. \<not> sbit (pc_out ctx) p)) \<and>
     (\<forall>i r sl j s sl'. slot_at ctx i r = Some sl \<longrightarrow> slot_at ctx j s = Some sl' \<longrightarrow> (i, r) \<noteq> (j, s) \<longrightarrow>
        slot_bits sl \<inter> slot_bits sl' = {})"

text \<open>A step that writes or reserves the bits \<open>R\<close> and sets or reserves the registers \<open>A\<close> of the top
  frame.\<close>

definition moves :: "nat set \<Rightarrow> nat set \<Rightarrow> nat \<Rightarrow> pctx \<Rightarrow> pctx \<Rightarrow> bool" where
  "moves R A d ctx ctx' \<longleftrightarrow>
     pctx_ok d ctx' \<and> tidy ctx' \<and> length (pc_out ctx) \<le> length (pc_out ctx') \<and>
     (\<forall>p < 8 * length (pc_out ctx). p \<notin> R \<longrightarrow> p \<notin> open_bits ctx \<longrightarrow> sbit (pc_out ctx') p = sbit (pc_out ctx) p) \<and>
     open_bits ctx' \<subseteq> open_bits ctx \<union> R \<union> {8 * length (pc_out ctx)..} \<and>
     (\<forall>i r. touched ctx' i r \<longrightarrow> touched ctx i r \<or> (i = 0 \<and> r \<in> A))"

definition fresh :: "nat set \<Rightarrow> nat set \<Rightarrow> pctx \<Rightarrow> bool" where
  "fresh R A ctx \<longleftrightarrow>
     (\<forall>p\<in>R. p < 8 * length (pc_out ctx) \<and> \<not> sbit (pc_out ctx) p \<and> p \<notin> open_bits ctx) \<and> (\<forall>r\<in>A. \<not> touched ctx 0 r)"

lemma moves_refl: "pctx_ok d ctx \<Longrightarrow> tidy ctx \<Longrightarrow> moves R A d ctx ctx"
  by (auto simp: moves_def)

lemma moves_okD: "moves R A d ctx ctx' \<Longrightarrow> pctx_ok d ctx' \<and> tidy ctx' \<and> length (pc_out ctx) \<le> length (pc_out ctx')"
  by (simp add: moves_def)

lemma moves_mono: "moves R A d ctx ctx' \<Longrightarrow> R \<subseteq> R' \<Longrightarrow> A \<subseteq> A' \<Longrightarrow> moves R' A' d ctx ctx'"
  unfolding moves_def by blast

lemma moves_trans:
  assumes "moves R A d a b" and "moves R A d b c"
  shows "moves R A d a c"
proof -
  have "sbit (pc_out c) p = sbit (pc_out a) p" if "p < 8 * length (pc_out a)" "p \<notin> R" "p \<notin> open_bits a" for p
  proof -
    have "p < 8 * length (pc_out b)" "p \<notin> open_bits b" using that assms(1) by (auto simp: moves_def)
    then show ?thesis using that assms by (auto simp: moves_def)
  qed
  moreover have "open_bits c \<subseteq> open_bits a \<union> R \<union> {8 * length (pc_out a)..}"
    using assms by (fastforce simp: moves_def)
  moreover have "touched c i r \<Longrightarrow> touched a i r \<or> (i = 0 \<and> r \<in> A)" for i r
    using assms unfolding moves_def by blast
  ultimately show ?thesis using assms by (auto simp: moves_def)
qed

lemma moves_fresh:
  assumes "moves R A d ctx ctx'" and "R \<subseteq> {8 * length (pc_out ctx)..}"
  shows "moves {} A d ctx ctx'"
  using assms by (fastforce simp: moves_def)

lemma fresh_moves:
  assumes m: "moves R A d ctx ctx'" and f: "fresh R' A' ctx" and "R \<inter> R' = {}" and "A \<inter> A' = {}"
  shows "fresh R' A' ctx'"
proof -
  have "p < 8 * length (pc_out ctx') \<and> \<not> sbit (pc_out ctx') p \<and> p \<notin> open_bits ctx'" if "p \<in> R'" for p
  proof -
    have p: "p < 8 * length (pc_out ctx)" "\<not> sbit (pc_out ctx) p" "p \<notin> open_bits ctx" "p \<notin> R"
      using that f assms(3) by (auto simp: fresh_def)
    then show ?thesis using m by (auto simp: moves_def)
  qed
  moreover have "\<not> touched ctx' 0 r" if "r \<in> A'" for r
  proof -
    have "\<not> touched ctx 0 r" "r \<notin> A" using that f assms(4) by (auto simp: fresh_def)
    then show ?thesis using m unfolding moves_def by blast
  qed
  ultimately show ?thesis by (simp add: fresh_def)
qed

lemma fresh_mono: "fresh R A ctx \<Longrightarrow> R' \<subseteq> R \<Longrightarrow> A' \<subseteq> A \<Longrightarrow> fresh R' A' ctx"
  unfolding fresh_def by blast

section \<open>Agreement with a buffer\<close>

definition agree_on :: "nat set \<Rightarrow> bytes \<Rightarrow> pctx \<Rightarrow> bool" where
  "agree_on R buf ctx \<longleftrightarrow> (\<forall>p\<in>R. p \<notin> open_bits ctx \<longrightarrow> sbit (pc_out ctx) p = sbit buf p)"

definition agree :: "bytes \<Rightarrow> pctx \<Rightarrow> bool" where
  "agree buf ctx \<longleftrightarrow> length (pc_out ctx) \<le> length buf \<and> agree_on {..<8 * length (pc_out ctx)} buf ctx"

lemma agree_back:
  assumes "moves {} A d ctx ctx'" and "agree buf ctx'"
  shows "agree buf ctx"
  using assms by (fastforce simp: moves_def agree_def agree_on_def)

lemma agree_on_back:
  assumes m: "moves R A d ctx ctx'" and a: "agree_on R' buf ctx'"
    and "R \<inter> R' = {}" and "R' \<subseteq> {..<8 * length (pc_out ctx)}"
  shows "agree_on R' buf ctx"
  unfolding agree_on_def
proof (intro ballI impI)
  fix p
  assume p: "p \<in> R'" "p \<notin> open_bits ctx"
  then have "p < 8 * length (pc_out ctx)" "p \<notin> R" using assms(3,4) by auto
  then have "p \<notin> open_bits ctx'" "sbit (pc_out ctx') p = sbit (pc_out ctx) p" using p m by (auto simp: moves_def)
  then show "sbit (pc_out ctx) p = sbit buf p" using a p(1) by (simp add: agree_on_def)
qed

section \<open>Views of the operations\<close>

lemma view_out [simp]:
  "slot_at (ctx\<lparr>pc_out := out\<rparr>) = slot_at ctx" "known_at (ctx\<lparr>pc_out := out\<rparr>) = known_at ctx"
  "touched (ctx\<lparr>pc_out := out\<rparr>) = touched ctx" "open_bits (ctx\<lparr>pc_out := out\<rparr>) = open_bits ctx"
  by (simp_all add: slot_at_def known_at_def touched_def open_bits_def fun_eq_iff)

lemma view_extended [simp]:
  "slot_at (extended b ctx) = slot_at ctx" "known_at (extended b ctx) = known_at ctx"
  "touched (extended b ctx) = touched ctx" "open_bits (extended b ctx) = open_bits ctx"
  by (simp_all add: extended_def)

text \<open>Frames with the same registers and slots.\<close>

definition same_frames :: "pctx \<Rightarrow> pctx \<Rightarrow> bool" where
  "same_frames ctx ctx' \<longleftrightarrow> list_all2 (\<lambda>f g. pr_regs f = pr_regs g \<and> pr_known f = pr_known g \<and> pr_res f = pr_res g \<and>
     pr_digests f = pr_digests g) (pc_frames ctx) (pc_frames ctx')"

lemma same_framesD:
  assumes "same_frames ctx ctx'"
  shows "slot_at ctx' = slot_at ctx" "touched ctx' = touched ctx" "open_bits ctx' = open_bits ctx"
    "list_all frame_tidy (pc_frames ctx') = list_all frame_tidy (pc_frames ctx)"
proof -
  have len: "length (pc_frames ctx') = length (pc_frames ctx)"
    using assms by (auto simp: same_frames_def dest: list_all2_lengthD)
  have eq: "frame_slot (pc_frames ctx' ! i) = frame_slot (pc_frames ctx ! i) \<and>
      frame_touched (pc_frames ctx' ! i) = frame_touched (pc_frames ctx ! i) \<and>
      frame_tidy (pc_frames ctx' ! i) = frame_tidy (pc_frames ctx ! i)"
    if "i < length (pc_frames ctx)" for i
    using that assms by (auto simp: same_frames_def list_all2_conv_all_nth frame_slot_def frame_known_def frame_touched_def frame_tidy_def fun_eq_iff)
  show s: "slot_at ctx' = slot_at ctx" "touched ctx' = touched ctx"
    using eq by (auto simp: slot_at_def touched_def len fun_eq_iff)
  show "open_bits ctx' = open_bits ctx" by (simp add: open_bits_def s)
  show "list_all frame_tidy (pc_frames ctx') = list_all frame_tidy (pc_frames ctx)"
    using eq by (auto simp: list_all_length len)
qed

lemma pset_span_same:
  assumes "pset_span idx s e ctx = Inr ctx'"
  shows "same_frames ctx ctx'" "pc_out ctx' = pc_out ctx"
  using assms
  by (auto simp: pset_span_def with_top_def same_frames_def bind_res_eq_Inr list.rel_refl split: option.splits list.splits)

lemma same_moves:
  assumes "same_frames ctx ctx'" and "pc_out ctx' = pc_out ctx" and "pctx_ok d ctx'" and "tidy ctx"
  shows "moves R A d ctx ctx'"
  using assms same_framesD [OF assms(1)] by (auto simp: moves_def tidy_def)

lemma pset_span_moves:
  assumes "pset_span idx s e ctx = Inr ctx'" and "pctx_ok (Suc d) ctx" and "tidy ctx"
    and "idx_ok MAX_SPANS idx" and "s \<le> e" and "e \<le> length (pc_out ctx)"
  shows "moves {} A (Suc d) ctx ctx'"
  using pset_span_same [OF assms(1)] safe_pset_span [OF assms(2,4,5,6)] assms(1,3)
  by (intro same_moves) (simp_all add: stays_def)

lemma slot_open: "slot_at ctx i r = Some sl \<Longrightarrow> p \<in> slot_bits sl \<Longrightarrow> p \<in> open_bits ctx"
  by (auto simp: open_bits_def)

lemma open_zero: "tidy ctx \<Longrightarrow> p \<in> open_bits ctx \<Longrightarrow> \<not> sbit (pc_out ctx) p"
  by (auto simp: tidy_def open_bits_def)

lemma slot_at_ok:
  assumes "pctx_ok d ctx" and "slot_at ctx i r = Some sl"
  shows "slot_ok (length (pc_out ctx)) sl"
proof -
  have i: "i < length (pc_frames ctx)" and r: "r < MAX_REGS" using assms(2) by (auto simp: slot_at_def frame_slot_def split: if_splits)
  then obtain rv where rv: "pr_res (pc_frames ctx ! i) ! r = Some rv" "rv_slot rv = sl"
    using assms(2) by (auto simp: slot_at_def frame_slot_def split: option.splits if_splits)
  have f: "pframe_ok (length (pc_out ctx)) (pc_frames ctx ! i)" using assms(1) i by (simp add: pctx_ok_def list_all_length)
  then have "Some rv \<in> set (pr_res (pc_frames ctx ! i))"
    using nth_mem [of r "pr_res (pc_frames ctx ! i)"] r rv(1) by (simp add: pframe_ok_def)
  then show ?thesis using f rv(2) by (auto simp: pframe_ok_def)
qed

lemma open_bits_bound: "pctx_ok d ctx \<Longrightarrow> p \<in> open_bits ctx \<Longrightarrow> p < 8 * length (pc_out ctx)"
  by (auto simp: open_bits_def intro: slot_bits_bound slot_at_ok)

section \<open>Moves of the operations\<close>

lemma moves_out:
  assumes ok: "pctx_ok d ctx" "tidy ctx" and len: "length (pc_out ctx) \<le> length out" "length out \<le> isize_max"
    and same: "\<And>p. p < 8 * length (pc_out ctx) \<Longrightarrow> p \<notin> R \<Longrightarrow> sbit out p = sbit (pc_out ctx) p"
    and closed: "R \<inter> open_bits ctx = {}"
  shows "moves R A d ctx (ctx\<lparr>pc_out := out\<rparr>)"
proof -
  have "\<not> sbit out p" if "slot_at ctx i r = Some sl" "p \<in> slot_bits sl" for i r sl p
  proof -
    have p: "p \<in> open_bits ctx" using that by (rule slot_open)
    then have "p < 8 * length (pc_out ctx)" "p \<notin> R" using open_bits_bound [OF ok(1)] closed by auto
    then show ?thesis using same open_zero [OF ok(2) p] by simp
  qed
  then have "tidy (ctx\<lparr>pc_out := out\<rparr>)" using ok(2) by (simp add: tidy_def)
  then show ?thesis using pctx_ok_grow [OF ok(1) len] len(1) same by (auto simp: moves_def)
qed

lemma moves_extended: "pctx_ok d ctx \<Longrightarrow> tidy ctx \<Longrightarrow> roomy (length b) ctx \<Longrightarrow> moves {} A d ctx (extended b ctx)"
  unfolding extended_def by (rule moves_out) (auto simp: sbit_append roomy_def)

lemma moves_put:
  assumes "put pos b ctx = Inr ctx'" and "pctx_ok d ctx" "tidy ctx" and "byte_bits pos (length b) \<inter> open_bits ctx = {}"
  shows "moves (byte_bits pos (length b)) A d ctx ctx'"
proof -
  obtain out where out: "splice_res (pc_out ctx) pos b = (Inr out :: bytes pres)" "ctx' = ctx\<lparr>pc_out := out\<rparr>"
    using assms(1) by (auto simp: put_def bind_res_eq_Inr)
  have len: "length (pc_out ctx) \<le> length out" "length out \<le> isize_max"
    using out(1) pctx_ok_length [OF assms(2)] by simp_all
  show ?thesis unfolding out(2) by (rule moves_out [OF assms(2,3) len sbit_splice [OF out(1)] assms(4)])
qed

definition set_frame :: "nat \<Rightarrow> pframe \<Rightarrow> pctx \<Rightarrow> pctx" where
  "set_frame k f ctx = ctx\<lparr>pc_frames := (pc_frames ctx)[k := f]\<rparr>"

lemma with_top_eq:
  "with_top g ctx = Inr ctx' \<longleftrightarrow> pc_frames ctx \<noteq> [] \<and> (\<exists>f. g (pc_frames ctx ! 0) = Inr f \<and> ctx' = set_frame 0 f ctx)"
  by (auto simp: with_top_def set_frame_def bind_res_eq_Inr split: list.splits)

lemma set_frame_view [simp]:
  "pc_out (set_frame k f ctx) = pc_out ctx" "length (pc_frames (set_frame k f ctx)) = length (pc_frames ctx)"
  "slot_at (set_frame k f ctx) i r = (if i = k \<and> k < length (pc_frames ctx) then frame_slot f r else slot_at ctx i r)"
  "touched (set_frame k f ctx) i r = (if i = k \<and> k < length (pc_frames ctx) then frame_touched f r else touched ctx i r)"
  by (auto simp: set_frame_def slot_at_def touched_def)

text \<open>A frame changes at one register: its slot closes, or a fresh one opens.\<close>

lemma moves_frame:
  assumes ok: "pctx_ok d (set_frame k f ctx)" "pctx_ok d ctx" "tidy ctx" and k: "k < d" and f: "frame_tidy f"
    and slots: "\<And>r. r \<noteq> idx \<Longrightarrow> frame_slot f r = slot_at ctx k r"
    and touch: "\<And>r. frame_touched f r \<Longrightarrow> touched ctx k r \<or> r = idx"
    and new: "\<And>sl. frame_slot f idx = Some sl \<Longrightarrow>
      slot_bits sl \<subseteq> R \<and> slot_bits sl \<inter> open_bits ctx = {} \<and> (\<forall>p\<in>slot_bits sl. \<not> sbit (pc_out ctx) p)"
    and idx: "touched ctx k idx \<or> (k = 0 \<and> idx \<in> A)"
  shows "moves R A d ctx (set_frame k f ctx)"
proof -
  let ?ctx = "set_frame k f ctx"
  have len: "k < length (pc_frames ctx)" using ok(2) k by (simp add: pctx_ok_def)
  have old: "slot_at ?ctx i r = slot_at ctx i r" if "(i, r) \<noteq> (k, idx)" for i r using that len slots by auto
  have at: "slot_at ?ctx k idx = frame_slot f idx" using len by simp
  have zero: "\<not> sbit (pc_out ctx) p" if "slot_at ?ctx i r = Some sl" "p \<in> slot_bits sl" for i r sl p
  proof (cases "(i, r) = (k, idx)")
    case True
    then have "frame_slot f idx = Some sl" using that(1) at by simp
    then show ?thesis using new that(2) by blast
  next
    case False
    then have "slot_at ctx i r = Some sl" using that(1) old by simp
    then show ?thesis using open_zero [OF ok(3) slot_open] that(2) by blast
  qed
  have apart: "slot_bits sl \<inter> slot_bits sl' = {}"
    if "slot_at ?ctx i r = Some sl" "slot_at ?ctx j s = Some sl'" "(i, r) \<noteq> (j, s)" for i r sl j s sl'
  proof -
    consider "(i, r) = (k, idx)" | "(j, s) = (k, idx)" | "(i, r) \<noteq> (k, idx)" "(j, s) \<noteq> (k, idx)" by blast
    then show ?thesis
    proof cases
      case 1
      then have "slot_at ctx j s = Some sl'" "frame_slot f idx = Some sl" using that old [of j s] at by auto
      then show ?thesis using new slot_open by blast
    next
      case 2
      then have "slot_at ctx i r = Some sl" "frame_slot f idx = Some sl'" using that old [of i r] at by auto
      then show ?thesis using new slot_open by blast
    next
      case 3
      then have "slot_at ctx i r = Some sl" "slot_at ctx j s = Some sl'" using that old [of i r] old [of j s] by auto
      then show ?thesis using ok(3) that(3) unfolding tidy_def by blast
    qed
  qed
  have frames: "list_all frame_tidy (pc_frames ?ctx)"
    using ok(3) f by (auto simp: tidy_def set_frame_def list_all_iff dest!: set_update_subset_insert [THEN subsetD])
  have "tidy ?ctx" unfolding tidy_def using frames zero apart by (auto simp del: set_frame_view(3))
  moreover have "open_bits ?ctx \<subseteq> open_bits ctx \<union> R"
  proof
    fix p
    assume "p \<in> open_bits ?ctx"
    then obtain i r sl where s: "slot_at ?ctx i r = Some sl" "p \<in> slot_bits sl" by (auto simp: open_bits_def)
    show "p \<in> open_bits ctx \<union> R"
    proof (cases "(i, r) = (k, idx)")
      case True
      then have "frame_slot f idx = Some sl" using s(1) at by simp
      then show ?thesis using new s(2) by blast
    next
      case False
      then have "slot_at ctx i r = Some sl" using s(1) old by simp
      then show ?thesis using slot_open s(2) by blast
    qed
  qed
  moreover have "touched ctx i r \<or> (i = 0 \<and> r \<in> A)" if "touched ?ctx i r" for i r
    using that touch [of r] idx by (auto split: if_splits)
  ultimately show ?thesis using ok(1) by (auto simp: moves_def)
qed

text \<open>What the operations on the top frame do to its view.\<close>

lemma bit_known_bit: "idx < MAX_REGS \<Longrightarrow> bit (known_bit idx) n \<longleftrightarrow> n = idx"
  by (auto simp: known_bit_def MAX_REGS_def bit_exp_iff)

lemma known_bit_iff: "idx < MAX_REGS \<Longrightarrow> bit (w OR known_bit idx) r \<longleftrightarrow> bit w r \<or> r = idx"
  by (simp add: bit_or_iff bit_known_bit)

lemma known_test: "idx < MAX_REGS \<Longrightarrow> w AND known_bit idx = 0 \<longleftrightarrow> \<not> bit w idx"
  unfolding bit_eq_iff [of "w AND known_bit idx" 0] bit_and_iff by (auto simp: bit_known_bit MAX_REGS_def)

lemma mark_known_view:
  assumes "mark_known idx v f = Inr f'" and "idx < MAX_REGS" and "length (pr_regs f) = MAX_REGS"
  shows "pr_res f' = pr_res f" "pr_digests f' = pr_digests f" "pr_regs f' = (pr_regs f)[idx := v]"
    "frame_slot f' = frame_slot f" "frame_known f' r \<longleftrightarrow> frame_known f r \<or> r = idx"
    "frame_touched f' r \<longleftrightarrow> frame_touched f r \<or> r = idx"
  using assms by (auto simp: mark_known_def bind_res_eq_Inr known_bit_iff frame_known_def frame_touched_def frame_slot_def fun_eq_iff)

lemma pctx_ok_frame: "pctx_ok d ctx \<Longrightarrow> k < d \<Longrightarrow> pframe_ok (length (pc_out ctx)) (pc_frames ctx ! k)"
  by (simp add: pctx_ok_def list_all_length)

lemma tidy_frame: "pctx_ok d ctx \<Longrightarrow> tidy ctx \<Longrightarrow> k < d \<Longrightarrow> frame_tidy (pc_frames ctx ! k)"
  by (simp add: pctx_ok_def tidy_def list_all_length)

lemma slot_at_frame: "pctx_ok d ctx \<Longrightarrow> k < d \<Longrightarrow> slot_at ctx k = frame_slot (pc_frames ctx ! k)"
  by (simp add: pctx_ok_def slot_at_def fun_eq_iff)

lemma touched_frame: "pctx_ok d ctx \<Longrightarrow> k < d \<Longrightarrow> touched ctx k = frame_touched (pc_frames ctx ! k)"
  by (simp add: pctx_ok_def touched_def fun_eq_iff)

lemma set_reg_moves:
  assumes set: "pset_reg idx v ctx = Inr ctx'" and ok: "pctx_ok (Suc d) ctx" "tidy ctx" and idx: "idx_ok MAX_REGS idx" and v: "in_i64 v"
    and fresh: "fresh {} (set_option idx) ctx"
  shows "moves {} (set_option idx) (Suc d) ctx ctx'"
proof (cases idx)
  case None
  then show ?thesis using set ok by (simp add: pset_reg_def moves_refl)
next
  case (Some i)
  let ?f = "pc_frames ctx ! 0"
  from set obtain f where f: "mark_known i v ?f = Inr f" and ctx': "ctx' = set_frame 0 f ctx"
    by (auto simp: pset_reg_def Some with_top_eq)
  have i: "i < MAX_REGS" using idx by (simp add: Some idx_ok_def)
  have new: "\<not> frame_touched ?f i" using fresh ok by (simp add: Some fresh_def touched_frame)
  then have none: "pr_res ?f ! i = None" using i by (simp add: frame_touched_def)
  have okf: "length (pr_regs ?f) = MAX_REGS" using pctx_ok_frame [OF ok(1), of 0] by (simp add: pframe_ok_def)
  note view = mark_known_view [OF f i okf]
  have slot: "frame_slot f i = None" using view(4) none by (simp add: frame_slot_def)
  have ok': "pctx_ok (Suc d) ctx'" using safe_pset_reg [OF ok(1) idx v] set by (simp add: stays_def)
  have tf: "frame_tidy ?f" using tidy_frame [OF ok] by simp
  have "frame_tidy f"
  proof (rule frame_tidyI)
    show "pr_digests f = []" using tf view(2) by (simp add: frame_tidy_def)
    show "\<not> frame_known f r" if "r < MAX_REGS" "pr_res f ! r = Some rv" "rv_value rv = None" for r rv
      using frame_tidyD(1) [OF tf that(1)] that none view(1,5) by auto
    show "frame_known f r \<and> pr_regs f ! r = x" if "r < MAX_REGS" "pr_res f ! r = Some rv" "rv_value rv = Some x" for r rv x
      using frame_tidyD(2) [OF tf that(1)] that none view(1,3,5) by (cases "r = i") auto
  qed
  then show ?thesis unfolding ctx' using ok' ctx' ok
    by (intro moves_frame [where idx = i])
       (use view slot in \<open>auto simp: Some slot_at_frame touched_frame\<close>)
qed

lemma reserve_moves:
  assumes res: "reserve r sl ctx = Inr ctx'" and ok: "pctx_ok (Suc d) ctx" "tidy ctx" and r: "r < MAX_REGS"
    and sl: "slot_ok (length (pc_out ctx)) sl" and fresh: "fresh (slot_bits sl) {r} ctx"
  shows "moves (slot_bits sl) {r} (Suc d) ctx ctx'"
proof -
  let ?f = "pc_frames ctx ! 0"
  let ?g = "?f\<lparr>pr_res := (pr_res ?f)[r := Some \<lparr>rv_slot = sl, rv_value = None\<rparr>]\<rparr>"
  have ctx': "ctx' = set_frame 0 ?g ctx" using res by (auto simp: reserve_def with_top_eq bind_res_eq_Inr)
  have new: "\<not> frame_touched ?f r" using fresh ok by (simp add: fresh_def touched_frame)
  then have nk: "\<not> frame_known ?f r" by (simp add: frame_touched_def)
  have len: "length (pr_res ?f) = MAX_REGS" using pctx_ok_frame [OF ok(1), of 0] by (simp add: pframe_ok_def)
  have ok': "pctx_ok (Suc d) ctx'" using safe_reserve [OF ok(1) r sl] res by (simp add: stays_def)
  have view: "frame_slot ?g s = (if s = r then Some sl else frame_slot ?f s)" "frame_known ?g = frame_known ?f" for s
    using len r by (auto simp: frame_slot_def frame_known_def fun_eq_iff nth_list_update)
  have touch: "frame_touched ?g s \<longleftrightarrow> frame_touched ?f s \<or> s = r" for s
    using len r by (auto simp: frame_touched_def view nth_list_update)
  have tf: "frame_tidy ?f" using tidy_frame [OF ok] by simp
  have "frame_tidy ?g"
  proof (rule frame_tidyI)
    show "pr_digests ?g = []" using tf by (simp add: frame_tidy_def)
    show "\<not> frame_known ?g s" if "s < MAX_REGS" "pr_res ?g ! s = Some rv" "rv_value rv = None" for s rv
      using frame_tidyD(1) [OF tf that(1)] that nk len by (cases "s = r") (auto simp: view)
    show "frame_known ?g s \<and> pr_regs ?g ! s = x" if "s < MAX_REGS" "pr_res ?g ! s = Some rv" "rv_value rv = Some x" for s rv x
      using frame_tidyD(2) [OF tf that(1)] that len by (cases "s = r") (auto simp: view)
  qed
  then show ?thesis unfolding ctx' using ok' ctx' ok fresh
    by (intro moves_frame [where idx = r]) (auto simp: view touch slot_at_frame touched_frame fresh_def)
qed

section \<open>Filling a slot\<close>

text \<open>An inverted length succeeds in one of two ways: the register has the value already, or its open
  slot takes it.\<close>

definition settled :: "reg \<Rightarrow> int \<Rightarrow> pctx \<Rightarrow> bool" where
  "settled r x ctx \<longleftrightarrow> reg_up r < length (pc_frames ctx) \<and> reg_idx r < MAX_REGS \<and>
     frame_known (pc_frames ctx ! reg_up r) (reg_idx r) \<and> pr_regs (pc_frames ctx ! reg_up r) ! reg_idx r = x"

lemma apply_inv_cases:
  assumes inv: "apply_inv iv actual ctx = Inr ctx'" and ok: "pctx_ok d ctx" "tidy ctx" "inv_ok d iv"
  obtains x where "(actual - inv_b iv) smod inv_a iv = 0" "x = (actual - inv_b iv) sdiv inv_a iv"
      "ctx' = ctx" "settled (inv_reg iv) x ctx"
    | x sl rv out f where "(actual - inv_b iv) smod inv_a iv = 0" "x = (actual - inv_b iv) sdiv inv_a iv"
      "slot_at ctx (reg_up (inv_reg iv)) (reg_idx (inv_reg iv)) = Some sl"
      "pr_res (pc_frames ctx ! reg_up (inv_reg iv)) ! reg_idx (inv_reg iv) = Some rv"
      "write_slot sl x (pc_out ctx) = Inr out"
      "mark_known (reg_idx (inv_reg iv)) x ((pc_frames ctx ! reg_up (inv_reg iv))
         \<lparr>pr_res := (pr_res (pc_frames ctx ! reg_up (inv_reg iv)))[reg_idx (inv_reg iv) := Some (rv\<lparr>rv_value := Some x\<rparr>)]\<rparr>) = Inr f"
      "ctx' = (set_frame (reg_up (inv_reg iv)) f ctx)\<lparr>pc_out := out\<rparr>"
proof -
  let ?i = "reg_up (inv_reg iv)" and ?r = "reg_idx (inv_reg iv)" and ?x = "(actual - inv_b iv) sdiv inv_a iv"
  let ?f = "pc_frames ctx ! ?i"
  have i: "?i < d" and r: "?r < MAX_REGS" using ok(3) by (simp_all add: inv_ok_def reg_ok_def)
  have len: "?i < length (pc_frames ctx)" using ok(1) i by (simp add: pctx_ok_def)
  have tf: "frame_tidy ?f" using tidy_frame ok i by blast
  have fok: "pframe_ok (length (pc_out ctx)) ?f" using pctx_ok_frame ok i by blast
  have rem: "(actual - inv_b iv) smod inv_a iv = 0"
    using inv by (auto simp: apply_inv_def Let_def split: if_splits)
  show ?thesis
  proof (cases "pr_res ?f ! ?r")
    case None
    then have "ctx' = ctx" "bit (pr_known ?f) ?r" "pr_regs ?f ! ?r = ?x"
      using inv r by (auto simp: apply_inv_def Let_def bind_res_eq_Inr known_test split: if_splits)
    then show ?thesis using that(1) [OF rem refl] len r by (simp add: settled_def frame_known_def)
  next
    case (Some rv)
    show ?thesis
    proof (cases "rv_value rv")
      case filled: (Some prev)
      then have "ctx' = ctx" "prev = ?x"
        using inv Some by (auto simp: apply_inv_def Let_def bind_res_eq_Inr split: if_splits)
      then show ?thesis using that(1) [OF rem refl] len r frame_tidyD(2) [OF tf r Some filled] by (simp add: settled_def)
    next
      case open': None
      then have sl: "slot_at ctx ?i ?r = Some (rv_slot rv)" using Some r len by (simp add: slot_at_def frame_slot_def)
      show ?thesis
        using inv Some open' that(2) [OF rem refl sl Some]
        by (auto simp: apply_inv_def Let_def bind_res_eq_Inr set_frame_def split: if_splits)
    qed
  qed
qed

lemma moves_open:
  assumes "moves R A d ctx ctx'" and "R \<subseteq> open_bits ctx"
  shows "moves {} A d ctx ctx'"
  using assms unfolding moves_def by blast

lemma fill_moves:
  assumes ok: "pctx_ok d ctx" "tidy ctx" and i: "i < d" and r: "r < MAX_REGS" and x: "in_i64 x"
    and sl: "slot_at ctx i r = Some sl" and rv: "pr_res (pc_frames ctx ! i) ! r = Some rv"
    and w: "write_slot sl x (pc_out ctx) = Inr out"
    and m: "mark_known r x ((pc_frames ctx ! i)\<lparr>pr_res := (pr_res (pc_frames ctx ! i))[r := Some (rv\<lparr>rv_value := Some x\<rparr>)]\<rparr>) = Inr f"
    and ctx': "ctx' = (set_frame i f ctx)\<lparr>pc_out := out\<rparr>"
  shows "moves {} {} d ctx ctx'" "slot_reads (pc_out ctx') sl x" "settled \<lparr>reg_up = i, reg_idx = r\<rparr> x ctx'"
    "slot_bits sl \<inter> open_bits ctx' = {}"
    "\<And>j s. slot_at ctx' j s = (if (j, s) = (i, r) then None else slot_at ctx j s)"
    "\<And>j s. j < d \<Longrightarrow> (j, s) \<noteq> (i, r) \<Longrightarrow> (frame_known (pc_frames ctx' ! j) s \<longleftrightarrow> frame_known (pc_frames ctx ! j) s) \<and>
      pr_regs (pc_frames ctx' ! j) ! s = pr_regs (pc_frames ctx ! j) ! s"
proof -
  let ?f = "pc_frames ctx ! i"
  let ?g = "?f\<lparr>pr_res := (pr_res ?f)[r := Some (rv\<lparr>rv_value := Some x\<rparr>)]\<rparr>"
  have len: "i < length (pc_frames ctx)" "length (pc_frames ctx) = d" using ok(1) i by (simp_all add: pctx_ok_def)
  have fok: "pframe_ok (length (pc_out ctx)) ?f" using pctx_ok_frame [OF ok(1) i] .
  then have lens: "length (pr_regs ?g) = MAX_REGS" "length (pr_res ?f) = MAX_REGS" by (simp_all add: pframe_ok_def)
  note v = mark_known_view [OF m r lens(1)]
  have tf: "frame_tidy ?f" using tidy_frame [OF ok i] .
  have slot_ok: "slot_ok (length (pc_out ctx)) sl" using slot_at_ok [OF ok(1) sl] .
  have zero: "\<not> sbit (pc_out ctx) p" if "p \<in> slot_bits sl" for p using open_zero [OF ok(2) slot_open [OF sl that]] .
  note wr = write_slot_reads [OF w slot_ok zero]
  have slotf: "frame_slot f s = (if s = r then None else frame_slot ?f s)" for s
    using v(4) r lens by (auto simp: frame_slot_def nth_list_update)
  have touchf: "frame_touched f s \<longleftrightarrow> frame_touched ?f s \<or> s = r" for s
    using v(6) r lens rv by (auto simp: frame_touched_def frame_known_def nth_list_update)
  have knownf: "frame_known f s \<longleftrightarrow> frame_known ?f s \<or> s = r" for s using v(5) by (simp add: frame_known_def)
  have tch: "frame_touched ?f r" using rv r by (simp add: frame_touched_def)
  have tidyf: "frame_tidy f"
  proof (rule frame_tidyI)
    show "pr_digests f = []" using tf v(2) by (simp add: frame_tidy_def)
    show "\<not> frame_known f s" if "s < MAX_REGS" "pr_res f ! s = Some q" "rv_value q = None" for s q
      using frame_tidyD(1) [OF tf that(1)] that v(1) lens by (cases "s = r") (auto simp: knownf)
    show "frame_known f s \<and> pr_regs f ! s = y" if "s < MAX_REGS" "pr_res f ! s = Some q" "rv_value q = Some y" for s q y
      using frame_tidyD(2) [OF tf that(1)] that v(1,3) lens by (cases "s = r") (auto simp: knownf)
  qed
  have fok': "pframe_ok (length (pc_out ctx)) ?g"
    using fok rv lens r nth_mem [of r "pr_res ?f"]
    by (auto simp: pframe_ok_def dest!: set_update_subset_insert [THEN subsetD])
  have "pframe_ok (length (pc_out ctx)) f" using safe_mark_known [OF fok' r x] m by simp
  then have ok1: "pctx_ok d (set_frame i f ctx)"
    using ok(1) by (auto simp: pctx_ok_def set_frame_def list_all_iff dest!: set_update_subset_insert [THEN subsetD])
  have m1: "moves {} {} d ctx (set_frame i f ctx)"
    by (rule moves_frame [OF ok1 ok i tidyf, where idx = r])
      (use tch in \<open>auto simp: slotf touchf slot_at_frame [OF ok(1) i] touched_frame [OF ok(1) i]\<close>)
  have slots: "slot_at (set_frame i f ctx) j s = (if (j, s) = (i, r) then None else slot_at ctx j s)" for j s
    using len slot_at_frame [OF ok(1) i] by (auto simp: slotf)
  have apart: "slot_bits sl \<inter> open_bits (set_frame i f ctx) = {}"
  proof -
    have "p \<notin> slot_bits sl" if "slot_at ctx j s = Some sl'" "(j, s) \<noteq> (i, r)" "p \<in> slot_bits sl'" for j s sl' p
      using ok(2) sl that unfolding tidy_def by blast
    then show ?thesis by (auto simp: open_bits_def slots split: if_splits simp del: set_frame_view(3))
  qed
  have m2: "moves (slot_bits sl) {} d (set_frame i f ctx) ctx'"
    unfolding ctx' by (rule moves_out) (use ok1 m1 wr(1,3) apart pctx_ok_length [OF ok1] in \<open>auto simp: moves_def\<close>)
  have "moves (slot_bits sl) {} d ctx ctx'" by (rule moves_trans [OF moves_mono [OF m1] m2]) simp_all
  then show "moves {} {} d ctx ctx'" by (rule moves_open) (use sl in \<open>auto intro: slot_open\<close>)
  show "slot_reads (pc_out ctx') sl x" using wr(2) by (simp add: ctx')
  show "settled \<lparr>reg_up = i, reg_idx = r\<rparr> x ctx'"
    using len r lens v(3) by (simp add: settled_def ctx' set_frame_def knownf)
  show "slot_bits sl \<inter> open_bits ctx' = {}" using apart by (simp add: ctx')
  show "slot_at ctx' j s = (if (j, s) = (i, r) then None else slot_at ctx j s)" for j s
    using slots by (simp add: ctx' del: set_frame_view(3))
  show "(frame_known (pc_frames ctx' ! j) s \<longleftrightarrow> frame_known (pc_frames ctx ! j) s) \<and>
      pr_regs (pc_frames ctx' ! j) ! s = pr_regs (pc_frames ctx ! j) ! s" if "j < d" "(j, s) \<noteq> (i, r)" for j s
    using that len by (cases "j = i") (auto simp: ctx' set_frame_def knownf v(3))
qed

end
