(* ===== verification/Mirror.thy ===== *)
theory Mirror
  imports Pack_Trace
begin

text \<open>
  The unpacker's frames against the packer's: a register the packer knows has the same value on both
  sides, and one whose slot is still open has, on the unpacker's side, what the slot will hold in
  the finished buffer.
\<close>

section \<open>Frames\<close>

definition frame_rel :: "bytes \<Rightarrow> pframe \<Rightarrow> int list \<Rightarrow> bool" where
  "frame_rel buf f regs \<longleftrightarrow>
     (\<forall>r < MAX_REGS. (frame_known f r \<longrightarrow> regs ! r = pr_regs f ! r) \<and>
        (\<forall>sl x. frame_slot f r = Some sl \<longrightarrow> slot_reads buf sl x \<longrightarrow> in_i64 x \<longrightarrow> regs ! r = x))"

definition mirrors :: "bytes \<Rightarrow> pctx \<Rightarrow> frame list \<Rightarrow> bool" where
  "mirrors buf ctx fs \<longleftrightarrow> list_all2 (frame_rel buf) (pc_frames ctx) (map fr_regs fs)"

lemma mirrors_out [simp]: "mirrors buf (ctx\<lparr>pc_out := out\<rparr>) = mirrors buf ctx"
  by (simp add: mirrors_def fun_eq_iff)

lemma mirrors_extended [simp]: "mirrors buf (extended b ctx) = mirrors buf ctx"
  by (simp add: extended_def)

lemma mirrors_regs: "map fr_regs fs' = map fr_regs fs \<Longrightarrow> mirrors buf ctx fs \<Longrightarrow> mirrors buf ctx fs'"
  by (simp add: mirrors_def)

lemma mirrors_same: "same_frames ctx ctx' \<Longrightarrow> mirrors buf ctx fs \<Longrightarrow> mirrors buf ctx' fs"
  by (auto simp: same_frames_def mirrors_def frame_rel_def frame_known_def frame_slot_def list_all2_conv_all_nth)

lemma mirrors_push: "mirrors buf (ctx\<lparr>pc_frames := pframe_new # pc_frames ctx\<rparr>) (new_frame # fs) \<longleftrightarrow> mirrors buf ctx fs"
  by (auto simp: mirrors_def frame_rel_def frame_known_def frame_slot_def pframe_new_def)

lemma set_frame_mirrors:
  assumes "mirrors buf ctx fs" and "frame_rel buf f (fr_regs g)"
  shows "mirrors buf (set_frame k f ctx) (fs[k := g])"
  using assms by (simp add: mirrors_def set_frame_def map_update list_all2_update_cong)

lemma mirrors_at:
  assumes "mirrors buf ctx fs" and "pctx_ok d ctx" and "k < d"
  shows "k < length fs" "frame_rel buf (pc_frames ctx ! k) (fr_regs (fs ! k))"
  using assms by (auto simp: mirrors_def pctx_ok_def list_all2_conv_all_nth)

lemma mirrors_known:
  assumes "mirrors buf ctx fs" and "pctx_ok d ctx" and "k < d" and "r < MAX_REGS" and "frame_known (pc_frames ctx ! k) r"
  shows "fr_regs (fs ! k) ! r = pr_regs (pc_frames ctx ! k) ! r"
  using mirrors_at [OF assms(1-3)] assms(4,5) by (simp add: frame_rel_def)

lemma mirrors_slot:
  assumes "mirrors buf ctx fs" and "pctx_ok d ctx" and "slot_at ctx k r = Some sl" and "slot_reads buf sl x" and "in_i64 x"
  shows "fr_regs (fs ! k) ! r = x"
proof -
  have "k < d" "r < MAX_REGS" "frame_slot (pc_frames ctx ! k) r = Some sl"
    using assms(2,3) by (auto simp: slot_at_def pctx_ok_def frame_slot_def split: if_splits)
  then show ?thesis using mirrors_at [OF assms(1,2)] assms(4,5) by (auto simp: frame_rel_def)
qed

text \<open>Some registers mirror any frame, so a run can be resumed on the frames below.\<close>

lemma some_regs_mirror:
  assumes "pframe_ok m f" and "frame_tidy f"
  shows "\<exists>regs. length regs = MAX_REGS \<and> (\<forall>x\<in>set regs. in_i64 x) \<and> frame_rel buf f regs"
proof -
  define pick where "pick = (\<lambda>r. if frame_known f r then pr_regs f ! r
    else case frame_slot f r of None \<Rightarrow> 0
    | Some sl \<Rightarrow> if \<exists>x. slot_reads buf sl x \<and> in_i64 x then (SOME x. slot_reads buf sl x \<and> in_i64 x) else 0)"
  have known: "in_i64 (pr_regs f ! r)" if "r < MAX_REGS" for r
    using assms(1) that nth_mem [of r "pr_regs f"] by (auto simp: pframe_ok_def)
  have read: "in_i64 (SOME x. slot_reads buf sl x \<and> in_i64 x) \<and> slot_reads buf sl (SOME x. slot_reads buf sl x \<and> in_i64 x)"
    if "slot_reads buf sl x" "in_i64 x" for sl x
    using someI [where P = "\<lambda>x. slot_reads buf sl x \<and> in_i64 x", of x] that by blast
  have i64: "in_i64 (pick r)" if "r < MAX_REGS" for r
    using known [OF that] read by (auto simp: pick_def in_i64_iff split: option.split)
  have "frame_rel buf f (map pick [0..<MAX_REGS])"
    unfolding frame_rel_def
  proof (intro allI impI conjI)
    fix r
    assume r: "r < MAX_REGS"
    show "map pick [0..<MAX_REGS] ! r = pr_regs f ! r" if "frame_known f r" using that r by (simp add: pick_def)
    show "map pick [0..<MAX_REGS] ! r = x" if sl: "frame_slot f r = Some sl" and x: "slot_reads buf sl x" "in_i64 x" for sl x
    proof -
      have "\<not> frame_known f r"
        using sl frame_tidyD(1) [OF assms(2) r] by (auto simp: frame_slot_def split: if_splits option.splits)
      then have "pick r = (SOME x. slot_reads buf sl x \<and> in_i64 x)" using sl x by (auto simp: pick_def)
      then show ?thesis using read [OF x] slot_reads_unique x(1) r by auto
    qed
  qed
  then show ?thesis using i64 by (intro exI [of _ "map pick [0..<MAX_REGS]"]) auto
qed

text \<open>The frames below the top.\<close>

definition below :: "bytes \<Rightarrow> pctx \<Rightarrow> frame list \<Rightarrow> bool" where
  "below buf ctx fs \<longleftrightarrow> list_all2 (frame_rel buf) (tl (pc_frames ctx)) (map fr_regs (tl fs))"

lemma mirrors_below: "mirrors buf ctx fs \<Longrightarrow> below buf ctx fs"
  by (cases "pc_frames ctx"; cases fs) (auto simp: mirrors_def below_def)

lemma below_tl: "tl (pc_frames ctx') = tl (pc_frames ctx) \<Longrightarrow> map fr_regs (tl fs') = map fr_regs (tl fs) \<Longrightarrow> below buf ctx' fs' = below buf ctx fs"
  by (simp add: below_def)

lemma below_mirrors:
  assumes "below buf ctx fs" and "pctx_ok (Suc d) ctx" "tidy ctx" and "frames_ok n (Suc d) fs"
  obtains g where "frames_ok n (Suc d) (g # tl fs)" "mirrors buf ctx (g # tl fs)"
proof -
  obtain f rest where f: "pc_frames ctx = f # rest" using assms(2) by (cases "pc_frames ctx") (simp_all add: pctx_ok_def)
  obtain h gs where h: "fs = h # gs" using assms(4) by (cases fs) (simp_all add: frames_ok_def)
  have "pframe_ok (length (pc_out ctx)) f" "frame_tidy f" using assms(2,3) f by (simp_all add: pctx_ok_def tidy_def)
  from some_regs_mirror [OF this] obtain regs where regs: "length regs = MAX_REGS" "\<forall>x\<in>set regs. in_i64 x" "frame_rel buf f regs" by blast
  show thesis
    by (rule that [of "h\<lparr>fr_regs := regs\<rparr>"])
      (use regs assms(1,4) in \<open>auto simp: f h below_def mirrors_def frames_ok_def frame_ok_def\<close>)
qed

section \<open>Expressions\<close>

lemma eval_expr_mono:
  assumes "eval_expr g e = Inr v" and "\<And>r x. g r = Inr x \<Longrightarrow> h r = Inr x"
  shows "eval_expr h e = Inr v"
proof -
  have step: "exec h i st = Inr st'" if "exec g i st = Inr st'" for i st st'
    using that assms(2) by (cases i) (auto simp: bind_res_eq_Inr)
  have "fold_res (exec h) is st = Inr st'" if "fold_res (exec g) is st = Inr st'" for "is" st st'
    using that by (induction "is" arbitrary: st) (auto simp: bind_res_eq_Inr dest!: step)
  then show ?thesis using assms(1) by (auto simp: eval_expr_def bind_res_eq_Inr)
qed

lemma pget_reg_mirror:
  assumes "pget_reg ctx r = Inr v" and "mirrors buf ctx fs" and "pctx_ok d ctx" and "frames_ok n d fs"
  shows "get_reg fs r = Inr v"
proof -
  let ?k = "reg_up r" and ?r = "reg_idx r"
  have k: "?k < d" "?k < length (pc_frames ctx)" using assms(1,3) by (auto simp: pget_reg_def pctx_ok_def bind_res_eq_Inr)
  have f: "pframe_ok (length (pc_out ctx)) (pc_frames ctx ! ?k)" using pctx_ok_frame [OF assms(3) k(1)] .
  have g: "frame_ok n (fs ! ?k)" "?k < length fs" using assms(4) k(1) by (simp_all add: frames_ok_def list_all_length)
  have r: "?r < MAX_REGS" "v = pr_regs (pc_frames ctx ! ?k) ! ?r"
    and b: "pr_known (pc_frames ctx ! ?k) AND known_bit ?r \<noteq> 0"
    using assms(1) f by (auto simp: pget_reg_def bind_res_eq_Inr pframe_ok_def split: if_splits)
  then have "frame_known (pc_frames ctx ! ?k) ?r" by (simp add: known_test frame_known_def)
  then show ?thesis using mirrors_known [OF assms(2,3) k(1) r(1)] g r by (simp add: get_reg_def nth_res_def frame_ok_def)
qed

lemma peval_mirror:
  assumes "peval ctx e = Inr v" and "mirrors buf ctx fs" and "pctx_ok d ctx" and "frames_ok n d fs"
  shows "eval fs e pos = Inr v"
proof -
  have "eval_expr (\<lambda>r. map_fail pf_kind (pget_reg ctx r)) e = Inr v" using assms(1) by (simp add: peval_def)
  then have "eval_expr (get_reg fs) e = Inr v"
    by (rule eval_expr_mono) (use pget_reg_mirror [OF _ assms(2-4)] in simp)
  then show ?thesis by (simp add: eval_def)
qed

section \<open>Lengths\<close>

text \<open>The inversion a length carries is that of its expression: with the register at \<open>x\<close>, the
  expression is \<open>a * x + b\<close>, unless it overflows on the way.\<close>

definition inv_reads :: "expr \<Rightarrow> inv \<Rightarrow> bool" where
  "inv_reads e iv \<longleftrightarrow>
     (\<forall>get x. get (inv_reg iv) = Inr x \<longrightarrow>
        eval_expr get e = Inr (inv_a iv * x + inv_b iv) \<or> eval_expr get e = Inl (Fail KOverflow))"

fun len_reads :: "len_src \<Rightarrow> bool" where
  "len_reads (LenExpr e (Some iv)) \<longleftrightarrow> inv_reads e iv"
| "len_reads _ \<longleftrightarrow> True"

lemma apply_inv_mirror:
  assumes inv: "apply_inv iv actual ctx = Inr ctx'" and ok: "pctx_ok d ctx" "tidy ctx" "inv_ok d iv" and actual: "0 \<le> actual"
  shows "moves {} {} d ctx ctx'" (is ?moves)
    and "agree buf ctx' \<Longrightarrow> mirrors buf ctx fs \<Longrightarrow>
      mirrors buf ctx' fs \<and> (actual - inv_b iv) smod inv_a iv = 0 \<and>
      fr_regs (fs ! reg_up (inv_reg iv)) ! reg_idx (inv_reg iv) = (actual - inv_b iv) sdiv inv_a iv" (is "_ \<Longrightarrow> _ \<Longrightarrow> ?mir")
proof -
  let ?i = "reg_up (inv_reg iv)" and ?r = "reg_idx (inv_reg iv)" and ?x = "(actual - inv_b iv) sdiv inv_a iv"
  have i: "?i < d" and r: "?r < MAX_REGS" using ok(3) by (simp_all add: inv_ok_def reg_ok_def)
  have "?moves \<and> (agree buf ctx' \<longrightarrow> mirrors buf ctx fs \<longrightarrow> ?mir)"
  proof (rule apply_inv_cases [OF inv ok])
    fix x
    assume rem: "(actual - inv_b iv) smod inv_a iv = 0" and x: "x = ?x" and c: "ctx' = ctx" "settled (inv_reg iv) x ctx"
    then show ?thesis using moves_refl [OF ok(1,2)] mirrors_known [OF _ ok(1) i r, of buf fs]
      by (auto simp: settled_def)
  next
    fix x sl rv out f
    assume rem: "(actual - inv_b iv) smod inv_a iv = 0" and x: "x = ?x" and sl: "slot_at ctx ?i ?r = Some sl"
      and rv: "pr_res (pc_frames ctx ! ?i) ! ?r = Some rv" and w: "write_slot sl x (pc_out ctx) = Inr out"
      and m: "mark_known ?r x ((pc_frames ctx ! ?i)\<lparr>pr_res := (pr_res (pc_frames ctx ! ?i))[?r := Some (rv\<lparr>rv_value := Some x\<rparr>)]\<rparr>) = Inr f"
      and c: "ctx' = (set_frame ?i f ctx)\<lparr>pc_out := out\<rparr>"
    have dd: "in_i64 (actual - inv_b iv)" using inv by (auto simp: apply_inv_def Let_def split: if_splits)
    have "actual - inv_b iv \<noteq> i64_min" using ok(3) actual by (auto simp: inv_ok_def in_i64_def i64_min_def i64_max_def)
    then have xi: "in_i64 x" unfolding x using ok(3) by (intro sdiv_in_i64 dd) (simp_all add: inv_ok_def)
    note fill = fill_moves [OF ok(1,2) i r xi sl rv w m c]
    have ok': "pctx_ok d ctx'" using fill(1) by (simp add: moves_def)
    have mir: "mirrors buf ctx' fs \<and> fr_regs (fs ! ?i) ! ?r = x" if a: "agree buf ctx'" and mi: "mirrors buf ctx fs"
    proof -
      have slok: "slot_ok (length (pc_out ctx')) sl"
        using slot_ok_mono [OF slot_at_ok [OF ok(1) sl]] fill(1) by (simp add: moves_def)
      have bits: "sbit (pc_out ctx') p = sbit buf p" if "p \<in> slot_bits sl" for p
        using a fill(4) slot_bits_bound [OF slok that] that by (auto simp: agree_def agree_on_def)
      have "slot_reads buf sl x" by (rule slot_reads_agree [OF slok _ bits fill(2)]) (use a in \<open>simp_all add: agree_def\<close>)
      then have reg: "fr_regs (fs ! ?i) ! ?r = x" by (rule mirrors_slot [OF mi ok(1) sl _ xi])
      have "frame_rel buf (pc_frames ctx' ! j) (fr_regs (fs ! j))" if j: "j < d" for j
        unfolding frame_rel_def
      proof (intro allI impI conjI)
        fix s
        assume s: "s < MAX_REGS"
        note old = mirrors_at(2) [OF mi ok(1) j]
        show "fr_regs (fs ! j) ! s = pr_regs (pc_frames ctx' ! j) ! s" if k: "frame_known (pc_frames ctx' ! j) s"
        proof (cases "(j, s) = (?i, ?r)")
          case True
          then show ?thesis using reg fill(3) by (simp add: settled_def)
        next
          case False
          then show ?thesis using fill(6) [OF j False] k old s by (simp add: frame_rel_def)
        qed
        show "fr_regs (fs ! j) ! s = z" if k: "frame_slot (pc_frames ctx' ! j) s = Some sl'" and z: "slot_reads buf sl' z" "in_i64 z" for sl' z
        proof -
          have "slot_at ctx' j s = Some sl'" using k slot_at_frame [OF ok' j] by simp
          then have "slot_at ctx j s = Some sl'" using fill(5) [of j s] by (auto split: if_splits)
          then show ?thesis by (rule mirrors_slot [OF mi ok(1) _ z])
        qed
      qed
      then have "mirrors buf ctx' fs" using mi ok(1) ok' by (auto simp: mirrors_def list_all2_conv_all_nth pctx_ok_def)
      then show ?thesis using reg by simp
    qed
    then show ?thesis using fill(1) rem x by blast
  qed
  then show ?moves and "agree buf ctx' \<Longrightarrow> mirrors buf ctx fs \<Longrightarrow> ?mir" by blast+
qed

lemma len_mirror:
  assumes fin: "finish_len len n ctx = Inr ctx'" and ok: "pctx_ok d ctx" "tidy ctx" "len_src_ok d len"
  shows "moves {} {} d ctx ctx'"
    and "agree buf ctx' \<Longrightarrow> mirrors buf ctx fs \<Longrightarrow> mirrors buf ctx' fs"
    and "agree buf ctx' \<Longrightarrow> mirrors buf ctx fs \<Longrightarrow> frames_ok m d fs \<Longrightarrow> len_reads len \<Longrightarrow> len = LenExpr e iv \<Longrightarrow>
      eval fs e pos = Inr (int n) \<or> eval fs e pos = Inl (Fail (invalid_at KOverflow pos))"
proof -
  let ?goal = "moves {} {} d ctx ctx' \<and> (agree buf ctx' \<longrightarrow> mirrors buf ctx fs \<longrightarrow> mirrors buf ctx' fs \<and>
     (frames_ok m d fs \<longrightarrow> len_reads len \<longrightarrow> len = LenExpr e iv \<longrightarrow>
       eval fs e pos = Inr (int n) \<or> eval fs e pos = Inl (Fail (invalid_at KOverflow pos))))"
  have ?goal
  proof (cases len)
    case LenGreedy
    then show ?thesis using fin moves_refl [OF ok(1,2)] by (simp add: finish_len_def)
  next
    case (LenExpr e' iv')
    show ?thesis
    proof (cases iv')
      case None
      then have "as_const e' = Some (int n)" "ctx' = ctx"
        using fin by (auto simp: finish_len_def LenExpr bind_res_eq_Inr split: if_splits)
      moreover from this have "e' = Expr [IImm (int n)]" by (cases e' rule: as_const.cases) simp_all
      then have "eval_expr get e' = Inr (int n)" for get
        by (simp add: eval_expr_def push_cell_def update_res_def EXPR_STACK_def nth_res_def)
      ultimately show ?thesis using moves_refl [OF ok(1,2)] LenExpr by (auto simp: eval_def)
    next
      case (Some i)
      then have inv: "apply_inv i (int n) ctx = Inr ctx'" using fin by (auto simp: finish_len_def LenExpr split: if_splits)
      have iok: "inv_ok d i" using ok(3) by (simp add: LenExpr Some len_ok_def)
      note am = apply_inv_mirror [OF inv ok(1,2) iok]
      let ?k = "reg_up (inv_reg i)" and ?r = "reg_idx (inv_reg i)"
      have "eval fs e' pos = Inr (int n) \<or> eval fs e' pos = Inl (Fail (invalid_at KOverflow pos))"
        if "agree buf ctx'" "mirrors buf ctx fs" "frames_ok m d fs" "inv_reads e' i"
      proof -
        let ?x = "(int n - inv_b i) sdiv inv_a i"
        have "fr_regs (fs ! ?k) ! ?r = ?x" "(int n - inv_b i) smod inv_a i = 0" using am(2) [OF _ that(1,2)] by simp_all
        moreover have "?k < length fs" "length (fr_regs (fs ! ?k)) = MAX_REGS" "?r < MAX_REGS"
          using that(3) iok by (auto simp: frames_ok_def inv_ok_def reg_ok_def list_all_length frame_ok_def)
        ultimately have "get_reg fs (inv_reg i) = Inr ?x" "inv_a i * ?x + inv_b i = int n"
          by (simp_all add: get_reg_def nth_res_def sdiv_exact)
        then have "eval_expr (get_reg fs) e' = Inr (int n) \<or> eval_expr (get_reg fs) e' = Inl (Fail KOverflow)"
          using that(4) unfolding inv_reads_def by metis
        then show ?thesis by (auto simp: eval_def)
      qed
      then show ?thesis using am LenExpr Some by auto
    qed
  qed
  then show "moves {} {} d ctx ctx'"
    and "agree buf ctx' \<Longrightarrow> mirrors buf ctx fs \<Longrightarrow> mirrors buf ctx' fs"
    and "agree buf ctx' \<Longrightarrow> mirrors buf ctx fs \<Longrightarrow> frames_ok m d fs \<Longrightarrow> len_reads len \<Longrightarrow> len = LenExpr e iv \<Longrightarrow>
      eval fs e pos = Inr (int n) \<or> eval fs e pos = Inl (Fail (invalid_at KOverflow pos))"
    by blast+
qed

text \<open>The inversions the compiler emits have this property.\<close>

lemma inv_reads_compiled:
  assumes "linear e = Some ln" and "lin_ref ln = Some (n, a)" and "greedy_free e"
    and "postfix_depth (postfix \<rho> e) \<le> EXPR_STACK"
  shows "inv_reads (Expr (postfix \<rho> e)) \<lparr>inv_reg = \<rho> n, inv_a = a, inv_b = lin_b ln\<rparr>"
proof -
  have "eval_expr get (Expr (postfix \<rho> e)) = Inr (a * x + lin_b ln) \<or> eval_expr get (Expr (postfix \<rho> e)) = Inl (Fail KOverflow)"
    if "get (\<rho> n) = Inr x" for get x
  proof -
    let ?env = "\<lambda>m. get (\<rho> m)"
    have "refs e = {n}" using linear_refs [OF assms(1)] assms(2) by (simp add: lin_names_def)
    then have "(\<exists>v. ieval ?env e = Inr v) \<or> ieval ?env e = Inl (Fail KOverflow)"
      using linear_fails_by_overflow [OF assms(1), of ?env] that by auto
    moreover have "v = a * x + lin_b ln" if "ieval ?env e = Inr v" for v
      using linear_value [OF assms(1) that] assms(2) \<open>get (\<rho> n) = Inr x\<close> by (simp add: lin_value_def)
    ultimately show ?thesis using eval_expr_postfix [OF assms(3,4), of get] by auto
  qed
  then show ?thesis by (simp add: inv_reads_def)
qed

section \<open>Runs that stop at a limit only\<close>

text \<open>What the unpacker checks and the packer does not: counts, lengths and depths within their
  limits, and integers within the range of a register.\<close>

definition beyond :: "kind set" where
  "beyond = {KOverflow, KLimit, KDepth}"

definition tame :: "'a ures \<Rightarrow> ('a \<Rightarrow> bool) \<Rightarrow> bool" where
  "tame m Q \<longleftrightarrow>
     (case m of
        Inr a \<Rightarrow> Q a
      | Inl (Fail (Invalid i)) \<Rightarrow> inv_kind i \<in> beyond
      | Inl (Fail (Incomplete n)) \<Rightarrow> False
      | Inl Panic \<Rightarrow> False)"

lemma tame_simps [simp]:
  "tame (Inr a) Q \<longleftrightarrow> Q a"
  "tame (Inl (Fail (Invalid i))) Q \<longleftrightarrow> inv_kind i \<in> beyond"
  by (simp_all add: tame_def)

lemma beyond_kinds [simp]: "KOverflow \<in> beyond" "KLimit \<in> beyond" "KDepth \<in> beyond"
  by (simp_all add: beyond_def)

lemma tame_bind: "tame m P \<Longrightarrow> (\<And>a. m = Inr a \<Longrightarrow> P a \<Longrightarrow> tame (f a) Q) \<Longrightarrow> tame (bind_res m f) Q"
  by (auto simp: tame_def bind_res_def split: sum.splits fault.splits ufail.splits)

lemma tame_mono: "tame m P \<Longrightarrow> (\<And>a. m = Inr a \<Longrightarrow> P a \<Longrightarrow> Q a) \<Longrightarrow> tame m Q"
  by (auto simp: tame_def split: sum.splits fault.splits ufail.splits)

lemma tame_seg [simp]: "tame (map_fail (ufail_seg s) m) Q \<longleftrightarrow> tame m Q"
  by (auto simp: tame_def map_fail_def split: sum.splits fault.splits ufail.splits)

lemma tame_push_key [simp]: "tame (map_fail (push_key k) m) Q \<longleftrightarrow> tame m Q"
proof (cases "key_name k")
  case None
  then have "map_fail (push_key k) m = m"
    by (auto simp: push_key_def map_fail_def split: sum.split fault.split)
  then show ?thesis by simp
next
  case (Some n)
  then have "push_key k = ufail_seg (SegField n)" by (simp add: push_key_def fun_eq_iff)
  then show ?thesis by simp
qed

lemma tame_need: "pos + n \<le> limit \<Longrightarrow> tame (need buf pos limit n) (\<lambda>_. True)"
  by (auto simp: need_def saturating_add_def min_def)

lemma set_span_tame:
  assumes "frames_ok n (Suc d) fs" and "idx_ok MAX_SPANS idx" and "s \<le> e" and "e \<le> n"
  obtains fs' where "set_span fs idx s e = Inr fs'" "frames_ok n (Suc d) fs'" "map fr_regs fs' = map fr_regs fs"
proof -
  have "\<exists>fs'. set_span fs idx s e = Inr fs' \<and> map fr_regs fs' = map fr_regs fs"
    using assms(1,2)
    by (cases fs; cases idx) (auto simp: set_span_def frames_ok_def frame_ok_def spans_ok_def idx_ok_def bind_res_eq_Inr)
  then show thesis using that safe_set_span [OF assms] by auto
qed

end
