(* ===== verification/Nan.thy ===== *)
theory Nan
  imports Floats
begin

lemma bit_push_mask: "bit (push_bit k (Bit_Operations.mask m) :: 'a::len word) n \<longleftrightarrow> k \<le> n \<and> n < k + m \<and> n < LENGTH('a)"
  by (auto simp: bit_push_bit_iff bit_mask_iff)

lemma nan_bits:
  "bit (0x80000000 :: 32 word) n \<longleftrightarrow> n = 31" "bit (0x80000000 :: 64 word) n \<longleftrightarrow> n = 31"
  "bit (0x400000 :: 32 word) n \<longleftrightarrow> n = 22" "bit (0x400000 :: 64 word) n \<longleftrightarrow> n = 22"
  "bit (0x7FFFFF :: 32 word) n \<longleftrightarrow> n < 23"
  "bit (0x7FFFFFFF :: 32 word) n \<longleftrightarrow> n < 31" "bit (0x7FFFFFFFFFFFFFFF :: 64 word) n \<longleftrightarrow> n < 63"
  "bit (word_of_nat (inf_bits f32) :: 32 word) n \<longleftrightarrow> 23 \<le> n \<and> n < 31"
  "bit (word_of_nat (inf_bits f64) :: 64 word) n \<longleftrightarrow> 52 \<le> n \<and> n < 63"
proof -
  have "(0x80000000 :: 32 word) = push_bit 31 1" "(0x80000000 :: 64 word) = push_bit 31 1"
    "(0x400000 :: 32 word) = push_bit 22 1" "(0x400000 :: 64 word) = push_bit 22 1"
    "(0x7FFFFF :: 32 word) = push_bit 0 (Bit_Operations.mask 23)"
    "(0x7FFFFFFF :: 32 word) = push_bit 0 (Bit_Operations.mask 31)" "(0x7FFFFFFFFFFFFFFF :: 64 word) = push_bit 0 (Bit_Operations.mask 63)"
    "(word_of_nat (inf_bits f32) :: 32 word) = push_bit 23 (Bit_Operations.mask 8)"
    "(word_of_nat (inf_bits f64) :: 64 word) = push_bit 52 (Bit_Operations.mask 11)"
    by (simp_all add: mask_eq_exp_minus_1)
  note eqs = this
  show "bit (0x80000000 :: 32 word) n \<longleftrightarrow> n = 31" "bit (0x80000000 :: 64 word) n \<longleftrightarrow> n = 31"
    "bit (0x400000 :: 32 word) n \<longleftrightarrow> n = 22" "bit (0x400000 :: 64 word) n \<longleftrightarrow> n = 22"
    unfolding eqs bit_push_one by auto
  show "bit (0x7FFFFF :: 32 word) n \<longleftrightarrow> n < 23"
    "bit (0x7FFFFFFF :: 32 word) n \<longleftrightarrow> n < 31" "bit (0x7FFFFFFFFFFFFFFF :: 64 word) n \<longleftrightarrow> n < 63"
    "bit (word_of_nat (inf_bits f32) :: 32 word) n \<longleftrightarrow> 23 \<le> n \<and> n < 31"
    "bit (word_of_nat (inf_bits f64) :: 64 word) n \<longleftrightarrow> 52 \<le> n \<and> n < 63"
    unfolding eqs bit_push_mask by auto
qed

lemma unat_inf: "unat (word_of_nat (inf_bits f32) :: 32 word) = inf_bits f32" "unat (word_of_nat (inf_bits f64) :: 64 word) = inf_bits f64"
  by simp_all

lemma above:
  fixes x m :: "'a::len word"
  assumes "\<And>n. bit m n \<Longrightarrow> bit x n" and "bit x k" and "\<not> bit m k"
  shows "unat m < unat x"
proof -
  have "m AND x = m" by (rule bit_eqI) (auto simp: bit_and_iff assms(1))
  then have "m \<le> x" by (metis word_and_le1)
  moreover have "m \<noteq> x" using assms(2,3) by auto
  ultimately show ?thesis by (simp add: word_less_nat_alt [symmetric])
qed

text \<open>A quiet NaN keeps its sign and payload.\<close>

lemma narrow_widen_quiet:
  assumes q: "\<And>n. 22 \<le> n \<Longrightarrow> n < 31 \<Longrightarrow> bit x n"
  shows "narrow (widen x) = x"
proof -
  have b22: "bit x 22" by (rule q) simp_all
  have "unat (word_of_nat (inf_bits f32) :: 32 word) < unat (x AND 0x7FFFFFFF)"
    by (rule above [where k = 22]) (auto simp only: bit_and_iff nan_bits q b22)
  then have nan: "inf_bits f32 < unat (x AND 0x7FFFFFFF)" unfolding unat_inf .
  define w where "w = widen x"
  have w: "w = push_bit 32 (ucast (x AND 0x80000000)) OR word_of_nat (inf_bits f64) OR push_bit 29 (ucast (x AND 0x7FFFFF OR 0x400000))"
    using nan unfolding w_def widen_def Let_def by (simp only: if_True)
  have len: "n < 64" if "bit w n" for n using bit_imp_le_length [OF that] by simp
  have bw: "bit w n \<longleftrightarrow> (n = 63 \<and> bit x 31) \<or> (52 \<le> n \<and> n < 63) \<or> (29 \<le> n \<and> n < 52 \<and> bit x (n - 29))" (is "_ \<longleftrightarrow> ?r") for n
  proof (cases "n < 64")
    case True
    have s: "bit (push_bit 32 (ucast (x AND 0x80000000)) :: 64 word) n \<longleftrightarrow> n = 63 \<and> bit x 31"
      unfolding bit_push_bit_iff bit_ucast_iff bit_and_iff nan_bits using True
      by (cases "n = 63") (simp_all add: possible_bit_def, arith)
    have m: "bit (push_bit 29 (ucast (x AND 0x7FFFFF OR 0x400000)) :: 64 word) n \<longleftrightarrow> 29 \<le> n \<and> n < 52 \<and> bit x (n - 29)"
    proof (cases "29 \<le> n")
      case True
      then obtain k where k: "n = 29 + k" using le_Suc_ex by blast
      show ?thesis unfolding k bit_push_bit_iff bit_ucast_iff bit_or_iff bit_and_iff nan_bits
        using \<open>n < 64\<close> k b22 by (cases "k = 22") (auto simp: possible_bit_def)
    qed (simp add: bit_push_bit_iff)
    show ?thesis unfolding w bit_or_iff s m nan_bits by blast
  qed (use len in auto)
  have "unat (word_of_nat (inf_bits f64) :: 64 word) < unat (w AND 0x7FFFFFFFFFFFFFFF)"
    by (rule above [where k = 51]; unfold bit_and_iff nan_bits bw) (use b22 in auto)
  then have nan': "inf_bits f64 < unat (w AND 0x7FFFFFFFFFFFFFFF)" unfolding unat_inf .
  have nw: "narrow w = ucast (drop_bit 32 w AND 0x80000000) OR word_of_nat (inf_bits f32) OR (ucast (drop_bit 29 w) AND 0x7FFFFF) OR 0x400000"
    using nan' unfolding narrow_def Let_def by (simp only: if_True)
  have "narrow w = x"
  proof (rule bit_word_eqI)
    fix n
    assume "n < LENGTH(32)"
    then have n: "n < 32" by simp
    have "bit (narrow w) n \<longleftrightarrow> (bit w (32 + n) \<and> n = 31) \<or> (23 \<le> n \<and> n < 31) \<or> (bit w (29 + n) \<and> n < 23) \<or> n = 22"
      unfolding nw bit_or_iff bit_and_iff bit_ucast_iff bit_drop_bit_eq comp_def nan_bits using n by auto
    moreover have "bit w (32 + 31) = bit x 31" "n < 23 \<Longrightarrow> bit w (29 + n) = bit x n" by (simp_all add: bw)
    moreover have "n = 31 \<or> (23 \<le> n \<and> n < 31) \<or> n < 23" using n by linarith
    ultimately show "bit (narrow w) n \<longleftrightarrow> bit x n" using q [of n] b22 by auto
  qed
  then show ?thesis by (simp add: w_def)
qed

lemma sign_or_magnitude: "b \<le> inf_bits f32 \<Longrightarrow> s = 0 \<or> s = 0x80000000 \<Longrightarrow> unat ((s OR word_of_nat b) AND 0x7FFFFFFF :: 32 word) = b"
proof -
  assume b: "b \<le> inf_bits f32" and s: "s = 0 \<or> s = 0x80000000"
  have b31: "b < 2 ^ 31" using b by simp
  have u: "unat (word_of_nat b :: 32 word) = b" using b31 by (simp add: unat_of_nat take_bit_nat_eq_self)
  have "take_bit 31 (word_of_nat b :: 32 word) = word_of_nat b"
    using b31 by (simp only: take_bit_of_nat take_bit_nat_eq_self)
  then have t: "bit (word_of_nat b :: 32 word) n \<Longrightarrow> n < 31" for n by (metis bit_take_bit_iff)
  have sn: "bit s n \<Longrightarrow> n = 31" for n using s nan_bits(1) [of n] by auto
  have "(s OR word_of_nat b) AND 0x7FFFFFFF = (word_of_nat b :: 32 word)"
    by (rule bit_eqI, unfold bit_and_iff bit_or_iff nan_bits) (use t sn in auto)
  then show ?thesis using u by simp
qed

text \<open>What was narrowed once is representable: widening loses nothing and narrowing again gives it
  back, NaNs included.\<close>

lemma narrow_canonical: "narrow (widen (narrow f)) = narrow f"
proof (cases "inf_bits f64 < unat (f AND 0x7FFFFFFFFFFFFFFF)")
  case True
  then have nw: "narrow f = ucast (drop_bit 32 f AND 0x80000000) OR word_of_nat (inf_bits f32) OR (ucast (drop_bit 29 f) AND 0x7FFFFF) OR 0x400000"
    unfolding narrow_def Let_def by (simp only: if_True)
  show ?thesis
  proof (rule narrow_widen_quiet)
    fix n :: nat
    assume "22 \<le> n" "n < 31"
    then show "bit (narrow f) n" unfolding nw bit_or_iff nan_bits by auto
  qed
next
  case False
  define s :: "32 word" where "s = ucast (drop_bit 32 f AND 0x80000000)"
  have bs: "bit s n \<longleftrightarrow> n = 31 \<and> bit f 63" for n
    unfolding s_def bit_ucast_iff bit_and_iff bit_drop_bit_eq nan_bits comp_def by auto
  have s: "s = 0 \<or> s = 0x80000000"
  proof (cases "bit f 63")
    case True
    have "s = 0x80000000" by (rule bit_eqI) (simp only: bs nan_bits True simp_thms)
    then show ?thesis ..
  next
    case False
    have "s = 0" by (rule bit_eqI) (simp add: bs False)
    then show ?thesis ..
  qed
  obtain b where b: "narrow f = s OR word_of_nat b" "b \<le> inf_bits f32"
  proof (cases "unat (f AND 0x7FFFFFFFFFFFFFFF) = inf_bits f64")
    case True
    then show ?thesis using that [of "inf_bits f32"] unfolding narrow_def Let_def s_def by simp
  next
    case nin: False
    have "fp_round f32 mq \<le> inf_bits f32" for mq by (simp add: fp_round_def Let_def split: prod.split)
    then show ?thesis using that False nin unfolding narrow_def Let_def s_def by (metis (lifting))
  qed
  then have "\<not> f32_is_nan (narrow f)" using sign_or_magnitude [OF b(2) s] by (simp add: f32_is_nan_def)
  then show ?thesis by (rule narrow_widen)
qed

end
