(* ===== verification/Round_Items.thy ===== *)
theory Round_Items
  imports Mirror Nan
begin

text \<open>
  Fields without a length: what the packer writes for one, the unpacker reads back, and what it
  reads packs to the same bytes.
\<close>

section \<open>Slots written now or later\<close>

lemma set_reg_mirror:
  assumes set: "pset_reg idx y ctx = Inr ctx'" and mir: "mirrors buf ctx fs" and ok: "pctx_ok (Suc d) ctx" "tidy ctx"
    and fok: "frames_ok n (Suc d) fs" and idx: "idx_ok MAX_REGS idx" and y: "in_i64 y" and fresh: "fresh {} (set_option idx) ctx"
  obtains fs' where "(case idx of None \<Rightarrow> Inr fs | Some r \<Rightarrow> set_reg fs r y) = Inr fs'" "frames_ok n (Suc d) fs'"
    "mirrors buf ctx' fs'" "idx = None \<Longrightarrow> fs' = fs" "tl fs' = tl fs"
proof (cases idx)
  case None
  then show ?thesis using that [of fs] set mir fok by (simp add: pset_reg_def)
next
  case (Some r)
  have r: "r < MAX_REGS" using idx by (simp add: Some idx_ok_def)
  obtain g gs where fs: "fs = g # gs" using fok by (cases fs) (simp_all add: frames_ok_def)
  have g: "length (fr_regs g) = MAX_REGS" using fok by (simp add: fs frames_ok_def frame_ok_def)
  let ?g = "g\<lparr>fr_regs := (fr_regs g)[r := y]\<rparr>" and ?f = "pc_frames ctx ! 0"
  have sr: "set_reg fs r y = Inr (?g # gs)" using g r by (simp add: set_reg_def fs update_res_def)
  from set obtain f where f: "mark_known r y ?f = Inr f" and ctx': "ctx' = set_frame 0 f ctx"
    by (auto simp: pset_reg_def Some with_top_eq)
  have "length (pr_regs ?f) = MAX_REGS" using pctx_ok_frame [OF ok(1), of 0] by (simp add: pframe_ok_def)
  note view = mark_known_view [OF f r this]
  have none: "frame_slot ?f r = None" using fresh ok by (auto simp: Some fresh_def touched_frame frame_touched_def frame_slot_def)
  have old: "frame_rel buf ?f (fr_regs g)" using mirrors_at(2) [OF mir ok(1), of 0] by (simp add: fs)
  have "frame_rel buf f (fr_regs ?g)"
    unfolding frame_rel_def
  proof (intro allI impI conjI)
    fix s
    assume s: "s < MAX_REGS"
    show "fr_regs ?g ! s = pr_regs f ! s" if "frame_known f s"
      using that old s g r view(3,5) \<open>length (pr_regs ?f) = MAX_REGS\<close> by (cases "s = r") (auto simp: frame_rel_def)
    show "fr_regs ?g ! s = z" if "frame_slot f s = Some sl" "slot_reads buf sl z" "in_i64 z" for sl z
      using that old s none view(4) by (cases "s = r") (auto simp: frame_rel_def)
  qed
  then have "mirrors buf ctx' (fs[0 := ?g])" unfolding ctx' by (rule set_frame_mirrors [OF mir])
  moreover have "frames_ok n (Suc d) (?g # gs)" using safe_set_reg [OF fok r y] sr by simp
  ultimately show ?thesis using that [of "?g # gs"] sr by (simp add: Some fs)
qed

lemma reserve_mirror:
  assumes res: "reserve r sl ctx = Inr ctx'" and mir: "mirrors buf ctx fs" and ok: "pctx_ok (Suc d) ctx" "tidy ctx"
    and fok: "frames_ok n (Suc d) fs" and r: "r < MAX_REGS" and y: "in_i64 y" "slot_reads buf sl y" and fresh: "fresh R {r} ctx"
  obtains fs' where "set_reg fs r y = Inr fs'" "frames_ok n (Suc d) fs'" "mirrors buf ctx' fs'" "tl fs' = tl fs"
proof -
  obtain g gs where fs: "fs = g # gs" using fok by (cases fs) (simp_all add: frames_ok_def)
  have g: "length (fr_regs g) = MAX_REGS" using fok by (simp add: fs frames_ok_def frame_ok_def)
  let ?g = "g\<lparr>fr_regs := (fr_regs g)[r := y]\<rparr>" and ?f = "pc_frames ctx ! 0"
  let ?h = "?f\<lparr>pr_res := (pr_res ?f)[r := Some \<lparr>rv_slot = sl, rv_value = None\<rparr>]\<rparr>"
  have sr: "set_reg fs r y = Inr (?g # gs)" using g r by (simp add: set_reg_def fs update_res_def)
  have ctx': "ctx' = set_frame 0 ?h ctx" using res by (auto simp: reserve_def with_top_eq bind_res_eq_Inr)
  have new: "\<not> frame_known ?f r" using fresh ok by (auto simp: fresh_def touched_frame frame_touched_def)
  have len: "length (pr_res ?f) = MAX_REGS" using pctx_ok_frame [OF ok(1), of 0] by (simp add: pframe_ok_def)
  have old: "frame_rel buf ?f (fr_regs g)" using mirrors_at(2) [OF mir ok(1), of 0] by (simp add: fs)
  have "frame_rel buf ?h (fr_regs ?g)"
    unfolding frame_rel_def
  proof (intro allI impI conjI)
    fix s
    assume s: "s < MAX_REGS"
    show "fr_regs ?g ! s = pr_regs ?h ! s" if "frame_known ?h s"
      using that old s new by (cases "s = r") (auto simp: frame_rel_def frame_known_def)
    show "fr_regs ?g ! s = z" if "frame_slot ?h s = Some sl'" "slot_reads buf sl' z" "in_i64 z" for sl' z
      using that old s g len y slot_reads_unique by (cases "s = r") (auto simp: frame_rel_def frame_slot_def)
  qed
  then have "mirrors buf ctx' (fs[0 := ?g])" unfolding ctx' by (rule set_frame_mirrors [OF mir])
  moreover have "frames_ok n (Suc d) (?g # gs)" using safe_set_reg [OF fok r y(1)] sr by simp
  ultimately show thesis using that [of "?g # gs"] sr by (simp add: fs)
qed

text \<open>A field that is a slot: its value is written at once, or its slot is reserved. Either way the
  unpacker reads the slot, and its register takes the value.\<close>

definition slot_step :: "slot \<Rightarrow> nat option \<Rightarrow> pctx \<Rightarrow> pctx \<Rightarrow> bool" where
  "slot_step sl idx ctx ctx' \<longleftrightarrow>
     (\<exists>x out. write_slot sl x (pc_out ctx) = Inr out \<and> pset_reg idx (as_i64 x) (ctx\<lparr>pc_out := out\<rparr>) = Inr ctx') \<or>
     (\<exists>r. idx = Some r \<and> reserve r sl ctx = Inr ctx')"

lemma fresh_out: "fresh {} A (ctx\<lparr>pc_out := out\<rparr>) \<longleftrightarrow> fresh {} A ctx"
  by (simp add: fresh_def)

lemma fresh_regs: "fresh R A ctx \<Longrightarrow> fresh {} A ctx"
  by (simp add: fresh_def)

lemma slot_written:
  assumes w: "write_slot sl x (pc_out ctx) = Inr out" and set: "pset_reg idx y (ctx\<lparr>pc_out := out\<rparr>) = Inr ctx'"
    and ok: "pctx_ok (Suc d) ctx" "tidy ctx" and sl: "slot_ok (length (pc_out ctx)) sl" and y: "in_i64 y"
    and idx: "idx_ok MAX_REGS idx" and fresh: "fresh (slot_bits sl) (set_option idx) ctx"
  shows "moves (slot_bits sl) (set_option idx) (Suc d) ctx ctx'"
    and "pctx_ok (Suc d) (ctx\<lparr>pc_out := out\<rparr>)" "tidy (ctx\<lparr>pc_out := out\<rparr>)" "fresh {} (set_option idx) (ctx\<lparr>pc_out := out\<rparr>)"
    and "length (pc_out ctx') = length (pc_out ctx)"
    and "agree_on (slot_bits sl) buf ctx' \<Longrightarrow> length (pc_out ctx') \<le> length buf \<Longrightarrow> slot_reads buf sl x"
proof -
  have zero: "\<not> sbit (pc_out ctx) p" and closed: "p \<notin> open_bits ctx" if "p \<in> slot_bits sl" for p
    using fresh that by (auto simp: fresh_def)
  note wr = write_slot_reads [OF w sl zero]
  let ?ctx = "ctx\<lparr>pc_out := out\<rparr>"
  have m1: "moves (slot_bits sl) (set_option idx) (Suc d) ctx ?ctx"
    by (rule moves_out [OF ok]) (use wr(1,3) closed pctx_ok_length [OF ok(1)] in auto)
  show ok1: "pctx_ok (Suc d) ?ctx" "tidy ?ctx" using m1 by (simp_all add: moves_def)
  show f1: "fresh {} (set_option idx) ?ctx" using fresh by (simp add: fresh_out fresh_regs)
  have m2: "moves {} (set_option idx) (Suc d) ?ctx ctx'" by (rule set_reg_moves [OF set ok1 idx y f1])
  show len: "length (pc_out ctx') = length (pc_out ctx)"
    using safe_pset_reg [OF ok1(1) idx y] set wr(1) by (simp add: stays_def)
  show "moves (slot_bits sl) (set_option idx) (Suc d) ctx ctx'" by (rule moves_trans [OF m1 moves_mono [OF m2]]) simp_all
  show "slot_reads buf sl x" if ag: "agree_on (slot_bits sl) buf ctx'" "length (pc_out ctx') \<le> length buf"
  proof -
    have sub: "slot_bits sl \<subseteq> {..<8 * length (pc_out ?ctx)}" using slot_bits_bound [OF sl] wr(1) by auto
    have ag1: "agree_on (slot_bits sl) buf ?ctx" by (rule agree_on_back [OF m2 ag(1) _ sub]) simp
    show ?thesis
      by (rule slot_reads_agree [of out]) (use sl wr(1,2) ag(2) ag1 closed len in \<open>auto simp: agree_on_def\<close>)
  qed
qed

lemma slot_step_mirror:
  assumes st: "slot_step sl idx ctx ctx'" and ok: "pctx_ok (Suc d) ctx" "tidy ctx" and sl: "slot_ok (length (pc_out ctx)) sl"
    and idx: "idx_ok MAX_REGS idx" and fresh: "fresh (slot_bits sl) (set_option idx) ctx"
  shows "moves (slot_bits sl) (set_option idx) (Suc d) ctx ctx'"
    and "length (pc_out ctx') = length (pc_out ctx)"
    and "agree_on (slot_bits sl) buf ctx' \<Longrightarrow> length (pc_out ctx') \<le> length buf \<Longrightarrow> mirrors buf ctx fs \<Longrightarrow>
      frames_ok n (Suc d) fs \<Longrightarrow> slot_reads buf sl y \<Longrightarrow>
      tame (case idx of None \<Rightarrow> Inr fs | Some r \<Rightarrow> if in_i64 y then set_reg fs r y else Inl (Fail (invalid_at KOverflow pos)))
        (\<lambda>fs'. frames_ok n (Suc d) fs' \<and> mirrors buf ctx' fs' \<and> (idx = None \<longrightarrow> fs' = fs) \<and> tl fs' = tl fs)"
proof -
  let ?goal = "moves (slot_bits sl) (set_option idx) (Suc d) ctx ctx' \<and> length (pc_out ctx') = length (pc_out ctx) \<and>
    (agree_on (slot_bits sl) buf ctx' \<longrightarrow> length (pc_out ctx') \<le> length buf \<longrightarrow> mirrors buf ctx fs \<longrightarrow>
      frames_ok n (Suc d) fs \<longrightarrow> slot_reads buf sl y \<longrightarrow>
      tame (case idx of None \<Rightarrow> Inr fs | Some r \<Rightarrow> if in_i64 y then set_reg fs r y else Inl (Fail (invalid_at KOverflow pos)))
        (\<lambda>fs'. frames_ok n (Suc d) fs' \<and> mirrors buf ctx' fs' \<and> (idx = None \<longrightarrow> fs' = fs) \<and> tl fs' = tl fs))"
  have ?goal
  proof (cases "\<exists>x out. write_slot sl x (pc_out ctx) = Inr out \<and> pset_reg idx (as_i64 x) (ctx\<lparr>pc_out := out\<rparr>) = Inr ctx'")
    case True
    then obtain x out where w: "write_slot sl x (pc_out ctx) = Inr out" and set: "pset_reg idx (as_i64 x) (ctx\<lparr>pc_out := out\<rparr>) = Inr ctx'"
      by blast
    let ?ctx = "ctx\<lparr>pc_out := out\<rparr>"
    note sw = slot_written [OF w set ok sl in_i64_as_i64 idx fresh]
    have tm: "tame (case idx of None \<Rightarrow> Inr fs | Some r \<Rightarrow> if in_i64 y then set_reg fs r y else Inl (Fail (invalid_at KOverflow pos)))
        (\<lambda>fs'. frames_ok n (Suc d) fs' \<and> mirrors buf ctx' fs' \<and> (idx = None \<longrightarrow> fs' = fs) \<and> tl fs' = tl fs)"
      if ag: "agree_on (slot_bits sl) buf ctx'" "length (pc_out ctx') \<le> length buf" and mir: "mirrors buf ctx fs" "frames_ok n (Suc d) fs"
        and rd: "slot_reads buf sl y"
    proof -
      have "slot_reads buf sl x" by (rule sw(6) [OF ag])
      then have y: "y = x" using rd slot_reads_unique by blast
      show ?thesis
      proof (cases "in_i64 x")
        case True
        have "mirrors buf ?ctx fs" using mir(1) by simp
        from set_reg_mirror [OF set this sw(2,3) mir(2) idx in_i64_as_i64 sw(4)] obtain fs' where
          "(case idx of None \<Rightarrow> Inr fs | Some r \<Rightarrow> set_reg fs r (as_i64 x)) = Inr fs'" "frames_ok n (Suc d) fs'"
          "mirrors buf ctx' fs'" "idx = None \<Longrightarrow> fs' = fs" "tl fs' = tl fs" by metis
        then show ?thesis using True y by (auto simp: as_i64_id split: option.splits)
      next
        case False
        have "pc_frames ctx' = pc_frames ctx" if "idx = None" using set that by (auto simp: pset_reg_def)
        then show ?thesis using False y mir by (auto simp: mirrors_def split: option.split)
      qed
    qed
    show ?thesis using sw(1,5) tm by blast
  next
    case False
    then obtain r where r: "idx = Some r" and res: "reserve r sl ctx = Inr ctx'" using st by (auto simp: slot_step_def)
    have rM: "r < MAX_REGS" using idx by (simp add: r idx_ok_def)
    have fr: "fresh (slot_bits sl) {r} ctx" using fresh by (simp add: r)
    have m: "moves (slot_bits sl) {r} (Suc d) ctx ctx'" by (rule reserve_moves [OF res ok rM sl fr])
    have len: "length (pc_out ctx') = length (pc_out ctx)" using safe_reserve [OF ok(1) rM sl] res by (simp add: stays_def)
    have "tame (if in_i64 y then set_reg fs r y else Inl (Fail (invalid_at KOverflow pos)))
        (\<lambda>fs'. frames_ok n (Suc d) fs' \<and> mirrors buf ctx' fs' \<and> tl fs' = tl fs)"
      if mir: "mirrors buf ctx fs" "frames_ok n (Suc d) fs" and rd: "slot_reads buf sl y"
    proof (cases "in_i64 y")
      case True
      from reserve_mirror [OF res mir(1) ok mir(2) rM True rd fr] obtain fs' where
        "set_reg fs r y = Inr fs'" "frames_ok n (Suc d) fs'" "mirrors buf ctx' fs'" "tl fs' = tl fs" .
      then show ?thesis using True by simp
    qed simp
    then show ?thesis using m len by (simp add: r)
  qed
  then show "moves (slot_bits sl) (set_option idx) (Suc d) ctx ctx'"
    and "length (pc_out ctx') = length (pc_out ctx)"
    and "agree_on (slot_bits sl) buf ctx' \<Longrightarrow> length (pc_out ctx') \<le> length buf \<Longrightarrow> mirrors buf ctx fs \<Longrightarrow>
      frames_ok n (Suc d) fs \<Longrightarrow> slot_reads buf sl y \<Longrightarrow>
      tame (case idx of None \<Rightarrow> Inr fs | Some r \<Rightarrow> if in_i64 y then set_reg fs r y else Inl (Fail (invalid_at KOverflow pos)))
        (\<lambda>fs'. frames_ok n (Suc d) fs' \<and> mirrors buf ctx' fs' \<and> (idx = None \<longrightarrow> fs' = fs) \<and> tl fs' = tl fs)"
    by blast+
qed

section \<open>Fixed fields\<close>

abbreviation reader :: "hashes \<Rightarrow> bytes \<Rightarrow> (val_tree, val_tree, val_tree list) uenv" where
  "reader H buf \<equiv> \<lparr>ue_buf = buf, ue_builder = value_builder, ue_hashes = H\<rparr>"

lemma put_step:
  assumes p: "put pos b ctx = Inr ctx'" and ok: "pctx_ok d ctx" "tidy ctx" and fresh: "fresh (byte_bits pos (length b)) A' ctx"
  shows "moves (byte_bits pos (length b)) A d ctx ctx'" and "pc_frames ctx' = pc_frames ctx"
    and "length (pc_out ctx') = length (pc_out ctx)" and "open_bits ctx' = open_bits ctx"
    and "agree_on (byte_bits pos (length b)) buf ctx' \<Longrightarrow> length (pc_out ctx') \<le> length buf \<Longrightarrow>
      slice_res buf pos (pos + length b) = (Inr b :: bytes ures)"
proof -
  have closed: "byte_bits pos (length b) \<inter> open_bits ctx = {}" using fresh by (auto simp: fresh_def)
  show "moves (byte_bits pos (length b)) A d ctx ctx'" by (rule moves_put [OF p ok closed])
  obtain out where out: "splice_res (pc_out ctx) pos b = (Inr out :: bytes pres)" "ctx' = ctx\<lparr>pc_out := out\<rparr>"
    using p by (auto simp: put_def bind_res_eq_Inr)
  then show "pc_frames ctx' = pc_frames ctx" "length (pc_out ctx') = length (pc_out ctx)" "open_bits ctx' = open_bits ctx" by simp_all
  show "slice_res buf pos (pos + length b) = (Inr b :: bytes ures)"
    if a: "agree_on (byte_bits pos (length b)) buf ctx'" and len: "length (pc_out ctx') \<le> length buf"
  proof -
    have fits: "pos + length b \<le> length out" using out(1) by simp
    have bits: "sbit out p = sbit buf p" if "p \<in> byte_bits pos (length b)" for p
      using a closed that by (auto simp: agree_on_def out(2))
    have "pos + length b \<le> length buf" using fits len by (simp add: out(2))
    then have "take (length b) (drop pos out) = take (length b) (drop pos buf)" using bytes_eqI [OF bits fits] by simp
    moreover have "take (length b) (drop pos out) = b" using out(1) by auto
    ultimately show ?thesis using \<open>pos + length b \<le> length buf\<close> by simp
  qed
qed

lemma regs_tl: "map fr_regs fs' = map fr_regs fs \<Longrightarrow> map fr_regs (tl fs') = map fr_regs (tl fs)"
  by (metis map_tl)

lemma mirrors_frames: "pc_frames ctx' = pc_frames ctx \<Longrightarrow> mirrors buf ctx' = mirrors buf ctx"
  by (simp add: mirrors_def fun_eq_iff)

text \<open>The value to pack again for a field packed from \<open>v\<close> and read as \<open>w\<close>: an unnamed field has none.\<close>

definition again :: "key \<Rightarrow> 'v option \<Rightarrow> val_tree \<Rightarrow> val_tree option" where
  "again k v w = (if v = None \<and> key_name k = None then None else Some w)"

lemma given_again: "given f d k v = Inr x \<Longrightarrow> g w = Some x \<Longrightarrow> given g d k (again k v w) = Inr x"
  by (auto simp: given_def again_def split: option.splits if_splits)

definition item_bits :: "nat \<Rightarrow> fixed_item \<Rightarrow> nat set" where
  "item_bits base item = byte_bits (base + fi_off item) (fix_width (fi_kind item))"

text \<open>What a step of the packer promises its reader.\<close>

definition item_back :: "hashes \<Rightarrow> bytes \<Rightarrow> nat \<Rightarrow> fixed_item \<Rightarrow> 'v option \<Rightarrow> nat \<Rightarrow> pctx \<Rightarrow> pctx \<Rightarrow> frame list \<Rightarrow> val_tree \<times> frame list \<Rightarrow> bool" where
  "item_back H buf base item v d ctx ctx' fs r = (case r of (w, fs') \<Rightarrow>
     frames_ok (length buf) (Suc d) fs' \<and> mirrors buf ctx' fs' \<and> (fi_reg item = None \<longrightarrow> map fr_regs fs' = map fr_regs fs) \<and>
     map fr_regs (tl fs') = map fr_regs (tl fs) \<and> distinct_keys w \<and> pack_fixed_item tree_source base item (again (fi_key item) v w) ctx = Inr ctx')"

lemma fixed_item_put:
  assumes p: "put pos b ctx = Inr ctx1" and sp: "pset_span idx pos (pos + length b) ctx1 = Inr ctx'"
    and ok: "pctx_ok (Suc d) ctx" "tidy ctx" and fresh: "fresh (byte_bits pos (length b)) A ctx" and idx: "idx_ok MAX_SPANS idx"
  shows "moves (byte_bits pos (length b)) A (Suc d) ctx ctx'" and "length (pc_out ctx') = length (pc_out ctx)"
    and "agree_on (byte_bits pos (length b)) buf ctx' \<Longrightarrow> length (pc_out ctx') \<le> length buf \<Longrightarrow>
      slice_res buf pos (pos + length b) = (Inr b :: bytes ures)"
    and "mirrors buf ctx fs \<Longrightarrow> mirrors buf ctx' fs"
proof -
  note ps = put_step [OF p ok fresh]
  note ss = pset_span_same [OF sp]
  have ok1: "pctx_ok (Suc d) ctx1" "tidy ctx1" using ps(1) by (auto simp: moves_def)
  have fits: "pos + length b \<le> length (pc_out ctx1)" using p ps(3) by (auto simp: put_def bind_res_eq_Inr)
  have m: "moves {} A (Suc d) ctx1 ctx'" by (rule pset_span_moves [OF sp ok1 idx _ fits]) simp
  show "moves (byte_bits pos (length b)) A (Suc d) ctx ctx'"
    by (rule moves_trans [OF ps(1) moves_mono [OF m]]) simp_all
  show "length (pc_out ctx') = length (pc_out ctx)" using ss(2) ps(3) by simp
  show "slice_res buf pos (pos + length b) = (Inr b :: bytes ures)"
    if "agree_on (byte_bits pos (length b)) buf ctx'" "length (pc_out ctx') \<le> length buf"
    using ps(5) that same_framesD(3) [OF ss(1)] ss(2) by (auto simp: agree_on_def)
  show "mirrors buf ctx' fs" if "mirrors buf ctx fs"
    using mirrors_same [OF ss(1)] that by (simp add: mirrors_frames [OF ps(2)])
qed

lemma float_bytes_eq: "float_bytes w be bits = write_uint_slice w be bits"
  by (cases be) (simp_all add: float_bytes_def Let_def write_uint_be)

lemma read_float_bytes: "w \<le> 8 \<Longrightarrow> uint bits < 2 ^ (8 * w) \<Longrightarrow> read_uint (float_bytes w be bits) be = bits"
  by (simp add: float_bytes_eq read_write_uint)

lemma tree_source_sel [simp]:
  "s_as_int tree_source = vs_as_int" "s_as_float tree_source = vs_as_float" "s_as_bytes tree_source = vs_as_bytes"
  "s_as_str tree_source = vs_as_str" "s_truthy tree_source = vs_truthy" "s_as_list tree_source = vs_as_list"
  "s_map_view tree_source = as_pairs" "s_view_get tree_source = map_of" "s_view_keys tree_source = map fst"
  by (simp_all add: tree_source_def)

lemma value_builder_sel [simp]:
  "b_int value_builder = VInt" "b_float value_builder = VFloat" "b_bool value_builder = VBool" "b_bytes value_builder = VBytes"
  "b_string value_builder = VStr" "b_map_new value_builder n = VMap []" "b_map_set value_builder = value_insert"
  "b_map_finish value_builder m = m" "b_list_new value_builder n = []" "b_list_push value_builder l v = l @ [v]"
  "b_list_finish value_builder = VList"
  by (simp_all add: value_builder_def value_map_def)

text \<open>Inside the output the sum of a base and an offset does not wrap.\<close>

lemma item_at:
  "fixed_item_ok width item \<Longrightarrow> base + width \<le> length (pc_out ctx) \<Longrightarrow> pctx_ok d ctx \<Longrightarrow>
     wrapping_add base (fi_off item) = base + fi_off item"
  by (rule wrapping_add_small) (auto simp: fixed_item_ok_def dest!: pctx_ok_length)

lemma pack_int_item:
  assumes kind: "fi_kind item = FInt prim be ex derived" and p: "pack_fixed_item S base item v ctx = Inr ctx'"
  obtains (written) x out ctx1 where "write_slot (SlotInt (wrapping_add base (fi_off item)) prim be) x (pc_out ctx) = Inr out"
      "pset_reg (fi_reg item) (as_i64 x) (ctx\<lparr>pc_out := out\<rparr>) = Inr ctx1"
      "pset_span (fi_span item) (wrapping_add base (fi_off item)) (wrapping_add base (fi_off item) + prim_width prim) ctx1 = Inr ctx'"
      "ex = Some x \<or> (ex = None \<and> \<not> derived \<and> given (s_as_int S) 0 (fi_key item) v = Inr x)"
    | (reserved) r ctx1 where "fi_reg item = Some r" "reserve r (SlotInt (wrapping_add base (fi_off item)) prim be) ctx = Inr ctx1"
      "pset_span (fi_span item) (wrapping_add base (fi_off item)) (wrapping_add base (fi_off item) + prim_width prim) ctx1 = Inr ctx'"
      "ex = None" "derived"
proof (cases ex)
  case (Some x)
  then show ?thesis using p by (auto simp: pack_fixed_item_def kind Let_def bind_res_eq_Inr write_slot_def intro: written)
next
  case None
  show ?thesis
  proof (cases "derived")
    case True
    then show ?thesis using p None by (auto simp: pack_fixed_item_def kind Let_def bind_res_eq_Inr intro: reserved)
  next
    case False
    then show ?thesis using p None by (auto simp: pack_fixed_item_def kind Let_def bind_res_eq_Inr write_slot_def intro: written)
  qed
qed

lemma pack_int_item_again:
  assumes kind: "fi_kind item = FInt prim be ex derived" and p: "pack_fixed_item S base item v ctx = Inr ctx'"
    and x: "ex = None \<Longrightarrow> \<not> derived \<Longrightarrow> given (s_as_int S) 0 (fi_key item) v = Inr x"
  shows "pack_fixed_item tree_source base item (again (fi_key item) v (VInt x)) ctx = Inr ctx'"
proof (cases "ex = None \<and> \<not> derived")
  case True
  have "given (s_as_int S) 0 (fi_key item) v = Inr x" using True x by blast
  moreover from this have "given vs_as_int 0 (fi_key item) (again (fi_key item) v (VInt x)) = Inr x"
    by (rule given_again) simp
  ultimately show ?thesis using p True by (simp add: pack_fixed_item_def kind Let_def)
qed (use p in \<open>auto simp: pack_fixed_item_def kind Let_def split: option.splits\<close>)

lemma int_item_back:
  assumes kind: "fi_kind item = FInt prim be ex derived" and p: "pack_fixed_item S base item v ctx = Inr ctx'"
    and ok: "pctx_ok (Suc d) ctx" "tidy ctx" and item: "fixed_item_ok width item" and fits: "base + width \<le> length (pc_out ctx)"
    and fresh: "fresh (item_bits base item) (set_option (fi_reg item)) ctx"
  shows "moves (item_bits base item) (set_option (fi_reg item)) (Suc d) ctx ctx'"
    and "agree_on (item_bits base item) buf ctx' \<Longrightarrow> length (pc_out ctx') \<le> length buf \<Longrightarrow> mirrors buf ctx fs \<Longrightarrow>
      frames_ok (length buf) (Suc d) fs \<Longrightarrow>
      tame (read_fixed_item (reader H buf) item base fs) (item_back H buf base item v d ctx ctx' fs)"
proof -
  let ?pos = "base + fi_off item" and ?w = "prim_width prim"
  let ?sl = "SlotInt ?pos prim be"
  have bits: "slot_bits ?sl = item_bits base item" by (simp add: item_bits_def kind)
  have sl: "slot_ok (length (pc_out ctx)) ?sl" and idx: "idx_ok MAX_REGS (fi_reg item)" "idx_ok MAX_SPANS (fi_span item)"
    using item fits by (auto simp: fixed_item_ok_def kind)
  obtain ctx1 where st: "slot_step ?sl (fi_reg item) ctx ctx1" and sp: "pset_span (fi_span item) ?pos (?pos + ?w) ctx1 = Inr ctx'"
    by (rule pack_int_item [OF kind p, unfolded item_at [OF item fits ok(1)]]) (auto simp: slot_step_def)
  note sm = slot_step_mirror [OF st ok sl idx(1) fresh [folded bits]]
  note ss = pset_span_same [OF sp]
  have ok1: "pctx_ok (Suc d) ctx1" "tidy ctx1" using sm(1) by (simp_all add: moves_def)
  have m2: "moves {} (set_option (fi_reg item)) (Suc d) ctx1 ctx'"
    by (rule pset_span_moves [OF sp ok1 idx(2)]) (use sl sm(2) in simp_all)
  show "moves (item_bits base item) (set_option (fi_reg item)) (Suc d) ctx ctx'"
    unfolding bits [symmetric] by (rule moves_trans [OF sm(1) moves_mono [OF m2]]) simp_all
  show "tame (read_fixed_item (reader H buf) item base fs) (item_back H buf base item v d ctx ctx' fs)"
    if ag: "agree_on (item_bits base item) buf ctx'" "length (pc_out ctx') \<le> length buf" and mir: "mirrors buf ctx fs"
      and fok: "frames_ok (length buf) (Suc d) fs"
  proof -
    let ?v = "read_prim prim be (take ?w (drop ?pos buf))"
    have ag1: "agree_on (slot_bits ?sl) buf ctx1" "length (pc_out ctx1) \<le> length buf"
      using ag same_framesD(3) [OF ss(1)] ss(2) unfolding bits by (simp_all add: agree_on_def)
    have fit: "?pos + ?w \<le> length buf" using sl sm(2) ag1(2) by simp
    have rd: "slot_reads buf ?sl ?v" by simp
    have same: "x = ?v" if "write_slot ?sl x (pc_out ctx) = Inr out" "pset_reg (fi_reg item) (as_i64 x) (ctx\<lparr>pc_out := out\<rparr>) = Inr c"
      "pset_span (fi_span item) ?pos (?pos + ?w) c = Inr ctx'" for x out c
    proof -
      note s2 = pset_span_same [OF that(3)]
      have "agree_on (slot_bits ?sl) buf c" "length (pc_out c) \<le> length buf"
        using ag same_framesD(3) [OF s2(1)] s2(2) unfolding bits by (simp_all add: agree_on_def)
      then have "slot_reads buf ?sl x"
        by (rule slot_written(6) [OF that(1,2) ok sl in_i64_as_i64 idx(1) fresh [folded bits]])
      then show ?thesis using slot_reads_unique rd by blast
    qed
    have const: "ex = None \<or> ex = Some ?v" and x: "ex = None \<Longrightarrow> \<not> derived \<Longrightarrow> given (s_as_int S) 0 (fi_key item) v = Inr ?v"
      by (rule pack_int_item [OF kind p, unfolded item_at [OF item fits ok(1)]]; use same in fastforce)+
    have rd': "read_fixed_item (reader H buf) item base fs =
        bind_res (case fi_reg item of None \<Rightarrow> Inr fs | Some r \<Rightarrow> if in_i64 ?v then set_reg fs r ?v else Inl (Fail (invalid_at KOverflow ?pos)))
          (\<lambda>fs. bind_res (set_span fs (fi_span item) ?pos (?pos + ?w)) (\<lambda>fs. Inr (VInt ?v, fs)))"
      using const fit by (auto simp: read_fixed_item_def kind Let_def slice_res_def)
    show ?thesis
      unfolding rd'
    proof (rule tame_bind [OF sm(3) [OF ag1 mir fok rd]])
      fix fs1
      assume f1: "frames_ok (length buf) (Suc d) fs1 \<and> mirrors buf ctx1 fs1 \<and> (fi_reg item = None \<longrightarrow> fs1 = fs) \<and> tl fs1 = tl fs"
      from set_span_tame [OF conjunct1 [OF f1] idx(2) le_add1 fit] obtain fs' where
        fs': "set_span fs1 (fi_span item) ?pos (?pos + ?w) = Inr fs'" "frames_ok (length buf) (Suc d) fs'" "map fr_regs fs' = map fr_regs fs1" .
      have "mirrors buf ctx' fs'" using mirrors_same [OF ss(1)] mirrors_regs [OF fs'(3)] f1 by blast
      then show "tame (bind_res (set_span fs1 (fi_span item) ?pos (?pos + ?w)) (\<lambda>fs. Inr (VInt ?v, fs))) (item_back H buf base item v d ctx ctx' fs)"
        using fs' f1 pack_int_item_again [OF kind p x] regs_tl [OF fs'(3)] by (auto simp: item_back_def)
    qed
  qed
qed

lemma put_item_back:
  assumes p: "put (base + fi_off item) b ctx = Inr ctx1" and b: "length b = fix_width (fi_kind item)"
    and sp: "pset_span (fi_span item) (base + fi_off item) (base + fi_off item + fix_width (fi_kind item)) ctx1 = Inr ctx'"
    and ok: "pctx_ok (Suc d) ctx" "tidy ctx" and item: "fixed_item_ok width item" and fits: "base + width \<le> length (pc_out ctx)"
    and fresh: "fresh (item_bits base item) A ctx"
    and rd: "slice_res buf (base + fi_off item) (base + fi_off item + fix_width (fi_kind item)) = (Inr b :: bytes ures) \<Longrightarrow>
      read_fixed_item (reader H buf) item base fs =
        bind_res (set_span fs (fi_span item) (base + fi_off item) (base + fi_off item + fix_width (fi_kind item))) (\<lambda>fs. Inr (w, fs))"
    and dk: "distinct_keys w" and pk: "pack_fixed_item tree_source base item (again (fi_key item) v w) ctx = Inr ctx'"
  shows "moves (item_bits base item) A (Suc d) ctx ctx'"
    and "agree_on (item_bits base item) buf ctx' \<Longrightarrow> length (pc_out ctx') \<le> length buf \<Longrightarrow> mirrors buf ctx fs \<Longrightarrow>
      frames_ok (length buf) (Suc d) fs \<Longrightarrow>
      tame (read_fixed_item (reader H buf) item base fs) (item_back H buf base item v d ctx ctx' fs)"
proof -
  have idx: "idx_ok MAX_SPANS (fi_span item)" and fit: "base + fi_off item + length b \<le> length (pc_out ctx)"
    using item fits b by (auto simp: fixed_item_ok_def)
  have bits: "byte_bits (base + fi_off item) (length b) = item_bits base item" by (simp add: item_bits_def b)
  note fp = fixed_item_put [OF p sp [folded b] ok fresh [folded bits] idx]
  show "moves (item_bits base item) A (Suc d) ctx ctx'" using fp(1) by (simp add: bits)
  show "tame (read_fixed_item (reader H buf) item base fs) (item_back H buf base item v d ctx ctx' fs)"
    if ag: "agree_on (item_bits base item) buf ctx'" "length (pc_out ctx') \<le> length buf" and mir: "mirrors buf ctx fs"
      and fok: "frames_ok (length buf) (Suc d) fs"
  proof -
    have sl: "slice_res buf (base + fi_off item) (base + fi_off item + fix_width (fi_kind item)) = (Inr b :: bytes ures)"
      using fp(3) [unfolded bits, OF ag] unfolding b .
    then have le: "base + fi_off item + fix_width (fi_kind item) \<le> length buf" by simp
    from set_span_tame [OF fok idx le_add1 le] obtain fs' where
      fs': "set_span fs (fi_span item) (base + fi_off item) (base + fi_off item + fix_width (fi_kind item)) = Inr fs'"
        "frames_ok (length buf) (Suc d) fs'" "map fr_regs fs' = map fr_regs fs" .
    have "mirrors buf ctx' fs'" using fp(4) [OF mir] mirrors_regs [OF fs'(3)] by blast
    then show ?thesis using fs' dk pk regs_tl [OF fs'(3)] by (simp add: rd [OF sl] item_back_def)
  qed
qed

lemma put_stays: "put pos b ctx = Inr ctx' \<Longrightarrow> length (pc_out ctx') = length (pc_out ctx)"
  by (auto simp: put_def bind_res_eq_Inr)

lemma zero_item_back:
  assumes kind: "fi_kind item = FRaw len None" and v: "v = None" "key_name (fi_key item) = None"
    and p: "pack_fixed_item S base item v ctx = Inr ctx'"
    and ok: "pctx_ok (Suc d) ctx" "tidy ctx" and item: "fixed_item_ok width item" and fits: "base + width \<le> length (pc_out ctx)"
  shows "moves (item_bits base item) A (Suc d) ctx ctx'"
    and "length (pc_out ctx') \<le> length buf \<Longrightarrow> mirrors buf ctx fs \<Longrightarrow> frames_ok (length buf) (Suc d) fs \<Longrightarrow>
      tame (read_fixed_item (reader H buf) item base fs) (item_back H buf base item v d ctx ctx' fs)"
proof -
  let ?pos = "base + fi_off item"
  note at = item_at [OF item fits ok(1)]
  have sp: "pset_span (fi_span item) ?pos (?pos + len) ctx = Inr ctx'"
    using p v by (simp add: pack_fixed_item_def at kind Let_def)
  have idx: "idx_ok MAX_SPANS (fi_span item)" and fit: "?pos + len \<le> length (pc_out ctx)"
    using item fits by (auto simp: fixed_item_ok_def kind)
  note ss = pset_span_same [OF sp]
  show "moves (item_bits base item) A (Suc d) ctx ctx'"
    by (rule moves_mono [OF pset_span_moves [where A = A, OF sp ok idx le_add1 fit]]) simp_all
  show "tame (read_fixed_item (reader H buf) item base fs) (item_back H buf base item v d ctx ctx' fs)"
    if len: "length (pc_out ctx') \<le> length buf" and mir: "mirrors buf ctx fs" and fok: "frames_ok (length buf) (Suc d) fs"
  proof -
    have le: "?pos + len \<le> length buf" using fit len ss(2) by simp
    from set_span_tame [OF fok idx le_add1 le] obtain fs' where
      fs': "set_span fs (fi_span item) ?pos (?pos + len) = Inr fs'" "frames_ok (length buf) (Suc d) fs'" "map fr_regs fs' = map fr_regs fs" .
    have "mirrors buf ctx' fs'" using mirrors_same [OF ss(1) mir] mirrors_regs [OF fs'(3)] by blast
    then show ?thesis using fs' le v sp regs_tl [OF fs'(3)]
      by (simp add: item_back_def read_fixed_item_def kind Let_def slice_res_def pack_fixed_item_def at again_def)
  qed
qed

lemma given_float: "float_of S v k = Inr f \<Longrightarrow> vs_as_float w = Some g \<Longrightarrow> narrow g = narrow f \<Longrightarrow>
    \<exists>g'. float_of tree_source (again k v w) k = Inr g' \<and> narrow g' = narrow f"
  by (auto simp: float_of_def given_def again_def split: option.splits if_splits)

lemma fixed_item_back:
  assumes p: "pack_fixed_item S base item v ctx = Inr ctx'"
    and ok: "pctx_ok (Suc d) ctx" "tidy ctx" and item: "fixed_item_ok width item" and fits: "base + width \<le> length (pc_out ctx)"
    and fresh: "fresh (item_bits base item) (set_option (fi_reg item)) ctx"
  shows "moves (item_bits base item) (set_option (fi_reg item)) (Suc d) ctx ctx' \<and>
    (agree_on (item_bits base item) buf ctx' \<longrightarrow> length (pc_out ctx') \<le> length buf \<longrightarrow> mirrors buf ctx fs \<longrightarrow>
      frames_ok (length buf) (Suc d) fs \<longrightarrow>
      tame (read_fixed_item (reader H buf) item base fs) (item_back H buf base item v d ctx ctx' fs))"
proof (cases "fi_kind item")
  case (FInt prim be ex derived)
  show ?thesis using int_item_back [OF FInt p ok item fits fresh] by blast
next
  case (F32 be)
  let ?pos = "base + fi_off item"
  note at = item_at [OF item fits ok(1)]
  from p obtain f ctx1 where f: "float_of S v (fi_key item) = Inr f"
    and pt: "put ?pos (float_bytes 4 be (ucast (narrow f))) ctx = Inr ctx1"
    and sp: "pset_span (fi_span item) ?pos (?pos + 4) ctx1 = Inr ctx'"
    by (auto simp: pack_fixed_item_def at F32 Let_def bind_res_eq_Inr)
  let ?b = "float_bytes 4 be (ucast (narrow f))" and ?w = "VFloat (widen (narrow f))"
  have "take_bit 64 (uint (narrow f)) = uint (narrow f)"
    using uint_bounded [of "narrow f"] by (intro take_bit_int_eq_self) simp_all
  then have "uint (ucast (narrow f) :: 64 word) = uint (narrow f)" by (simp add: unsigned_ucast_eq)
  then have "uint (ucast (narrow f) :: 64 word) < 2 ^ (8 * 4)" using uint_bounded [of "narrow f"] by simp
  then have bits: "read_uint ?b be = ucast (narrow f)" by (intro read_float_bytes) simp_all
  have down: "ucast (ucast (narrow f) :: 64 word) = narrow f" by (rule bit_word_eqI) (simp add: bit_ucast_iff)
  obtain g where g: "float_of tree_source (again (fi_key item) v ?w) (fi_key item) = Inr g" "narrow g = narrow f"
    using given_float [OF f, of ?w "widen (narrow f)"] narrow_canonical by auto
  then have pk: "pack_fixed_item tree_source base item (again (fi_key item) v ?w) ctx = Inr ctx'"
    using pt sp by (simp add: pack_fixed_item_def at F32 Let_def)
  have len: "length ?b = fix_width (fi_kind item)" by (simp add: F32 length_float_bytes)
  have rd: "read_fixed_item (reader H buf) item base fs =
        bind_res (set_span fs (fi_span item) ?pos (?pos + fix_width (fi_kind item))) (\<lambda>fs. Inr (?w, fs))"
    if "slice_res buf ?pos (?pos + fix_width (fi_kind item)) = (Inr ?b :: bytes ures)"
    by (simp add: read_fixed_item_def F32 Let_def that [unfolded F32 fix_width.simps] bits down)
  show ?thesis
    using put_item_back [OF pt len _ ok item fits fresh rd _ pk] sp by (simp add: F32)
next
  case (F64 be)
  let ?pos = "base + fi_off item"
  note at = item_at [OF item fits ok(1)]
  from p obtain f ctx1 where f: "float_of S v (fi_key item) = Inr f"
    and pt: "put ?pos (float_bytes 8 be f) ctx = Inr ctx1"
    and sp: "pset_span (fi_span item) ?pos (?pos + 8) ctx1 = Inr ctx'"
    by (auto simp: pack_fixed_item_def at F64 Let_def bind_res_eq_Inr)
  have bits: "read_uint (float_bytes 8 be f) be = f" using uint_bounded [of f] by (intro read_float_bytes) simp_all
  have "float_of tree_source (again (fi_key item) v (VFloat f)) (fi_key item) = Inr f"
    using f unfolding float_of_def by (rule given_again) simp
  then have pk: "pack_fixed_item tree_source base item (again (fi_key item) v (VFloat f)) ctx = Inr ctx'"
    using pt sp by (simp add: pack_fixed_item_def at F64 Let_def)
  have len: "length (float_bytes 8 be f) = fix_width (fi_kind item)" by (simp add: F64 length_float_bytes)
  have rd: "read_fixed_item (reader H buf) item base fs =
        bind_res (set_span fs (fi_span item) ?pos (?pos + fix_width (fi_kind item))) (\<lambda>fs. Inr (VFloat f, fs))"
    if "slice_res buf ?pos (?pos + fix_width (fi_kind item)) = (Inr (float_bytes 8 be f) :: bytes ures)"
    by (simp add: read_fixed_item_def F64 Let_def that [unfolded F64 fix_width.simps] bits)
  show ?thesis
    using put_item_back [OF pt len _ ok item fits fresh rd _ pk] sp by (simp add: F64)
next
  case (FBool ex)
  let ?pos = "base + fi_off item"
  note at = item_at [OF item fits ok(1)]
  from p obtain x ctx1 where x: "(case ex of Some b \<Rightarrow> Inr b | None \<Rightarrow> given (s_truthy S) False (fi_key item) v) = Inr x"
    and pt: "put ?pos [of_bool x] ctx = Inr ctx1"
    and sp: "pset_span (fi_span item) ?pos (?pos + 1) ctx1 = Inr ctx'"
    by (auto simp: pack_fixed_item_def at FBool Let_def bind_res_eq_Inr)
  have "(case ex of Some b \<Rightarrow> Inr b | None \<Rightarrow> given vs_truthy False (fi_key item) (again (fi_key item) v (VBool x))) = Inr x"
    using x by (auto split: option.splits intro: given_again)
  then have pk: "pack_fixed_item tree_source base item (again (fi_key item) v (VBool x)) ctx = Inr ctx'"
    using pt sp by (cases ex) (simp_all add: pack_fixed_item_def at FBool Let_def)
  have rd: "read_fixed_item (reader H buf) item base fs =
        bind_res (set_span fs (fi_span item) ?pos (?pos + fix_width (fi_kind item))) (\<lambda>fs. Inr (VBool x, fs))"
    if sl: "slice_res buf ?pos (?pos + fix_width (fi_kind item)) = (Inr [of_bool x] :: bytes ures)"
  proof -
    have "take 1 (drop ?pos buf) = [of_bool x]" "?pos < length buf" using sl by (auto simp: FBool)
    then have nb: "nth_res buf ?pos = (Inr (of_bool x) :: 8 word ures)" by (simp add: nth_res_def hd_drop_conv_nth take_Suc)
    have "ex \<noteq> None \<longrightarrow> ex = Some x" using x by (auto split: option.splits)
    then show ?thesis by (cases x) (auto simp: read_fixed_item_def FBool Let_def nb)
  qed
  show ?thesis
    using put_item_back [OF pt _ _ ok item fits fresh rd _ pk] sp by (simp add: FBool)
next
  case (FRaw len ex)
  let ?pos = "base + fi_off item"
  note at = item_at [OF item fits ok(1)]
  show ?thesis
  proof (cases "ex = None \<and> v = None \<and> key_name (fi_key item) = None")
    case True
    then show ?thesis using zero_item_back [OF _ _ _ p ok item fits] FRaw by simp
  next
    case False
    from p False obtain b ctx1 where pt: "put ?pos b ctx = Inr ctx1" and b: "length b = len" and ex: "ex = None \<or> ex = Some b"
      and v: "ex = None \<Longrightarrow> v \<noteq> None" and sp: "pset_span (fi_span item) ?pos (?pos + len) ctx1 = Inr ctx'"
      by (auto simp: pack_fixed_item_def at FRaw Let_def bind_res_eq_Inr split: option.splits if_splits)
    have pk: "pack_fixed_item tree_source base item (again (fi_key item) v (VBytes b)) ctx = Inr ctx'"
      using pt sp b ex v by (auto simp: pack_fixed_item_def at FRaw Let_def again_def split: option.split)
    have rd: "read_fixed_item (reader H buf) item base fs =
          bind_res (set_span fs (fi_span item) ?pos (?pos + fix_width (fi_kind item))) (\<lambda>fs. Inr (VBytes b, fs))"
      if "slice_res buf ?pos (?pos + fix_width (fi_kind item)) = (Inr b :: bytes ures)"
      using ex by (auto simp: read_fixed_item_def FRaw Let_def that [unfolded FRaw fix_width.simps])
    show ?thesis
      using put_item_back [OF pt _ _ ok item fits fresh rd _ pk] sp b by (simp add: FRaw)
  qed
qed

end
