(* ===== verification/Round_Runs.thy ===== *)
theory Round_Runs
  imports Round_Items "HOL-Library.Sublist"
begin

text \<open>
  Runs of fields of one struct: fixed fields, bit fields and flags.
\<close>

section \<open>Entries\<close>

definition key_entries :: "key \<Rightarrow> val_tree \<Rightarrow> (string \<times> val_tree) list" where
  "key_entries k w = (case key_name k of Some n \<Rightarrow> [(n, w)] | None \<Rightarrow> [])"

lemma insert_entries: "insert_key value_builder k w (VMap ps) = VMap (ps @ key_entries k w)"
  by (simp add: insert_key_def key_entries_def split: option.split)

definition key_names :: "key list \<Rightarrow> string list" where
  "key_names ks = List.map_filter key_name ks"

lemma key_names_simps [simp]:
  "key_names [] = []" "key_names (k # ks) = (case key_name k of Some n \<Rightarrow> n # key_names ks | None \<Rightarrow> key_names ks)"
  by (simp_all add: key_names_def List.map_filter_simps split: option.split)

lemma key_entries_names: "map fst (key_entries k w) = key_names [k]"
  by (simp add: key_entries_def split: option.split)

lemma key_names_Cons: "key_names (k # ks) = key_names [k] @ key_names ks"
  by (simp split: option.split)

text \<open>A map that has the entries.\<close>

definition has_entries :: "(string \<times> val_tree) list \<Rightarrow> (string \<times> val_tree) list \<Rightarrow> bool" where
  "has_entries M es \<longleftrightarrow> (\<forall>(k, w) \<in> set es. map_of M k = Some w)"

lemma has_entries_append [simp]: "has_entries M (es @ es') \<longleftrightarrow> has_entries M es \<and> has_entries M es'"
  by (auto simp: has_entries_def)

lemma has_entries_Nil [simp]: "has_entries M []"
  by (simp add: has_entries_def)

lemma has_entries_self: "distinct (map fst es) \<Longrightarrow> has_entries es es"
  by (auto simp: has_entries_def)

lemma lookup_again:
  assumes "has_entries M (key_entries k w)"
  shows "lookup tree_source M k = again k (lookup S view k) w"
  using assms by (auto simp: lookup_def again_def has_entries_def key_entries_def split: option.splits)

definition trees_ok :: "(string \<times> val_tree) list \<Rightarrow> bool" where
  "trees_ok es \<longleftrightarrow> list_all (\<lambda>e. distinct_keys (snd e)) es"

lemma trees_ok_append [simp]: "trees_ok (es @ es') \<longleftrightarrow> trees_ok es \<and> trees_ok es'"
  by (simp add: trees_ok_def)

lemma trees_ok_key [simp]: "distinct_keys w \<Longrightarrow> trees_ok (key_entries k w)"
  by (simp add: trees_ok_def key_entries_def split: option.split)

section \<open>Fixed fields\<close>

definition item_regs :: "nat option list \<Rightarrow> nat list" where
  "item_regs rs = List.map_filter id rs"

lemma item_regs_simps [simp]:
  "item_regs [] = []" "item_regs (r # rs) = (case r of Some n \<Rightarrow> n # item_regs rs | None \<Rightarrow> item_regs rs)"
  by (simp_all add: item_regs_def List.map_filter_simps split: option.split)

lemma item_regs_Cons: "set (item_regs (r # rs)) = set_option r \<union> set (item_regs rs)"
  by (simp split: option.split)

lemma item_regs_distinct: "distinct (item_regs (r # rs)) \<Longrightarrow> set_option r \<inter> set (item_regs rs) = {} \<and> distinct (item_regs rs)"
  by (auto split: option.splits)

definition apart :: "fixed_item list \<Rightarrow> bool" where
  "apart items \<longleftrightarrow> sorted_wrt (\<lambda>i j. fi_off i + fix_width (fi_kind i) \<le> fi_off j) items"

definition items_bits :: "nat \<Rightarrow> fixed_item list \<Rightarrow> nat set" where
  "items_bits base items = (\<Union>i\<in>set items. item_bits base i)"

lemma apart_bits: "apart (i # items) \<Longrightarrow> item_bits base i \<inter> items_bits base items = {}"
  by (fastforce simp: apart_def items_bits_def item_bits_def byte_bits_def)

definition run_back :: "bytes \<Rightarrow> nat \<Rightarrow> string list \<Rightarrow> ((string \<times> val_tree) list \<Rightarrow> bool) \<Rightarrow> pctx \<Rightarrow> frame list \<Rightarrow>
    (string \<times> val_tree) list \<Rightarrow> val_tree \<times> frame list \<Rightarrow> bool" where
  "run_back buf d nms repacks ctx' fs ps r = (case r of (m, fs') \<Rightarrow>
     frames_ok (length buf) (Suc d) fs' \<and> mirrors buf ctx' fs' \<and> map fr_regs (tl fs') = map fr_regs (tl fs) \<and>
     (\<exists>es. m = VMap (ps @ es) \<and> map fst es = nms \<and> trees_ok es \<and> (\<forall>M. has_entries M es \<longrightarrow> repacks M)))"

definition fixed_run :: "('v, 'w) source \<Rightarrow> 'w \<Rightarrow> nat \<Rightarrow> fixed_item list \<Rightarrow> pctx \<Rightarrow> pctx pres" where
  "fixed_run S view base items ctx =
     fold_res (\<lambda>item ctx. map_fail (seg_key (fi_key item)) (pack_fixed_item S base item (lookup S view (fi_key item)) ctx)) items ctx"

lemma fixed_run_Cons:
  "fixed_run S view base (i # items) ctx = Inr ctx' \<longleftrightarrow>
     (\<exists>c. pack_fixed_item S base i (lookup S view (fi_key i)) ctx = Inr c \<and> fixed_run S view base items c = Inr ctx')"
  by (simp add: fixed_run_def bind_res_eq_Inr)

lemma pack_fixed_run:
  "pack_fixed S view width items ctx = bind_res (grow width ctx) (fixed_run S view (length (pc_out ctx)) items)"
  by (simp add: pack_fixed_def fixed_run_def [abs_def] Let_def)

lemma moves_append:
  assumes "moves R A d a b" and "moves R' A' d b c"
  shows "moves (R \<union> R') (A \<union> A') d a c"
  by (rule moves_trans [OF moves_mono [OF assms(1)] moves_mono [OF assms(2)]]) auto

lemma fixed_run_back:
  assumes "fixed_run S view base items ctx = Inr ctx'" and "pctx_ok (Suc d) ctx" "tidy ctx"
    and "list_all (fixed_item_ok width) items" and "base + width \<le> length (pc_out ctx)"
    and "fresh (items_bits base items) (set (item_regs (map fi_reg items))) ctx"
    and "apart items" and "distinct (item_regs (map fi_reg items))"
  shows "moves (items_bits base items) (set (item_regs (map fi_reg items))) (Suc d) ctx ctx' \<and>
    (agree_on (items_bits base items) buf ctx' \<longrightarrow> length (pc_out ctx') \<le> length buf \<longrightarrow> mirrors buf ctx fs \<longrightarrow>
      frames_ok (length buf) (Suc d) fs \<longrightarrow>
      tame (fold_res (fixed_step (reader H buf) base) items (VMap ps, fs))
        (run_back buf d (key_names (map fi_key items)) (\<lambda>M. fixed_run tree_source M base items ctx = Inr ctx') ctx' fs ps))"
  using assms
proof (induction items arbitrary: ctx fs ps)
  case Nil
  then show ?case by (auto simp: fixed_run_def items_bits_def moves_refl run_back_def trees_ok_def)
next
  case (Cons i items)
  let ?k = "fi_key i" and ?regs = "set (item_regs (map fi_reg items))"
  from Cons.prems(1) obtain c where p: "pack_fixed_item S base i (lookup S view ?k) ctx = Inr c"
    and rest: "fixed_run S view base items c = Inr ctx'" by (auto simp: fixed_run_Cons)
  have bits: "items_bits base (i # items) = item_bits base i \<union> items_bits base items" by (simp add: items_bits_def)
  have regs: "set (item_regs (map fi_reg (i # items))) = set_option (fi_reg i) \<union> ?regs" using item_regs_Cons by simp
  have dr: "set_option (fi_reg i) \<inter> ?regs = {}" "distinct (item_regs (map fi_reg items))"
    using item_regs_distinct Cons.prems(8) unfolding list.map by blast+
  have f1: "fresh (item_bits base i) (set_option (fi_reg i)) ctx" and f2: "fresh (items_bits base items) ?regs ctx"
    using Cons.prems(6) unfolding bits regs by (auto intro: fresh_mono)
  have item: "fixed_item_ok width i" using Cons.prems(4) by simp
  note fb = fixed_item_back [OF p Cons.prems(2,3) item Cons.prems(5) f1]
  have m1: "moves (item_bits base i) (set_option (fi_reg i)) (Suc d) ctx c" using fb by blast
  have ok1: "pctx_ok (Suc d) c" "tidy c" "base + width \<le> length (pc_out c)" using m1 Cons.prems(5) by (auto simp: moves_def)
  have f3: "fresh (items_bits base items) ?regs c" by (rule fresh_moves [OF m1 f2 apart_bits [OF Cons.prems(7)] dr(1)])
  have ap: "apart items" "list_all (fixed_item_ok width) items" using Cons.prems(4,7) by (simp_all add: apart_def)
  note IH = Cons.IH [OF rest ok1(1,2) ap(2) ok1(3) f3 ap(1) dr(2)]
  have m2: "moves (items_bits base items) ?regs (Suc d) c ctx'" using IH by blast
  have "tame (fold_res (fixed_step (reader H buf) base) (i # items) (VMap ps, fs))
        (run_back buf d (key_names (map fi_key (i # items))) (\<lambda>M. fixed_run tree_source M base (i # items) ctx = Inr ctx') ctx' fs ps)"
    if ag: "agree_on (items_bits base (i # items)) buf ctx'" and len: "length (pc_out ctx') \<le> length buf"
      and mir: "mirrors buf ctx fs" and fok: "frames_ok (length buf) (Suc d) fs"
  proof -
    have sub: "item_bits base i \<subseteq> {..<8 * length (pc_out c)}"
      using item ok1(3) by (auto simp: item_bits_def byte_bits_def fixed_item_ok_def)
    have "agree_on (item_bits base i) buf ctx'" using ag by (simp add: agree_on_def bits)
    then have ag1: "agree_on (item_bits base i) buf c"
      by (rule agree_on_back [OF m2 _ _ sub]) (use apart_bits [OF Cons.prems(7)] in blast)
    have ag2: "agree_on (items_bits base items) buf ctx'" using ag by (simp add: agree_on_def bits)
    have len1: "length (pc_out c) \<le> length buf" using m2 len by (simp add: moves_def)
    have first: "tame (read_fixed_item (reader H buf) i base fs) (item_back H buf base i (lookup S view ?k) d ctx c fs)"
      using fb ag1 len1 mir fok by blast
    have eq: "fold_res (fixed_step (reader H buf) base) (i # items) (VMap ps, fs) =
        bind_res (map_fail (push_key ?k) (read_fixed_item (reader H buf) i base fs))
          (\<lambda>(v, fr). fold_res (fixed_step (reader H buf) base) items (VMap (ps @ key_entries ?k v), fr))"
      by (simp add: fixed_step_def bind_res_assoc insert_entries split_def)
    show ?thesis
      unfolding eq
    proof (rule tame_bind [OF tame_push_key [THEN iffD2, OF first]])
      fix r
      assume "item_back H buf base i (lookup S view ?k) d ctx c fs r"
      then obtain w fs1 where r: "r = (w, fs1)" and f1: "frames_ok (length buf) (Suc d) fs1" "mirrors buf c fs1"
        and tl1: "map fr_regs (tl fs1) = map fr_regs (tl fs)" and dk: "distinct_keys w"
        and pk: "pack_fixed_item tree_source base i (again ?k (lookup S view ?k) w) ctx = Inr c"
        by (cases r) (auto simp: item_back_def)
      have next': "tame (fold_res (fixed_step (reader H buf) base) items (VMap (ps @ key_entries ?k w), fs1))
          (run_back buf d (key_names (map fi_key items)) (\<lambda>M. fixed_run tree_source M base items c = Inr ctx') ctx' fs1 (ps @ key_entries ?k w))"
        using Cons.IH [OF rest ok1(1,2) ap(2) ok1(3) f3 ap(1) dr(2)] ag2 len f1 by blast
      have "run_back buf d (key_names (map fi_key (i # items))) (\<lambda>M. fixed_run tree_source M base (i # items) ctx = Inr ctx') ctx' fs ps q"
        if q: "run_back buf d (key_names (map fi_key items)) (\<lambda>M. fixed_run tree_source M base items c = Inr ctx') ctx' fs1 (ps @ key_entries ?k w) q" for q
      proof -
        obtain es fs' where q': "q = (VMap ((ps @ key_entries ?k w) @ es), fs')" "frames_ok (length buf) (Suc d) fs'" "mirrors buf ctx' fs'"
          "map fr_regs (tl fs') = map fr_regs (tl fs1)" "map fst es = key_names (map fi_key items)" "trees_ok es"
          "\<And>M. has_entries M es \<Longrightarrow> fixed_run tree_source M base items c = Inr ctx'"
          using q by (auto simp: run_back_def)
        have nms: "map fst (key_entries ?k w @ es) = key_names (map fi_key (i # items))"
          using q'(5) key_names_Cons [of ?k "map fi_key items"] by (simp only: map_append key_entries_names list.map)
        have pack: "fixed_run tree_source M base (i # items) ctx = Inr ctx'" if "has_entries M (key_entries ?k w @ es)" for M
          using that q'(7) [of M] pk lookup_again [of M ?k w S view] by (auto simp: fixed_run_Cons)
        show ?thesis
          unfolding run_back_def q'(1) prod.case
          using q'(2-4,6) tl1 nms pack dk by (intro conjI exI [of _ "key_entries ?k w @ es"]) auto
      qed
      then show "tame (case r of (v, fr) \<Rightarrow> fold_res (fixed_step (reader H buf) base) items (VMap (ps @ key_entries ?k v), fr))
        (run_back buf d (key_names (map fi_key (i # items))) (\<lambda>M. fixed_run tree_source M base (i # items) ctx = Inr ctx') ctx' fs ps)"
        using tame_mono [OF next'] by (simp only: r prod.case)
    qed
  qed
  then show ?case using moves_append [OF m1 m2] unfolding bits regs by blast
qed

section \<open>Opcodes of a struct\<close>

text \<open>What an opcode of a struct leaves: the unpacker stands where the packer does, and the entries
  added to the map repack to the packer's state.\<close>

definition op_back :: "bytes \<Rightarrow> nat \<Rightarrow> string list \<Rightarrow> ((string \<times> val_tree) list \<Rightarrow> bool) \<Rightarrow> pctx \<Rightarrow> frame list \<Rightarrow>
    (string \<times> val_tree) list \<Rightarrow> val_tree ustate \<Rightarrow> bool" where
  "op_back buf d nms repacks ctx' fs ps st = (case st of (pos, m, df, fs') \<Rightarrow>
     pos = length (pc_out ctx') \<and> df = [] \<and>
     frames_ok (length buf) (Suc d) fs' \<and> mirrors buf ctx' fs' \<and> map fr_regs (tl fs') = map fr_regs (tl fs) \<and>
     (\<exists>es. m = VMap (ps @ es) \<and> subseq (map fst es) nms \<and> trees_ok es \<and> (\<forall>M. has_entries M es \<longrightarrow> repacks M)))"

definition op_mirror :: "hashes \<Rightarrow> nat \<Rightarrow> nat list \<Rightarrow> string list \<Rightarrow> bool \<Rightarrow> ((string \<times> val_tree) list \<Rightarrow> pctx \<Rightarrow> pctx pres) \<Rightarrow>
    ((val_tree, val_tree, val_tree list) uenv \<Rightarrow> nat \<Rightarrow> val_tree ustate \<Rightarrow> val_tree ustate ures) \<Rightarrow>
    (string \<times> val_tree) list \<Rightarrow> bool" where
  "op_mirror H d regs nms sd pack unpack view \<longleftrightarrow>
     (\<forall>ctx ctx'. pack view ctx = Inr ctx' \<longrightarrow> pctx_ok (Suc d) ctx \<longrightarrow> tidy ctx \<longrightarrow> fresh {} (set regs) ctx \<longrightarrow>
        moves {} (set regs) (Suc d) ctx ctx' \<and>
        (\<forall>buf fs ps limit. agree buf ctx' \<longrightarrow> mirrors buf ctx fs \<longrightarrow> frames_ok (length buf) (Suc d) fs \<longrightarrow>
           length (pc_out ctx') \<le> limit \<longrightarrow> limit \<le> length buf \<longrightarrow> length buf < usize_max \<longrightarrow>
           (\<not> sd \<longrightarrow> limit = length (pc_out ctx')) \<longrightarrow>
           below buf ctx' fs \<and>
           tame (unpack (reader H buf) limit (length (pc_out ctx), VMap ps, [], fs))
             (op_back buf d nms (\<lambda>M. pack M ctx = Inr ctx') ctx' fs ps)))"

lemma op_mirrorI:
  assumes "\<And>ctx ctx'. pack view ctx = Inr ctx' \<Longrightarrow> pctx_ok (Suc d) ctx \<Longrightarrow> tidy ctx \<Longrightarrow> fresh {} (set regs) ctx \<Longrightarrow>
      moves {} (set regs) (Suc d) ctx ctx'"
    and "\<And>ctx ctx' buf fs ps limit. pack view ctx = Inr ctx' \<Longrightarrow> pctx_ok (Suc d) ctx \<Longrightarrow> tidy ctx \<Longrightarrow> fresh {} (set regs) ctx \<Longrightarrow>
      moves {} (set regs) (Suc d) ctx ctx' \<Longrightarrow> agree buf ctx' \<Longrightarrow> mirrors buf ctx fs \<Longrightarrow> frames_ok (length buf) (Suc d) fs \<Longrightarrow>
      length (pc_out ctx') \<le> limit \<Longrightarrow> limit \<le> length buf \<Longrightarrow> length buf < usize_max \<Longrightarrow> (\<not> sd \<Longrightarrow> limit = length (pc_out ctx')) \<Longrightarrow>
      below buf ctx' fs \<and> tame (unpack (reader H buf) limit (length (pc_out ctx), VMap ps, [], fs))
        (op_back buf d nms (\<lambda>M. pack M ctx = Inr ctx') ctx' fs ps)"
  shows "op_mirror H d regs nms sd pack unpack view"
  unfolding op_mirror_def using assms by blast

lemma op_mirrorD:
  assumes "op_mirror H d regs nms sd pack unpack view" and "pack view ctx = Inr ctx'" and "pctx_ok (Suc d) ctx" and "tidy ctx"
    and "fresh {} (set regs) ctx"
  shows "moves {} (set regs) (Suc d) ctx ctx'"
    and "agree buf ctx' \<Longrightarrow> mirrors buf ctx fs \<Longrightarrow> frames_ok (length buf) (Suc d) fs \<Longrightarrow>
      length (pc_out ctx') \<le> limit \<Longrightarrow> limit \<le> length buf \<Longrightarrow> length buf < usize_max \<Longrightarrow> (\<not> sd \<Longrightarrow> limit = length (pc_out ctx')) \<Longrightarrow>
      below buf ctx' fs \<and> tame (unpack (reader H buf) limit (length (pc_out ctx), VMap ps, [], fs))
        (op_back buf d nms (\<lambda>M. pack M ctx = Inr ctx') ctx' fs ps)"
  using assms unfolding op_mirror_def by blast+

text \<open>Fields without a length touch the top frame only.\<close>

lemma with_top_tl: "with_top g ctx = Inr ctx' \<Longrightarrow> tl (pc_frames ctx') = tl (pc_frames ctx)"
  by (auto simp: with_top_def bind_res_eq_Inr split: list.splits)

lemma top_tl:
  "pset_reg idx v ctx = Inr ctx' \<Longrightarrow> tl (pc_frames ctx') = tl (pc_frames ctx)"
  "pset_span idx s e ctx = Inr ctx' \<Longrightarrow> tl (pc_frames ctx') = tl (pc_frames ctx)"
  "reserve r sl ctx = Inr ctx' \<Longrightarrow> tl (pc_frames ctx') = tl (pc_frames ctx)"
  by (auto simp: pset_reg_def pset_span_def reserve_def dest: with_top_tl split: option.splits)

lemma put_frames: "put pos b ctx = Inr ctx' \<Longrightarrow> pc_frames ctx' = pc_frames ctx"
  by (auto simp: put_def bind_res_eq_Inr)

lemma fixed_item_tl:
  assumes p: "pack_fixed_item S base item v ctx = Inr ctx'"
  shows "tl (pc_frames ctx') = tl (pc_frames ctx)"
proof (cases "fi_kind item")
  case (FInt prim be ex derived)
  show ?thesis
  proof (rule pack_int_item [OF FInt p])
    fix x out ctx1
    assume "pset_reg (fi_reg item) (as_i64 x) (ctx\<lparr>pc_out := out\<rparr>) = Inr ctx1"
      "pset_span (fi_span item) (wrapping_add base (fi_off item)) (wrapping_add base (fi_off item) + prim_width prim) ctx1 = Inr ctx'"
    then show ?thesis by (auto dest!: top_tl)
  next
    fix r ctx1
    assume "reserve r (SlotInt (wrapping_add base (fi_off item)) prim be) ctx = Inr ctx1"
      "pset_span (fi_span item) (wrapping_add base (fi_off item)) (wrapping_add base (fi_off item) + prim_width prim) ctx1 = Inr ctx'"
    then show ?thesis by (auto dest!: top_tl)
  qed
next
  case (FRaw len ex)
  then show ?thesis using p
    by (auto simp: pack_fixed_item_def Let_def bind_res_eq_Inr dest!: put_frames top_tl split: option.splits if_splits)
qed (use p in \<open>auto simp: pack_fixed_item_def Let_def bind_res_eq_Inr dest!: put_frames top_tl\<close>)

lemma fixed_run_tl: "fixed_run S view base items ctx = Inr ctx' \<Longrightarrow> tl (pc_frames ctx') = tl (pc_frames ctx)"
proof (induction items arbitrary: ctx)
  case Nil
  then show ?case by (simp add: fixed_run_def)
next
  case (Cons i items)
  then show ?case by (auto simp: fixed_run_Cons dest!: fixed_item_tl)
qed

lemma fresh_extended:
  assumes "pctx_ok d ctx" and "fresh {} A ctx" and "R \<subseteq> byte_bits (length (pc_out ctx)) n"
  shows "fresh R A (extended (replicate n 0) ctx)"
  unfolding fresh_def
proof (intro conjI ballI)
  fix p
  assume "p \<in> R"
  then have p: "8 * length (pc_out ctx) \<le> p" "p < 8 * (length (pc_out ctx) + n)" using assms(3) by (auto simp: byte_bits_def)
  show "p < 8 * length (pc_out (extended (replicate n 0) ctx))" using p by simp
  show "\<not> sbit (pc_out (extended (replicate n 0) ctx)) p" using p by (simp add: extended_def sbit_append)
  show "p \<notin> open_bits (extended (replicate n 0) ctx)" using p open_bits_bound [OF assms(1)] by fastforce
qed (use assms(2) in \<open>simp add: fresh_def\<close>)

lemma agree_agree_on: "agree buf ctx \<Longrightarrow> R \<subseteq> {..<8 * length (pc_out ctx)} \<Longrightarrow> agree_on R buf ctx"
  by (auto simp: agree_def agree_on_def)

lemma agree_length: "agree buf ctx \<Longrightarrow> length (pc_out ctx) \<le> length buf"
  by (simp add: agree_def)

lemma op_mirror_fixed:
  assumes items: "list_all (fixed_item_ok width) items" and ap: "apart items" and dr: "distinct (item_regs (map fi_reg items))"
    and wide: "width \<le> isize_max"
  shows "op_mirror H d (item_regs (map fi_reg items)) (key_names (map fi_key items)) sd
    (\<lambda>view. pack_fixed tree_source view width items) (\<lambda>E. run_fixed E width items) view"
proof (rule op_mirrorI)
  fix ctx ctx' :: pctx
  let ?regs = "set (item_regs (map fi_reg items))" and ?base = "length (pc_out ctx)"
  let ?c = "extended (replicate width 0) ctx"
  assume p: "pack_fixed tree_source view width items ctx = Inr ctx'" and ok: "pctx_ok (Suc d) ctx" "tidy ctx"
    and fr: "fresh {} ?regs ctx"
  have room: "roomy width ctx" using p grow_Inr [OF _ pctx_ok_length [OF ok(1)] wide] by (auto simp: pack_fixed_run bind_res_eq_Inr)
  have pk: "pack_fixed tree_source M width items ctx = fixed_run tree_source M ?base items ?c" for M
    by (simp add: pack_fixed_run grow_roomy [OF room])
  have run: "fixed_run tree_source view ?base items ?c = Inr ctx'" using p by (simp add: pk)
  have sub: "items_bits ?base items \<subseteq> byte_bits ?base width"
    using items by (auto simp: items_bits_def item_bits_def byte_bits_def list_all_iff fixed_item_ok_def dest!: bspec)
  have f1: "fresh (items_bits ?base items) ?regs ?c" by (rule fresh_extended [OF ok(1) fr sub])
  have m0: "moves {} {} (Suc d) ctx ?c" by (rule moves_extended [OF ok]) (simp add: room)
  have ok1: "pctx_ok (Suc d) ?c" "tidy ?c" using m0 by (simp_all add: moves_def)
  have fits: "?base + width \<le> length (pc_out ?c)" by simp
  note fb = fixed_run_back [OF run ok1 items fits f1 ap dr]
  have m1: "moves (items_bits ?base items) ?regs (Suc d) ?c ctx'" using fb by blast
  have len: "length (pc_out ctx') = ?base + width"
    using guarded_Inr [OF safe_pack_fixed [OF ok(1) items wide] disjI1 [OF room] p] by (simp add: adds_def)
  show m: "moves {} ?regs (Suc d) ctx ctx'"
    by (rule moves_fresh [OF moves_append [OF m0 m1, simplified]]) (use sub in \<open>auto simp: byte_bits_def\<close>)
  fix buf fs ps limit
  assume ag: "agree buf ctx'" and mir: "mirrors buf ctx fs" and fok: "frames_ok (length buf) (Suc d) fs"
    and lim: "length (pc_out ctx') \<le> limit"
  have "below buf ctx' fs" using mirrors_below [OF mir] below_tl [of ctx' ctx fs fs] fixed_run_tl [OF run] by (simp add: extended_def)
  moreover have "tame (run_fixed (reader H buf) width items limit (?base, VMap ps, [], fs))
      (op_back buf d (key_names (map fi_key items)) (\<lambda>M. pack_fixed tree_source M width items ctx = Inr ctx') ctx' fs ps)"
  proof -
    have "items_bits ?base items \<subseteq> {..<8 * length (pc_out ctx')}" using sub len by (auto simp: byte_bits_def)
    then have ag1: "agree_on (items_bits ?base items) buf ctx'" by (rule agree_agree_on [OF ag])
    have mir1: "mirrors buf ?c fs" using mir by simp
    have body: "tame (fold_res (fixed_step (reader H buf) ?base) items (VMap ps, fs))
        (run_back buf d (key_names (map fi_key items)) (\<lambda>M. fixed_run tree_source M ?base items ?c = Inr ctx') ctx' fs ps)"
      using fixed_run_back [OF run ok1 items fits f1 ap dr] ag1 agree_length [OF ag] mir1 fok by blast
    have "?base + width \<le> limit" using len lim by simp
    then show ?thesis
      unfolding run_fixed_def prod.case uenv.simps
    proof (rule tame_bind [OF tame_need])
      show "tame (bind_res (fold_res (fixed_step (reader H buf) ?base) items (VMap ps, fs)) (\<lambda>(m, frames). Inr (?base + width, m, [], frames)))
        (op_back buf d (key_names (map fi_key items)) (\<lambda>M. pack_fixed tree_source M width items ctx = Inr ctx') ctx' fs ps)"
        by (rule tame_bind [OF body]) (auto simp: run_back_def op_back_def len pk)
    qed
  qed
  ultimately show "below buf ctx' fs \<and> tame (run_fixed (reader H buf) width items limit (?base, VMap ps, [], fs))
      (op_back buf d (key_names (map fi_key items)) (\<lambda>M. pack_fixed tree_source M width items ctx = Inr ctx') ctx' fs ps)" by blast
qed

section \<open>Bit fields\<close>

lemma tame_push_fail [simp]: "tame (Inl (Fail (push_key k e))) Q \<longleftrightarrow> tame (Inl (Fail e) :: 'a ures) Q"
  using tame_push_key [of k "Inl (Fail e) :: 'a ures" Q] by simp

lemma pack_bit_item_slot:
  assumes p: "pack_bit_item S base off item v ctx = Inr ctx'"
  obtains (written) x out where "write_slot (SlotBits base off (bi_width item) (bi_signed item)) x (pc_out ctx) = Inr out"
      "pset_reg (bi_reg item) (as_i64 x) (ctx\<lparr>pc_out := out\<rparr>) = Inr ctx'" "\<not> bi_derived item"
      "given (s_as_int S) 0 (bi_key item) v = Inr x"
    | (reserved) r where "bi_reg item = Some r" "bi_derived item"
      "reserve r (SlotBits base off (bi_width item) (bi_signed item)) ctx = Inr ctx'"
proof (cases "bi_derived item")
  case True
  then show ?thesis using p by (auto simp: pack_bit_item_def bind_res_eq_Inr intro: reserved)
next
  case False
  then show ?thesis using p by (auto simp: pack_bit_item_def bind_res_eq_Inr write_slot_def intro: written)
qed

lemma bit_item_mirror:
  assumes p: "pack_bit_item S base off item v ctx = Inr ctx'" and ok: "pctx_ok (Suc d) ctx" "tidy ctx" and item: "bit_item_ok item"
    and fits: "base * 8 + (off + bi_width item) \<le> length (pc_out ctx) * 8"
    and fresh: "fresh {8 * base + off ..< 8 * base + off + bi_width item} (set_option (bi_reg item)) ctx"
  shows "moves {8 * base + off ..< 8 * base + off + bi_width item} (set_option (bi_reg item)) (Suc d) ctx ctx'"
    and "length (pc_out ctx') = length (pc_out ctx)"
    and "agree_on {8 * base + off ..< 8 * base + off + bi_width item} buf ctx' \<Longrightarrow> length (pc_out ctx') \<le> length buf \<Longrightarrow>
      mirrors buf ctx fs \<Longrightarrow> frames_ok (length buf) (Suc d) fs \<Longrightarrow>
      \<exists>y. read_bits buf base off item = Inr y \<and>
        tame (case bi_reg item of None \<Rightarrow> Inr fs | Some r \<Rightarrow> if in_i64 y then set_reg fs r y else Inl (Fail (push_key (bi_key item) (invalid_at KOverflow base))))
          (\<lambda>fs'. frames_ok (length buf) (Suc d) fs' \<and> mirrors buf ctx' fs' \<and> tl fs' = tl fs) \<and>
        pack_bit_item tree_source base off item (again (bi_key item) v (VInt y)) ctx = Inr ctx'"
proof -
  let ?sl = "SlotBits base off (bi_width item) (bi_signed item)"
  have bits: "slot_bits ?sl = {8 * base + off ..< 8 * base + off + bi_width item}" by simp
  have sl: "slot_ok (length (pc_out ctx)) ?sl" and idx: "idx_ok MAX_REGS (bi_reg item)" and wd: "bi_width item \<le> 64"
    using item fits by (simp_all add: bit_item_ok_def)
  have st: "slot_step ?sl (bi_reg item) ctx ctx'" by (rule pack_bit_item_slot [OF p]) (auto simp: slot_step_def)
  note sm = slot_step_mirror [OF st ok sl idx fresh [folded bits]]
  show "moves {8 * base + off ..< 8 * base + off + bi_width item} (set_option (bi_reg item)) (Suc d) ctx ctx'"
    using sm(1) unfolding bits .
  show len: "length (pc_out ctx') = length (pc_out ctx)" by (rule sm(2))
  assume ag: "agree_on {8 * base + off ..< 8 * base + off + bi_width item} buf ctx'" "length (pc_out ctx') \<le> length buf"
    and mir: "mirrors buf ctx fs" and fok: "frames_ok (length buf) (Suc d) fs"
  have fit: "bits_fit buf base (off + bi_width item)" using fits len ag(2) by (simp add: bits_fit_def)
  from read_bits_raw_bits [OF fit wd] obtain u where u: "read_bits_raw buf base off (bi_width item) = Inr u" by (elim exE conjE)
  define y where "y = bits_value (bi_width item) (bi_signed item) u"
  have rd: "slot_reads buf ?sl y" and rb: "read_bits buf base off item = Inr y" using u by (simp_all add: y_def read_bits_def)
  have "pack_bit_item tree_source base off item (again (bi_key item) v (VInt y)) ctx = Inr ctx'"
  proof (rule pack_bit_item_slot [OF p])
    fix x out
    assume w: "write_slot ?sl x (pc_out ctx) = Inr out" "pset_reg (bi_reg item) (as_i64 x) (ctx\<lparr>pc_out := out\<rparr>) = Inr ctx'"
      and g: "\<not> bi_derived item" "given (s_as_int S) 0 (bi_key item) v = Inr x"
    have "slot_reads buf ?sl x"
      by (rule slot_written(6) [OF w ok sl in_i64_as_i64 idx fresh [folded bits]]) (use ag in \<open>simp_all only: bits\<close>)
    then have "y = x" using slot_reads_unique rd by blast
    moreover have "given vs_as_int 0 (bi_key item) (again (bi_key item) v (VInt x)) = Inr x"
      using g(2) by (rule given_again) simp
    ultimately show ?thesis using p g by (simp add: pack_bit_item_def)
  next
    assume "bi_derived item"
    then show ?thesis using p by (simp add: pack_bit_item_def)
  qed
  moreover have "tame (case bi_reg item of None \<Rightarrow> Inr fs | Some r \<Rightarrow> if in_i64 y then set_reg fs r y else Inl (Fail (push_key (bi_key item) (invalid_at KOverflow base))))
          (\<lambda>fs'. frames_ok (length buf) (Suc d) fs' \<and> mirrors buf ctx' fs' \<and> tl fs' = tl fs)"
    using sm(3) [OF ag [folded bits] mir fok rd] by (cases "bi_reg item"; cases "in_i64 y") (auto elim: tame_mono)
  ultimately show "\<exists>y. read_bits buf base off item = Inr y \<and>
        tame (case bi_reg item of None \<Rightarrow> Inr fs | Some r \<Rightarrow> if in_i64 y then set_reg fs r y else Inl (Fail (push_key (bi_key item) (invalid_at KOverflow base))))
          (\<lambda>fs'. frames_ok (length buf) (Suc d) fs' \<and> mirrors buf ctx' fs' \<and> tl fs' = tl fs) \<and>
        pack_bit_item tree_source base off item (again (bi_key item) v (VInt y)) ctx = Inr ctx'"
    using rb by blast
qed

definition bits_run :: "('v, 'w) source \<Rightarrow> 'w \<Rightarrow> nat \<Rightarrow> bit_item list \<Rightarrow> nat \<Rightarrow> pctx \<Rightarrow> pctx pres" where
  "bits_run S view base items off ctx = bind_res (fold_res (pack_bits_step S view base) items (off, ctx)) (\<lambda>(_, ctx). Inr ctx)"

lemma bits_run_Cons:
  "bits_run S view base (i # items) off ctx = Inr ctx' \<longleftrightarrow>
     (\<exists>c. pack_bit_item S base off i (lookup S view (bi_key i)) ctx = Inr c \<and> bits_run S view base items (off + bi_width i) c = Inr ctx')"
  by (auto simp: bits_run_def pack_bits_step_def bind_res_eq_Inr)

lemma bits_run_back:
  assumes "bits_run S view base items off ctx = Inr ctx'" and "pctx_ok (Suc d) ctx" "tidy ctx"
    and "list_all bit_item_ok items" and "base * 8 + (off + bits_width items) \<le> length (pc_out ctx) * 8"
    and "fresh {8 * base + off ..< 8 * base + off + bits_width items} (set (item_regs (map bi_reg items))) ctx"
    and "distinct (item_regs (map bi_reg items))"
  shows "moves {8 * base + off ..< 8 * base + off + bits_width items} (set (item_regs (map bi_reg items))) (Suc d) ctx ctx' \<and>
    (agree_on {8 * base + off ..< 8 * base + off + bits_width items} buf ctx' \<longrightarrow> length (pc_out ctx') \<le> length buf \<longrightarrow> mirrors buf ctx fs \<longrightarrow>
      frames_ok (length buf) (Suc d) fs \<longrightarrow>
      tame (fold_res (bit_item_step (reader H buf) base) items (off, VMap ps, fs))
        (\<lambda>(_, r). run_back buf d (key_names (map bi_key items)) (\<lambda>M. bits_run tree_source M base items off ctx = Inr ctx') ctx' fs ps r))"
  using assms
proof (induction items arbitrary: off ctx fs ps)
  case Nil
  then show ?case by (auto simp: bits_run_def bits_width_def moves_refl run_back_def trees_ok_def)
next
  case (Cons i items)
  let ?k = "bi_key i" and ?regs = "set (item_regs (map bi_reg items))"
  let ?lo = "8 * base + off" and ?mid = "8 * base + off + bi_width i" and ?off = "off + bi_width i"
  let ?hi = "8 * base + ?off + bits_width items"
  from Cons.prems(1) obtain c where p: "pack_bit_item S base off i (lookup S view ?k) ctx = Inr c"
    and rest: "bits_run S view base items ?off c = Inr ctx'" by (auto simp: bits_run_Cons)
  have bits: "{?lo ..< ?lo + bits_width (i # items)} = {?lo ..< ?mid} \<union> {8 * base + ?off ..< ?hi}" by (auto simp: bits_width_def)
  have regs: "set (item_regs (map bi_reg (i # items))) = set_option (bi_reg i) \<union> ?regs" using item_regs_Cons by simp
  have dr: "set_option (bi_reg i) \<inter> ?regs = {}" "distinct (item_regs (map bi_reg items))"
    using item_regs_distinct Cons.prems(7) unfolding list.map by blast+
  have f1: "fresh {?lo ..< ?mid} (set_option (bi_reg i)) ctx" and f2: "fresh {8 * base + ?off ..< ?hi} ?regs ctx"
    using Cons.prems(6) unfolding bits regs by (auto intro: fresh_mono)
  have item: "bit_item_ok i" "list_all bit_item_ok items" using Cons.prems(4) by simp_all
  have fit1: "base * 8 + (off + bi_width i) \<le> length (pc_out ctx) * 8" using Cons.prems(5) by (simp add: bits_width_def)
  note bm = bit_item_mirror [OF p Cons.prems(2,3) item(1) fit1 f1]
  have ok1: "pctx_ok (Suc d) c" "tidy c" using bm(1) by (simp_all add: moves_def)
  have fit2: "base * 8 + (?off + bits_width items) \<le> length (pc_out c) * 8" using Cons.prems(5) bm(2) by (simp add: bits_width_def)
  have f3: "fresh {8 * base + ?off ..< ?hi} ?regs c" by (rule fresh_moves [OF bm(1) f2 _ dr(1)]) auto
  note IH = Cons.IH [OF rest ok1 item(2) fit2 f3 dr(2)]
  have m2: "moves {8 * base + ?off ..< ?hi} ?regs (Suc d) c ctx'" using IH by blast
  have "tame (fold_res (bit_item_step (reader H buf) base) (i # items) (off, VMap ps, fs))
      (\<lambda>(_, r). run_back buf d (key_names (map bi_key (i # items))) (\<lambda>M. bits_run tree_source M base (i # items) off ctx = Inr ctx') ctx' fs ps r)"
    if ag: "agree_on ({?lo ..< ?mid} \<union> {8 * base + ?off ..< ?hi}) buf ctx'" and len: "length (pc_out ctx') \<le> length buf"
      and mir: "mirrors buf ctx fs" and fok: "frames_ok (length buf) (Suc d) fs"
  proof -
    have sub: "{?lo ..< ?mid} \<subseteq> {..<8 * length (pc_out c)}" using fit1 bm(2) by auto
    have "agree_on {?lo ..< ?mid} buf ctx'" using ag by (simp add: agree_on_def)
    then have ag1: "agree_on {?lo ..< ?mid} buf c" by (rule agree_on_back [OF m2 _ _ sub]) auto
    have ag2: "agree_on {8 * base + ?off ..< ?hi} buf ctx'" using ag by (simp add: agree_on_def)
    have len1: "length (pc_out c) \<le> length buf" using m2 len by (simp add: moves_def)
    obtain y where y: "read_bits buf base off i = Inr y"
      and tm: "tame (case bi_reg i of None \<Rightarrow> Inr fs | Some r \<Rightarrow> if in_i64 y then set_reg fs r y else Inl (Fail (push_key ?k (invalid_at KOverflow base))))
          (\<lambda>fs'. frames_ok (length buf) (Suc d) fs' \<and> mirrors buf c fs' \<and> tl fs' = tl fs)"
      and pk: "pack_bit_item tree_source base off i (again ?k (lookup S view ?k) (VInt y)) ctx = Inr c"
      using bm(3) [OF ag1 len1 mir fok] by blast
    let ?ps = "ps @ key_entries ?k (VInt y)"
    have eq: "fold_res (bit_item_step (reader H buf) base) (i # items) (off, VMap ps, fs) =
        bind_res (case bi_reg i of None \<Rightarrow> Inr fs | Some r \<Rightarrow> if in_i64 y then set_reg fs r y else Inl (Fail (push_key ?k (invalid_at KOverflow base))))
          (\<lambda>fr. fold_res (bit_item_step (reader H buf) base) items (?off, VMap ?ps, fr))"
      by (simp add: bit_item_step_def y bind_res_assoc insert_entries)
    show ?thesis
      unfolding eq
    proof (rule tame_bind [OF tm])
      fix fs1
      assume fs1: "frames_ok (length buf) (Suc d) fs1 \<and> mirrors buf c fs1 \<and> tl fs1 = tl fs"
      have next': "tame (fold_res (bit_item_step (reader H buf) base) items (?off, VMap ?ps, fs1))
          (\<lambda>(_, r). run_back buf d (key_names (map bi_key items)) (\<lambda>M. bits_run tree_source M base items ?off c = Inr ctx') ctx' fs1 ?ps r)"
        using Cons.IH [OF rest ok1 item(2) fit2 f3 dr(2)] ag2 len fs1 by blast
      have "run_back buf d (key_names (map bi_key (i # items))) (\<lambda>M. bits_run tree_source M base (i # items) off ctx = Inr ctx') ctx' fs ps q"
        if q: "run_back buf d (key_names (map bi_key items)) (\<lambda>M. bits_run tree_source M base items ?off c = Inr ctx') ctx' fs1 ?ps q" for q
      proof -
        obtain es fs' where q': "q = (VMap (?ps @ es), fs')" "frames_ok (length buf) (Suc d) fs'" "mirrors buf ctx' fs'"
          "map fr_regs (tl fs') = map fr_regs (tl fs1)" "map fst es = key_names (map bi_key items)" "trees_ok es"
          "\<And>M. has_entries M es \<Longrightarrow> bits_run tree_source M base items ?off c = Inr ctx'"
          using q by (auto simp: run_back_def)
        have nms: "map fst (key_entries ?k (VInt y) @ es) = key_names (map bi_key (i # items))"
          using q'(5) key_names_Cons [of ?k "map bi_key items"] by (simp only: map_append key_entries_names list.map)
        have pack: "bits_run tree_source M base (i # items) off ctx = Inr ctx'" if "has_entries M (key_entries ?k (VInt y) @ es)" for M
          using that q'(7) [of M] pk lookup_again [of M ?k "VInt y" S view] by (auto simp: bits_run_Cons)
        show ?thesis
          unfolding run_back_def q'(1) prod.case
          using q'(2-4,6) fs1 nms pack by (intro conjI exI [of _ "key_entries ?k (VInt y) @ es"]) auto
      qed
      then show "tame (fold_res (bit_item_step (reader H buf) base) items (?off, VMap ?ps, fs1))
        (\<lambda>(_, r). run_back buf d (key_names (map bi_key (i # items))) (\<lambda>M. bits_run tree_source M base (i # items) off ctx = Inr ctx') ctx' fs ps r)"
        by (intro tame_mono [OF next']) auto
    qed
  qed
  then show ?case using moves_append [OF bm(1) m2] unfolding bits regs by blast
qed

lemma bit_item_tl: "pack_bit_item S base off item v ctx = Inr ctx' \<Longrightarrow> tl (pc_frames ctx') = tl (pc_frames ctx)"
  by (elim pack_bit_item_slot) (auto dest!: top_tl)

lemma bits_run_tl: "bits_run S view base items off ctx = Inr ctx' \<Longrightarrow> tl (pc_frames ctx') = tl (pc_frames ctx)"
proof (induction items arbitrary: off ctx)
  case Nil
  then show ?case by (simp add: bits_run_def)
next
  case (Cons i items)
  then show ?case by (auto simp: bits_run_Cons dest!: bit_item_tl)
qed

lemma op_mirror_bits:
  assumes items: "list_all bit_item_ok items" and w: "bits_width items \<le> 8 * nbytes" and dr: "distinct (item_regs (map bi_reg items))"
    and wide: "nbytes \<le> isize_max"
  shows "op_mirror H d (item_regs (map bi_reg items)) (key_names (map bi_key items)) sd
    (\<lambda>view. pack_bits tree_source view nbytes items) (\<lambda>E. run_bits E nbytes items) view"
proof (rule op_mirrorI)
  fix ctx ctx' :: pctx
  let ?regs = "set (item_regs (map bi_reg items))" and ?base = "length (pc_out ctx)"
  let ?c = "extended (replicate nbytes 0) ctx" and ?R = "{8 * length (pc_out ctx) + 0 ..< 8 * length (pc_out ctx) + 0 + bits_width items}"
  assume p: "pack_bits tree_source view nbytes items ctx = Inr ctx'" and ok: "pctx_ok (Suc d) ctx" "tidy ctx"
    and fr: "fresh {} ?regs ctx"
  have room: "roomy nbytes ctx" using p grow_Inr [OF _ pctx_ok_length [OF ok(1)] wide] by (auto simp: pack_bits_def Let_def bind_res_eq_Inr)
  have pk: "pack_bits tree_source M nbytes items ctx = bits_run tree_source M ?base items 0 ?c" for M
    by (simp add: pack_bits_def bits_run_def grow_roomy [OF room])
  have run: "bits_run tree_source view ?base items 0 ?c = Inr ctx'" using p by (simp add: pk)
  have sub: "?R \<subseteq> byte_bits ?base nbytes" using w by (auto simp: byte_bits_def)
  have f1: "fresh ?R ?regs ?c" by (rule fresh_extended [OF ok(1) fr sub])
  have m0: "moves {} {} (Suc d) ctx ?c" by (rule moves_extended [OF ok]) (simp add: room)
  have ok1: "pctx_ok (Suc d) ?c" "tidy ?c" using m0 by (simp_all add: moves_def)
  have fits: "?base * 8 + (0 + bits_width items) \<le> length (pc_out ?c) * 8" using w by simp
  note fb = bits_run_back [OF run ok1 items fits f1 dr]
  have m1: "moves ?R ?regs (Suc d) ?c ctx'" using fb by blast
  have len: "length (pc_out ctx') = ?base + nbytes"
    using guarded_Inr [OF safe_pack_bits [OF ok(1) items w wide] disjI1 [OF room] p] by (simp add: adds_def)
  show m: "moves {} ?regs (Suc d) ctx ctx'"
    by (rule moves_fresh [OF moves_append [OF m0 m1, simplified Un_empty_left]]) (use sub in \<open>auto simp: byte_bits_def\<close>)
  fix buf fs ps limit
  assume ag: "agree buf ctx'" and mir: "mirrors buf ctx fs" and fok: "frames_ok (length buf) (Suc d) fs"
    and lim: "length (pc_out ctx') \<le> limit"
  have "below buf ctx' fs" using mirrors_below [OF mir] below_tl [of ctx' ctx fs fs] bits_run_tl [OF run] by (simp add: extended_def)
  moreover have "tame (run_bits (reader H buf) nbytes items limit (?base, VMap ps, [], fs))
      (op_back buf d (key_names (map bi_key items)) (\<lambda>M. pack_bits tree_source M nbytes items ctx = Inr ctx') ctx' fs ps)"
  proof -
    have "?R \<subseteq> {..<8 * length (pc_out ctx')}" using sub len by (auto simp: byte_bits_def)
    then have ag1: "agree_on ?R buf ctx'" by (rule agree_agree_on [OF ag])
    have mir1: "mirrors buf ?c fs" using mir by simp
    have body: "tame (fold_res (bit_item_step (reader H buf) ?base) items (0, VMap ps, fs))
        (\<lambda>(_, r). run_back buf d (key_names (map bi_key items)) (\<lambda>M. bits_run tree_source M ?base items 0 ?c = Inr ctx') ctx' fs ps r)"
      using bits_run_back [OF run ok1 items fits f1 dr] ag1 agree_length [OF ag] mir1 fok by blast
    have "?base + nbytes \<le> limit" using len lim by simp
    then show ?thesis
      unfolding run_bits_def prod.case uenv.simps
    proof (rule tame_bind [OF tame_need])
      show "tame (bind_res (fold_res (bit_item_step (reader H buf) ?base) items (0, VMap ps, fs)) (\<lambda>(_, m, frames). Inr (?base + nbytes, m, [], frames)))
        (op_back buf d (key_names (map bi_key items)) (\<lambda>M. pack_bits tree_source M nbytes items ctx = Inr ctx') ctx' fs ps)"
        by (rule tame_bind [OF body]) (auto simp: run_back_def op_back_def len pk)
    qed
  qed
  ultimately show "below buf ctx' fs \<and> tame (run_bits (reader H buf) nbytes items limit (?base, VMap ps, [], fs))
      (op_back buf d (key_names (map bi_key items)) (\<lambda>M. pack_bits tree_source M nbytes items ctx = Inr ctx') ctx' fs ps)" by blast
qed

end
