(* ===== verification/Round_Flags.thy ===== *)
theory Round_Flags
  imports Round_Runs
begin

text \<open>
  A word of flags: each field owns a stretch of bits, so the word read back splits into the values
  it was put together from.
\<close>

definition flag_width :: "flag_item \<Rightarrow> nat" where
  "flag_width item = count_ones (drop_bit (fl_shift item) (fl_mask item))"

definition flag_bit :: "flag_item \<Rightarrow> nat \<Rightarrow> bool" where
  "flag_bit item n \<longleftrightarrow> fl_shift item \<le> n \<and> n < fl_shift item + flag_width item"

text \<open>The masks are disjoint stretches of bits inside the word, and the rest mask is beside them.\<close>

definition flag_ok :: "flag_item \<Rightarrow> bool" where
  "flag_ok item \<longleftrightarrow> 0 < flag_width item \<and> fl_shift item + flag_width item \<le> 64 \<and>
     fl_mask item = push_bit (fl_shift item) (Bit_Operations.mask (flag_width item))"

definition flags_ok :: "int_prim \<Rightarrow> flag_item list \<Rightarrow> rest_policy \<Rightarrow> 64 word \<Rightarrow> bool" where
  "flags_ok prim items rest rest_mask \<longleftrightarrow>
     list_all (\<lambda>i. flag_ok i \<and> fl_shift i + flag_width i \<le> 8 * prim_width prim \<and> fl_mask i AND rest_mask = 0) items \<and>
     sorted_wrt (\<lambda>i j. fl_mask i AND fl_mask j = 0) items \<and>
     distinct (map fl_key items) \<and> (rest = Keep \<longrightarrow> ''_rest'' \<notin> set (map fl_key items)) \<and>
     take_bit (8 * prim_width prim) rest_mask = rest_mask"

lemma bit_flag_mask: "flag_ok item \<Longrightarrow> bit (fl_mask item) n \<longleftrightarrow> flag_bit item n"
proof -
  assume ok: "flag_ok item"
  then have m: "fl_mask item = push_bit (fl_shift item) (Bit_Operations.mask (flag_width item))"
    and w: "fl_shift item + flag_width item \<le> 64" by (simp_all add: flag_ok_def)
  show ?thesis unfolding m flag_bit_def bit_push_mask using w by auto
qed

definition within :: "64 word \<Rightarrow> 64 word \<Rightarrow> bool" where
  "within c m \<longleftrightarrow> (\<forall>n. bit c n \<longrightarrow> bit m n)"

lemma bit_word_of_small:
  assumes "0 \<le> v" and "v < 2 ^ w" and "w \<le> 64" and "bit (word_of_int v :: 64 word) n"
  shows "n < w"
proof -
  have "take_bit w v = v" using assms(1,2) by (simp add: take_bit_int_eq_self)
  moreover have "bit v n" using assms(4) by (simp add: bit_word_of_int_iff)
  ultimately show ?thesis by (metis bit_take_bit_iff)
qed

lemma flag_bound:
  assumes "\<not> uint (push_bit (w mod 64) 1 - 1 :: 64 word) < v" and "w \<le> 64" and "0 \<le> v"
  shows "v < 2 ^ w \<and> v < 2 ^ 64"
proof (cases "w = 64")
  case True
  then show ?thesis using assms by simp
next
  case False
  then have w: "w < 64" using assms(2) by simp
  have "(push_bit w 1 - 1 :: 64 word) = Bit_Operations.mask w" by (simp add: mask_eq_exp_minus_1)
  also have "\<dots> = take_bit w (word_of_int (- 1))" by (simp add: take_bit_minus_one_eq_mask)
  finally have "uint (push_bit w 1 - 1 :: 64 word) = take_bit w (- 1)"
    using uint_take_bit_word_of_int [OF assms(2), of "- 1"] by simp
  then have "uint (push_bit w 1 - 1 :: 64 word) = 2 ^ w - 1" by (simp add: take_bit_minus_one_eq_mask mask_eq_exp_minus_1)
  then have "v < 2 ^ w" using assms(1) w by simp
  moreover have "(2 :: int) ^ w \<le> 2 ^ 64" using w by (intro power_increasing) simp_all
  ultimately show ?thesis by linarith
qed

text \<open>One field: what it adds to the word, and that this is what the field of any word with those bits
  gives back.\<close>

lemma flag_step_back:
  assumes st: "flag_step S view item raw = Inr raw'" and ok: "flag_ok item"
  obtains c where "raw' = raw OR c" "\<And>n. bit c n \<Longrightarrow> bit (fl_mask item) n"
    "\<And>final M r. final AND fl_mask item = c \<Longrightarrow> map_of M (fl_key item) = Some (flag_value value_builder final item) \<Longrightarrow>
       flag_step tree_source M item r = Inr (r OR c)"
proof (cases "fl_is_bool item")
  case True
  obtain b where b: "raw' = (if b then raw OR fl_mask item else raw)"
    using st True by (auto simp: flag_step_def Let_def bind_res_eq_Inr)
  have "bit (fl_mask item) (fl_shift item)" using ok unfolding bit_flag_mask [OF ok] flag_bit_def by (simp add: flag_ok_def)
  then have "bit (drop_bit (fl_shift item) (fl_mask item)) 0" by (simp add: bit_drop_bit_eq)
  then have ne: "drop_bit (fl_shift item) (fl_mask item) \<noteq> 0" by (rule contrapos_pn) simp
  let ?c = "if b then fl_mask item else 0"
  show ?thesis
  proof (rule that)
    show "raw' = raw OR ?c" by (simp add: b)
    show "bit (fl_mask item) n" if "bit ?c n" for n using that by (simp split: if_splits)
    fix final M r
    assume final: "final AND fl_mask item = ?c" and M: "map_of M (fl_key item) = Some (flag_value value_builder final item)"
    have "flag_value value_builder final item = VBool b"
      unfolding flag_value_def Let_def final using True ne by simp
    then show "flag_step tree_source M item r = Inr (r OR ?c)" using M True by (simp add: flag_step_def Let_def)
  qed
next
  case False
  obtain v where v: "0 \<le> v" "\<not> uint (push_bit (flag_width item mod 64) 1 - 1 :: 64 word) < v"
    and raw': "raw' = raw OR push_bit (fl_shift item) (word_of_int v)"
  proof -
    let ?m = "case s_view_get S view (fl_key item) of None \<Rightarrow> Inr 0 | Some x \<Rightarrow> ok_or (pfail KType) (s_as_int S x)"
    from st False obtain v where "?m = Inr v" and
      "(if v < 0 \<or> uint (push_bit (flag_width item mod 64) 1 - 1 :: 64 word) < v then Inl (Fail (pfail KRange))
        else Inr (raw OR push_bit (fl_shift item) (word_of_int v))) = (Inr raw' :: 64 word pres)"
      unfolding flag_step_def Let_def flag_width_def by (auto simp only: bind_res_eq_Inr if_False)
    then show thesis using that [of v] by (simp only: not_less de_Morgan_disj split: if_splits) auto
  qed
  have w: "fl_shift item + flag_width item \<le> 64" using ok by (simp add: flag_ok_def)
  then have vb: "v < 2 ^ flag_width item" "v < 2 ^ 64" using flag_bound [OF v(2) _ v(1)] by simp_all
  have small: "n < flag_width item" if "bit (word_of_int v :: 64 word) n" for n
    using bit_word_of_small [OF v(1) vb(1) _ that] w by simp
  let ?c = "push_bit (fl_shift item) (word_of_int v) :: 64 word"
  have sub: "bit (fl_mask item) n" if "bit ?c n" for n
    using that small [of "n - fl_shift item"] by (auto simp: bit_flag_mask [OF ok] flag_bit_def bit_push_bit_iff)
  have drop: "drop_bit (fl_shift item) ?c = word_of_int v"
  proof (rule bit_word_eqI)
    fix n
    show "bit (drop_bit (fl_shift item) ?c) n \<longleftrightarrow> bit (word_of_int v :: 64 word) n"
      using small [of n] w by (auto simp: bit_drop_bit_eq bit_push_bit_iff)
  qed
  have "uint (word_of_int v :: 64 word) = v" using v(1) vb(2) by (simp add: uint_word_of_int_eq take_bit_int_eq_self)
  then have val: "flag_value value_builder final item = VInt v" if "final AND fl_mask item = ?c" for final
    using that False drop by (simp add: flag_value_def Let_def)
  show ?thesis
    by (rule that [of ?c]) (use False raw' sub val v in \<open>auto simp: flag_step_def Let_def flag_width_def\<close>)
qed

definition flag_union :: "flag_item list \<Rightarrow> nat \<Rightarrow> bool" where
  "flag_union items n \<longleftrightarrow> (\<exists>i\<in>set items. bit (fl_mask i) n)"

lemma flags_fold_back:
  assumes "fold_res (flag_step S view) items raw = Inr raw'" and "list_all flag_ok items"
    and "sorted_wrt (\<lambda>i j. fl_mask i AND fl_mask j = 0) items"
  obtains c where "raw' = raw OR c" "\<And>n. bit c n \<Longrightarrow> flag_union items n"
    "\<And>final M r. (\<And>n. flag_union items n \<Longrightarrow> bit final n = bit c n) \<Longrightarrow>
       (\<And>i. i \<in> set items \<Longrightarrow> map_of M (fl_key i) = Some (flag_value value_builder final i)) \<Longrightarrow>
       fold_res (flag_step tree_source M) items r = Inr (r OR c)"
  using assms
proof (induction items arbitrary: raw thesis)
  case Nil
  then show ?case by (auto simp: flag_union_def intro: Nil.prems(1) [of 0])
next
  case (Cons i items)
  from Cons.prems(2) obtain r1 where s1: "flag_step S view i raw = Inr r1" and s2: "fold_res (flag_step S view) items r1 = Inr raw'"
    by (auto simp: bind_res_eq_Inr)
  have ok: "flag_ok i" "list_all flag_ok items" "sorted_wrt (\<lambda>i j. fl_mask i AND fl_mask j = 0) items"
    using Cons.prems(3,4) by simp_all
  obtain c where c: "r1 = raw OR c" "\<And>n. bit c n \<Longrightarrow> bit (fl_mask i) n"
    "\<And>final M r. final AND fl_mask i = c \<Longrightarrow> map_of M (fl_key i) = Some (flag_value value_builder final i) \<Longrightarrow>
       flag_step tree_source M i r = Inr (r OR c)"
    using flag_step_back [OF s1 ok(1)] by metis
  obtain e where e: "raw' = r1 OR e" "\<And>n. bit e n \<Longrightarrow> flag_union items n"
    "\<And>final M r. (\<And>n. flag_union items n \<Longrightarrow> bit final n = bit e n) \<Longrightarrow>
       (\<And>i. i \<in> set items \<Longrightarrow> map_of M (fl_key i) = Some (flag_value value_builder final i)) \<Longrightarrow>
       fold_res (flag_step tree_source M) items r = Inr (r OR e)"
    using Cons.IH [OF _ s2 ok(2,3)] by metis
  have apart: "\<not> flag_union items n" if "bit (fl_mask i) n" for n
  proof
    assume "flag_union items n"
    then obtain j where j: "j \<in> set items" "bit (fl_mask j) n" by (auto simp: flag_union_def)
    then have "fl_mask i AND fl_mask j = 0" using Cons.prems(4) by simp
    then have "\<not> bit (fl_mask i AND fl_mask j) n" by simp
    then show False using that j(2) by (simp add: bit_and_iff)
  qed
  show ?case
  proof (rule Cons.prems(1) [of "c OR e"])
    show "raw' = raw OR (c OR e)" using c(1) e(1) by (simp add: or.assoc)
    show "flag_union (i # items) n" if "bit (c OR e) n" for n
      using that c(2) [of n] e(2) [of n] by (auto simp: bit_or_iff flag_union_def)
    show "fold_res (flag_step tree_source M) (i # items) r = Inr (r OR (c OR e))"
      if final: "\<And>n. flag_union (i # items) n \<Longrightarrow> bit final n = bit (c OR e) n"
        and M: "\<And>j. j \<in> set (i # items) \<Longrightarrow> map_of M (fl_key j) = Some (flag_value value_builder final j)" for final M r
    proof -
      have "final AND fl_mask i = c"
      proof (rule bit_eqI)
        fix n
        show "bit (final AND fl_mask i) n = bit c n"
          using final [of n] apart [of n] c(2) [of n] e(2) [of n] by (auto simp: bit_and_iff bit_or_iff flag_union_def)
      qed
      then have "flag_step tree_source M i r = Inr (r OR c)" using c(3) M by simp
      moreover have "fold_res (flag_step tree_source M) items (r OR c) = Inr ((r OR c) OR e)"
      proof (rule e(3))
        show "bit final n = bit e n" if "flag_union items n" for n
          using final [of n] apart [of n] c(2) [of n] that by (auto simp: bit_or_iff flag_union_def)
        show "map_of M (fl_key j) = Some (flag_value value_builder final j)" if "j \<in> set items" for j using M that by simp
      qed
      ultimately show ?thesis by (simp add: or.assoc)
    qed
  qed
qed

section \<open>Values\<close>

text \<open>What a value leaves: the unpacker stands where the packer does, no register has changed, and the
  value repacks to the packer's state.\<close>

definition value_back :: "bytes \<Rightarrow> nat \<Rightarrow> (val_tree \<Rightarrow> bool) \<Rightarrow> pctx \<Rightarrow> frame list \<Rightarrow> val_tree \<times> nat \<times> frame list \<Rightarrow> bool" where
  "value_back buf d repacks ctx' fs r = (case r of (w, pos, fs') \<Rightarrow>
     pos = length (pc_out ctx') \<and> frames_ok (length buf) d fs' \<and> map fr_regs fs' = map fr_regs fs \<and>
     distinct_keys w \<and> repacks w)"

definition val_mirror :: "hashes \<Rightarrow> nat \<Rightarrow> bool \<Rightarrow> val_tree pvalue \<Rightarrow> ((val_tree, val_tree, val_tree list) uenv \<Rightarrow> val_tree uvalue) \<Rightarrow>
    val_tree \<Rightarrow> bool" where
  "val_mirror H d sd pack unpack v \<longleftrightarrow>
     (\<forall>ctx ctx'. pack v ctx = Inr ctx' \<longrightarrow> pctx_ok d ctx \<longrightarrow> tidy ctx \<longrightarrow>
        moves {} {} d ctx ctx' \<and>
        (\<forall>buf fs limit. agree buf ctx' \<longrightarrow> mirrors buf ctx fs \<longrightarrow> frames_ok (length buf) d fs \<longrightarrow>
           length (pc_out ctx') \<le> limit \<longrightarrow> limit \<le> length buf \<longrightarrow> length buf < usize_max \<longrightarrow>
           (\<not> sd \<longrightarrow> limit = length (pc_out ctx')) \<longrightarrow>
           mirrors buf ctx' fs \<and>
           tame (unpack (reader H buf) fs (length (pc_out ctx)) limit)
             (value_back buf d (\<lambda>w. pack w ctx = Inr ctx') ctx' fs)))"

lemma val_mirrorI:
  assumes "\<And>ctx ctx'. pack v ctx = Inr ctx' \<Longrightarrow> pctx_ok d ctx \<Longrightarrow> tidy ctx \<Longrightarrow> moves {} {} d ctx ctx'"
    and "\<And>ctx ctx' buf fs limit. pack v ctx = Inr ctx' \<Longrightarrow> pctx_ok d ctx \<Longrightarrow> tidy ctx \<Longrightarrow> moves {} {} d ctx ctx' \<Longrightarrow>
      agree buf ctx' \<Longrightarrow> mirrors buf ctx fs \<Longrightarrow> frames_ok (length buf) d fs \<Longrightarrow>
      length (pc_out ctx') \<le> limit \<Longrightarrow> limit \<le> length buf \<Longrightarrow> length buf < usize_max \<Longrightarrow> (\<not> sd \<Longrightarrow> limit = length (pc_out ctx')) \<Longrightarrow>
      mirrors buf ctx' fs \<and> tame (unpack (reader H buf) fs (length (pc_out ctx)) limit)
        (value_back buf d (\<lambda>w. pack w ctx = Inr ctx') ctx' fs)"
  shows "val_mirror H d sd pack unpack v"
  unfolding val_mirror_def using assms by blast

lemma val_mirrorD:
  assumes "val_mirror H d sd pack unpack v" and "pack v ctx = Inr ctx'" and "pctx_ok d ctx" and "tidy ctx"
  shows "moves {} {} d ctx ctx'"
    and "agree buf ctx' \<Longrightarrow> mirrors buf ctx fs \<Longrightarrow> frames_ok (length buf) d fs \<Longrightarrow>
      length (pc_out ctx') \<le> limit \<Longrightarrow> limit \<le> length buf \<Longrightarrow> length buf < usize_max \<Longrightarrow> (\<not> sd \<Longrightarrow> limit = length (pc_out ctx')) \<Longrightarrow>
      mirrors buf ctx' fs \<and> tame (unpack (reader H buf) fs (length (pc_out ctx)) limit)
        (value_back buf d (\<lambda>w. pack w ctx = Inr ctx') ctx' fs)"
  using assms unfolding val_mirror_def by blast+

text \<open>Bytes appended at the end of the output are in the finished buffer.\<close>

lemma appended_slice:
  assumes "agree buf (extended b ctx)" and "pctx_ok d ctx"
  shows "slice_res buf (length (pc_out ctx)) (length (pc_out ctx) + length b) = (Inr b :: bytes ures)"
proof -
  let ?c = "extended b ctx" and ?pos = "length (pc_out ctx)"
  have "sbit (pc_out ?c) p = sbit buf p" if "p \<in> byte_bits ?pos (length b)" for p
    using assms(1) that open_bits_bound [OF assms(2), of p] by (auto simp: agree_def agree_on_def byte_bits_def)
  moreover have "?pos + length b \<le> length (pc_out ?c)" "?pos + length b \<le> length buf" using assms(1) by (simp_all add: agree_def)
  ultimately have "take (length b) (drop ?pos (pc_out ?c)) = take (length b) (drop ?pos buf)" by (rule bytes_eqI)
  then show ?thesis using assms(1) by (simp add: agree_def extended_def)
qed

lemma splice_end: "splice_res (xs @ replicate (length b) 0) (length xs) b = (Inr (xs @ b) :: ('e, _) res)"
  by (simp add: splice_res_def)

definition flag_map :: "flag_item list \<Rightarrow> rest_policy \<Rightarrow> 64 word \<Rightarrow> 64 word \<Rightarrow> val_tree" where
  "flag_map items rest rest_mask raw =
     (let fm = foldl (\<lambda>m item. value_insert m (fl_key item) (flag_value value_builder raw item)) (VMap []) items
      in if rest = Keep then value_insert fm ''_rest'' (VInt (uint (raw AND rest_mask))) else fm)"

lemma flags_word_back:
  assumes fw: "flags_word tree_source items rest rest_mask view = Inr raw" and ok: "flags_ok prim items rest rest_mask"
  shows "take_bit (8 * prim_width prim) raw = raw" and "rest \<noteq> Keep \<Longrightarrow> raw AND rest_mask = 0"
    and "distinct_keys (flag_map items rest rest_mask raw)"
    and "\<exists>M. flag_map items rest rest_mask raw = VMap M \<and> flags_word tree_source items rest rest_mask M = Inr raw"
proof -
  have items: "list_all flag_ok items" "sorted_wrt (\<lambda>i j. fl_mask i AND fl_mask j = 0) items"
    and out: "\<And>i. i \<in> set items \<Longrightarrow> fl_mask i AND rest_mask = 0" "\<And>i. i \<in> set items \<Longrightarrow> fl_shift i + flag_width i \<le> 8 * prim_width prim"
    and dk: "distinct (map fl_key items)" "rest = Keep \<Longrightarrow> ''_rest'' \<notin> set (map fl_key items)"
    and rm: "take_bit (8 * prim_width prim) rest_mask = rest_mask"
    using ok by (auto simp: flags_ok_def list_all_iff)
  obtain r0 where f: "fold_res (flag_step tree_source view) items 0 = Inr r0"
    using fw by (auto simp: flags_word_def bind_res_eq_Inr split: if_splits)
  obtain c where c: "r0 = 0 OR c" "\<And>n. bit c n \<Longrightarrow> flag_union items n"
    "\<And>final M r. (\<And>n. flag_union items n \<Longrightarrow> bit final n = bit c n) \<Longrightarrow>
       (\<And>i. i \<in> set items \<Longrightarrow> map_of M (fl_key i) = Some (flag_value value_builder final i)) \<Longrightarrow>
       fold_res (flag_step tree_source M) items r = Inr (r OR c)"
    using flags_fold_back [OF f items] by metis
  have r0: "r0 = c" using c(1) by simp
  define left where "left = (if rest = Keep then raw AND rest_mask else 0)"
  have sep: "\<not> bit rest_mask n" if un: "flag_union items n" for n
  proof -
    obtain i where i: "i \<in> set items" "bit (fl_mask i) n" using un by (auto simp: flag_union_def)
    then have "\<not> bit (fl_mask i AND rest_mask) n" using out(1) by simp
    then show ?thesis using i(2) by (simp add: bit_and_iff)
  qed
  have raw: "raw = c OR left" and left_rm: "bit left n \<Longrightarrow> bit rest_mask n" for n
  proof -
    show "bit left n \<Longrightarrow> bit rest_mask n" by (auto simp: left_def bit_and_iff split: if_splits)
    show "raw = c OR left"
    proof (cases "rest = Keep")
      case True
      then obtain k where "raw = c OR (word_of_int k AND rest_mask)"
        using fw f by (auto simp: flags_word_def bind_res_eq_Inr r0 split: if_splits)
      moreover from this have "raw AND rest_mask = word_of_int k AND rest_mask"
        using c(2) sep by (intro bit_eqI) (auto simp: bit_and_iff bit_or_iff)
      ultimately show ?thesis using True by (simp add: left_def)
    next
      case False
      then show ?thesis using fw f by (auto simp: flags_word_def bind_res_eq_Inr r0 left_def split: if_splits)
    qed
  qed
  have agree: "bit raw n = bit c n" if "flag_union items n" for n
    using sep [OF that] left_rm [of n] by (auto simp: raw bit_or_iff)
  have small: "n < 8 * prim_width prim" if "bit raw n" for n
  proof (cases "bit c n")
    case True
    then obtain i where "i \<in> set items" "bit (fl_mask i) n" using c(2) by (auto simp: flag_union_def)
    then show ?thesis using out(2) items(1) bit_flag_mask [of i n] by (force simp: list_all_iff flag_bit_def)
  next
    case False
    then have "bit rest_mask n" using that left_rm by (auto simp: raw bit_or_iff)
    then show ?thesis using rm by (metis bit_take_bit_iff)
  qed
  let ?es = "map (\<lambda>i. (fl_key i, flag_value value_builder raw i)) items"
  have fold: "foldl (\<lambda>m item. value_insert m (fl_key item) (flag_value value_builder raw item)) (VMap ps) items = VMap (ps @ ?es)" for ps
    by (induction items arbitrary: ps) simp_all
  have fv: "distinct_keys (flag_value value_builder raw i)" for i by (simp add: flag_value_def Let_def)
  have look: "map_of (?es @ xs) (fl_key i) = Some (flag_value value_builder raw i)" if "i \<in> set items" for i xs
  proof -
    have "distinct (map fst ?es)" using dk(1) by (simp add: comp_def)
    then have "map_of ?es (fl_key i) = Some (flag_value value_builder raw i)" using that by (intro map_of_is_SomeI) auto
    then show ?thesis by (simp add: map_add_Some_iff)
  qed
  show "take_bit (8 * prim_width prim) raw = raw"
    by (rule bit_word_eqI) (use small in \<open>auto simp: bit_take_bit_iff\<close>)
  show "raw AND rest_mask = 0" if "rest \<noteq> Keep"
    using that c(2) sep by (intro bit_eqI) (auto simp: raw left_def bit_and_iff)
  have "distinct_keys (flag_map items rest rest_mask raw) \<and>
    (\<exists>M. flag_map items rest rest_mask raw = VMap M \<and> flags_word tree_source items rest rest_mask M = Inr raw)"
  proof -
    let ?xs = "if rest = Keep then [(''_rest'', VInt (uint (raw AND rest_mask)))] else []"
    have mM: "flag_map items rest rest_mask raw = VMap (?es @ ?xs)" using fold [of "[]"] by (simp add: flag_map_def Let_def)
    have dist: "distinct_keys (flag_map items rest rest_mask raw)" using dk fv by (auto simp: mM comp_def list_all_iff)
    have steps: "fold_res (flag_step tree_source (?es @ ?xs)) items 0 = Inr c"
      using c(3) [OF agree look, of ?xs 0] by simp
    have rest: "map_of (?es @ ?xs) ''_rest'' = Some (VInt (uint (raw AND rest_mask)))" if "rest = Keep"
    proof -
      have "map_of ?es ''_rest'' = None" using dk(2) [OF that] by (auto simp: map_of_eq_None_iff)
      then show ?thesis using that by (simp add: map_add_def)
    qed
    have keep: "uint (raw AND rest_mask) < 2 ^ 64" "(raw AND rest_mask) AND NOT rest_mask = 0" "(raw AND rest_mask) AND rest_mask = raw AND rest_mask"
      using uint_bounded [of "raw AND rest_mask"] by (simp_all add: and.assoc)
    have keys: "list_all (\<lambda>k. list_ex (\<lambda>i. fl_key i = k) items \<or> (rest = Keep \<and> k = ''_rest'')) (s_view_keys tree_source (?es @ ?xs))"
      by (auto simp: list_all_iff list_ex_iff)
    have "flags_word tree_source items rest rest_mask (?es @ ?xs) = Inr raw"
    proof (cases "rest = Keep")
      case True
      have "s_view_get tree_source (?es @ ?xs) ''_rest'' = Some (VInt (uint (raw AND rest_mask)))" using rest [OF True] by simp
      then have "flags_word tree_source items rest rest_mask (?es @ ?xs) = Inr (c OR ((raw AND rest_mask) AND rest_mask))"
        using True keys keep unfolding flags_word_def steps by simp
      also have "c OR ((raw AND rest_mask) AND rest_mask) = raw" using raw True keep(3) by (simp add: left_def)
      finally show ?thesis .
    next
      case False
      then have "c = raw" using raw by (simp add: left_def)
      then show ?thesis using False keys unfolding flags_word_def steps by simp
    qed
    then show ?thesis using dist mM by blast
  qed
  then show "distinct_keys (flag_map items rest rest_mask raw)"
    and "\<exists>M. flag_map items rest rest_mask raw = VMap M \<and> flags_word tree_source items rest rest_mask M = Inr raw" by blast+
qed

end
