(* ===== verification/Round_Values.thy ===== *)
theory Round_Values
  imports Round_Flags
begin

text \<open>
  Values packed and read back, one kind at a time: bytes and texts with their lengths, flags, and
  the composite values over what they hold.
\<close>

section \<open>Bytes and texts\<close>

lemma blob_mirror:
  assumes p: "pack_blob len mx b ctx = Inr ctx'" and ok: "pctx_ok d ctx" "tidy ctx" "len_src_ok d len"
  shows "moves {} {} d ctx ctx'" and "length (pc_out ctx') = length (pc_out ctx) + length b"
    and "agree buf ctx' \<Longrightarrow> mirrors buf ctx fs \<Longrightarrow> frames_ok (length buf) d fs \<Longrightarrow> len_reads len \<Longrightarrow>
      (len = LenGreedy \<Longrightarrow> limit = length (pc_out ctx')) \<Longrightarrow>
      mirrors buf ctx' fs \<and> slice_res buf (length (pc_out ctx)) (length (pc_out ctx) + length b) = (Inr b :: bytes ures) \<and>
      tame (resolve_len fs len mx (length (pc_out ctx)) limit) (\<lambda>n. n = length b)"
proof -
  let ?c = "extended b ctx" and ?pos = "length (pc_out ctx)"
  have mx: "length b \<le> mx" and room: "roomy (length b) ctx" and fin: "finish_len len (length b) ?c = Inr ctx'"
    using p by (auto simp: pack_blob_def bind_res_eq_Inr append_Inr split: if_splits)
  have m0: "moves {} {} d ctx ?c" by (rule moves_extended [OF ok(1,2) room])
  have ok1: "pctx_ok d ?c" "tidy ?c" using m0 by (simp_all add: moves_def)
  note lm = len_mirror [OF fin ok1 ok(3)]
  show m: "moves {} {} d ctx ctx'" by (rule moves_trans [OF m0 lm(1)])
  show len': "length (pc_out ctx') = ?pos + length b" using safe_finish_len [OF ok1(1) ok(3), of "length b"] fin by (simp add: stays_def)
  show "mirrors buf ctx' fs \<and> slice_res buf ?pos (?pos + length b) = (Inr b :: bytes ures) \<and>
      tame (resolve_len fs len mx ?pos limit) (\<lambda>n. n = length b)"
    if ag: "agree buf ctx'" and mir: "mirrors buf ctx fs" and fok: "frames_ok (length buf) d fs" and rd: "len_reads len"
      and greedy: "len = LenGreedy \<Longrightarrow> limit = length (pc_out ctx')"
  proof -
    have mir1: "mirrors buf ?c fs" using mir by simp
    have "slice_res buf ?pos (?pos + length b) = (Inr b :: bytes ures)"
      by (rule appended_slice [OF agree_back [OF lm(1) ag] ok(1)])
    moreover have "tame (resolve_len fs len mx ?pos limit) (\<lambda>n. n = length b)"
    proof (cases len)
      case LenGreedy
      then show ?thesis using greedy len' mx by (simp add: resolve_len_def)
    next
      case (LenExpr e iv)
      have "eval fs e ?pos = Inr (int (length b)) \<or> eval fs e ?pos = Inl (Fail (invalid_at KOverflow ?pos))"
        by (rule lm(3) [OF ag mir1 fok rd LenExpr])
      then show ?thesis using mx LenExpr by (auto simp: resolve_len_def eval_len_def)
    qed
    ultimately show ?thesis using lm(2) [OF ag mir1] by blast
  qed
qed

lemma val_mirror_blob:
  assumes len: "len_src_ok d len" "len_reads len" and sd: "len = LenGreedy \<Longrightarrow> \<not> sd"
    and pack: "\<And>ctx ctx'. pack v ctx = Inr ctx' \<Longrightarrow> \<exists>b. pack_blob len mx b ctx = Inr ctx' \<and>
      (\<exists>w. mk b = Some w \<and> distinct_keys w \<and> pack w ctx = pack_blob len mx b ctx)"
    and unpack: "\<And>buf fs pos limit. unpack (reader H buf) fs pos limit =
      bind_res (resolve_len fs len mx pos limit) (\<lambda>n. bind_res (need buf pos limit n) (\<lambda>_.
        bind_res (slice_res buf pos (pos + n)) (\<lambda>raw. bind_res (ok_or (invalid_at KDecode pos) (mk raw)) (\<lambda>w. Inr (w, pos + n, fs)))))"
  shows "val_mirror H d sd pack unpack v"
proof (rule val_mirrorI)
  fix ctx ctx' :: pctx
  assume p: "pack v ctx = Inr ctx'" and ok: "pctx_ok d ctx" "tidy ctx"
  from pack [OF p] obtain b w where b: "pack_blob len mx b ctx = Inr ctx'"
    and w: "mk b = Some w" "distinct_keys w" "pack w ctx = pack_blob len mx b ctx" by blast
  note bm = blob_mirror [OF b ok len(1)]
  show "moves {} {} d ctx ctx'" by (rule bm(1))
  fix buf fs limit
  assume ag: "agree buf ctx'" and mir: "mirrors buf ctx fs" and fok: "frames_ok (length buf) d fs"
    and lim: "length (pc_out ctx') \<le> limit" "\<not> sd \<Longrightarrow> limit = length (pc_out ctx')"
  have bb: "mirrors buf ctx' fs" "slice_res buf (length (pc_out ctx)) (length (pc_out ctx) + length b) = (Inr b :: bytes ures)"
    "tame (resolve_len fs len mx (length (pc_out ctx)) limit) (\<lambda>n. n = length b)"
    using bm(3) [OF ag mir fok len(2)] lim(2) sd by blast+
  have fit: "length (pc_out ctx) + length b \<le> limit" using bm(2) lim(1) by simp
  have "tame (unpack (reader H buf) fs (length (pc_out ctx)) limit) (value_back buf d (\<lambda>w. pack w ctx = Inr ctx') ctx' fs)"
    unfolding unpack
  proof (rule tame_bind [OF bb(3)], erule ssubst, rule tame_bind [OF tame_need [OF fit]])
    show "tame (bind_res (slice_res buf (length (pc_out ctx)) (length (pc_out ctx) + length b))
        (\<lambda>raw. bind_res (ok_or (invalid_at KDecode (length (pc_out ctx))) (mk raw)) (\<lambda>w. Inr (w, length (pc_out ctx) + length b, fs))))
      (value_back buf d (\<lambda>w. pack w ctx = Inr ctx') ctx' fs)"
      unfolding bb(2) using w b bm(2) fok by (simp add: value_back_def)
  qed
  then show "mirrors buf ctx' fs \<and> tame (unpack (reader H buf) fs (length (pc_out ctx)) limit)
      (value_back buf d (\<lambda>w. pack w ctx = Inr ctx') ctx' fs)" using bb(1) by blast
qed

lemma val_mirror_bytes:
  assumes "len_src_ok d len" "len_reads len"
  shows "val_mirror H d (len \<noteq> LenGreedy) (pack_value H tree_source (OpBytes len mx c)) (\<lambda>E. op_value E (OpBytes len mx c)) v"
proof (rule val_mirror_blob [OF assms, where mk = "\<lambda>b. Some (VBytes b)"])
  fix ctx ctx' :: pctx
  assume "pack_value H tree_source (OpBytes len mx c) v ctx = Inr ctx'"
  then show "\<exists>b. pack_blob len mx b ctx = Inr ctx' \<and> (\<exists>w. Some (VBytes b) = Some w \<and> distinct_keys w \<and>
      pack_value H tree_source (OpBytes len mx c) w ctx = pack_blob len mx b ctx)"
    by (auto simp: pack_value.simps bind_res_eq_Inr)
qed (simp_all add: op_value.simps)

text \<open>Every text of the value is a sequence of Unicode scalar values, as a Rust \<open>String\<close> is.\<close>

fun texts_ok :: "val_tree \<Rightarrow> bool" where
  "texts_ok (VStr s) \<longleftrightarrow> valid_str s"
| "texts_ok (VMap ps) \<longleftrightarrow> list_all (\<lambda>p. texts_ok (snd p)) ps"
| "texts_ok (VList vs) \<longleftrightarrow> list_all texts_ok vs"
| "texts_ok _ \<longleftrightarrow> True"

lemma texts_ok_str: "texts_ok v \<Longrightarrow> vs_as_str v = Some s \<Longrightarrow> valid_str s"
  by (cases v) auto

lemma texts_ok_get: "list_all (\<lambda>p. texts_ok (snd p)) M \<Longrightarrow> map_of M k = Some u \<Longrightarrow> texts_ok u"
  by (auto simp: list_all_iff dest!: map_of_SomeD)

lemma texts_ok_list: "texts_ok v \<Longrightarrow> vs_as_list v = Some vs \<Longrightarrow> list_all texts_ok vs"
  by (cases v) auto

lemma encoded_back:
  assumes "encoded tree_source e v = Inr b" and "texts_ok v"
  obtains s where "decode b e = Some s" "encoded tree_source e (VStr s) = Inr b"
proof -
  obtain s where s: "vs_as_str v = Some s" "encode s e = Some b" using assms(1) by (auto simp: encoded_def bind_res_eq_Inr)
  then have "decode b e = Some s" using decode_encode texts_ok_str [OF assms(2)] by blast
  then show thesis using that [of s] s(2) by (simp add: encoded_def)
qed

lemma val_mirror_str:
  assumes "len_src_ok d len" "len_reads len" and v: "texts_ok v"
  shows "val_mirror H d (len \<noteq> LenGreedy) (pack_value H tree_source (OpStr len mx e c)) (\<lambda>E. op_value E (OpStr len mx e c)) v"
proof (rule val_mirror_blob [OF assms(1,2), where mk = "\<lambda>b. map_option VStr (decode b e)"])
  fix ctx ctx' :: pctx
  assume p: "pack_value H tree_source (OpStr len mx e c) v ctx = Inr ctx'"
  then obtain b where b: "encoded tree_source e v = Inr b" "pack_blob len mx b ctx = Inr ctx'"
    by (auto simp: pack_value.simps bind_res_eq_Inr)
  from encoded_back [OF b(1) v] obtain s where "decode b e = Some s" "encoded tree_source e (VStr s) = Inr b" .
  then show "\<exists>b. pack_blob len mx b ctx = Inr ctx' \<and> (\<exists>w. map_option VStr (decode b e) = Some w \<and> distinct_keys w \<and>
      pack_value H tree_source (OpStr len mx e c) w ctx = pack_blob len mx b ctx)"
    using b(2) by (intro exI [of _ b]) (simp add: pack_value.simps)
next
  fix buf pos limit and fs :: "frame list"
  have dec: "bind_res (ok_or (invalid_at KDecode pos) (decode raw e)) (\<lambda>s. Inr (VStr s, q, fs)) =
      bind_res (ok_or (invalid_at KDecode pos) (map_option VStr (decode raw e))) (\<lambda>w. Inr (w, q, fs))" for raw q
    by (cases "decode raw e") simp_all
  show "op_value (reader H buf) (OpStr len mx e c) fs pos limit =
      bind_res (resolve_len fs len mx pos limit) (\<lambda>n. bind_res (need buf pos limit n) (\<lambda>_.
        bind_res (slice_res buf pos (pos + n)) (\<lambda>raw. bind_res (ok_or (invalid_at KDecode pos) (map_option VStr (decode raw e)))
          (\<lambda>w. Inr (w, pos + n, fs)))))"
    by (simp add: op_value.simps dec)
qed simp

lemma val_mirror_cstr:
  assumes v: "texts_ok v"
  shows "val_mirror H d True (pack_value H tree_source (OpCStr mx e c)) (\<lambda>E. op_value E (OpCStr mx e c)) v"
proof (rule val_mirrorI)
  fix ctx ctx' :: pctx
  assume p: "pack_value H tree_source (OpCStr mx e c) v ctx = Inr ctx'" and ok: "pctx_ok d ctx" "tidy ctx"
  from p obtain b where b: "encoded tree_source e v = Inr b" "\<not> list_ex (\<lambda>x. x = 0) b" "length b \<le> mx"
    and pc: "bind_res (append_bytes b ctx) (append_bytes [0]) = Inr ctx'"
    by (auto simp: pack_value.simps pack_cstr_def bind_res_eq_Inr split: if_splits)
  have room: "roomy (length (b @ [0])) ctx" and ctx': "ctx' = extended (b @ [0]) ctx"
    using pc by (auto simp: bind_res_eq_Inr append_Inr roomy_def extended_def)
  show "moves {} {} d ctx ctx'" unfolding ctx' by (rule moves_extended [OF ok room])
  from encoded_back [OF b(1) v] obtain s where s: "decode b e = Some s" "encoded tree_source e (VStr s) = Inr b" .
  fix buf fs limit
  assume ag: "agree buf ctx'" and mir: "mirrors buf ctx fs" and fok: "frames_ok (length buf) d fs"
    and lim: "length (pc_out ctx') \<le> limit" "limit \<le> length buf" "length buf < usize_max"
  let ?pos = "length (pc_out ctx)"
  have sl: "slice_res buf ?pos (?pos + length (b @ [0])) = (Inr (b @ [0]) :: bytes ures)"
    by (rule appended_slice) (use ag ok in \<open>simp_all add: ctx'\<close>)
  then have take: "take (length b + 1) (drop ?pos buf) = b @ [0]" by simp
  define scan where "scan = min (limit - ?pos) (saturating_add mx 1)"
  have scan: "length b + 1 \<le> scan" "?pos + scan \<le> length buf"
    using b(3) lim by (auto simp: scan_def saturating_add_def ctx')
  have "take scan (drop ?pos buf) = (b @ [0]) @ drop (length b + 1) (take scan (drop ?pos buf))"
    using append_take_drop_id [of "length b + 1" "take scan (drop ?pos buf)"] take scan(1) by (simp add: min_absorb2 min_absorb1)
  then obtain ys where ys: "take scan (drop ?pos buf) = (b @ [0]) @ ys" by blast
  have at: "position (\<lambda>x. x = 0) (take scan (drop ?pos buf)) = Some (length b)"
    unfolding ys append.assoc append.simps by (rule position_append_stop) (use b(2) in \<open>auto simp: list_all_iff list_ex_iff\<close>)
  have "take (length b) (drop ?pos buf) = b" using arg_cong [OF take, of "take (length b)"] by simp
  then have sl1: "slice_res buf ?pos (?pos + scan) = (Inr (take scan (drop ?pos buf)) :: bytes ures)"
    and sl2: "slice_res buf ?pos (?pos + length b) = (Inr b :: bytes ures)" using scan by (simp_all add: slice_res_def)
  have "do_cstr (reader H buf) mx e ?pos limit = Inr (VStr s, ?pos + length b + 1)"
    unfolding do_cstr_def Let_def uenv.simps scan_def [symmetric] sl1 bind_res_simps at option.case sl2 s(1) ok_or_simps by simp
  then have "op_value (reader H buf) (OpCStr mx e c) fs ?pos limit = Inr (VStr s, ?pos + length b + 1, fs)"
    by (simp add: op_value.simps)
  then show "mirrors buf ctx' fs \<and> tame (op_value (reader H buf) (OpCStr mx e c) fs ?pos limit)
      (value_back buf d (\<lambda>w. pack_value H tree_source (OpCStr mx e c) w ctx = Inr ctx') ctx' fs)"
    using mir fok s(2) b(2,3) pc by (simp add: value_back_def ctx' pack_value.simps pack_cstr_def)
qed

section \<open>Flags\<close>

lemma val_mirror_flags:
  assumes fl: "flags_ok prim items rest rest_mask"
  shows "val_mirror H d True (pack_value H tree_source (OpFlags prim be items rest rest_mask c))
    (\<lambda>E. op_value E (OpFlags prim be items rest rest_mask c)) v"
proof (rule val_mirrorI)
  let ?op = "OpFlags prim be items rest rest_mask c" and ?w = "prim_width prim"
  fix ctx ctx' :: pctx
  assume p: "pack_value H tree_source ?op v ctx = Inr ctx'" and ok: "pctx_ok d ctx" "tidy ctx"
  let ?pos = "length (pc_out ctx)"
  have room: "roomy ?w ctx"
    using p grow_Inr [OF _ pctx_ok_length [OF ok(1)] prim_width_le] by (auto simp: pack_value.simps pack_flags_def Let_def bind_res_eq_Inr)
  have pf: "pack_flags tree_source prim be items rest rest_mask (VMap M) ctx = Inr (extended (write_uint_slice ?w be raw) ctx)"
    if "flags_word tree_source items rest rest_mask M = Inr raw" for M raw
  proof -
    have sp: "splice_res (pc_out ctx @ replicate ?w 0) ?pos (write_uint_slice ?w be raw) = (Inr (pc_out ctx @ write_uint_slice ?w be raw) :: bytes pres)"
      using splice_end [of "pc_out ctx" "write_uint_slice ?w be raw"] by simp
    show ?thesis using that by (simp add: pack_flags_def Let_def grow_roomy [OF room] write_uint_at_def extended_def sp)
  qed
  from p obtain M raw where M: "v = VMap M" and fw: "flags_word tree_source items rest rest_mask M = Inr raw"
    by (cases v) (auto simp: pack_value.simps pack_flags_def bind_res_eq_Inr)
  have ctx': "ctx' = extended (write_uint_slice ?w be raw) ctx"
    using p pf [OF fw] by (simp add: M pack_value.simps)
  show "moves {} {} d ctx ctx'" unfolding ctx' by (rule moves_extended [OF ok]) (simp add: room)
  note fb = flags_word_back [OF fw fl]
  fix buf fs limit
  assume ag: "agree buf ctx'" and mir: "mirrors buf ctx fs" and fok: "frames_ok (length buf) d fs" and lim: "length (pc_out ctx') \<le> limit"
  have sl: "slice_res buf ?pos (?pos + ?w) = (Inr (write_uint_slice ?w be raw) :: bytes ures)"
    using appended_slice [OF _ ok(1), of buf "write_uint_slice ?w be raw"] ag by (simp add: ctx')
  have "take_bit (8 * ?w) (uint raw) = uint raw" using fb(1) by (metis unsigned_take_bit_eq)
  then have "uint raw < 2 ^ (8 * ?w)" by (metis take_bit_int_less_exp)
  then have rd: "read_uint (write_uint_slice ?w be raw) be = raw" by (rule uint_codec.dec_enc)
  let ?m = "flag_map items rest rest_mask raw"
  from fb(4) obtain M' where M': "?m = VMap M'" "flags_word tree_source items rest rest_mask M' = Inr raw" by blast
  have need: "?pos + ?w \<le> limit" using lim by (simp add: ctx')
  have body: "bind_res (slice_res buf ?pos (?pos + ?w)) (\<lambda>raw_bytes.
        let raw = read_uint raw_bytes be;
            fmap = foldl (\<lambda>m item. b_map_set value_builder m (fl_key item) (flag_value value_builder raw item)) (b_map_new value_builder (length items + 1)) items;
            leftover = raw AND rest_mask
        in case rest of
             Keep \<Rightarrow> Inr (b_map_finish value_builder (b_map_set value_builder fmap ''_rest'' (b_int value_builder (uint leftover))), ?pos + ?w)
           | Strict \<Rightarrow> if leftover \<noteq> 0 then Inl (Fail (invalid_at KReservedBits ?pos)) else Inr (b_map_finish value_builder fmap, ?pos + ?w)
           | Ignore \<Rightarrow> Inr (b_map_finish value_builder fmap, ?pos + ?w)) = (Inr (?m, ?pos + ?w) :: _ ures)"
    unfolding sl using fb(2) by (cases rest) (simp_all add: rd flag_map_def)
  have "do_flags (reader H buf) prim be items rest rest_mask ?pos limit = bind_res (need buf ?pos limit ?w) (\<lambda>_. Inr (?m, ?pos + ?w))"
    unfolding do_flags_def Let_def [of "prim_width prim"] uenv.simps Let_def [of value_builder] body ..
  then have un: "op_value (reader H buf) ?op fs ?pos limit = bind_res (need buf ?pos limit ?w) (\<lambda>_. Inr (?m, ?pos + ?w, fs))"
    by (simp add: op_value.simps bind_res_assoc)
  have "tame (op_value (reader H buf) ?op fs ?pos limit) (value_back buf d (\<lambda>w. pack_value H tree_source ?op w ctx = Inr ctx') ctx' fs)"
    unfolding un
  proof (rule tame_bind [OF tame_need [OF need]])
    have "pack_value H tree_source ?op ?m ctx = Inr ctx'" unfolding M'(1) using pf [OF M'(2)] by (simp add: pack_value.simps ctx')
    then show "tame (Inr (?m, ?pos + ?w, fs)) (value_back buf d (\<lambda>w. pack_value H tree_source ?op w ctx = Inr ctx') ctx' fs)"
      using fb(3) fok by (simp add: value_back_def ctx')
  qed
  then show "mirrors buf ctx' fs \<and> tame (op_value (reader H buf) ?op fs ?pos limit)
      (value_back buf d (\<lambda>w. pack_value H tree_source ?op w ctx = Inr ctx') ctx' fs)" using mir by (simp add: ctx')
qed

section \<open>Composite values\<close>

lemma val_mirror_weaken: "val_mirror H d sd pack unpack v \<Longrightarrow> (sd' \<Longrightarrow> sd) \<Longrightarrow> val_mirror H d sd' pack unpack v"
  unfolding val_mirror_def by blast

lemma fixed_item_keeps:
  assumes p: "pack_fixed_item S base item v ctx = Inr ctx'" and reg: "fi_reg item = None" and mir: "mirrors buf ctx fs"
  shows "mirrors buf ctx' fs"
proof -
  have "\<exists>c s e. pset_span (fi_span item) s e c = Inr ctx' \<and> pc_frames c = pc_frames ctx"
  proof (cases "fi_kind item")
    case (FInt prim be ex derived)
    show ?thesis by (rule pack_int_item [OF FInt p]) (use reg in \<open>fastforce simp: pset_reg_def\<close>)+
  next
    case (F32 be)
    then show ?thesis using p by (auto simp: pack_fixed_item_def Let_def bind_res_eq_Inr dest!: put_frames)
  next
    case (F64 be)
    then show ?thesis using p by (auto simp: pack_fixed_item_def Let_def bind_res_eq_Inr dest!: put_frames)
  next
    case (FBool ex)
    then show ?thesis using p by (auto simp: pack_fixed_item_def Let_def bind_res_eq_Inr dest!: put_frames)
  next
    case (FRaw len ex)
    then show ?thesis using p
      by (auto simp: pack_fixed_item_def Let_def bind_res_eq_Inr dest!: put_frames split: option.splits if_splits)
  qed
  then obtain c s e where "pset_span (fi_span item) s e c = Inr ctx'" "pc_frames c = pc_frames ctx" by blast
  then show ?thesis using mirrors_same [OF pset_span_same(1)] mirrors_frames [of c ctx] mir by simp
qed

lemma val_mirror_fixed:
  assumes items: "items \<noteq> []" "fixed_item_ok width (items ! 0)" and reg: "fi_reg (items ! 0) = None" and wide: "width \<le> isize_max"
  shows "val_mirror H (Suc d) True (pack_value H tree_source (OpFixed width items)) (\<lambda>E. op_value E (OpFixed width items)) v"
proof (rule val_mirrorI)
  let ?i = "items ! 0" and ?op = "OpFixed width items"
  fix ctx ctx' :: pctx
  assume p: "pack_value H tree_source ?op v ctx = Inr ctx'" and ok: "pctx_ok (Suc d) ctx" "tidy ctx"
  let ?pos = "length (pc_out ctx)" and ?c = "extended (replicate width 0) ctx"
  have room: "roomy width ctx"
    using p grow_Inr [OF _ pctx_ok_length [OF ok(1)] wide] by (auto simp: pack_value.simps bind_res_eq_Inr)
  have pv: "pack_value H tree_source ?op w ctx = pack_fixed_item tree_source ?pos ?i (Some w) ?c" for w
    using items(1) by (simp add: pack_value.simps grow_roomy [OF room] fixed_item_ok_nth)
  have pi: "pack_fixed_item tree_source ?pos ?i (Some v) ?c = Inr ctx'" using p by (simp add: pv)
  have m0: "moves {} {} (Suc d) ctx ?c" by (rule moves_extended [OF ok]) (simp add: room)
  have ok1: "pctx_ok (Suc d) ?c" "tidy ?c" using m0 by (simp_all add: moves_def)
  have sub: "item_bits ?pos ?i \<subseteq> byte_bits ?pos width" using items(2) by (auto simp: item_bits_def byte_bits_def fixed_item_ok_def)
  have f1: "fresh (item_bits ?pos ?i) (set_option (fi_reg ?i)) ?c"
    by (rule fresh_extended [OF ok(1) _ sub]) (simp add: reg fresh_def)
  have fits: "?pos + width \<le> length (pc_out ?c)" by simp
  note fb = fixed_item_back [OF pi ok1 items(2) fits f1]
  have m1: "moves (item_bits ?pos ?i) {} (Suc d) ?c ctx'" using fb by (simp add: reg)
  show "moves {} {} (Suc d) ctx ctx'"
    by (rule moves_fresh [OF moves_append [OF m0 m1, simplified]]) (use sub in \<open>auto simp: byte_bits_def\<close>)
  have len: "length (pc_out ctx') = ?pos + width"
    using safe_pack_fixed_item [OF ok1(1) items(2) fits, of tree_source "Some v"] pi by (simp add: stays_def)
  fix buf fs limit
  assume ag: "agree buf ctx'" and mir: "mirrors buf ctx fs" and fok: "frames_ok (length buf) (Suc d) fs" and lim: "length (pc_out ctx') \<le> limit"
  have "item_bits ?pos ?i \<subseteq> {..<8 * length (pc_out ctx')}" using sub len by (auto simp: byte_bits_def)
  then have ag1: "agree_on (item_bits ?pos ?i) buf ctx'" by (rule agree_agree_on [OF ag])
  have mir1: "mirrors buf ?c fs" using mir by simp
  have rd: "tame (read_fixed_item (reader H buf) ?i ?pos fs) (item_back H buf ?pos ?i (Some v) d ?c ctx' fs)"
    using fixed_item_back [OF pi ok1 items(2) fits f1] ag1 agree_length [OF ag] mir1 fok by blast
  have mir': "mirrors buf ctx' fs" by (rule fixed_item_keeps [OF pi reg mir1])
  have op: "op_value (reader H buf) ?op fs ?pos limit = bind_res (need buf ?pos limit width) (\<lambda>_.
      bind_res (read_fixed_item (reader H buf) ?i ?pos fs) (\<lambda>(v, frames). Inr (v, ?pos + width, frames)))"
    using items(1) by (simp add: op_value.simps fixed_item_ok_nth)
  have need: "?pos + width \<le> limit" using len lim by simp
  have "tame (op_value (reader H buf) ?op fs ?pos limit) (value_back buf (Suc d) (\<lambda>w. pack_value H tree_source ?op w ctx = Inr ctx') ctx' fs)"
    unfolding op
  proof (rule tame_bind [OF tame_need [OF need]], rule tame_bind [OF rd])
    fix r
    assume "item_back H buf ?pos ?i (Some v) d ?c ctx' fs r"
    then show "tame (case r of (v, frames) \<Rightarrow> Inr (v, ?pos + width, frames))
        (value_back buf (Suc d) (\<lambda>w. pack_value H tree_source ?op w ctx = Inr ctx') ctx' fs)"
      by (auto simp: item_back_def value_back_def len reg pv again_def)
  qed
  then show "mirrors buf ctx' fs \<and> tame (op_value (reader H buf) ?op fs ?pos limit)
      (value_back buf (Suc d) (\<lambda>w. pack_value H tree_source ?op w ctx = Inr ctx') ctx' fs)" using mir' by blast
qed

text \<open>A struct with a size of its own, or without one.\<close>

lemma val_mirror_nest:
  assumes inner: "val_mirror H d sd' ps (\<lambda>E. rs E) v" and sd: "case sz of None \<Rightarrow> sd \<longrightarrow> sd' | Some len \<Rightarrow> True"
    and len: "case sz of None \<Rightarrow> True | Some len \<Rightarrow> len \<noteq> LenGreedy \<and> len_src_ok d len \<and> len_reads len"
  shows "val_mirror H d sd (pack_nest ps sz) (\<lambda>E. do_nest E (rs E) sz) v"
proof (cases sz)
  case None
  have "pack_nest ps None = ps" by (simp add: pack_nest_def fun_eq_iff)
  moreover have "do_nest E (rs E) None = rs E" for E by (simp add: do_nest_def fun_eq_iff)
  ultimately show ?thesis using val_mirror_weaken [OF inner] sd by (simp add: None)
next
  case (Some ln)
  then obtain e iv where ln: "ln = LenExpr e iv" using len by (cases ln) simp_all
  have lok: "len_src_ok d ln" "len_reads ln" using len Some by simp_all
  show ?thesis
  proof (rule val_mirrorI)
    fix ctx ctx' :: pctx
    assume p: "pack_nest ps sz v ctx = Inr ctx'" and ok: "pctx_ok d ctx" "tidy ctx"
    let ?pos = "length (pc_out ctx)"
    from p obtain c where c: "ps v ctx = Inr c" and wfin: "finish_len ln (wrapping_sub (length (pc_out c)) ?pos) c = Inr ctx'"
      by (auto simp: pack_nest_def Some bind_res_eq_Inr)
    note vm = val_mirrorD [OF inner c ok]
    have ok1: "pctx_ok d c" "tidy c" and le: "?pos \<le> length (pc_out c)" using vm(1) by (simp_all add: moves_def)
    have diff: "wrapping_sub (length (pc_out c)) ?pos = length (pc_out c) - ?pos" using pctx_ok_length [OF ok1(1)] le by (simp add: wrapping_sub_def isize_max_def)
    note fin = wfin [unfolded diff]
    note lm = len_mirror [OF fin ok1 lok(1)]
    show "moves {} {} d ctx ctx'" by (rule moves_trans [OF vm(1) lm(1)])
    have len': "length (pc_out ctx') = length (pc_out c)"
      using safe_finish_len [OF ok1(1) lok(1), of "length (pc_out c) - ?pos"] fin by (simp add: stays_def)
    fix buf fs limit
    assume ag: "agree buf ctx'" and mir: "mirrors buf ctx fs" and fok: "frames_ok (length buf) d fs"
      and lim: "length (pc_out ctx') \<le> limit" "limit \<le> length buf" and big: "length buf < usize_max"
    let ?n = "length (pc_out c) - ?pos"
    have ag1: "agree buf c" by (rule agree_back [OF lm(1) ag])
    have vb: "mirrors buf c fs" "tame (rs (reader H buf) fs ?pos (length (pc_out c))) (value_back buf d (\<lambda>w. ps w ctx = Inr c) c fs)"
      using vm(2) [OF ag1 mir fok order_refl _ big] agree_length [OF ag1] by blast+
    have ev: "eval fs e ?pos = Inr (int ?n) \<or> eval fs e ?pos = Inl (Fail (invalid_at KOverflow ?pos))"
      by (rule lm(3) [OF ag vb(1) fok lok(2) ln])
    have need: "?pos + ?n \<le> limit" and sum: "?pos + ?n = length (pc_out c)" using le lim len' by simp_all
    have body: "tame (bind_res (need buf ?pos limit ?n) (\<lambda>_. bind_res (rs (reader H buf) fs ?pos (?pos + ?n))
        (\<lambda>(v, end, frames). if end \<noteq> ?pos + ?n then Inl (Fail (invalid_at KTrailing end)) else Inr (v, ?pos + ?n, frames))))
      (value_back buf d (\<lambda>w. pack_nest ps sz w ctx = Inr ctx') ctx' fs)"
      unfolding sum
    proof (rule tame_bind [OF tame_need [OF need]], rule tame_bind [OF vb(2)])
      fix r
      assume "value_back buf d (\<lambda>w. ps w ctx = Inr c) c fs r"
      then show "tame (case r of (v, end, frames) \<Rightarrow> if end \<noteq> length (pc_out c) then Inl (Fail (invalid_at KTrailing end))
          else Inr (v, length (pc_out c), frames)) (value_back buf d (\<lambda>w. pack_nest ps sz w ctx = Inr ctx') ctx' fs)"
        using fin by (auto simp: value_back_def len' pack_nest_def Some diff)
    qed
    have "tame (do_nest (reader H buf) (rs (reader H buf)) sz fs ?pos limit) (value_back buf d (\<lambda>w. pack_nest ps sz w ctx = Inr ctx') ctx' fs)"
      using ev body by (auto simp: do_nest_def Some ln eval_len_def)
    then show "mirrors buf ctx' fs \<and> tame (do_nest (reader H buf) (rs (reader H buf)) sz fs ?pos limit)
        (value_back buf d (\<lambda>w. pack_nest ps sz w ctx = Inr ctx') ctx' fs)" using lm(2) [OF ag vb(1)] by blast
  qed
qed

lemma val_mirror_switch:
  assumes br: "\<And>tag op. switch_branch tag cases dflt = Some op \<Longrightarrow> val_mirror H d sd (pv op) (\<lambda>E. ov E op) v"
  shows "val_mirror H d sd (pack_switch pv on cases dflt) (\<lambda>E. do_switch (ov E) on cases dflt) v"
proof (rule val_mirrorI)
  fix ctx ctx' :: pctx
  assume p: "pack_switch pv on cases dflt v ctx = Inr ctx'" and ok: "pctx_ok d ctx" "tidy ctx"
  from p obtain tag op where tag: "peval ctx on = Inr tag" and op: "switch_branch tag cases dflt = Some op" and pv: "pv op v ctx = Inr ctx'"
    by (auto simp: pack_switch_def bind_res_eq_Inr split: option.splits)
  note vm = val_mirrorD [OF br [OF op] pv ok]
  show "moves {} {} d ctx ctx'" by (rule vm(1))
  fix buf fs limit
  assume a: "agree buf ctx'" "mirrors buf ctx fs" "frames_ok (length buf) d fs" "length (pc_out ctx') \<le> limit" "limit \<le> length buf"
    "length buf < usize_max" "\<not> sd \<Longrightarrow> limit = length (pc_out ctx')"
  have ev: "eval fs on (length (pc_out ctx)) = Inr tag" by (rule peval_mirror [OF tag a(2) ok(1) a(3)])
  have "do_switch (ov (reader H buf)) on cases dflt fs (length (pc_out ctx)) limit = ov (reader H buf) op fs (length (pc_out ctx)) limit"
    by (simp add: do_switch_def ev op)
  moreover have "pack_switch pv on cases dflt w ctx = pv op w ctx" for w by (simp add: pack_switch_def tag op)
  ultimately show "mirrors buf ctx' fs \<and> tame (do_switch (ov (reader H buf)) on cases dflt fs (length (pc_out ctx)) limit)
      (value_back buf d (\<lambda>w. pack_switch pv on cases dflt w ctx = Inr ctx') ctx' fs)"
    using vm(2) [OF a] by simp
qed

section \<open>Arrays\<close>

definition elems_run :: "'v pvalue \<Rightarrow> nat \<Rightarrow> 'v list \<Rightarrow> pctx \<Rightarrow> pctx pres" where
  "elems_run elem k vs ctx = fold_res (\<lambda>(i, item) ctx. map_fail (pfail_seg (SegIndex i)) (elem item ctx)) (enumerate k vs) ctx"

lemma elems_run_simps:
  "elems_run elem k [] ctx = Inr ctx"
  "elems_run elem k (v # vs) ctx = Inr ctx' \<longleftrightarrow> (\<exists>c. elem v ctx = Inr c \<and> elems_run elem (Suc k) vs c = Inr ctx')"
  by (simp_all add: elems_run_def bind_res_eq_Inr)

lemma elems_moves:
  assumes "\<And>v. v \<in> set vs \<Longrightarrow> val_mirror H d True pv ov v" and "elems_run pv k vs ctx = Inr ctx'" and "pctx_ok d ctx" "tidy ctx"
  shows "moves {} {} d ctx ctx'"
  using assms
proof (induction vs arbitrary: k ctx)
  case Nil
  then show ?case by (simp add: elems_run_simps moves_refl)
next
  case (Cons v vs)
  from Cons.prems(2) obtain c where c: "pv v ctx = Inr c" and rest: "elems_run pv (Suc k) vs c = Inr ctx'" by (auto simp: elems_run_simps)
  have vm: "val_mirror H d True pv ov v" using Cons.prems(1) by simp
  have m: "moves {} {} d ctx c" by (rule val_mirrorD(1) [OF vm c Cons.prems(3,4)])
  then have ok: "pctx_ok d c" "tidy c" by (simp_all add: moves_def)
  have "moves {} {} d c ctx'" by (rule Cons.IH [OF _ rest ok]) (simp add: Cons.prems(1))
  then show ?case by (rule moves_trans [OF m])
qed

text \<open>What the elements leave: the position, the list so far with the values read, and the registers.\<close>

definition elems_back :: "bytes \<Rightarrow> nat \<Rightarrow> (val_tree list \<Rightarrow> bool) \<Rightarrow> pctx \<Rightarrow> frame list \<Rightarrow> val_tree list \<Rightarrow> nat \<Rightarrow> val_tree list astate \<Rightarrow> bool" where
  "elems_back buf d repacks ctx' fs out n st = (case st of (pos, l, fs') \<Rightarrow>
     pos = length (pc_out ctx') \<and> frames_ok (length buf) d fs' \<and> map fr_regs fs' = map fr_regs fs \<and>
     (\<exists>ws. l = out @ ws \<and> length ws = n \<and> list_all distinct_keys ws \<and> repacks ws))"

lemma elem_step_back:
  assumes vm: "val_mirror H d True pv ov v" and c: "pv v ctx = Inr c" and ok: "pctx_ok d ctx" "tidy ctx"
    and ag: "agree buf c" and mir: "mirrors buf ctx fs" and fok: "frames_ok (length buf) d fs"
    and lim: "length (pc_out c) \<le> limit" "limit \<le> length buf" "length buf < usize_max"
  shows "mirrors buf c fs" and "tame (array_step value_builder (ov (reader H buf)) limit i (length (pc_out ctx), l, fs))
      (\<lambda>st. \<exists>w fs'. st = (length (pc_out c), l @ [w], fs') \<and> frames_ok (length buf) d fs' \<and> map fr_regs fs' = map fr_regs fs \<and>
         distinct_keys w \<and> pv w ctx = Inr c)"
proof -
  have vb: "mirrors buf c fs" "tame (ov (reader H buf) fs (length (pc_out ctx)) limit) (value_back buf d (\<lambda>w. pv w ctx = Inr c) c fs)"
    using val_mirrorD(2) [OF vm c ok ag mir fok lim] by simp_all
  show "mirrors buf c fs" by (rule vb(1))
  show "tame (array_step value_builder (ov (reader H buf)) limit i (length (pc_out ctx), l, fs))
      (\<lambda>st. \<exists>w fs'. st = (length (pc_out c), l @ [w], fs') \<and> frames_ok (length buf) d fs' \<and> map fr_regs fs' = map fr_regs fs \<and>
         distinct_keys w \<and> pv w ctx = Inr c)"
    unfolding array_step_def prod.case
    by (rule tame_bind [OF tame_seg [THEN iffD2, OF vb(2)]]) (auto simp: value_back_def)
qed

lemma elems_loop_back:
  assumes loop0: "\<And>k l fs. loop 0 k (length (pc_out ctx'), l, fs) = Inr (length (pc_out ctx'), l, fs)"
    and loopS: "\<And>n k pos l fs. short n pos \<Longrightarrow> loop (Suc n) k (pos, l, fs) =
        bind_res (array_step value_builder (ov (reader H buf)) limit k (pos, l, fs)) (loop n (Suc k)) \<or>
      tame (loop (Suc n) k (pos, l, fs)) (\<lambda>_. False)"
    and short: "\<And>v vs c c' k. pv v c = Inr c' \<Longrightarrow> elems_run pv k vs c' = Inr ctx' \<Longrightarrow> v \<in> V \<Longrightarrow> set vs \<subseteq> V \<Longrightarrow> pctx_ok d c \<Longrightarrow> tidy c \<Longrightarrow>
      short (length vs) (length (pc_out c))"
    and vm: "\<And>v. v \<in> V \<Longrightarrow> val_mirror H d True pv ov v"
    and ag: "agree buf ctx'" and lim: "length (pc_out ctx') \<le> limit" "limit \<le> length buf" "length buf < usize_max"
  shows "elems_run pv k vs ctx = Inr ctx' \<Longrightarrow> set vs \<subseteq> V \<Longrightarrow> pctx_ok d ctx \<Longrightarrow> tidy ctx \<Longrightarrow> mirrors buf ctx fs \<Longrightarrow> frames_ok (length buf) d fs \<Longrightarrow>
    mirrors buf ctx' fs \<and>
    tame (loop (length vs) k (length (pc_out ctx), l, fs)) (elems_back buf d (\<lambda>ws. elems_run pv k ws ctx = Inr ctx') ctx' fs l (length vs))"
proof (induction vs arbitrary: k ctx l fs)
  case Nil
  then show ?case by (simp add: elems_run_simps loop0 elems_back_def)
next
  case (Cons v vs)
  from Cons.prems(1) obtain c where c: "pv v ctx = Inr c" and rest: "elems_run pv (Suc k) vs c = Inr ctx'" by (auto simp: elems_run_simps)
  have v: "val_mirror H d True pv ov v" and vsV: "set vs \<subseteq> V" "v \<in> V" using Cons.prems(2) vm by simp_all
  have m: "moves {} {} d ctx c" by (rule val_mirrorD(1) [OF v c Cons.prems(3,4)])
  then have ok: "pctx_ok d c" "tidy c" by (simp_all add: moves_def)
  have m2: "moves {} {} d c ctx'" by (rule elems_moves [OF _ rest ok]) (use vm vsV in blast)
  have ag1: "agree buf c" by (rule agree_back [OF m2 ag])
  have lim1: "length (pc_out c) \<le> limit" using m2 lim(1) by (simp add: moves_def)
  note st = elem_step_back [OF v c Cons.prems(3,4) ag1 Cons.prems(5,6) lim1 lim(2,3)]
  have mir': "mirrors buf ctx' fs" using Cons.IH [OF rest vsV(1) ok st(1) Cons.prems(6)] by blast
  have sh: "short (length vs) (length (pc_out ctx))" by (rule short [OF c rest vsV(2,1) Cons.prems(3,4)])
  have go: "tame (bind_res (array_step value_builder (ov (reader H buf)) limit k (length (pc_out ctx), l, fs)) (loop (length vs) (Suc k)))
      (elems_back buf d (\<lambda>ws. elems_run pv k ws ctx = Inr ctx') ctx' fs l (length (v # vs)))"
  proof (rule tame_bind [OF st(2)])
    fix s
    assume "\<exists>w fs'. s = (length (pc_out c), l @ [w], fs') \<and> frames_ok (length buf) d fs' \<and> map fr_regs fs' = map fr_regs fs \<and>
         distinct_keys w \<and> pv w ctx = Inr c"
    then obtain w fs' where s: "s = (length (pc_out c), l @ [w], fs')" "frames_ok (length buf) d fs'" "map fr_regs fs' = map fr_regs fs"
      and w: "distinct_keys w" "pv w ctx = Inr c" by blast
    have mir1: "mirrors buf c fs'" by (rule mirrors_regs [OF s(3) st(1)])
    have "tame (loop (length vs) (Suc k) (length (pc_out c), l @ [w], fs'))
        (elems_back buf d (\<lambda>ws. elems_run pv (Suc k) ws c = Inr ctx') ctx' fs' (l @ [w]) (length vs))"
      using Cons.IH [OF rest vsV(1) ok mir1 s(2)] by blast
    then show "tame (loop (length vs) (Suc k) s) (elems_back buf d (\<lambda>ws. elems_run pv k ws ctx = Inr ctx') ctx' fs l (length (v # vs)))"
      unfolding s(1)
    proof (rule tame_mono)
      fix r
      assume "elems_back buf d (\<lambda>ws. elems_run pv (Suc k) ws c = Inr ctx') ctx' fs' (l @ [w]) (length vs) r"
      then obtain ws fs2 where r: "r = (length (pc_out ctx'), (l @ [w]) @ ws, fs2)" "frames_ok (length buf) d fs2" "map fr_regs fs2 = map fr_regs fs'"
        "length ws = length vs" "list_all distinct_keys ws" "elems_run pv (Suc k) ws c = Inr ctx'" by (auto simp: elems_back_def)
      show "elems_back buf d (\<lambda>ws. elems_run pv k ws ctx = Inr ctx') ctx' fs l (length (v # vs)) r"
        unfolding elems_back_def r(1) prod.case
        using r(2-6) s(3) w by (intro conjI exI [of _ "w # ws"]) (auto simp: elems_run_simps)
    qed
  qed
  have "tame (loop (length (v # vs)) k (length (pc_out ctx), l, fs))
      (elems_back buf d (\<lambda>ws. elems_run pv k ws ctx = Inr ctx') ctx' fs l (length (v # vs)))"
    using loopS [OF sh, of k l fs] go by (auto elim: tame_mono)
  then show ?case using mir' by blast
qed

lemma val_mirror_array:
  assumes vm: "\<And>u us. vs_as_list v = Some us \<Longrightarrow> u \<in> set us \<Longrightarrow> val_mirror H d True pv ov u"
    and count: "case count of CountExpr e iv \<Rightarrow> len_src_ok d (LenExpr e iv) \<and> len_reads (LenExpr e iv)
      | UntilEof \<Rightarrow> \<not> sd \<and> (\<forall>u c c'. pv u c = Inr c' \<longrightarrow> pctx_ok d c \<longrightarrow> length (pc_out c') < usize_max \<longrightarrow> length (pc_out c) < length (pc_out c'))"
  shows "val_mirror H d sd (pack_array tree_source pv count) (\<lambda>E. do_array E (ov E) count mc em) v"
proof (rule val_mirrorI)
  fix ctx ctx' :: pctx
  assume p: "pack_array tree_source pv count v ctx = Inr ctx'" and ok: "pctx_ok d ctx" "tidy ctx"
  let ?pos = "length (pc_out ctx)"
  define fin :: "nat \<Rightarrow> pctx \<Rightarrow> pctx pres" where "fin = (\<lambda>n c. (case count of UntilEof \<Rightarrow> Inr c | CountExpr e iv \<Rightarrow> finish_len (LenExpr e iv) n c))"
  have pa: "pack_array tree_source pv count (VList us) ctx = bind_res (elems_run pv 0 us ctx) (fin (length us))" for us
    by (cases count) (simp_all add: pack_array_def elems_run_def fin_def)
  obtain us where us: "v = VList us" "vs_as_list v = Some us" using p by (cases v) (auto simp: pack_array_def)
  from p obtain c where c: "elems_run pv 0 us ctx = Inr c" and f: "fin (length us) c = Inr ctx'"
    unfolding us(1) pa by (auto simp: bind_res_eq_Inr)
  have vms: "val_mirror H d True pv ov u" if "u \<in> set us" for u by (rule vm [OF us(2) that])
  have m1: "moves {} {} d ctx c" by (rule elems_moves [OF vms c ok])
  have ok1: "pctx_ok d c" "tidy c" using m1 by (simp_all add: moves_def)
  have "moves {} {} d c ctx' \<and> length (pc_out ctx') = length (pc_out c)"
  proof (cases count)
    case (CountExpr e iv)
    have lok: "len_src_ok d (LenExpr e iv)" using count by (simp add: CountExpr)
    have fl: "finish_len (LenExpr e iv) (length us) c = Inr ctx'" using f by (simp add: fin_def CountExpr)
    show ?thesis using len_mirror(1) [OF fl ok1 lok] safe_finish_len [OF ok1(1) lok, of "length us"] fl by (simp add: stays_def)
  next
    case UntilEof
    then show ?thesis using f ok1 by (simp add: fin_def moves_refl)
  qed
  then have m2: "moves {} {} d c ctx'" and len': "length (pc_out ctx') = length (pc_out c)" by simp_all
  show "moves {} {} d ctx ctx'" by (rule moves_trans [OF m1 m2])
  fix buf fs limit
  assume ag: "agree buf ctx'" and mir: "mirrors buf ctx fs" and fok: "frames_ok (length buf) d fs"
    and lim: "length (pc_out ctx') \<le> limit" "limit \<le> length buf" "length buf < usize_max" and tail: "\<not> sd \<Longrightarrow> limit = length (pc_out ctx')"
  have ag1: "agree buf c" by (rule agree_back [OF m2 ag])
  have lim1: "length (pc_out c) \<le> limit" using lim(1) len' by simp
  let ?step = "array_step value_builder (ov (reader H buf)) limit"
  let ?done = "elems_back buf d (\<lambda>ws. elems_run pv 0 ws ctx = Inr c) c fs [] (length us)"
  have finish: "value_back buf d (\<lambda>w. pack_array tree_source pv count w ctx = Inr ctx') ctx' fs (VList l, pos, fs')"
    if "?done (pos, l, fs')" for pos l fs'
    using that f by (auto simp: elems_back_def value_back_def len' pa)
  show "mirrors buf ctx' fs \<and> tame (do_array (reader H buf) (ov (reader H buf)) count mc em fs ?pos limit)
      (value_back buf d (\<lambda>w. pack_array tree_source pv count w ctx = Inr ctx') ctx' fs)"
  proof (cases count)
    case (CountExpr e iv)
    have lok: "len_src_ok d (LenExpr e iv)" "len_reads (LenExpr e iv)" using count by (simp_all add: CountExpr)
    have fl: "finish_len (LenExpr e iv) (length us) c = Inr ctx'" using f by (simp add: fin_def CountExpr)
    note lm = len_mirror [OF fl ok1 lok(1)]
    let ?loop = "\<lambda>n k st. fold_res ?step [k ..< k + n] st"
    have el: "mirrors buf c fs \<and> tame (?loop (length us) 0 (?pos, [], fs)) ?done"
    proof (rule elems_loop_back [where loop = ?loop and short = "\<lambda>_ _. True" and V = "set us", OF _ _ _ vms ag1 lim1 lim(2,3) c _ ok mir fok])
      show "?loop (Suc n) k (pos, l, fs) = bind_res (?step k (pos, l, fs)) (?loop n (Suc k)) \<or> tame (?loop (Suc n) k (pos, l, fs)) (\<lambda>_. False)"
        for n k pos l fs
      proof -
        have "[k ..< k + Suc n] = k # [Suc k ..< Suc k + n]" by (simp add: upt_conv_Cons del: upt_Suc)
        then show ?thesis by (simp del: upt_Suc)
      qed
    qed simp_all
    have ev: "eval fs e ?pos = Inr (int (length us)) \<or> eval fs e ?pos = Inl (Fail (invalid_at KOverflow ?pos))"
      by (rule lm(3) [OF ag conjunct1 [OF el] fok lok(2) refl])
    have body: "tame (bind_res (fold_res ?step [0..<length us] (?pos, [], fs)) (\<lambda>(pos, out, frames). Inr (VList out, pos, frames)))
        (value_back buf d (\<lambda>w. pack_array tree_source pv count w ctx = Inr ctx') ctx' fs)"
      by (rule tame_bind [where P = ?done]) (use el finish in auto)
    have "tame (do_array (reader H buf) (ov (reader H buf)) count mc em fs ?pos limit)
        (value_back buf d (\<lambda>w. pack_array tree_source pv count w ctx = Inr ctx') ctx' fs)"
      using ev body by (auto simp: do_array_def CountExpr Let_def)
    then show ?thesis using lm(2) [OF ag conjunct1 [OF el]] by blast
  next
    case UntilEof
    have ctx': "ctx' = c" and nsd: "\<not> sd" using f count by (simp_all add: fin_def UntilEof)
    have limit: "limit = length (pc_out c)" using tail [OF nsd] by (simp add: ctx')
    have grows: "length (pc_out b) < length (pc_out b')" if "pv u b = Inr b'" "pctx_ok d b" "length (pc_out b') < usize_max" for u b b'
      using count that by (simp add: UntilEof)
    let ?loop = "\<lambda>n k st. eof_loop ?step mc limit k st"
    have el: "mirrors buf c fs \<and> tame (?loop (length us) 0 (?pos, [], fs)) ?done"
    proof (rule elems_loop_back [where loop = ?loop and short = "\<lambda>_ pos. pos < limit" and V = "set us", OF _ _ _ vms ag1 lim1 lim(2,3) c _ ok mir fok])
      show "?loop 0 k (length (pc_out c), l, fs) = Inr (length (pc_out c), l, fs)" for k l fs
        by (simp add: eof_loop.simps limit)
      show "?loop (Suc n) k (pos, l, fs) = bind_res (?step k (pos, l, fs)) (?loop n (Suc k)) \<or> tame (?loop (Suc n) k (pos, l, fs)) (\<lambda>_. False)"
        if "pos < limit" for n k pos l fs
        using that by (subst (1 3) eof_loop.simps) simp
      show "length (pc_out b) < limit"
        if "pv u b = Inr b'" "elems_run pv k ws b' = Inr c" "u \<in> set us" "set ws \<subseteq> set us" "pctx_ok d b" "tidy b" for u ws b b' k
      proof -
        have "moves {} {} d b b'" by (rule val_mirrorD(1) [OF vms that(1,5,6)]) (rule that(3))
        then have okb: "pctx_ok d b'" "tidy b'" by (simp_all add: moves_def)
        have "moves {} {} d b' c" by (rule elems_moves [OF _ that(2) okb]) (use vms that(4) in blast)
        then have le: "length (pc_out b') \<le> limit" by (simp add: moves_def limit)
        then show ?thesis using grows [OF that(1,5)] lim(2,3) by simp
      qed
    qed auto
    have body: "tame (bind_res (eof_loop ?step mc limit 0 (?pos, [], fs)) (\<lambda>(pos, out, frames). Inr (VList out, pos, frames)))
        (value_back buf d (\<lambda>w. pack_array tree_source pv count w ctx = Inr ctx') ctx' fs)"
      by (rule tame_bind [where P = ?done]) (use el finish in auto)
    then show ?thesis using el by (simp add: do_array_def UntilEof ctx')
  qed
qed

end
