(* ===== verification/Round_Structs.thy ===== *)
theory Round_Structs
  imports Round_Values
begin

text \<open>
  A struct packed and read back: opcodes with a value, conditional ones, and opcodes one after the
  other between the push and the pop of a frame.
\<close>

section \<open>Opcodes with a value\<close>

lemma op_mirror_named:
  assumes vm: "\<And>u. map_of view n = Some u \<Longrightarrow> val_mirror H (Suc d) sd pv ov u"
    and key: "key_name (c_key c) = Some n" and c: "common_ok c"
  shows "op_mirror H d [] [n] sd (\<lambda>view. pack_named tree_source view c pv)
    (\<lambda>E limit st. case st of (pos, m, deferred, frames) \<Rightarrow> place_value E c (ov E frames pos limit) st) view"
proof (rule op_mirrorI)
  fix ctx ctx' :: pctx
  let ?pos = "length (pc_out ctx)"
  assume p: "pack_named tree_source view c pv ctx = Inr ctx'" and ok: "pctx_ok (Suc d) ctx" "tidy ctx"
  from p obtain u c1 where u: "map_of view n = Some u" and pu: "pv u ctx = Inr c1"
    and sp: "pset_span (c_span c) ?pos (length (pc_out c1)) c1 = Inr ctx'"
    by (auto simp: pack_named_def key bind_res_eq_Inr)
  have again: "pack_named tree_source M c pv ctx = Inr ctx'" if "map_of M n = Some w" "pv w ctx = Inr c1" for M w
    using that sp by (simp add: pack_named_def key)
  note vd = val_mirrorD [OF vm [OF u] pu ok]
  have ok1: "pctx_ok (Suc d) c1" "tidy c1" and le: "?pos \<le> length (pc_out c1)" using vd(1) by (simp_all add: moves_def)
  have span: "idx_ok MAX_SPANS (c_span c)" using c by (simp add: common_ok_def)
  have m2: "moves {} {} (Suc d) c1 ctx'" by (rule pset_span_moves [OF sp ok1 span le order_refl])
  show "moves {} (set []) (Suc d) ctx ctx'" using moves_trans [OF vd(1) m2] by simp
  note same = pset_span_same [OF sp]
  fix buf fs ps limit
  assume ag: "agree buf ctx'" and mir: "mirrors buf ctx fs" and fok: "frames_ok (length buf) (Suc d) fs"
    and lim: "length (pc_out ctx') \<le> limit" "limit \<le> length buf" "length buf < usize_max" and tail: "\<not> sd \<Longrightarrow> limit = length (pc_out ctx')"
  have ag1: "agree buf c1" by (rule agree_back [OF m2 ag])
  have vb: "mirrors buf c1 fs" "tame (ov (reader H buf) fs ?pos limit) (value_back buf (Suc d) (\<lambda>w. pv w ctx = Inr c1) c1 fs)"
    using vd(2) [OF ag1 mir fok] lim tail by (simp_all add: same(2))
  have below: "below buf ctx' fs" by (rule mirrors_below [OF mirrors_same [OF same(1) vb(1)]])
  have "tame (place_value (reader H buf) c (ov (reader H buf) fs ?pos limit) (?pos, VMap ps, [], fs))
      (op_back buf d [n] (\<lambda>M. pack_named tree_source M c pv ctx = Inr ctx') ctx' fs ps)"
    unfolding place_value_def prod.case
  proof (rule tame_bind [OF tame_push_key [THEN iffD2, OF vb(2)]])
    fix r
    assume "value_back buf (Suc d) (\<lambda>w. pv w ctx = Inr c1) c1 fs r"
    then obtain w fs1 where r: "r = (w, length (pc_out c1), fs1)" and fok1: "frames_ok (length buf) (Suc d) fs1"
      and regs: "map fr_regs fs1 = map fr_regs fs" and w: "distinct_keys w" "pv w ctx = Inr c1" by (auto simp: value_back_def)
    have "length (pc_out c1) \<le> length buf" using agree_length [OF ag1] .
    from set_span_tame [OF fok1 span le this] obtain fs2 where fs2: "set_span fs1 (c_span c) ?pos (length (pc_out c1)) = Inr fs2"
      "frames_ok (length buf) (Suc d) fs2" "map fr_regs fs2 = map fr_regs fs1" .
    have m: "mirrors buf ctx' fs2" using mirrors_same [OF same(1) vb(1)] mirrors_regs regs fs2(3) by simp
    have "op_back buf d [n] (\<lambda>M. pack_named tree_source M c pv ctx = Inr ctx') ctx' fs ps
        (length (pc_out c1), VMap (ps @ key_entries (c_key c) w), [], fs2)"
      unfolding op_back_def prod.case
      using fs2 regs m again w
      by (intro conjI exI [of _ "key_entries (c_key c) w"]) (auto simp: same(2) key_entries_def key has_entries_def trees_ok_def map_tl)
    then show "tame (case r of (v, end, frames) \<Rightarrow> bind_res (set_span frames (c_span c) ?pos end) (\<lambda>frames.
        Inr (end, insert_key (ue_builder (reader H buf)) (c_key c) v (VMap ps), [], frames)))
      (op_back buf d [n] (\<lambda>M. pack_named tree_source M c pv ctx = Inr ctx') ctx' fs ps)"
      by (simp add: r fs2(1) insert_entries)
  qed
  then show "below buf ctx' fs \<and> tame (case (?pos, VMap ps, [], fs) of (pos, m, deferred, frames) \<Rightarrow>
        place_value (reader H buf) c (ov (reader H buf) frames pos limit) (?pos, VMap ps, [], fs))
      (op_back buf d [n] (\<lambda>M. pack_named tree_source M c pv ctx = Inr ctx') ctx' fs ps)"
    using below by simp
qed

lemma op_back_none:
  assumes "frames_ok (length buf) (Suc d) fs" and "mirrors buf ctx fs" and "\<And>M. repacks M"
  shows "op_back buf d nms repacks ctx fs ps (length (pc_out ctx), VMap ps, [], fs)"
  using assms by (auto simp: op_back_def trees_ok_def intro!: exI [of _ "[]"])

lemma op_mirror_cond:
  assumes om: "op_mirror H d [] nms sd pk up view"
  shows "op_mirror H d [] nms sd (\<lambda>view ctx. bind_res (peval ctx pred) (\<lambda>b. if b \<noteq> 0 then pk view ctx else Inr ctx))
    (\<lambda>E limit st. case st of (pos, m, deferred, frames) \<Rightarrow> bind_res (eval frames pred pos) (\<lambda>b. if b \<noteq> 0 then up E limit st else Inr st)) view"
proof (rule op_mirrorI)
  fix ctx ctx' :: pctx
  assume p: "bind_res (peval ctx pred) (\<lambda>b. if b \<noteq> 0 then pk view ctx else Inr ctx) = Inr ctx'"
    and ok: "pctx_ok (Suc d) ctx" "tidy ctx" "fresh {} (set []) ctx"
  from p obtain b where b: "peval ctx pred = Inr b" and go: "(if b \<noteq> 0 then pk view ctx else Inr ctx) = Inr ctx'"
    by (auto simp: bind_res_eq_Inr)
  show "moves {} (set []) (Suc d) ctx ctx'" using go op_mirrorD(1) [OF om _ ok] moves_refl [OF ok(1,2)] by (auto split: if_splits)
  fix buf fs ps limit
  assume a: "agree buf ctx'" "mirrors buf ctx fs" "frames_ok (length buf) (Suc d) fs"
    "length (pc_out ctx') \<le> limit" "limit \<le> length buf" "length buf < usize_max" "\<not> sd \<Longrightarrow> limit = length (pc_out ctx')"
  have ev: "eval fs pred (length (pc_out ctx)) = Inr b" by (rule peval_mirror [OF b a(2) ok(1) a(3)])
  show "below buf ctx' fs \<and> tame (case (length (pc_out ctx), VMap ps, [], fs) of (pos, m, deferred, frames) \<Rightarrow>
        bind_res (eval frames pred pos) (\<lambda>b. if b \<noteq> 0 then up (reader H buf) limit (length (pc_out ctx), VMap ps, [], fs)
          else Inr (length (pc_out ctx), VMap ps, [], fs)))
      (op_back buf d nms (\<lambda>M. bind_res (peval ctx pred) (\<lambda>b. if b \<noteq> 0 then pk M ctx else Inr ctx) = Inr ctx') ctx' fs ps)"
  proof (cases "b = 0")
    case True
    then have "ctx' = ctx" using go by simp
    then show ?thesis using True mirrors_below [OF a(2)] by (auto simp: ev b intro: op_back_none [OF a(3,2)])
  next
    case False
    then have pk: "pk view ctx = Inr ctx'" using go by simp
    show ?thesis using op_mirrorD(2) [OF om pk ok a] False by (simp add: ev b)
  qed
qed

section \<open>Opcodes in sequence\<close>

lemma op_mirror_nil: "op_mirror H d [] [] sd (\<lambda>view. Inr) (\<lambda>E limit. Inr) view"
  by (rule op_mirrorI) (auto intro: op_back_none moves_refl dest: mirrors_below)

lemma op_mirror_seq:
  assumes a: "op_mirror H d regs nms sd' pk up view" and b: "op_mirror H d regs' nms' sd pk' up' view"
    and apart: "set regs \<inter> set regs' = {}" and sd: "\<not> sd' \<Longrightarrow> \<not> sd \<and> (\<forall>M c. pk' M c = Inr c)"
  shows "op_mirror H d (regs @ regs') (nms @ nms') sd (\<lambda>view ctx. bind_res (pk view ctx) (pk' view))
    (\<lambda>E limit st. bind_res (up E limit st) (up' E limit)) view"
proof (rule op_mirrorI)
  fix ctx ctx' :: pctx
  assume p: "bind_res (pk view ctx) (pk' view) = Inr ctx'" and ok: "pctx_ok (Suc d) ctx" "tidy ctx" and fr: "fresh {} (set (regs @ regs')) ctx"
  from p obtain c where c: "pk view ctx = Inr c" and c': "pk' view c = Inr ctx'" by (auto simp: bind_res_eq_Inr)
  have f: "fresh {} (set regs) ctx" "fresh {} (set regs') ctx" using fr by (auto intro: fresh_mono)
  note ad = op_mirrorD [OF a c ok f(1)]
  have ok1: "pctx_ok (Suc d) c" "tidy c" using ad(1) by (simp_all add: moves_def)
  have f': "fresh {} (set regs') c" by (rule fresh_moves [OF ad(1) f(2) _ apart]) simp
  note bd = op_mirrorD [OF b c' ok1 f']
  show "moves {} (set (regs @ regs')) (Suc d) ctx ctx'" using moves_append [OF ad(1) bd(1)] by simp
  fix buf fs ps limit
  assume ag: "agree buf ctx'" and mir: "mirrors buf ctx fs" and fok: "frames_ok (length buf) (Suc d) fs"
    and lim: "length (pc_out ctx') \<le> limit" "limit \<le> length buf" "length buf < usize_max" and tail: "\<not> sd \<Longrightarrow> limit = length (pc_out ctx')"
  have ag1: "agree buf c" by (rule agree_back [OF bd(1) ag])
  have lim1: "length (pc_out c) \<le> limit" using bd(1) lim(1) by (simp add: moves_def)
  have tail1: "limit = length (pc_out c)" if "\<not> sd'" using sd [OF that] tail c' by simp
  have ab: "below buf c fs" "tame (up (reader H buf) limit (length (pc_out ctx), VMap ps, [], fs))
      (op_back buf d nms (\<lambda>M. pk M ctx = Inr c) c fs ps)"
    using ad(2) [OF ag1 mir fok lim1 lim(2,3) tail1] by blast+
  from below_mirrors [OF ab(1) ok1 fok] obtain g where g: "frames_ok (length buf) (Suc d) (g # tl fs)" "mirrors buf c (g # tl fs)" .
  have "below buf ctx' (g # tl fs)" using bd(2) [OF ag g(2,1) lim tail] by blast
  then have "below buf ctx' fs" by (simp add: below_def)
  moreover have "tame (bind_res (up (reader H buf) limit (length (pc_out ctx), VMap ps, [], fs)) (up' (reader H buf) limit))
      (op_back buf d (nms @ nms') (\<lambda>M. bind_res (pk M ctx) (pk' M) = Inr ctx') ctx' fs ps)"
  proof (rule tame_bind [OF ab(2)])
    fix st
    assume "op_back buf d nms (\<lambda>M. pk M ctx = Inr c) c fs ps st"
    then obtain es fs1 where st: "st = (length (pc_out c), VMap (ps @ es), [], fs1)" and fs1: "frames_ok (length buf) (Suc d) fs1" "mirrors buf c fs1"
      "map fr_regs (tl fs1) = map fr_regs (tl fs)"
      and es: "subseq (map fst es) nms" "trees_ok es" "\<And>M. has_entries M es \<Longrightarrow> pk M ctx = Inr c"
      by (auto simp: op_back_def)
    have "tame (up' (reader H buf) limit (length (pc_out c), VMap (ps @ es), [], fs1))
        (op_back buf d nms' (\<lambda>M. pk' M c = Inr ctx') ctx' fs1 (ps @ es))"
      using bd(2) [OF ag fs1(2,1) lim tail] by blast
    then show "tame (up' (reader H buf) limit st) (op_back buf d (nms @ nms') (\<lambda>M. bind_res (pk M ctx) (pk' M) = Inr ctx') ctx' fs ps)"
      unfolding st
    proof (rule tame_mono)
      fix r
      assume "op_back buf d nms' (\<lambda>M. pk' M c = Inr ctx') ctx' fs1 (ps @ es) r"
      then obtain es' fs2 where r: "r = (length (pc_out ctx'), VMap ((ps @ es) @ es'), [], fs2)" and fs2: "frames_ok (length buf) (Suc d) fs2" "mirrors buf ctx' fs2"
        "map fr_regs (tl fs2) = map fr_regs (tl fs1)"
        and es': "subseq (map fst es') nms'" "trees_ok es'" "\<And>M. has_entries M es' \<Longrightarrow> pk' M c = Inr ctx'"
        by (auto simp: op_back_def)
      show "op_back buf d (nms @ nms') (\<lambda>M. bind_res (pk M ctx) (pk' M) = Inr ctx') ctx' fs ps r"
        unfolding op_back_def r prod.case
        using fs1 fs2 es es' by (intro conjI exI [of _ "es @ es'"]) (auto simp: list_emb_append_mono)
    qed
  qed
  ultimately show "below buf ctx' fs \<and> tame (bind_res (up (reader H buf) limit (length (pc_out ctx), VMap ps, [], fs)) (up' (reader H buf) limit))
      (op_back buf d (nms @ nms') (\<lambda>M. bind_res (pk M ctx) (pk' M) = Inr ctx') ctx' fs ps)" by blast
qed

lemma op_mirror_ops:
  assumes "\<And>op sd'. op \<in> set ops \<Longrightarrow> (sd' \<Longrightarrow> op \<in> set (butlast ops) \<or> sd) \<Longrightarrow> op_mirror H d (rg op) (nm op) sd' (pk op) (up op) view"
    and "distinct (concat (map rg ops))"
  shows "op_mirror H d (concat (map rg ops)) (concat (map nm ops)) sd
    (\<lambda>view ctx. fold_res (\<lambda>op ctx. pk op view ctx) ops ctx) (\<lambda>E limit st. fold_res (\<lambda>op st. up op E limit st) ops st) view"
  using assms
proof (induction ops)
  case Nil
  then show ?case using op_mirror_nil by simp
next
  case (Cons op ops)
  have head: "op_mirror H d (rg op) (nm op) (ops \<noteq> [] \<or> sd) (pk op) (up op) view" by (rule Cons.prems(1)) auto
  have rest: "op_mirror H d (concat (map rg ops)) (concat (map nm ops)) sd
    (\<lambda>view ctx. fold_res (\<lambda>op ctx. pk op view ctx) ops ctx) (\<lambda>E limit st. fold_res (\<lambda>op st. up op E limit st) ops st) view"
  proof (rule Cons.IH)
    show "op_mirror H d (rg x) (nm x) sd' (pk x) (up x) view" if "x \<in> set ops" "sd' \<Longrightarrow> x \<in> set (butlast ops) \<or> sd" for x sd'
      by (rule Cons.prems(1)) (use that in auto)
    show "distinct (concat (map rg ops))" using Cons.prems(2) by simp
  qed
  have "op_mirror H d (rg op @ concat (map rg ops)) (nm op @ concat (map nm ops)) sd
    (\<lambda>view ctx. bind_res (pk op view ctx) (\<lambda>ctx. fold_res (\<lambda>op ctx. pk op view ctx) ops ctx))
    (\<lambda>E limit st. bind_res (up op E limit st) (\<lambda>st. fold_res (\<lambda>op st. up op E limit st) ops st)) view"
    by (rule op_mirror_seq [OF head rest]) (use Cons.prems(2) in auto)
  then show ?case by simp
qed

section \<open>Structs\<close>

lemma push_view:
  "slot_at (ctx\<lparr>pc_frames := pframe_new # pc_frames ctx\<rparr>) i r = (case i of 0 \<Rightarrow> None | Suc j \<Rightarrow> slot_at ctx j r)"
  "touched (ctx\<lparr>pc_frames := pframe_new # pc_frames ctx\<rparr>) i r \<longleftrightarrow> (case i of 0 \<Rightarrow> False | Suc j \<Rightarrow> touched ctx j r)"
  by (auto simp: slot_at_def touched_def frame_slot_def frame_touched_def frame_known_def pframe_new_def split: nat.split)

lemma push_tidy:
  assumes "pctx_ok d ctx" and "tidy ctx"
  shows "pctx_ok (Suc d) (ctx\<lparr>pc_frames := pframe_new # pc_frames ctx\<rparr>)" "tidy (ctx\<lparr>pc_frames := pframe_new # pc_frames ctx\<rparr>)"
    "open_bits (ctx\<lparr>pc_frames := pframe_new # pc_frames ctx\<rparr>) = open_bits ctx"
    "fresh {} A (ctx\<lparr>pc_frames := pframe_new # pc_frames ctx\<rparr>)"
proof -
  let ?c = "ctx\<lparr>pc_frames := pframe_new # pc_frames ctx\<rparr>"
  show "pctx_ok (Suc d) ?c" using assms(1) by (simp add: pctx_ok_def)
  have "frame_tidy pframe_new" by (simp add: frame_tidy_def pframe_new_def)
  then show "tidy ?c" using assms(2) unfolding tidy_def push_view by (auto split: nat.splits)
  have "(\<exists>i r sl. slot_at ?c i r = Some sl \<and> p \<in> slot_bits sl) \<longleftrightarrow> (\<exists>i r sl. slot_at ctx i r = Some sl \<and> p \<in> slot_bits sl)" for p
    unfolding push_view by (metis nat.case option.distinct(1) nat.exhaust)
  then show "open_bits ?c = open_bits ctx" by (simp add: open_bits_def)
  show "fresh {} A ?c" unfolding fresh_def push_view by simp
qed

lemma pop_view:
  assumes "pc_frames ctx = f # rest"
  shows "slot_at (ctx\<lparr>pc_frames := rest\<rparr>) i r = slot_at ctx (Suc i) r" "touched (ctx\<lparr>pc_frames := rest\<rparr>) i r \<longleftrightarrow> touched ctx (Suc i) r"
  using assms by (simp_all add: slot_at_def touched_def)

lemma push_pop_moves:
  assumes ok: "pctx_ok d ctx" "tidy ctx" and m: "moves {} A (Suc d) (ctx\<lparr>pc_frames := pframe_new # pc_frames ctx\<rparr>) c"
    and f: "pc_frames c = f # rest"
  shows "moves {} {} d ctx (c\<lparr>pc_frames := rest\<rparr>)" and "agree buf (c\<lparr>pc_frames := rest\<rparr>) \<Longrightarrow> agree buf c" and "pr_digests f = []"
proof -
  let ?push = "ctx\<lparr>pc_frames := pframe_new # pc_frames ctx\<rparr>" and ?pop = "c\<lparr>pc_frames := rest\<rparr>"
  note view = pop_view [OF f]
  have t: "tidy c" "pctx_ok (Suc d) c" using m by (simp_all add: moves_def)
  show "pr_digests f = []" using t(1) by (simp add: tidy_def f frame_tidy_def)
  have open': "open_bits ?pop \<subseteq> open_bits c" unfolding open_bits_def view by blast
  have "tidy ?pop" using t(1) unfolding tidy_def view f by (auto simp: f)
  moreover have "pctx_ok d ?pop" using t(2) by (simp add: pctx_ok_def f)
  moreover have "touched ctx i r" if "touched ?pop i r" for i r
  proof -
    have "touched c (Suc i) r" using that by (simp add: view)
    then have "touched ?push (Suc i) r \<or> (Suc i = 0 \<and> r \<in> A)" using m unfolding moves_def by blast
    then show ?thesis by (simp add: push_view)
  qed
  ultimately show "moves {} {} d ctx ?pop" using m open' push_tidy(3) [OF ok] unfolding moves_def by auto
  show "agree buf c" if "agree buf ?pop" using that open' by (auto simp: agree_def agree_on_def)
qed

lemma val_mirror_struct:
  assumes om: "\<And>M. v = VMap M \<Longrightarrow> op_mirror H d regs nms sd (\<lambda>view ctx. fold_res (\<lambda>op ctx. pack_op H tree_source op view ctx) (prog_ops prog) ctx)
      (\<lambda>E limit st. fold_res (\<lambda>op st. run_op E op limit st) (prog_ops prog) st) M"
    and nms: "distinct nms"
  shows "val_mirror H d sd (pack_struct H tree_source prog) (\<lambda>E. run_struct E prog) v"
proof (rule val_mirrorI)
  fix ctx ctx' :: pctx
  let ?pos = "length (pc_out ctx)" and ?push = "ctx\<lparr>pc_frames := pframe_new # pc_frames ctx\<rparr>"
  let ?ops = "\<lambda>view ctx. fold_res (\<lambda>op ctx. pack_op H tree_source op view ctx) (prog_ops prog) ctx"
  assume p: "pack_struct H tree_source prog v ctx = Inr ctx'" and ok: "pctx_ok d ctx" "tidy ctx"
  from p obtain M c where M: "v = VMap M" and c: "?ops M ?push = Inr c"
    by (cases v) (auto simp: pack_struct.simps [of H tree_source prog] bind_res_eq_Inr)
  note push = push_tidy [OF ok]
  note od = op_mirrorD [OF om [OF M] c push(1,2,4)]
  obtain f rest where f: "pc_frames c = f # rest" using od(1) by (cases "pc_frames c") (simp_all add: moves_def pctx_ok_def)
  note pp = push_pop_moves [OF ok od(1) f]
  have again: "pack_struct H tree_source prog (VMap L) ctx = Inr (c\<lparr>pc_frames := rest\<rparr>)" if "?ops L ?push = Inr c" for L
    using that by (simp add: pack_struct.simps [of H tree_source prog] f pp(3))
  have ctx': "ctx' = c\<lparr>pc_frames := rest\<rparr>" using p again [OF c] M by simp
  show "moves {} {} d ctx ctx'" unfolding ctx' by (rule pp(1))
  fix buf fs limit
  assume ag: "agree buf ctx'" and mir: "mirrors buf ctx fs" and fok: "frames_ok (length buf) d fs"
    and lim: "length (pc_out ctx') \<le> limit" "limit \<le> length buf" "length buf < usize_max" and tail: "\<not> sd \<Longrightarrow> limit = length (pc_out ctx')"
  have ag1: "agree buf c" by (rule pp(2)) (use ag ctx' in simp)
  have mir1: "mirrors buf ?push (new_frame # fs)" using mir by (simp add: mirrors_push)
  have fok1: "frames_ok (length buf) (Suc d) (new_frame # fs)" using fok by (simp add: frames_ok_def)
  have ob: "below buf c (new_frame # fs)" "tame (fold_res (\<lambda>op st. run_op (reader H buf) op limit st) (prog_ops prog) (?pos, VMap [], [], new_frame # fs))
      (op_back buf d nms (\<lambda>M. ?ops M ?push = Inr c) c (new_frame # fs) [])"
    using od(2) [OF ag1 mir1 fok1, of limit "[]"] lim tail by (simp_all add: ctx')
  have mir': "mirrors buf ctx' fs" using ob(1) by (simp add: below_def mirrors_def ctx' f)
  have "tame (run_struct (reader H buf) prog fs ?pos limit) (value_back buf d (\<lambda>w. pack_struct H tree_source prog w ctx = Inr ctx') ctx' fs)"
  proof (cases "MAX_DEPTH \<le> length fs")
    case False
    have "tame (bind_res (fold_res (\<lambda>op st. run_op (reader H buf) op limit st) (prog_ops prog) (?pos, VMap [], [], new_frame # fs))
          (\<lambda>(end, m, deferred, frames). case frames of [] \<Rightarrow> panic | f # rest \<Rightarrow>
             bind_res (fold_res (check_deferred H buf ?pos end (fr_spans f)) deferred ()) (\<lambda>_. Inr (m, end, rest))))
        (value_back buf d (\<lambda>w. pack_struct H tree_source prog w ctx = Inr ctx') ctx' fs)"
    proof (rule tame_bind [OF ob(2)])
      fix st
      assume "op_back buf d nms (\<lambda>M. ?ops M ?push = Inr c) c (new_frame # fs) [] st"
      then obtain es fs1 where st: "st = (length (pc_out c), VMap es, [], fs1)" and fs1: "frames_ok (length buf) (Suc d) fs1"
        "map fr_regs (tl fs1) = map fr_regs fs"
        and es: "subseq (map fst es) nms" "trees_ok es" "\<And>M. has_entries M es \<Longrightarrow> ?ops M ?push = Inr c"
        by (auto simp: op_back_def)
      obtain g gs where g: "fs1 = g # gs" using fs1(1) by (cases fs1) (simp_all add: frames_ok_def)
      have de: "distinct (map fst es)" using es(1) nms by (metis distinct_nthsI subseq_conv_nths)
      have "pack_struct H tree_source prog (VMap es) ctx = Inr ctx'" unfolding ctx' by (rule again [OF es(3) [OF has_entries_self [OF de]]])
      then show "tame (case st of (end, m, deferred, frames) \<Rightarrow> case frames of [] \<Rightarrow> panic | f # rest \<Rightarrow>
             bind_res (fold_res (check_deferred H buf ?pos end (fr_spans f)) deferred ()) (\<lambda>_. Inr (m, end, rest)))
        (value_back buf d (\<lambda>w. pack_struct H tree_source prog w ctx = Inr ctx') ctx' fs)"
        using fs1 es(2) de by (simp add: st g value_back_def ctx' frames_ok_def trees_ok_def list_all_iff)
    qed
    then show ?thesis using False by (simp add: run_struct.simps [of "reader H buf" prog])
  qed (simp add: run_struct.simps [of "reader H buf" prog])
  then show "mirrors buf ctx' fs \<and> tame (run_struct (reader H buf) prog fs ?pos limit)
      (value_back buf d (\<lambda>w. pack_struct H tree_source prog w ctx = Inr ctx') ctx' fs)" using mir' by blast
qed

end
