(* ===== verification/Extent.thy ===== *)
theory Extent
  imports Unpack_Safety
begin

text \<open>
  The sizes the compiler notes are those the unpacker meets: a value takes at least the minimal
  size of its opcode, and exactly its static size where it has one. The unchecked sum of static
  sizes may wrap, but then no buffer is long enough. \<open>Pack_Extent\<close> shows the same of the packer.
\<close>

section \<open>Sizes of opcodes\<close>

definition takes :: "op \<Rightarrow> nat \<Rightarrow> bool" where
  "takes op n \<longleftrightarrow> op_min op \<le> n \<and> (\<forall>s. op_static op = Some s \<longrightarrow> n = s)"

definition prog_takes :: "program \<Rightarrow> nat \<Rightarrow> bool" where
  "prog_takes prog n \<longleftrightarrow> prog_min_size prog \<le> n \<and> (\<forall>s. prog_static_size prog = Some s \<longrightarrow> n = s)"

lemma takes_simps [simp]:
  "takes (OpFixed width items) n \<longleftrightarrow> n = width"
  "takes (OpBitRun nbytes bits) n \<longleftrightarrow> n = nbytes"
  "takes (OpDigest algo over verify be c) n \<longleftrightarrow> n = width_bytes algo"
  "takes (OpFlags prim be flags rest m c) n \<longleftrightarrow> n = prim_width prim"
  "takes (OpCStr mx e c) n \<longleftrightarrow> 1 \<le> n"
  "takes (OpCond pred thn c) n"
  by (auto simp: takes_def)

text \<open>A constant length is what the expression evaluates to, and what \<open>as usize\<close> makes of it.\<close>

lemma eval_const: "eval_expr get (Expr [IImm n]) = Inr n"
  by (simp add: eval_expr_def push_cell_def update_res_def nth_res_def EXPR_STACK_def)

lemma as_usize_nat: "in_i64 n \<Longrightarrow> 0 \<le> n \<Longrightarrow> as_usize n = nat n"
  by (simp add: as_usize_def in_i64_iff)

lemma const_ok: "expr_ok d e \<Longrightarrow> as_const e = Some n \<Longrightarrow> e = Expr [IImm n] \<and> in_i64 n"
  by (cases e rule: as_const.cases) (auto simp: expr_ok_def)

lemma len_const_None: "len_const (LenExpr e (Some iv)) = None" "len_const LenGreedy = None"
  by (simp_all add: len_const_def)

lemma len_const_eq:
  assumes "len_src_ok d len" and "len_const len = Some k"
  obtains n where "len = LenExpr (Expr [IImm n]) None" "in_i64 n" "k = as_usize n"
proof (cases len)
  case (LenExpr e iv)
  then have iv: "iv = None" and k: "map_option as_usize (as_const e) = Some k"
    using assms(2) by (auto simp: len_const_def split: option.splits)
  then obtain n where "as_const e = Some n" "k = as_usize n" by auto
  then show ?thesis using that const_ok [of d e n] assms(1) LenExpr iv by (auto simp: len_ok_def)
qed (use assms in \<open>simp add: len_const_def\<close>)

lemma takes_blob:
  assumes "op_min op = (case len_const len of Some k \<Rightarrow> k | None \<Rightarrow> 0)" and "op_static op = len_const len"
    and "\<And>k. len_const len = Some k \<Longrightarrow> n = k"
  shows "takes op n"
  using assms by (cases "len_const len") (auto simp: takes_def)

text \<open>A struct with a declared size takes it, and at least what its body needs.\<close>

lemma takes_nest:
  assumes "prog_takes prog n" and "\<And>e i. sz = Some (LenExpr e None) \<Longrightarrow> as_const e = Some i \<Longrightarrow> n = as_usize i"
  shows "takes (OpNest prog sz c) n"
  using assms by (auto simp: takes_def prog_takes_def split: option.splits len_src.splits)

lemma takes_array:
  assumes em: "em = op_min elem"
    and n: "\<And>e i. count = CountExpr e None \<Longrightarrow> as_const e = Some i \<Longrightarrow>
      as_usize i * op_min elem \<le> n \<and> (\<forall>s. op_static elem = Some s \<longrightarrow> n = as_usize i * s)"
  shows "takes (OpArray count mc elem em c) n"
proof (cases count)
  case (CountExpr e iv)
  then show ?thesis using n [of e]
    by (cases iv; cases "as_const e") (auto simp: takes_def em saturating_mul_def checked_mul_def min_le_iff_disj split: option.splits if_splits)
qed (simp add: takes_def)

lemma fold_min_le: "fold (\<lambda>c m. min m (f c)) xs a \<le> (a :: nat)"
proof (induction xs arbitrary: a)
  case (Cons x xs)
  show ?case using order_trans [OF Cons.IH [of "min a (f x)"] min.cobounded1] by simp
qed simp

lemma fold_min_le_mem: "x \<in> set xs \<Longrightarrow> fold (\<lambda>c m. min m (f c)) xs a \<le> (f x :: nat)"
proof (induction xs arbitrary: a)
  case (Cons y xs)
  then show ?case using order_trans [OF fold_min_le [of f xs "min a (f y)"] min.cobounded2] by auto
qed simp

lemma takes_switch:
  assumes b: "switch_branch tag cases dflt = Some b" and n: "takes b n"
  shows "takes (OpSwitch on cases dflt c) n"
proof -
  have mem: "(tag, b) \<in> set cases \<or> dflt = Some b" by (rule switch_branch_cases [OF b])
  then have "fold (\<lambda>c m. min m (op_min (snd c))) cases usize_max \<le> op_min b \<or> dflt = Some b"
    using fold_min_le_mem [of "(tag, b)" cases "\<lambda>c. op_min (snd c)"] by auto
  then have mn: "op_min (OpSwitch on cases dflt c) \<le> op_min b"
    by (auto simp: Let_def min_le_iff_disj split: option.split)
  have st: "op_static b = Some s" if "op_static (OpSwitch on cases dflt c) = Some s" for s
    using that mem by (cases cases) (auto simp: Let_def list_all_iff split: option.splits if_splits)
  show ?thesis using n mn st unfolding takes_def by (metis order_trans)
qed

text \<open>Sums over a scope; \<open>total\<close> is a bound no real sum exceeds.\<close>

definition sum_ok :: "nat \<times> nat option \<Rightarrow> nat \<Rightarrow> bool" where
  "sum_ok ms n \<longleftrightarrow> fst ms \<le> n \<and> (\<forall>s. snd ms = Some s \<longrightarrow> n = s)"

lemma sum_ok_step:
  assumes "sum_ok (m, s) n" and "takes op k" and "n + k < 2 ^ 64"
  shows "sum_ok (saturating_add m (op_min op), add_static s (op_static op)) (n + k)"
  using assms by (auto simp: sum_ok_def takes_def saturating_add_def add_static_def wrapping_add_def min_le_iff_disj
    split: option.splits)

lemma prog_takes_sum: "wf_prog d prog \<Longrightarrow> prog_takes prog n \<longleftrightarrow> sum_ok (ops_min (prog_ops prog), ops_static (prog_ops prog)) n"
  by (cases prog) (simp add: prog_takes_def sum_ok_def)

section \<open>Unpacking\<close>

definition extent :: "('v, 'm, 'l) uenv \<Rightarrow> nat \<Rightarrow> 'v uvalue \<Rightarrow> (nat \<Rightarrow> bool) \<Rightarrow> bool" where
  "extent E d f T \<longleftrightarrow>
     (\<forall>frames pos limit v end fr. frames_ok (length (ue_buf E)) d frames \<longrightarrow> window_ok E pos limit \<longrightarrow>
        f frames pos limit = Inr (v, end, fr) \<longrightarrow> T (end - pos))"

lemma extentD:
  "extent E d f T \<Longrightarrow> frames_ok (length (ue_buf E)) d frames \<Longrightarrow> window_ok E pos limit \<Longrightarrow>
     f frames pos limit = Inr (v, end, fr) \<Longrightarrow> T (end - pos)"
  by (auto simp: extent_def)

lemma eval_len_const: "eval_len frames (Expr [IImm n]) pos = Inr k \<Longrightarrow> in_i64 n \<Longrightarrow> k = as_usize n"
  by (auto simp: eval_len_def eval_def eval_const as_usize_nat split: if_splits)

lemma resolve_len_const:
  assumes "resolve_len frames len mx pos limit = Inr n" and "len_src_ok d len" and "len_const len = Some k"
  shows "n = k"
  using assms(2,3)
proof (rule len_const_eq)
  fix i
  assume "len = LenExpr (Expr [IImm i]) None" "in_i64 i" "k = as_usize i"
  then show "n = k" using assms(1)
    by (auto simp: resolve_len_def bind_res_eq_Inr dest!: eval_len_const split: if_splits)
qed

lemma extent_nest:
  assumes f: "extent E d f (prog_takes prog)" and s: "safe_value E d f"
    and sz: "case sz of Some len \<Rightarrow> len \<noteq> LenGreedy \<and> len_src_ok d len | None \<Rightarrow> True"
  shows "extent E d (do_nest E f sz) (takes (OpNest prog sz c))"
  unfolding extent_def
proof (intro allI impI)
  fix frames pos limit v "end" fr
  assume fr: "frames_ok (length (ue_buf E)) d frames" and w: "window_ok E pos limit"
    and run: "do_nest E f sz frames pos limit = Inr (v, end, fr)"
  show "takes (OpNest prog sz c) (end - pos)"
  proof (cases sz)
    case None
    then have "f frames pos limit = Inr (v, end, fr)" using run by (simp add: do_nest_def)
    from extentD [OF f fr w this] show ?thesis by (rule takes_nest) (simp add: None)
  next
    case (Some len)
    then obtain e iv where e: "sz = Some (LenExpr e iv)" "expr_ok d e" using sz by (cases len) (auto simp: len_ok_def)
    then obtain n v' fr' where n: "eval_len frames e pos = Inr n" "need (ue_buf E) pos limit n = Inr ()"
      "f frames pos (pos + n) = Inr (v', pos + n, fr')" "end = pos + n"
      using run by (auto simp: do_nest_def bind_res_eq_Inr split: if_splits)
    have w': "window_ok E pos (pos + n)"
      using safe_Inr [OF safe_need_window [OF w] n(2)] w by (simp add: window_ok_def)
    from extentD [OF f fr w' n(3)] show ?thesis unfolding n(4)
      by (rule takes_nest) (use n(1) e const_ok [OF e(2)] in \<open>auto dest: eval_len_const\<close>)
  qed
qed

lemma array_steps:
  assumes f: "extent E d f (takes elem)" and s: "safe_value E d f"
  shows "astate_ok E d start limit (pos, out, frames) \<Longrightarrow>
    fold_res (array_step B f limit) xs (pos, out, frames) = Inr (end, out', fr) \<Longrightarrow>
    pos \<le> end \<and> length xs * op_min elem \<le> end - pos \<and> (\<forall>k. op_static elem = Some k \<longrightarrow> end - pos = length xs * k)"
proof (induction xs arbitrary: pos out frames)
  case (Cons x xs)
  have fr: "frames_ok (length (ue_buf E)) d frames" and w: "window_ok E pos limit"
    using Cons.prems(1) by (auto simp: astate_ok_def)
  obtain st where st: "array_step B f limit x (pos, out, frames) = Inr st"
    and st': "fold_res (array_step B f limit) xs st = Inr (end, out', fr)"
    using Cons.prems(2) by (auto simp: bind_res_eq_Inr)
  obtain v p1 fr1 where 1: "f frames pos limit = Inr (v, p1, fr1)" and "st = (p1, b_list_push B out v, fr1)"
    using st by (auto simp: array_step_def bind_res_eq_Inr)
  note rest = st' [unfolded this(2)]
  have "astate_ok E d start limit (p1, b_list_push B out v, fr1)"
    using safe_Inr [OF safe_array_step [OF s Cons.prems(1)], of B x "(p1, b_list_push B out v, fr1)"] 1
    by (simp add: array_step_def)
  from Cons.IH [OF this rest] extentD [OF f fr w 1] safe_Inr [OF safe_valueD [OF s fr w] 1] show ?case
    by (auto simp: takes_def value_ok_def)
qed simp

lemma extent_array:
  assumes f: "extent E d f (takes elem)" and s: "safe_value E d f" and count: "count_src_ok d count" and em: "em = op_min elem"
  shows "extent E d (do_array E f count mc em) (takes (OpArray count mc elem em c))"
  unfolding extent_def
proof (intro allI impI)
  fix frames pos limit v "end" fr
  assume fr: "frames_ok (length (ue_buf E)) d frames" and w: "window_ok E pos limit"
    and run: "do_array E f count mc em frames pos limit = Inr (v, end, fr)"
  show "takes (OpArray count mc elem em c) (end - pos)"
  proof (rule takes_array [OF em])
    fix e i
    assume c: "count = CountExpr e None" "as_const e = Some i"
    then have i: "e = Expr [IImm i]" "in_i64 i" using const_ok count by (auto simp: len_ok_def)
    then have nn: "0 \<le> i" using run c by (auto simp: do_array_def eval_def eval_const Let_def split: if_splits)
    then obtain out out' where loop: "fold_res (array_step (ue_builder E) f limit) [0..<nat i] (pos, out, frames) = Inr (end, out', fr)"
      using run c i by (auto simp: do_array_def eval_def eval_const Let_def bind_res_eq_Inr split: if_splits)
    have "astate_ok E d pos limit (pos, out, frames)" using fr w by (simp add: astate_ok_def)
    from array_steps [OF f s this loop] show
      "as_usize i * op_min elem \<le> end - pos \<and> (\<forall>s. op_static elem = Some s \<longrightarrow> end - pos = as_usize i * s)"
      using i nn by (simp add: as_usize_nat)
  qed
qed

lemma extent_switch:
  assumes "\<And>tag b. switch_branch tag cases dflt = Some b \<Longrightarrow> extent E d (f b) (takes b)"
  shows "extent E d (do_switch f on cases dflt) (takes (OpSwitch on cases dflt c))"
  unfolding extent_def
  by (auto simp: do_switch_def bind_res_eq_Inr split: option.splits intro: takes_switch extentD [OF assms])

lemma extent_op_value_step:
  assumes wf: "wf_val (Suc d) op"
    and nest: "\<And>prog sz c. op = OpNest prog sz c \<Longrightarrow> extent E (Suc d) (run_struct E prog) (prog_takes prog)"
    and elem: "\<And>count mc elem em c. op = OpArray count mc elem em c \<Longrightarrow> extent E (Suc d) (op_value E elem) (takes elem)"
    and branch: "\<And>on cases dflt c tag b. op = OpSwitch on cases dflt c \<Longrightarrow> switch_branch tag cases dflt = Some b \<Longrightarrow>
      extent E (Suc d) (op_value E b) (takes b)"
  shows "extent E (Suc d) (op_value E op) (takes op)"
  unfolding extent_def
proof (intro allI impI)
  fix frames pos limit v "end" fr
  assume fr: "frames_ok (length (ue_buf E)) (Suc d) frames" and w: "window_ok E pos limit"
    and run: "op_value E op frames pos limit = Inr (v, end, fr)"
  show "takes op (end - pos)"
  proof (cases op)
    case (OpFixed width items)
    then show ?thesis using run by (auto simp: op_value.simps bind_res_eq_Inr)
  next
    case (OpBytes len mx c)
    obtain n where n: "resolve_len frames len mx pos limit = Inr n" "end = pos + n"
      using run by (auto simp: op_value.simps OpBytes bind_res_eq_Inr Let_def)
    show ?thesis unfolding OpBytes
      by (rule takes_blob [of _ len]) (use wf resolve_len_const [OF n(1)] n(2) in \<open>simp_all add: OpBytes\<close>)
  next
    case (OpStr len mx enc c)
    obtain n where n: "resolve_len frames len mx pos limit = Inr n" "end = pos + n"
      using run by (auto simp: op_value.simps OpStr bind_res_eq_Inr Let_def)
    show ?thesis unfolding OpStr
      by (rule takes_blob [of _ len]) (use wf resolve_len_const [OF n(1)] n(2) in \<open>simp_all add: OpStr\<close>)
  next
    case (OpCStr mx enc c)
    then show ?thesis using run
      by (auto simp: op_value.simps bind_res_eq_Inr do_cstr_def Let_def split: option.splits if_splits)
  next
    case (OpFlags prim be flags rest m c)
    then show ?thesis using run
      by (auto simp: op_value.simps bind_res_eq_Inr do_flags_def Let_def split: rest_policy.splits if_splits)
  next
    case (OpNest prog sz c)
    then have sz: "case sz of Some len \<Rightarrow> len \<noteq> LenGreedy \<and> len_src_ok (Suc d) len | None \<Rightarrow> True"
      and wp: "wf_prog (Suc d) prog" using wf by simp_all
    from extentD [OF extent_nest [OF nest [OF OpNest] safe_run_struct [OF wp] sz] fr w] run
    show ?thesis by (simp add: op_value.simps OpNest)
  next
    case (OpArray count mc elem_op em c)
    then have "count_src_ok (Suc d) count" "em = op_min elem_op" "wf_val (Suc d) elem_op" using wf by simp_all
    from extentD [OF extent_array [OF elem [OF OpArray] safe_op_value [OF this(3)] this(1,2)] fr w] run
    show ?thesis by (simp add: op_value.simps OpArray)
  next
    case (OpSwitch on cases dflt c)
    from extentD [OF extent_switch [OF branch [OF OpSwitch]] fr w] run
    show ?thesis by (simp add: op_value.simps OpSwitch)
  qed (use wf in simp_all)
qed

definition state_extent :: "('v, 'm, 'l) uenv \<Rightarrow> nat \<Rightarrow> op \<Rightarrow> bool" where
  "state_extent E d op \<longleftrightarrow> (\<forall>start limit pos m df frames end st. state_ok E d start limit (pos, m, df, frames) \<longrightarrow>
     run_op E op limit (pos, m, df, frames) = Inr (end, st) \<longrightarrow> pos \<le> end \<and> takes op (end - pos))"

lemma extent_place_value:
  assumes "place_value E c (f frames pos limit) (pos, m, df, frames') = Inr (end, st)"
    and "extent E (Suc d) f T" and "frames_ok (length (ue_buf E)) (Suc d) frames" and "window_ok E pos limit"
    and "safe_value E (Suc d) f"
  shows "pos \<le> end \<and> T (end - pos)"
proof -
  obtain v fr where f: "f frames pos limit = Inr (v, end, fr)"
    using assms(1) by (auto simp: place_value_def bind_res_eq_Inr)
  show ?thesis using extentD [OF assms(2-4) f] safe_Inr [OF safe_valueD [OF assms(5,3,4)] f] by (simp add: value_ok_def)
qed

lemma extent_run_op_step:
  assumes wf: "wf_op (Suc d) op" and val: "wf_val (Suc d) op \<Longrightarrow> extent E (Suc d) (op_value E op) (takes op)"
  shows "state_extent E d op"
  unfolding state_extent_def
proof (intro allI impI)
  fix start limit pos m df frames "end" st
  assume ok: "state_ok E d start limit (pos, m, df, frames)"
    and run: "run_op E op limit (pos, m, df, frames) = Inr (end, st)"
  have fr: "frames_ok (length (ue_buf E)) (Suc d) frames" and w: "window_ok E pos limit"
    using ok by (simp_all add: state_ok_def)
  have plain: "pos \<le> end \<and> takes op (end - pos)"
    if "wf_val (Suc d) op" "place_value E c (op_value E op frames pos limit) (pos, m, df, frames) = Inr (end, st)" for c
    by (rule extent_place_value [OF that(2) val [OF that(1)] fr w safe_op_value [OF that(1)]])
  show "pos \<le> end \<and> takes op (end - pos)"
  proof (cases op)
    case (OpFixed width items)
    then show ?thesis using run by (auto simp: run_op.simps run_fixed_def bind_res_eq_Inr)
  next
    case (OpBitRun nbytes items)
    then show ?thesis using run by (auto simp: run_op.simps run_bits_def bind_res_eq_Inr)
  next
    case (OpDigest algo over verify be c)
    then show ?thesis using run by (auto simp: run_op.simps run_digest_def Let_def bind_res_eq_Inr split: if_splits)
  next
    case (OpCond pred thn c)
    then have "wf_val (Suc d) thn" using wf by simp
    then have "safe_value E (Suc d) (op_value E thn)" by (rule safe_op_value)
    then have "pos \<le> end" if "place_value E c (op_value E thn frames pos limit) (pos, m, df, frames) = Inr (end, st)"
      using extent_place_value [where f = "op_value E thn" and T = "\<lambda>_. True", OF that _ fr w] by (simp add: extent_def)
    then show ?thesis using run by (auto simp: OpCond run_op.simps bind_res_eq_Inr split: if_splits)
  qed (use wf plain run in \<open>auto simp: run_op.simps bind_res_eq_Inr\<close>)
qed

text \<open>The sum over the opcodes of a scope.\<close>

lemma extent_ops:
  assumes wf: "\<And>op. op \<in> set ops \<Longrightarrow> wf_op (Suc d) op \<and> state_extent E d op"
  shows "state_ok E d start limit (pos, m, df, frames) \<Longrightarrow> sum_ok (mn, s) (pos - start) \<Longrightarrow>
    fold_res (\<lambda>op st. run_op E op limit st) ops (pos, m, df, frames) = Inr (end, m', df', frames') \<Longrightarrow>
    sum_ok (foldl (\<lambda>m op. saturating_add m (op_min op)) mn ops, foldl (\<lambda>m op. add_static m (op_static op)) s ops) (end - start)"
  using wf
proof (induction ops arbitrary: pos m df frames mn s)
  case (Cons op ops)
  obtain p1 m1 d1 f1 where 1: "run_op E op limit (pos, m, df, frames) = Inr (p1, m1, d1, f1)"
    and rest: "fold_res (\<lambda>op st. run_op E op limit st) ops (p1, m1, d1, f1) = Inr (end, m', df', frames')"
    using Cons.prems(3) by (auto simp: bind_res_eq_Inr)
  have ok: "state_ok E d start limit (p1, m1, d1, f1)"
    using safe_Inr [OF safe_run_op [OF _ Cons.prems(1), of op]  1] Cons.prems(4) by simp
  have t: "pos \<le> p1" "takes op (p1 - pos)" using Cons.prems(1,4) 1 unfolding state_extent_def by force+
  have b: "start \<le> pos" "p1 < 2 ^ 64" using Cons.prems(1) ok by (auto simp: state_ok_def window_ok_def usize_max_def)
  have "sum_ok (saturating_add mn (op_min op), add_static s (op_static op)) (p1 - start)"
    using sum_ok_step [OF Cons.prems(2) t(2)] t(1) b by simp
  from Cons.IH [OF ok this rest] Cons.prems(4) show ?case by simp
qed simp

lemma extent_run_struct_step:
  assumes wf: "wf_prog d prog" and ops: "\<And>op. op \<in> set (prog_ops prog) \<Longrightarrow> state_extent E d op"
  shows "extent E d (run_struct E prog) (prog_takes prog)"
  unfolding extent_def
proof (intro allI impI)
  fix frames pos limit v "end" fr
  assume fr: "frames_ok (length (ue_buf E)) d frames" and w: "window_ok E pos limit"
    and run: "run_struct E prog frames pos limit = Inr (v, end, fr)"
  let ?init = "(pos, b_map_new (ue_builder E) (length (prog_ops prog)), [], new_frame # frames)"
  have ok: "state_ok E d pos limit ?init" using fr w by (simp add: state_ok_def frames_ok_def)
  obtain m df frames' where loop: "fold_res (\<lambda>op st. run_op E op limit st) (prog_ops prog) ?init = Inr (end, m, df, frames')"
    using run by (auto simp: run_struct.simps bind_res_eq_Inr neq_Nil_conv split: if_splits list.split_asm)
  have "wf_op (Suc d) op \<and> state_extent E d op" if "op \<in> set (prog_ops prog)" for op
    using ops [OF that] wf that by (cases prog) (auto simp: list_all_iff)
  from extent_ops [where mn = 0 and s = "Some 0", OF this ok _ loop] have "sum_ok (ops_min (prog_ops prog), ops_static (prog_ops prog)) (end - pos)"
    by (simp add: sum_ok_def ops_min_def ops_static_def)
  then show "prog_takes prog (end - pos)" by (simp add: prog_takes_sum [OF wf])
qed

lemma extent_walk:
  "(\<forall>prog d. 2 * size prog < n \<longrightarrow> wf_prog d prog \<longrightarrow> extent E d (run_struct E prog) (prog_takes prog)) \<and>
   (\<forall>op d. 2 * size op + 1 < n \<longrightarrow> wf_op (Suc d) op \<longrightarrow> state_extent E d op) \<and>
   (\<forall>op d. 2 * size op < n \<longrightarrow> wf_val (Suc d) op \<longrightarrow> extent E (Suc d) (op_value E op) (takes op))"
proof (induction n)
  case (Suc n)
  have 1: "extent E d (run_struct E prog) (prog_takes prog)" if "2 * size prog < Suc n" "wf_prog d prog" for prog d
  proof (rule extent_run_struct_step [OF that(2)])
    fix op
    assume op: "op \<in> set (prog_ops prog)"
    have "wf_op (Suc d) op" using that(2) op by (cases prog) (auto simp: list_all_iff)
    moreover have "2 * size op + 1 < n" using size_prog_ops [OF op] that(1) by simp
    ultimately show "state_extent E d op" using Suc by blast
  qed
  have 3: "extent E (Suc d) (op_value E op) (takes op)" if n: "2 * size op < Suc n" and wf: "wf_val (Suc d) op" for op d
  proof (rule extent_op_value_step [OF wf])
    show "extent E (Suc d) (run_struct E prog) (prog_takes prog)" if "op = OpNest prog sz c" for prog sz c
      using that n wf by (intro 1) simp_all
    show "extent E (Suc d) (op_value E elem) (takes elem)" if "op = OpArray count mc elem em c" for count mc elem em c
    proof -
      have "2 * size elem < n" "wf_val (Suc d) elem" using that n wf by simp_all
      then show ?thesis using Suc by blast
    qed
    show "extent E (Suc d) (op_value E b) (takes b)"
      if "op = OpSwitch on cases dflt c" and b: "switch_branch tag cases dflt = Some b" for on cases dflt c tag b
    proof -
      have "2 * size b < n" "wf_val (Suc d) b"
        using that(1) n wf size_switch_branch [OF b] wf_switch_branch [OF b] by simp_all
      then show ?thesis using Suc by blast
    qed
  qed
  have 2: "state_extent E d op" if "2 * size op + 1 < Suc n" "wf_op (Suc d) op" for op d
    using that by (intro extent_run_op_step 3) simp_all
  show ?case using 1 2 3 by blast
qed simp

lemma extent_run_struct: "wf_prog d prog \<Longrightarrow> extent E d (run_struct E prog) (prog_takes prog)"
  using extent_walk [of "Suc (2 * size prog)" E] by blast

text \<open>C7: unpacking consumes what the compiler measured: at least the program's \<open>min_size\<close> and
  exactly its \<open>static_size\<close> where it has one.\<close>

theorem unpack_consumes:
  assumes "wf_prog 0 prog" and "length buf < usize_max"
    and "run_with H B prog buf offset exact stream = Inr (OOk v end)"
  shows "prog_min_size prog \<le> end - min offset (length buf) \<and>
    (\<forall>s. prog_static_size prog = Some s \<longrightarrow> end = min offset (length buf) + s)"
proof -
  let ?E = "\<lparr>ue_buf = buf, ue_builder = B, ue_hashes = H\<rparr>" and ?start = "min offset (length buf)"
  obtain v fr where run: "run_struct ?E prog [] ?start (length buf) = Inr (v, end, fr)"
    using assms(3) by (auto simp: run_with_def split: sum.splits fault.splits ufail.splits if_splits)
  have ok: "frames_ok (length (ue_buf ?E)) 0 []" "window_ok ?E ?start (length buf)"
    using assms(2) by (simp_all add: frames_ok_def window_ok_def)
  show ?thesis
    using extentD [OF extent_run_struct [OF assms(1)] ok run]
      safe_Inr [OF safe_valueD [OF safe_run_struct [OF assms(1)] ok] run]
    by (auto simp: prog_takes_def value_ok_def)
qed

theorem unpack_consumes_witness:
  "(4 :: nat) \<le> 5 - min 1 (length [9, 0, 0, 0, 7, 65 :: 8 word]) \<and> 5 = min 1 (length [9, 0, 0, 0, 7, 65 :: 8 word]) + (4 :: nat)"
proof -
  let ?prog = "Program [OpFixed 4 [\<lparr>fi_off = 0, fi_kind = FInt U32 True None False, fi_reg = None, fi_span = None, fi_key = Named ''n''\<rparr>]] 0 0 4 (Some 4)"
  have 1: "run_with zero_hashes value_builder ?prog [9, 0, 0, 0, 7, 65] 1 False False = Inr (OOk (VMap [(''n'', VInt 7)]) 5)" by code_simp
  have "wf_prog 0 ?prog" by (simp add: fixed_item_ok_def idx_ok_def ops_size_defs)
  from unpack_consumes [OF this _ 1] show ?thesis by simp
qed

end
