(* ===== verification/Pack_Extent.thy ===== *)
theory Pack_Extent
  imports Extent Pack_Safety
begin

text \<open>
  The packer writes what the compiler measured: at least the minimal size and exactly the static
  size of a program, when none of its runs is wider than a vector can be.
\<close>

definition grew :: "pctx \<Rightarrow> pctx \<Rightarrow> nat" where
  "grew ctx ctx' = length (pc_out ctx') - length (pc_out ctx)"

definition pextent :: "nat \<Rightarrow> 'v pvalue \<Rightarrow> (nat \<Rightarrow> bool) \<Rightarrow> bool" where
  "pextent d p T \<longleftrightarrow> (\<forall>v ctx ctx'. pctx_ok d ctx \<longrightarrow> p v ctx = Inr ctx' \<longrightarrow> length (pc_out ctx') < 2 ^ 64 \<longrightarrow> T (grew ctx ctx'))"

lemma pextentD: "pextent d p T \<Longrightarrow> pctx_ok d ctx \<Longrightarrow> p v ctx = Inr ctx' \<Longrightarrow> length (pc_out ctx') < 2 ^ 64 \<Longrightarrow> T (grew ctx ctx')"
  by (simp add: pextent_def)

lemma grew_adds: "adds d n ctx ctx' \<Longrightarrow> grew ctx ctx' = n"
  by (simp add: adds_def grew_def)

lemma finish_len_length:
  "pctx_ok d ctx \<Longrightarrow> len_src_ok d len \<Longrightarrow> finish_len len n ctx = Inr ctx' \<Longrightarrow> stays d ctx ctx'"
  by (rule safe_Inr [OF safe_finish_len])

lemma finish_len_const:
  assumes "finish_len len n ctx = Inr ctx'" and "len_src_ok d len" and "len_const len = Some k"
  shows "n = k"
  using assms(2,3)
proof (rule len_const_eq)
  fix i
  assume "len = LenExpr (Expr [IImm i]) None" "in_i64 i" "k = as_usize i"
  then show "n = k" using assms(1)
    by (auto simp: finish_len_def as_const.simps as_usize_nat split: if_splits)
qed

lemma pextent_blob:
  assumes ok: "pctx_ok d ctx" and len: "len_src_ok d len" and run: "pack_blob len mx b ctx = Inr ctx'"
    and sizes: "op_min op = (case len_const len of Some k \<Rightarrow> k | None \<Rightarrow> 0)" "op_static op = len_const len"
  shows "takes op (grew ctx ctx')"
proof -
  have fin: "finish_len len (length b) (extended b ctx) = Inr ctx'" and r: "roomy (length b) ctx"
    using run by (auto simp: pack_blob_def append_Inr bind_res_eq_Inr split: if_splits)
  have "stays d (extended b ctx) ctx'" by (rule finish_len_length [OF pctx_ok_extended [OF ok r] len fin])
  then have "grew ctx ctx' = length b" by (simp add: stays_def grew_def)
  then show ?thesis using takes_blob [OF sizes] finish_len_const [OF fin len] by simp
qed

lemma wrapping_sub_small: "b \<le> a \<Longrightarrow> a \<le> isize_max \<Longrightarrow> wrapping_sub a b = a - b"
  by (simp add: wrapping_sub_def isize_max_def nat_diff_distrib flip: of_nat_diff)

lemma pextent_nest:
  assumes p: "pextent d p (prog_takes prog)" and s: "packs d True rm p"
    and sz: "case sz of Some len \<Rightarrow> len_src_ok d len | None \<Rightarrow> True"
  shows "pextent d (pack_nest p sz) (takes (OpNest prog sz c))"
  unfolding pextent_def
proof (intro allI impI)
  fix v ctx ctx'
  assume ok: "pctx_ok d ctx" and run: "pack_nest p sz v ctx = Inr ctx'" and lim: "length (pc_out ctx') < 2 ^ 64"
  obtain c1 where c1: "p v ctx = Inr c1"
    and c2: "(case sz of None \<Rightarrow> Inr c1 | Some len \<Rightarrow> finish_len len (wrapping_sub (length (pc_out c1)) (length (pc_out ctx))) c1) = Inr ctx'"
    using run unfolding pack_nest_def bind_res_eq_Inr by blast
  have ok1: "pctx_ok d c1" and le: "length (pc_out ctx) \<le> length (pc_out c1)" using packs_Inr [OF s ok c1] by (simp_all add: appends_def)
  have eq: "wrapping_sub (length (pc_out c1)) (length (pc_out ctx)) = grew ctx c1"
    using le pctx_ok_length [OF ok1] by (simp add: grew_def wrapping_sub_small)
  have c2: "(case sz of None \<Rightarrow> Inr c1 | Some len \<Rightarrow> finish_len len (grew ctx c1) c1) = Inr ctx'" using c2 unfolding eq .
  have len: "length (pc_out ctx') = length (pc_out c1)"
    using c2 finish_len_length [OF ok1] sz by (cases sz) (auto simp: stays_def)
  then have "prog_takes prog (grew ctx c1)" using pextentD [OF p ok c1] lim by simp
  then have "takes (OpNest prog sz c) (grew ctx c1)"
  proof (rule takes_nest)
    fix e i
    assume e: "sz = Some (LenExpr e None)" "as_const e = Some i"
    then show "grew ctx c1 = as_usize i"
      using c2 sz finish_len_const [of "LenExpr e None" "grew ctx c1" c1 ctx' d "as_usize i"] by (simp add: len_const_def)
  qed
  then show "takes (OpNest prog sz c) (grew ctx ctx')" using len by (simp add: grew_def)
qed

lemma pack_items_extent:
  assumes p: "pextent d p (takes elem)" and s: "packs d True rm p"
  shows "pctx_ok d ctx \<Longrightarrow>
    fold_res (\<lambda>(i, item) ctx. map_fail (pfail_seg (SegIndex i)) (p item ctx)) xs ctx = Inr ctx' \<Longrightarrow>
    length (pc_out ctx') < 2 ^ 64 \<Longrightarrow>
    appends d ctx ctx' \<and> length xs * op_min elem \<le> grew ctx ctx' \<and> (\<forall>k. op_static elem = Some k \<longrightarrow> grew ctx ctx' = length xs * k)"
proof (induction xs arbitrary: ctx)
  case Nil
  then show ?case by (simp add: appends_def grew_def)
next
  case (Cons x xs)
  obtain c1 where c1: "p (snd x) ctx = Inr c1"
    and rest: "fold_res (\<lambda>(i, item) ctx. map_fail (pfail_seg (SegIndex i)) (p item ctx)) xs c1 = Inr ctx'"
    using Cons.prems(2) by (cases x) (auto simp: bind_res_eq_Inr)
  have a: "appends d ctx c1" by (rule packs_Inr [OF s Cons.prems(1) c1])
  then have ih: "appends d c1 ctx'" "length xs * op_min elem \<le> grew c1 ctx'"
      "\<forall>k. op_static elem = Some k \<longrightarrow> grew c1 ctx' = length xs * k"
    using Cons.IH [OF _ rest Cons.prems(3)] by (simp_all add: appends_def)
  then have "takes elem (grew ctx c1)" using pextentD [OF p Cons.prems(1) c1] Cons.prems(3) by (simp add: appends_def)
  moreover have "grew ctx ctx' = grew ctx c1 + grew c1 ctx'" using a ih(1) by (simp add: appends_def grew_def)
  ultimately show ?case using ih appends_trans [OF a ih(1)] by (auto simp: takes_def)
qed

lemma pextent_array:
  assumes p: "pextent d p (takes elem)" and s: "packs d True rm p" and count: "count_src_ok d count" and em: "em = op_min elem"
  shows "pextent d (pack_array S p count) (takes (OpArray count mc elem em c))"
  unfolding pextent_def
proof (intro allI impI)
  fix v ctx ctx'
  assume ok: "pctx_ok d ctx" and run: "pack_array S p count v ctx = Inr ctx'" and lim: "length (pc_out ctx') < 2 ^ 64"
  show "takes (OpArray count mc elem em c) (grew ctx ctx')"
  proof (rule takes_array [OF em])
    fix e i
    assume e: "count = CountExpr e None" "as_const e = Some i"
    obtain list c1 where loop: "fold_res (\<lambda>(i, item) ctx. map_fail (pfail_seg (SegIndex i)) (p item ctx)) (enumerate 0 list) ctx = Inr c1"
      and fin: "finish_len (LenExpr e None) (length list) c1 = Inr ctx'"
      using run e by (auto simp: pack_array_def bind_res_eq_Inr)
    have len: "len_src_ok d (LenExpr e None)" using count e by simp
    have ok1: "pctx_ok d c1" using guarded_Inr [OF safe_pack_items [OF s ok] _ loop] by (simp add: within_def appends_def)
    have st: "stays d c1 ctx'" by (rule finish_len_length [OF ok1 len fin])
    have n: "length list = as_usize i" using finish_len_const [OF fin len] e by (simp add: len_const_def)
    have "grew ctx ctx' = grew ctx c1" using st by (simp add: stays_def grew_def)
    then show "as_usize i * op_min elem \<le> grew ctx ctx' \<and> (\<forall>s. op_static elem = Some s \<longrightarrow> grew ctx ctx' = as_usize i * s)"
      using pack_items_extent [OF p s ok loop] st lim n by (simp add: stays_def)
  qed
qed

lemma pextent_switch:
  assumes "\<And>tag b. switch_branch tag cases dflt = Some b \<Longrightarrow> pextent d (p b) (takes b)"
  shows "pextent d (pack_switch p on cases dflt) (takes (OpSwitch on cases dflt c))"
  unfolding pextent_def
proof (intro allI impI)
  fix v ctx ctx'
  assume ok: "pctx_ok d ctx" and run: "pack_switch p on cases dflt v ctx = Inr ctx'" and lim: "length (pc_out ctx') < 2 ^ 64"
  obtain tag b where b: "switch_branch tag cases dflt = Some b" and p: "p b v ctx = Inr ctx'"
    using run by (auto simp: pack_switch_def bind_res_eq_Inr split: option.split_asm)
  show "takes (OpSwitch on cases dflt c) (grew ctx ctx')"
    by (rule takes_switch [OF b pextentD [OF assms [OF b] ok p lim]])
qed

lemma pextent_value_step:
  assumes wf: "wf_val (Suc d) op" and H: "hash_lengths H" and fit: "fits_op op"
    and nest: "\<And>prog sz c. op = OpNest prog sz c \<Longrightarrow> pextent (Suc d) (pack_struct H S prog) (prog_takes prog)"
    and elem: "\<And>count mc elem em c. op = OpArray count mc elem em c \<Longrightarrow> pextent (Suc d) (pack_value H S elem) (takes elem)"
    and branch: "\<And>on cases dflt c tag b. op = OpSwitch on cases dflt c \<Longrightarrow> switch_branch tag cases dflt = Some b \<Longrightarrow>
      pextent (Suc d) (pack_value H S b) (takes b)"
  shows "pextent (Suc d) (pack_value H S op) (takes op)"
  unfolding pextent_def
proof (intro allI impI)
  fix v ctx ctx'
  assume ok: "pctx_ok (Suc d) ctx" and run: "pack_value H S op v ctx = Inr ctx'" and lim: "length (pc_out ctx') < 2 ^ 64"
  show "takes op (grew ctx ctx')"
  proof (cases op)
    case (OpFixed width items)
    then have item: "items \<noteq> []" "fixed_item_ok width (items ! 0)" using wf by simp_all
    from run item obtain c where g: "grow width ctx = Inr c" and p: "pack_fixed_item S (length (pc_out ctx)) (items ! 0) (Some v) c = Inr ctx'"
      by (auto simp: pack_value.simps OpFixed nth_res_def bind_res_eq_Inr)
    have c: "roomy width ctx" "c = extended (replicate width 0) ctx"
      using grow_Inr [OF g pctx_ok_length [OF ok]] fit OpFixed by simp_all
    then have ok1: "pctx_ok (Suc d) c" using pctx_ok_extended [OF ok] by simp
    from safe_Inr [OF safe_pack_fixed_item [OF ok1 item(2)] p] show ?thesis by (simp add: OpFixed grew_def stays_def c)
  next
    case (OpBytes len mx c)
    then have len: "len_src_ok (Suc d) len" using wf by simp
    show ?thesis using run pextent_blob [OF ok len, of mx _ ctx' op] by (auto simp: pack_value.simps OpBytes bind_res_eq_Inr)
  next
    case (OpStr len mx enc c)
    then have len: "len_src_ok (Suc d) len" using wf by simp
    show ?thesis using run pextent_blob [OF ok len, of mx _ ctx' op] by (auto simp: pack_value.simps OpStr bind_res_eq_Inr)
  next
    case (OpCStr mx enc c)
    then show ?thesis using run
      by (auto simp: pack_value.simps pack_cstr_def append_Inr bind_res_eq_Inr grew_def split: if_splits)
  next
    case (OpFlags prim be flags rest m c)
    then have "pack_flags S prim be flags rest m v ctx = Inr ctx'" using run by (simp add: pack_value.simps)
    from guarded_Inr [OF safe_pack_flags [OF ok, where F = True] _ this] show ?thesis by (simp add: OpFlags grew_adds)
  next
    case (OpNest prog sz c)
    then have sz: "case sz of Some len \<Rightarrow> len_src_ok (Suc d) len | None \<Rightarrow> True" and wp: "wf_prog (Suc d) prog"
      and fp: "fits_prog prog" using wf fit by (auto split: option.splits)
    show ?thesis unfolding OpNest
      by (rule pextentD [where v = v, OF pextent_nest [OF nest [OF OpNest] safe_pack_struct [OF H wp fp] sz] ok _ lim])
        (use run in \<open>simp add: pack_value.simps OpNest\<close>)
  next
    case (OpArray count mc elem_op em c)
    then have w: "count_src_ok (Suc d) count" "em = op_min elem_op" "wf_val (Suc d) elem_op" "fits_op elem_op" using wf fit by simp_all
    show ?thesis unfolding OpArray
      by (rule pextentD [where v = v, OF pextent_array [OF elem [OF OpArray] safe_pack_value [OF H w(3,4)] w(1,2)] ok _ lim])
        (use run in \<open>simp add: pack_value.simps OpArray\<close>)
  next
    case (OpSwitch on cases dflt c)
    have sw: "pack_switch (pack_value H S) on cases dflt v ctx = Inr ctx'" using run OpSwitch by (simp add: pack_value.simps)
    have "pextent (Suc d) (pack_switch (pack_value H S) on cases dflt) (takes (OpSwitch on cases dflt c))"
      by (rule pextent_switch) (rule branch [OF OpSwitch])
    from pextentD [OF this ok sw lim] show ?thesis unfolding OpSwitch .
  qed (use wf in simp_all)
qed

definition op_extent :: "hashes \<Rightarrow> ('v, 'w) source \<Rightarrow> nat \<Rightarrow> op \<Rightarrow> bool" where
  "op_extent H S d op \<longleftrightarrow> (\<forall>view ctx ctx'. pctx_ok (Suc d) ctx \<longrightarrow> pack_op H S op view ctx = Inr ctx' \<longrightarrow>
     length (pc_out ctx') < 2 ^ 64 \<longrightarrow> takes op (grew ctx ctx'))"

lemma pextent_named:
  assumes run: "pack_named S view c p ctx = Inr ctx'" and c: "common_ok c" and p: "pextent (Suc d) p T" and s: "packs (Suc d) True rm p"
    and ok: "pctx_ok (Suc d) ctx" and lim: "length (pc_out ctx') < 2 ^ 64"
  shows "T (grew ctx ctx')"
proof -
  obtain v c1 where c1: "p v ctx = Inr c1"
    and span: "pset_span (c_span c) (length (pc_out ctx)) (length (pc_out c1)) c1 = Inr ctx'"
    using run by (auto simp: pack_named_def bind_res_eq_Inr)
  have a: "appends (Suc d) ctx c1" by (rule packs_Inr [OF s ok c1])
  have "stays (Suc d) c1 ctx'"
    by (rule safe_Inr [OF safe_pset_span span]) (use a c in \<open>simp_all add: appends_def common_ok_def\<close>)
  then show ?thesis using pextentD [OF p ok c1] lim by (simp add: stays_def grew_def)
qed

lemma op_extent_step:
  assumes wf: "wf_op (Suc d) op" and H: "hash_lengths H" and fit: "fits_op op"
    and val: "wf_val (Suc d) op \<Longrightarrow> pextent (Suc d) (pack_value H S op) (takes op)"
  shows "op_extent H S d op"
  unfolding op_extent_def
proof (intro allI impI)
  fix view ctx ctx'
  assume ok: "pctx_ok (Suc d) ctx" and run: "pack_op H S op view ctx = Inr ctx'" and lim: "length (pc_out ctx') < 2 ^ 64"
  have plain: "takes op (grew ctx ctx')"
    if "bind_res (expect (op_common op)) (\<lambda>c. pack_named S view c (pack_value H S op) ctx) = Inr ctx'"
      "wf_val (Suc d) op" "op_common op = Some c" "common_ok c" for c
    using that(1,3) pextent_named [OF _ that(4) val [OF that(2)] safe_pack_value [OF H that(2) fit] ok lim] by simp
  show "takes op (grew ctx ctx')"
  proof (cases op)
    case (OpFixed width items)
    then show ?thesis using run wf fit
      by (auto simp: pack_op.simps intro!: grew_adds [OF guarded_Inr [OF safe_pack_fixed [OF ok, where F = True]]])
  next
    case (OpBitRun nbytes items)
    then show ?thesis using run wf fit
      by (auto simp: pack_op.simps intro!: grew_adds [OF guarded_Inr [OF safe_pack_bits [OF ok, where F = True]]])
  next
    case (OpDigest algo over verify be c)
    then show ?thesis using run wf fit
      by (auto simp: pack_op.simps intro!: grew_adds [OF guarded_Inr [OF safe_pack_digest [OF ok, where F = True]]])
  qed (use wf run plain in \<open>auto simp: pack_op.simps split: option.splits\<close>)
qed

lemma pextent_ops:
  assumes wf: "\<And>op. op \<in> set ops \<Longrightarrow> op_packs H S (Suc d) True op \<and> op_extent H S d op"
  shows "pctx_ok (Suc d) ctx \<Longrightarrow> length (pc_out ctx0) \<le> length (pc_out ctx) \<Longrightarrow> sum_ok (mn, s) (grew ctx0 ctx) \<Longrightarrow>
    fold_res (\<lambda>op ctx. pack_op H S op view ctx) ops ctx = Inr ctx' \<Longrightarrow> length (pc_out ctx') < 2 ^ 64 \<Longrightarrow>
    length (pc_out ctx) \<le> length (pc_out ctx') \<and>
    sum_ok (foldl (\<lambda>m op. saturating_add m (op_min op)) mn ops, foldl (\<lambda>m op. add_static m (op_static op)) s ops) (grew ctx0 ctx')"
  using wf
proof (induction ops arbitrary: ctx mn s)
  case (Cons op ops)
  obtain c1 where c1: "pack_op H S op view ctx = Inr c1"
    and rest: "fold_res (\<lambda>op ctx. pack_op H S op view ctx) ops c1 = Inr ctx'"
    using Cons.prems(4) by (auto simp: bind_res_eq_Inr)
  have wf: "op_packs H S (Suc d) True op" "op_extent H S d op" using Cons.prems(6) by simp_all
  have a: "appends (Suc d) ctx c1" by (rule op_packs_Inr [OF wf(1) Cons.prems(1) c1])
  have "appends (Suc d) c1 ctx'"
    by (rule ops_packs_Inr [OF _ _ rest]) (use a Cons.prems(6) in \<open>simp_all add: appends_def\<close>)
  then have mono: "length (pc_out c1) \<le> length (pc_out ctx')" by (simp add: appends_def)
  have t: "takes op (grew ctx c1)"
    using wf(2) Cons.prems(1,5) c1 mono unfolding op_extent_def by auto
  have g: "grew ctx0 c1 = grew ctx0 ctx + grew ctx c1" "grew ctx0 c1 < 2 ^ 64"
    using a Cons.prems(2,5) mono by (auto simp: grew_def appends_def)
  have "sum_ok (saturating_add mn (op_min op), add_static s (op_static op)) (grew ctx0 c1)"
    using sum_ok_step [OF Cons.prems(3) t] g by simp
  with Cons.IH [of c1, OF _ _ this rest Cons.prems(5)] a Cons.prems(2,6) show ?case by (simp add: appends_def)
qed simp

lemma pextent_struct_step:
  assumes H: "hash_lengths H" and wf: "wf_prog d prog" and fit: "fits_prog prog" and ops: "\<And>op. op \<in> set (prog_ops prog) \<Longrightarrow> op_extent H S d op"
  shows "pextent d (pack_struct H S prog) (prog_takes prog)"
  unfolding pextent_def
proof (intro allI impI)
  fix v ctx ctx'
  assume ok: "pctx_ok d ctx" and run: "pack_struct H S prog v ctx = Inr ctx'" and lim: "length (pc_out ctx') < 2 ^ 64"
  let ?ctx = "ctx\<lparr>pc_frames := pframe_new # pc_frames ctx\<rparr>"
  obtain view c1 f rest where c1: "fold_res (\<lambda>op ctx. pack_op H S op view ctx) (prog_ops prog) ?ctx = Inr c1"
    and fr: "pc_frames c1 = f # rest"
    and out: "fold_res (write_digest H (length (pc_out ctx)) (length (pc_out c1)) (pr_spans f)) (pr_digests f) (pc_out c1) = Inr (pc_out ctx')"
    using run by (auto simp: pack_struct.simps bind_res_eq_Inr neq_Nil_conv split: list.split_asm)
  have ok1: "pctx_ok (Suc d) ?ctx" using ok by (simp add: pctx_ok_def)
  have wfo: "op_packs H S (Suc d) True op \<and> op_extent H S d op" if "op \<in> set (prog_ops prog)" for op
  proof -
    have "wf_op (Suc d) op" "fits_op op" using wf fit that by (cases prog; simp add: list_all_iff)+
    then show ?thesis using ops [OF that] safe_pack_op [OF H] by blast
  qed
  have len: "length (pc_out ctx') = length (pc_out c1)"
  proof -
    have "appends (Suc d) ?ctx c1" by (rule ops_packs_Inr [OF _ ok1 c1]) (use wfo in blast)
    then have "safe (fold_res (write_digest H (length (pc_out ctx)) (length (pc_out c1)) (pr_spans f)) (pr_digests f) (pc_out c1))
        (\<lambda>out. length out = length (pc_out c1))"
      using fr by (intro safe_write_digests [OF H]) (auto simp: appends_def pctx_ok_def)
    then show ?thesis using out by (rule safe_Inr)
  qed
  have "sum_ok (ops_min (prog_ops prog), ops_static (prog_ops prog)) (grew ?ctx c1)"
    using pextent_ops [where mn = 0 and s = "Some 0" and ?ctx0.0 = ?ctx, OF wfo ok1 _ _ c1] len lim
    by (simp add: sum_ok_def ops_min_def ops_static_def grew_def)
  then show "prog_takes prog (grew ctx ctx')" using len by (simp add: prog_takes_sum [OF wf] grew_def)
qed

lemma pextent_walk:
  assumes H: "hash_lengths H"
  shows "(\<forall>prog d. 2 * size prog < n \<longrightarrow> wf_prog d prog \<longrightarrow> fits_prog prog \<longrightarrow> pextent d (pack_struct H S prog) (prog_takes prog)) \<and>
   (\<forall>op d. 2 * size op + 1 < n \<longrightarrow> wf_op (Suc d) op \<longrightarrow> fits_op op \<longrightarrow> op_extent H S d op) \<and>
   (\<forall>op d. 2 * size op < n \<longrightarrow> wf_val (Suc d) op \<longrightarrow> fits_op op \<longrightarrow> pextent (Suc d) (pack_value H S op) (takes op))"
proof (induction n)
  case (Suc n)
  have 1: "pextent d (pack_struct H S prog) (prog_takes prog)" if "2 * size prog < Suc n" "wf_prog d prog" "fits_prog prog" for prog d
  proof (rule pextent_struct_step [OF H that(2,3)])
    fix op
    assume op: "op \<in> set (prog_ops prog)"
    have "wf_op (Suc d) op" "fits_op op" using that(2,3) op by (cases prog; simp add: list_all_iff)+
    moreover have "2 * size op + 1 < n" using size_prog_op [OF op] that(1) by simp
    ultimately show "op_extent H S d op" using Suc by blast
  qed
  have 3: "pextent (Suc d) (pack_value H S op) (takes op)" if n: "2 * size op < Suc n" and wf: "wf_val (Suc d) op" and fit: "fits_op op" for op d
  proof (rule pextent_value_step [OF wf H fit])
    show "pextent (Suc d) (pack_struct H S prog) (prog_takes prog)" if "op = OpNest prog sz c" for prog sz c
      using that n wf fit by (intro 1) simp_all
    show "pextent (Suc d) (pack_value H S elem) (takes elem)" if "op = OpArray count mc elem em c" for count mc elem em c
    proof -
      have "2 * size elem < n" "wf_val (Suc d) elem" "fits_op elem" using that n wf fit by simp_all
      then show ?thesis using Suc by blast
    qed
    show "pextent (Suc d) (pack_value H S b) (takes b)"
      if "op = OpSwitch on cases dflt c" and b: "switch_branch tag cases dflt = Some b" for on cases dflt c tag b
    proof -
      have "2 * size b < n" "wf_val (Suc d) b" "fits_op b"
        using that(1) n wf fit size_switch_branch [OF b] wf_switch_branch [OF b] fits_branch [OF b] by simp_all
      then show ?thesis using Suc by blast
    qed
  qed
  have 2: "op_extent H S d op" if "2 * size op + 1 < Suc n" "wf_op (Suc d) op" "fits_op op" for op d
    using that by (intro op_extent_step [OF _ H] 3) simp_all
  show ?case using 1 2 3 by blast
qed simp

lemma pextent_pack_struct: "hash_lengths H \<Longrightarrow> wf_prog d prog \<Longrightarrow> fits_prog prog \<Longrightarrow> pextent d (pack_struct H S prog) (prog_takes prog)"
  using pextent_walk [of H "Suc (2 * size prog)" S] by blast

text \<open>C8: the packed bytes are at least as many as the program's \<open>min_size\<close>, which \<open>pack\<close> reserves in
  advance, and exactly its \<open>static_size\<close> where it has one, for a program none of whose runs is
  wider than \<open>isize::MAX\<close>; \<open>pack_resize_wraps\<close> is an output cut short without that.\<close>

theorem pack_produces:
  assumes "wf_prog 0 prog" and "hash_lengths H" and "pack_with H S prog v = Inr (POk out)" and "fits_prog prog"
  shows "prog_min_size prog \<le> length out \<and> (\<forall>s. prog_static_size prog = Some s \<longrightarrow> length out = s)"
proof -
  let ?ctx = "\<lparr>pc_out = [], pc_frames = []\<rparr>"
  obtain ctx where run: "pack_struct H S prog v ?ctx = Inr ctx" and out: "out = pc_out ctx"
    using assms(3) by (auto simp: pack_with_def pack_root_def with_capacity_def bind_res_eq_Inr split: sum.splits fault.splits if_splits)
  have ok: "pctx_ok 0 ?ctx" by (simp add: pctx_ok_def)
  have "pctx_ok 0 ctx" using packs_Inr [OF safe_pack_struct [OF assms(2,1,4)] ok run] by (simp add: appends_def)
  then have "length (pc_out ctx) < 2 ^ 64" using pctx_ok_length by (force simp: isize_max_def)
  then have "prog_takes prog (grew ?ctx ctx)"
    by (rule pextentD [OF pextent_pack_struct [OF assms(2,1,4)] ok run])
  then show ?thesis by (simp add: prog_takes_def grew_def out)
qed

theorem pack_produces_witness:
  "(2 :: nat) \<le> length [3, 7 :: 8 word] \<and> length [3, 7 :: 8 word] = 2"
proof -
  let ?item = "\<lambda>off k ex. \<lparr>fi_off = off, fi_kind = FInt U8 True ex False, fi_reg = None, fi_span = None, fi_key = Named k\<rparr>"
  let ?prog = "Program [OpFixed 2 [?item 0 ''t'' (Some 3), ?item 1 ''n'' None]] 0 0 2 (Some 2)"
  have 1: "pack_with zero_hashes value_source ?prog (VMap [(''n'', VInt 7)]) = Inr (POk [3, 7])" by code_simp
  have "wf_prog 0 ?prog" by (simp add: fixed_item_ok_def idx_ok_def ops_size_defs prim_valid_def prim_min_def prim_max_def)
  from pack_produces [OF this zero_hashes_lengths 1] show ?thesis by (simp add: isize_max_def)
qed

end
