(* ===== verification/Keys.thy ===== *)
theory Keys
  imports Programs
begin

text \<open>
  The key cache of a codec, \<open>build_key_cache\<close> in \<open>crates/rustruct-py/src/lib.rs\<close>: every field name
  of a program, interned once. \<open>prog_keyed K prog\<close> says that \<open>K\<close> holds every name the walks of the
  program look up.
\<close>

section \<open>Collecting\<close>

definition intern_key :: "string \<Rightarrow> string list \<Rightarrow> string list" where
  "intern_key name cache = (if name \<in> set cache then cache else cache @ [name])"

definition intern_named :: "key \<Rightarrow> string list \<Rightarrow> string list" where
  "intern_named k cache = (case key_name k of Some name \<Rightarrow> intern_key name cache | None \<Rightarrow> cache)"

fun build_key_cache :: "program \<Rightarrow> string list \<Rightarrow> string list"
  and collect_op_keys :: "op \<Rightarrow> string list \<Rightarrow> string list" where
  "build_key_cache (Program ops _ _ _ _) cache = fold collect_op_keys ops cache"
| "collect_op_keys (OpFixed _ items) cache = fold (\<lambda>item. intern_named (fi_key item)) items cache"
| "collect_op_keys (OpBitRun _ items) cache = fold (\<lambda>item. intern_named (bi_key item)) items cache"
| "collect_op_keys (OpFlags _ _ items rest _ c) cache =
     (let cache = fold (\<lambda>item. intern_key (fl_key item)) items (intern_named (c_key c) cache)
      in if rest = Keep then intern_key ''_rest'' cache else cache)"
| "collect_op_keys (OpDigest _ _ _ _ c) cache = intern_named (c_key c) cache"
| "collect_op_keys (OpBytes _ _ c) cache = intern_named (c_key c) cache"
| "collect_op_keys (OpStr _ _ _ c) cache = intern_named (c_key c) cache"
| "collect_op_keys (OpCStr _ _ c) cache = intern_named (c_key c) cache"
| "collect_op_keys (OpNest prog _ c) cache = build_key_cache prog (intern_named (c_key c) cache)"
| "collect_op_keys (OpArray _ _ elem _ c) cache = collect_op_keys elem (intern_named (c_key c) cache)"
| "collect_op_keys (OpSwitch _ cases dflt c) cache =
     (let cache = fold (\<lambda>cs. collect_op_keys (snd cs)) cases (intern_named (c_key c) cache)
      in case dflt of Some d \<Rightarrow> collect_op_keys d cache | None \<Rightarrow> cache)"
| "collect_op_keys (OpCond _ thn c) cache = collect_op_keys thn (intern_named (c_key c) cache)"

section \<open>What is looked up\<close>

definition key_list :: "key \<Rightarrow> string list" where
  "key_list k = (case key_name k of Some n \<Rightarrow> [n] | None \<Rightarrow> [])"

text \<open>The names the walks of a program look up.\<close>

fun prog_names :: "program \<Rightarrow> string list" and op_names :: "op \<Rightarrow> string list" where
  "prog_names (Program ops _ _ _ _) = concat (map op_names ops)"
| "op_names (OpFixed _ items) = concat (map (\<lambda>item. key_list (fi_key item)) items)"
| "op_names (OpBitRun _ items) = concat (map (\<lambda>item. key_list (bi_key item)) items)"
| "op_names (OpFlags _ _ items rest _ c) =
     key_list (c_key c) @ map fl_key items @ (if rest = Keep then [''_rest''] else [])"
| "op_names (OpDigest _ _ _ _ c) = key_list (c_key c)"
| "op_names (OpBytes _ _ c) = key_list (c_key c)"
| "op_names (OpStr _ _ _ c) = key_list (c_key c)"
| "op_names (OpCStr _ _ c) = key_list (c_key c)"
| "op_names (OpNest prog _ c) = key_list (c_key c) @ prog_names prog"
| "op_names (OpArray _ _ elem _ c) = key_list (c_key c) @ op_names elem"
| "op_names (OpSwitch _ cases dflt c) =
     key_list (c_key c) @ concat (map (\<lambda>cs. op_names (snd cs)) cases) @
     (case dflt of Some d \<Rightarrow> op_names d | None \<Rightarrow> [])"
| "op_names (OpCond _ thn c) = key_list (c_key c) @ op_names thn"

lemma set_intern_key [simp]: "set (intern_key n cache) = insert n (set cache)"
  by (auto simp: intern_key_def)

lemma set_intern_named [simp]: "set (intern_named k cache) = set cache \<union> set (key_list k)"
  by (auto simp: intern_named_def key_list_def split: option.split)

lemma set_fold:
  assumes "\<And>x c. x \<in> set xs \<Longrightarrow> set (f x c) = set c \<union> set (g x)"
  shows "set (fold f xs cache) = set cache \<union> set (concat (map g xs))"
  using assms by (induction xs arbitrary: cache) auto

text \<open>The cache gains exactly the names that are looked up.\<close>

lemma set_collect:
  "set (build_key_cache prog cache) = set cache \<union> set (prog_names prog)"
  "set (collect_op_keys op cache) = set cache \<union> set (op_names op)"
proof (induction prog cache and op cache rule: build_key_cache_collect_op_keys.induct)
  case (1 ops a b c d cache)
  then show ?case by (simp add: set_fold [of ops collect_op_keys op_names])
next
  case (2 w items cache)
  show ?case by (simp add: set_fold [where g = "\<lambda>item. key_list (fi_key item)"])
next
  case (3 n items cache)
  show ?case by (simp add: set_fold [where g = "\<lambda>item. key_list (bi_key item)"])
next
  case (4 prim be items rest m c cache)
  show ?case by (auto simp: Let_def set_fold [where g = "\<lambda>item. [fl_key item]"])
next
  case (11 on cases dflt c cache)
  have "set (fold (\<lambda>cs. collect_op_keys (snd cs)) cases cache') = set cache' \<union> set (concat (map (\<lambda>cs. op_names (snd cs)) cases))"
    if "cache' = intern_named (c_key c) cache" for cache'
    using 11(1) that by (intro set_fold) simp
  then show ?case using 11(2) by (auto simp: Let_def split: option.split)
qed auto

definition prog_keyed :: "string set \<Rightarrow> program \<Rightarrow> bool" where
  "prog_keyed K prog \<longleftrightarrow> set (prog_names prog) \<subseteq> K"

definition op_keyed :: "string set \<Rightarrow> op \<Rightarrow> bool" where
  "op_keyed K op \<longleftrightarrow> set (op_names op) \<subseteq> K"

definition keyed :: "string set \<Rightarrow> key \<Rightarrow> bool" where
  "keyed K k \<longleftrightarrow> set (key_list k) \<subseteq> K"

lemma keyed_iff: "keyed K k \<longleftrightarrow> (\<forall>n. key_name k = Some n \<longrightarrow> n \<in> K)"
  by (auto simp: keyed_def key_list_def split: option.split)

lemma op_keyed_simps [simp]:
  "op_keyed K (OpFixed w fitems) \<longleftrightarrow> list_all (\<lambda>item. keyed K (fi_key item)) fitems"
  "op_keyed K (OpBitRun n bitems) \<longleftrightarrow> list_all (\<lambda>item. keyed K (bi_key item)) bitems"
  "op_keyed K (OpFlags prim be items rest m c) \<longleftrightarrow>
     keyed K (c_key c) \<and> fl_key ` set items \<subseteq> K \<and> (rest = Keep \<longrightarrow> ''_rest'' \<in> K)"
  "op_keyed K (OpDigest algo over verify be c) \<longleftrightarrow> keyed K (c_key c)"
  "op_keyed K (OpBytes len mx c) \<longleftrightarrow> keyed K (c_key c)"
  "op_keyed K (OpStr len mx e c) \<longleftrightarrow> keyed K (c_key c)"
  "op_keyed K (OpCStr mx e c) \<longleftrightarrow> keyed K (c_key c)"
  "op_keyed K (OpNest prog sz c) \<longleftrightarrow> keyed K (c_key c) \<and> prog_keyed K prog"
  "op_keyed K (OpArray count mc elem em c) \<longleftrightarrow> keyed K (c_key c) \<and> op_keyed K elem"
  "op_keyed K (OpSwitch on cases dflt c) \<longleftrightarrow>
     keyed K (c_key c) \<and> list_all (\<lambda>cs. op_keyed K (snd cs)) cases \<and> pred_option (op_keyed K) dflt"
  "op_keyed K (OpCond pred thn c) \<longleftrightarrow> keyed K (c_key c) \<and> op_keyed K thn"
  by (cases dflt; auto simp: op_keyed_def prog_keyed_def keyed_def list_all_iff)+

lemma prog_keyed_ops: "prog_keyed K prog \<longleftrightarrow> list_all (op_keyed K) (prog_ops prog)"
  by (cases prog) (auto simp: prog_keyed_def op_keyed_def list_all_iff)

lemma op_keyed_branch: "op_keyed K (OpSwitch on cases dflt c) \<Longrightarrow> switch_branch tag cases dflt = Some b \<Longrightarrow> op_keyed K b"
  by (drule switch_branch_cases) (auto simp: list_all_iff)

lemma cache_keyed: "prog_keyed (set (build_key_cache prog [])) prog"
  by (simp add: prog_keyed_def set_collect)

end
