(* ===== verification/Source_Sim.thy ===== *)
theory Source_Sim
  imports Pack Keys
begin

text \<open>
  Two sources related operation by operation are packed to the same bytes, with the same errors:
  the packer sees the caller's objects only through the operations of \<open>Source\<close>. A lookup need only
  be related at the names of the program.
\<close>

lemma fold_res_list_all2:
  assumes "list_all2 R xs ys" and "\<And>x y st. R x y \<Longrightarrow> f x st = g y st"
  shows "fold_res f xs st = fold_res g ys st"
  using assms(1) by (induction arbitrary: st rule: list_all2_induct) (auto simp: assms(2) intro!: bind_res_cong)

lemma fold_res_enumerate_rel:
  assumes "list_all2 R xs ys" and "\<And>i x y st. R x y \<Longrightarrow> f (i, x) st = g (i, y) st"
  shows "fold_res f (enumerate k xs) st = fold_res g (enumerate k ys) st"
  by (rule fold_res_list_all2 [where R = "rel_prod (=) R"])
     (use assms in \<open>auto simp: list_all2_conv_all_nth nth_enumerate_eq\<close>)

definition rel_pvalue :: "('v \<Rightarrow> 'x \<Rightarrow> bool) \<Rightarrow> 'v pvalue \<Rightarrow> 'x pvalue \<Rightarrow> bool" where
  "rel_pvalue RV f g \<longleftrightarrow> (\<forall>v x ctx. RV v x \<longrightarrow> f v ctx = g x ctx)"

lemma rel_pvalueD: "rel_pvalue RV f g \<Longrightarrow> RV v x \<Longrightarrow> f v ctx = g x ctx"
  by (simp add: rel_pvalue_def)

lemma rel_pvalueI: "(\<And>v x ctx. RV v x \<Longrightarrow> f v ctx = g x ctx) \<Longrightarrow> rel_pvalue RV f g"
  by (simp add: rel_pvalue_def)

locale source_sim =
  fixes S :: "('v, 'w) source" and T :: "('x, 'y) source"
    and RV :: "'v \<Rightarrow> 'x \<Rightarrow> bool" and RW :: "'w \<Rightarrow> 'y \<Rightarrow> bool" and K :: "string set"
  assumes sim_view: "RV v x \<Longrightarrow> rel_option RW (s_map_view S v) (s_map_view T x)"
    and sim_get: "name \<in> K \<Longrightarrow> RW w y \<Longrightarrow> rel_option RV (s_view_get S w name) (s_view_get T y name)"
    and sim_keys: "RW w y \<Longrightarrow> set (s_view_keys S w) = set (s_view_keys T y)"
    and sim_list: "RV v x \<Longrightarrow> rel_option (list_all2 RV) (s_as_list S v) (s_as_list T x)"
    and sim_int: "RV v x \<Longrightarrow> s_as_int S v = s_as_int T x"
    and sim_float: "RV v x \<Longrightarrow> s_as_float S v = s_as_float T x"
    and sim_bytes: "RV v x \<Longrightarrow> s_as_bytes S v = s_as_bytes T x"
    and sim_str: "RV v x \<Longrightarrow> s_as_str S v = s_as_str T x"
    and sim_truthy: "RV v x \<Longrightarrow> s_truthy S v = s_truthy T x"
begin

lemma sim_lookup: "keyed K k \<Longrightarrow> RW w y \<Longrightarrow> rel_option RV (lookup S w k) (lookup T y k)"
  by (cases "key_name k") (auto simp: lookup_def keyed_iff sim_get)

lemma sim_given:
  "rel_option RV v x \<Longrightarrow> (\<And>v x. RV v x \<Longrightarrow> f v = g x) \<Longrightarrow> given f d k v = given g d k x"
  by (cases v; cases x) (simp_all add: given_def)

lemma sim_pack_fixed_item:
  assumes "rel_option RV v x"
  shows "pack_fixed_item S base item v ctx = pack_fixed_item T base item x ctx"
proof -
  have eqs: "given (s_as_int S) d k v = given (s_as_int T) d k x"
    "float_of S v k = float_of T x k"
    "given (s_truthy S) b k v = given (s_truthy T) b k x" for d k b
    by (simp_all only: float_of_def sim_given [OF assms sim_int] sim_given [OF assms sim_float] sim_given [OF assms sim_truthy])
  show ?thesis
  proof (cases "fi_kind item")
    case (FRaw len ex)
    then show ?thesis using assms by (cases v; cases x; cases ex) (simp_all add: pack_fixed_item_def Let_def sim_bytes)
  qed (simp_all add: pack_fixed_item_def Let_def eqs split: option.split)
qed

lemma sim_pack_bit_item:
  "rel_option RV v x \<Longrightarrow> pack_bit_item S base off item v ctx = pack_bit_item T base off item x ctx"
  by (simp add: pack_bit_item_def sim_given [OF _ sim_int])

lemma sim_flag_step:
  assumes "fl_key item \<in> K" and "RW w y"
  shows "flag_step S w item raw = flag_step T y item raw"
proof -
  have "rel_option RV (s_view_get S w (fl_key item)) (s_view_get T y (fl_key item))"
    by (rule sim_get [OF assms])
  then show ?thesis
    by (cases "s_view_get S w (fl_key item)"; cases "s_view_get T y (fl_key item)")
       (auto simp: flag_step_def Let_def sim_int sim_truthy)
qed

lemma sim_flags_word:
  assumes keys: "fl_key ` set items \<subseteq> K" and rest: "rest = Keep \<Longrightarrow> ''_rest'' \<in> K" and view: "RW w y"
  shows "flags_word S items rest rm w = flags_word T items rest rm y"
proof -
  have loop: "fold_res (flag_step S w) items raw = fold_res (flag_step T y) items raw" for raw
    using keys by (induction items arbitrary: raw) (auto simp: sim_flag_step [OF _ view] intro!: bind_res_cong)
  have all: "list_all P (s_view_keys S w) = list_all P (s_view_keys T y)" for P
    by (simp add: list_all_iff sim_keys [OF view])
  have leftover: "(case s_view_get S w ''_rest'' of None \<Rightarrow> Inr 0 | Some v \<Rightarrow> ok_or (pfail KType) (s_as_int S v)) =
      (case s_view_get T y ''_rest'' of None \<Rightarrow> Inr 0 | Some v \<Rightarrow> ok_or (pfail KType) (s_as_int T v))" if "rest = Keep"
    using sim_get [OF rest [OF that] view] by (auto simp: rel_option_iff sim_int split: option.splits)
  show ?thesis unfolding flags_word_def all loop using leftover by (auto intro!: bind_res_cong)
qed

lemma sim_pack_flags:
  assumes "fl_key ` set items \<subseteq> K" and "rest = Keep \<Longrightarrow> ''_rest'' \<in> K" and "RV v x"
  shows "pack_flags S prim be items rest rm v ctx = pack_flags T prim be items rest rm x ctx"
  using sim_view [OF assms(3)] sim_flags_word [OF assms(1,2)]
  by (cases "s_map_view S v"; cases "s_map_view T x") (auto simp: pack_flags_def)

lemma sim_pack_fixed:
  assumes "list_all (\<lambda>item. keyed K (fi_key item)) items" and "RW w y"
  shows "pack_fixed S w width items ctx = pack_fixed T y width items ctx"
proof -
  have "fold_res (\<lambda>item ctx. map_fail (seg_key (fi_key item)) (pack_fixed_item S base item (lookup S w (fi_key item)) ctx)) items ctx =
      fold_res (\<lambda>item ctx. map_fail (seg_key (fi_key item)) (pack_fixed_item T base item (lookup T y (fi_key item)) ctx)) items ctx"
    for base ctx
    using assms(1)
    by (induction items arbitrary: ctx)
       (auto simp: sim_pack_fixed_item [OF sim_lookup [OF _ assms(2)]] intro!: bind_res_cong)
  then show ?thesis by (auto simp: pack_fixed_def Let_def intro!: bind_res_cong)
qed

lemma sim_pack_bits:
  assumes "list_all (\<lambda>item. keyed K (bi_key item)) items" and "RW w y"
  shows "pack_bits S w nbytes items ctx = pack_bits T y nbytes items ctx"
proof -
  have "fold_res (pack_bits_step S w base) items st = fold_res (pack_bits_step T y base) items st" for base st
    using assms(1)
    by (induction items arbitrary: st)
       (auto simp: pack_bits_step_def sim_pack_bit_item [OF sim_lookup [OF _ assms(2)]] intro!: bind_res_cong split: prod.split)
  then show ?thesis by (simp add: pack_bits_def)
qed

lemma sim_pack_named:
  assumes key: "keyed K (c_key c)" and view: "RW w y" and f: "rel_pvalue RV f g"
  shows "pack_named S w c f ctx = pack_named T y c g ctx"
proof (cases "key_name (c_key c)")
  case (Some name)
  then have "rel_option RV (s_view_get S w name) (s_view_get T y name)"
    using key by (intro sim_get [OF _ view]) (simp add: keyed_iff)
  then show ?thesis
    by (cases "s_view_get S w name"; cases "s_view_get T y name")
       (auto simp: pack_named_def Some rel_pvalueD [OF f])
qed (simp add: pack_named_def)

lemma sim_pack_nest: "rel_pvalue RV f g \<Longrightarrow> rel_pvalue RV (pack_nest f sz) (pack_nest g sz)"
  by (simp add: rel_pvalue_def pack_nest_def)

lemma sim_pack_array:
  assumes f: "rel_pvalue RV f g"
  shows "rel_pvalue RV (pack_array S f count) (pack_array T g count)"
proof (rule rel_pvalueI)
  fix v x ctx
  assume "RV v x"
  then have lists: "rel_option (list_all2 RV) (s_as_list S v) (s_as_list T x)" by (rule sim_list)
  have "fold_res (\<lambda>(i, item) ctx. map_fail (pfail_seg (SegIndex i)) (f item ctx)) (enumerate 0 us) ctx =
      fold_res (\<lambda>(i, item) ctx. map_fail (pfail_seg (SegIndex i)) (g item ctx)) (enumerate 0 us') ctx"
    if "list_all2 RV us us'" for us us'
    by (rule fold_res_enumerate_rel [OF that]) (simp add: rel_pvalueD [OF f])
  then show "pack_array S f count v ctx = pack_array T g count x ctx"
    using lists by (cases "s_as_list S v"; cases "s_as_list T x") (auto simp: pack_array_def dest: list_all2_lengthD intro!: bind_res_cong split: count_src.split)
qed

lemma sim_pack_switch:
  assumes "\<And>tag op. switch_branch tag cases dflt = Some op \<Longrightarrow> rel_pvalue RV (f op) (g op)"
  shows "rel_pvalue RV (pack_switch f on cases dflt) (pack_switch g on cases dflt)"
  using assms by (auto simp: rel_pvalue_def pack_switch_def intro!: bind_res_cong split: option.split)

lemma sim_pack_struct_step:
  assumes ops: "\<And>op w y ctx. op \<in> set (prog_ops prog) \<Longrightarrow> RW w y \<Longrightarrow> pack_op H S op w ctx = pack_op H T op y ctx"
  shows "rel_pvalue RV (pack_struct H S prog) (pack_struct H T prog)"
proof (rule rel_pvalueI)
  fix v x ctx
  assume "RV v x"
  then have views: "rel_option RW (s_map_view S v) (s_map_view T x)" by (rule sim_view)
  have "fold_res (\<lambda>op ctx. pack_op H S op w ctx) (prog_ops prog) ctx =
      fold_res (\<lambda>op ctx. pack_op H T op y ctx) (prog_ops prog) ctx" if "RW w y" for w y ctx
    by (rule fold_res_list_all2 [where R = "\<lambda>a b. a = b \<and> a \<in> set (prog_ops prog)"])
       (use ops that in \<open>auto simp: list_all2_same\<close>)
  then show "pack_struct H S prog v ctx = pack_struct H T prog x ctx"
    using views by (cases "s_map_view S v"; cases "s_map_view T x") (auto simp: pack_struct.simps)
qed

lemma sim_pack_value_step:
  assumes keys: "op_keyed K op"
    and nest: "\<And>prog sz c. op = OpNest prog sz c \<Longrightarrow> rel_pvalue RV (pack_struct H S prog) (pack_struct H T prog)"
    and elem: "\<And>count mc elem em c. op = OpArray count mc elem em c \<Longrightarrow> rel_pvalue RV (pack_value H S elem) (pack_value H T elem)"
    and branch: "\<And>on cases dflt c tag b. op = OpSwitch on cases dflt c \<Longrightarrow> switch_branch tag cases dflt = Some b \<Longrightarrow>
      rel_pvalue RV (pack_value H S b) (pack_value H T b)"
  shows "rel_pvalue RV (pack_value H S op) (pack_value H T op)"
proof (rule rel_pvalueI)
  fix v x ctx
  assume v: "RV v x"
  show "pack_value H S op v ctx = pack_value H T op x ctx"
  proof (cases op)
    case (OpFixed width items)
    then show ?thesis by (simp add: pack_value.simps sim_pack_fixed_item [of "Some v" "Some x"] v)
  next
    case (OpFlags prim be items rest rm c)
    then show ?thesis using keys sim_pack_flags [OF _ _ v] by (simp add: pack_value.simps)
  next
    case (OpNest prog sz c)
    show ?thesis using rel_pvalueD [OF sim_pack_nest [OF nest [OF OpNest]] v] by (simp add: pack_value.simps OpNest)
  next
    case (OpArray count mc elem_op em c)
    show ?thesis using rel_pvalueD [OF sim_pack_array [OF elem [OF OpArray]] v] by (simp add: pack_value.simps OpArray)
  next
    case (OpSwitch on cases dflt c)
    show ?thesis using rel_pvalueD [OF sim_pack_switch [OF branch [OF OpSwitch]] v] by (simp add: pack_value.simps OpSwitch)
  qed (auto simp: pack_value.simps encoded_def sim_bytes [OF v] sim_str [OF v])
qed

lemma sim_pack_op_step:
  assumes keys: "op_keyed K op" and view: "RW w y"
    and val: "rel_pvalue RV (pack_value H S op) (pack_value H T op)"
    and thn: "\<And>pred thn c. op = OpCond pred thn c \<Longrightarrow> rel_pvalue RV (pack_value H S thn) (pack_value H T thn)"
  shows "pack_op H S op w ctx = pack_op H T op y ctx"
proof (cases op)
  case (OpCond pred t c)
  then have "pack_named S w c (pack_value H S t) ctx = pack_named T y c (pack_value H T t) ctx"
    using keys by (intro sim_pack_named view thn) simp_all
  then show ?thesis by (auto simp: pack_op.simps OpCond intro!: bind_res_cong)
qed (use keys sim_pack_named [OF _ view val] sim_pack_fixed [OF _ view] sim_pack_bits [OF _ view] in \<open>simp_all add: pack_op.simps\<close>)

lemma sim_walk:
  "(\<forall>prog. 2 * size prog < n \<longrightarrow> prog_keyed K prog \<longrightarrow> rel_pvalue RV (pack_struct H S prog) (pack_struct H T prog)) \<and>
   (\<forall>op w y ctx. 2 * size op + 1 < n \<longrightarrow> op_keyed K op \<longrightarrow> RW w y \<longrightarrow> pack_op H S op w ctx = pack_op H T op y ctx) \<and>
   (\<forall>op. 2 * size op < n \<longrightarrow> op_keyed K op \<longrightarrow> rel_pvalue RV (pack_value H S op) (pack_value H T op))"
proof (induction n)
  case (Suc n)
  have 1: "rel_pvalue RV (pack_struct H S prog) (pack_struct H T prog)" if "2 * size prog < Suc n" "prog_keyed K prog" for prog
  proof (rule sim_pack_struct_step)
    fix op w y ctx
    assume op: "op \<in> set (prog_ops prog)" and view: "RW w y"
    have "op_keyed K op" using that(2) op by (simp add: prog_keyed_ops list_all_iff)
    moreover have "2 * size op + 1 < n" using size_prog_op [OF op] that(1) by simp
    ultimately show "pack_op H S op w ctx = pack_op H T op y ctx" using Suc view by blast
  qed
  have val: "rel_pvalue RV (pack_value H S op) (pack_value H T op)" if "2 * size op < n" "op_keyed K op" for op
    using Suc that by blast
  have 3: "rel_pvalue RV (pack_value H S op) (pack_value H T op)" if sz: "2 * size op < Suc n" and keys: "op_keyed K op" for op
  proof (rule sim_pack_value_step [OF keys])
    show "rel_pvalue RV (pack_struct H S prog) (pack_struct H T prog)" if "op = OpNest prog sz c" for prog sz c
      using that sz keys by (intro 1) simp_all
    show "rel_pvalue RV (pack_value H S elem) (pack_value H T elem)" if "op = OpArray count mc elem em c" for count mc elem em c
      using that sz keys by (intro val) simp_all
    show "rel_pvalue RV (pack_value H S b) (pack_value H T b)"
      if "op = OpSwitch on cases dflt c" and b: "switch_branch tag cases dflt = Some b" for on cases dflt c tag b
      using that(1) sz size_switch_branch [OF b] op_keyed_branch [OF keys [unfolded that(1)] b] by (intro val) simp_all
  qed
  have 2: "pack_op H S op w ctx = pack_op H T op y ctx"
    if sz: "2 * size op + 1 < Suc n" and keys: "op_keyed K op" and view: "RW w y" for op w y ctx
  proof (rule sim_pack_op_step [OF keys view])
    show "rel_pvalue RV (pack_value H S op) (pack_value H T op)" using sz keys by (intro val) simp_all
    show "rel_pvalue RV (pack_value H S thn) (pack_value H T thn)" if "op = OpCond pred thn c" for pred thn c
      using that sz keys by (intro val) simp_all
  qed
  show ?case using 1 2 3 by blast
qed simp

lemma sim_pack_struct: "prog_keyed K prog \<Longrightarrow> rel_pvalue RV (pack_struct H S prog) (pack_struct H T prog)"
  using sim_walk [of "Suc (2 * size prog)" H] by blast

lemma sim_pack_with: "prog_keyed K prog \<Longrightarrow> RV v x \<Longrightarrow> pack_with H S prog v = pack_with H T prog x"
  by (simp add: pack_with_def pack_root_def rel_pvalueD [OF sim_pack_struct])

end

section \<open>Any source reads as its value tree\<close>

context source_contract begin

lemma view_get_rel:
  assumes "ok v" and "s_map_view S v = Some w" and "as_pairs (abs v) = Some ps"
  shows "rel_option (\<lambda>v t. ok v \<and> t = abs v) (s_view_get S w k) (map_of ps k)"
  using view_get [OF assms, of k] view_ok [OF assms(1,2), of k]
  by (cases "s_view_get S w k"; cases "map_of ps k") auto

end

sublocale source_contract \<subseteq> tree: source_sim S tree_source "\<lambda>v t. ok v \<and> t = abs v"
    "\<lambda>w ps. \<exists>v. ok v \<and> s_map_view S v = Some w \<and> as_pairs (abs v) = Some ps" UNIV
proof unfold_locales
  fix v t
  assume v: "ok v \<and> t = abs v"
  show "rel_option (\<lambda>w ps. \<exists>v. ok v \<and> s_map_view S v = Some w \<and> as_pairs (abs v) = Some ps)
      (s_map_view S v) (s_map_view tree_source t)"
    using v view_None [of v] by (auto simp: rel_option_iff tree_source_def split: option.split)
  show "rel_option (list_all2 (\<lambda>v t. ok v \<and> t = abs v)) (s_as_list S v) (s_as_list tree_source t)"
    using v as_list [of v] list_ok [of v]
    by (cases "s_as_list S v"; cases "vs_as_list (abs v)") (auto simp: tree_source_def list_all2_conv_all_nth)
next
  fix w ps
  assume "\<exists>v. ok v \<and> s_map_view S v = Some w \<and> as_pairs (abs v) = Some ps"
  then show "set (s_view_keys S w) = set (s_view_keys tree_source ps)"
    by (elim exE conjE) (simp add: tree_source_def view_keys)
qed (auto simp: tree_source_def as_int as_float as_bytes as_str truthy view_get_rel)

context source_contract begin

lemma packs_tree: "ok v \<Longrightarrow> pack_with H S prog v = pack_with H tree_source prog (abs v)"
  by (rule tree.sim_pack_with) (simp_all add: prog_keyed_def)

end

text \<open>C33: a packer reads any source that keeps the contract as the value tree it stands for: the
  bytes or the error are those of the reference source on that tree, on every program.\<close>

theorem pack_refines_reference:
  assumes "source_contract S tree_of ok" and "ok v"
  shows "pack_with H S prog v = pack_with H tree_source prog (tree_of v)"
  by (rule source_contract.packs_tree [OF assms])

theorem pack_refines_reference_witness:
  "pack_with zero_hashes value_source
      (Program [OpFixed 1 [\<lparr>fi_off = 0, fi_kind = FBool None, fi_reg = None, fi_span = None, fi_key = Named ''t''\<rparr>]] 0 0 1 (Some 1))
      (VMap [(''t'', VInt 3)]) =
    pack_with zero_hashes tree_source
      (Program [OpFixed 1 [\<lparr>fi_off = 0, fi_kind = FBool None, fi_reg = None, fi_span = None, fi_key = Named ''t''\<rparr>]] 0 0 1 (Some 1))
      (VMap [(''t'', VInt 3)])"
  by (rule pack_refines_reference [OF value_source.source_contract_axioms]) simp

text \<open>C34: the index \<open>ValueSource\<close> builds for a map, a scan of the pairs up to sixteen fields and a
  hash map above, does not show: \<open>pack::run\<close> gives what a plain search of the pairs gives, when
  no map of the value repeats a key.\<close>

theorem index_does_not_show:
  assumes "distinct_keys v"
  shows "pack_run H prog v = pack_with H tree_source prog v"
  unfolding pack_run_def by (rule value_source.packs_tree [OF assms])

theorem index_does_not_show_witness:
  "pack_run zero_hashes
      (Program [OpFixed 1 [\<lparr>fi_off = 0, fi_kind = FBool None, fi_reg = None, fi_span = None, fi_key = Named ''b''\<rparr>]] 0 0 1 (Some 1))
      (VMap (map (\<lambda>i. ([char_of i], VInt (int i))) [90..<107])) =
    pack_with zero_hashes tree_source
      (Program [OpFixed 1 [\<lparr>fi_off = 0, fi_kind = FBool None, fi_reg = None, fi_span = None, fi_key = Named ''b''\<rparr>]] 0 0 1 (Some 1))
      (VMap (map (\<lambda>i. ([char_of i], VInt (int i))) [90..<107]))"
  by (rule index_does_not_show) code_simp

section \<open>The key cache\<close>

text \<open>Sources that differ only in what they answer for names outside the cache.\<close>

definition same_lookups :: "string set \<Rightarrow> ('v, 'w) source \<Rightarrow> ('v, 'w) source \<Rightarrow> bool" where
  "same_lookups K S T \<longleftrightarrow> (\<exists>f. T = S\<lparr>s_view_get := f\<rparr> \<and> (\<forall>w. \<forall>k\<in>K. f w k = s_view_get S w k))"

lemma same_lookups_sim: "same_lookups K S T \<Longrightarrow> source_sim S T (=) (=) K"
  by unfold_locales (auto simp: same_lookups_def option.rel_refl list.rel_refl)

end
