(* ===== verification/Streaming.thy ===== *)
theory Streaming
  imports Unpack_Safety
begin

text \<open>
  Parsing from a stream: what a parse of the bytes received so far says about a parse after extra
  have arrived. The two walks run in lockstep over \<open>buf\<close> and \<open>buf @ extra\<close>. They can part only
  where the bytes of \<open>buf\<close> end, and there the shorter one answers \<open>Incomplete\<close>.

  A field that takes all that is left, a greedy length or an array until the end, is different
  after more bytes have come; it is allowed inside a struct of a given size only.
\<close>

section \<open>Self-delimiting programs\<close>

fun sd_prog :: "program \<Rightarrow> bool" and sd_op :: "op \<Rightarrow> bool" where
  "sd_prog (Program ops _ _ _ _) \<longleftrightarrow> list_all sd_op ops"
| "sd_op (OpBytes len _ _) \<longleftrightarrow> len \<noteq> LenGreedy"
| "sd_op (OpStr len _ _ _) \<longleftrightarrow> len \<noteq> LenGreedy"
| "sd_op (OpNest prog sz _) \<longleftrightarrow> sz \<noteq> None \<or> sd_prog prog"
| "sd_op (OpArray count _ elem _ _) \<longleftrightarrow> count \<noteq> UntilEof \<and> sd_op elem"
| "sd_op (OpSwitch _ cases dflt _) \<longleftrightarrow>
     list_all (\<lambda>c. sd_op (snd c)) cases \<and> (case dflt of Some op \<Rightarrow> sd_op op | None \<Rightarrow> True)"
| "sd_op (OpCond _ thn _) \<longleftrightarrow> sd_op thn"
| "sd_op _ \<longleftrightarrow> True"

lemma sd_branch: "sd_op (OpSwitch on cases dflt c) \<Longrightarrow> switch_branch tag cases dflt = Some op \<Longrightarrow> sd_op op"
  by (drule switch_branch_cases) (auto simp: list_all_iff)

section \<open>Results on a longer buffer\<close>

definition ext_res :: "nat \<Rightarrow> 'a ures \<Rightarrow> 'a ures \<Rightarrow> bool" where
  "ext_res k m m' \<longleftrightarrow>
     (case m of
        Inr a \<Rightarrow> m' = Inr a
      | Inl (Fail (Invalid i)) \<Rightarrow> m' = Inl (Fail (Invalid i))
      | Inl (Fail (Incomplete n)) \<Rightarrow> k < n \<longrightarrow> (\<exists>e. m' = Inl e)
      | Inl Panic \<Rightarrow> True)"

lemma ext_res_simps [simp]:
  "ext_res k (Inr a) m' \<longleftrightarrow> m' = Inr a"
  "ext_res k (Inl (Fail (Invalid i))) m' \<longleftrightarrow> m' = Inl (Fail (Invalid i))"
  "ext_res k (Inl (Fail (Incomplete n))) m' \<longleftrightarrow> (k < n \<longrightarrow> (\<exists>e. m' = Inl e))"
  "ext_res k (Inl Panic) m'"
  by (simp_all add: ext_res_def)

lemma ext_same [simp]: "ext_res k m m"
  by (auto simp: ext_res_def split: sum.split fault.split ufail.split)

lemma ext_bind:
  "ext_res k m m' \<Longrightarrow> (\<And>a. m = Inr a \<Longrightarrow> ext_res k (f a) (g a)) \<Longrightarrow> ext_res k (bind_res m f) (bind_res m' g)"
  by (auto simp: ext_res_def split: sum.splits fault.splits ufail.splits)

lemma ext_bind_same: "(\<And>a. m = Inr a \<Longrightarrow> ext_res k (f a) (g a)) \<Longrightarrow> ext_res k (bind_res m f) (bind_res m g)"
  by (rule ext_bind) simp_all

lemma ext_fold:
  assumes "\<And>x s. x \<in> set xs \<Longrightarrow> ext_res k (f x s) (g x s)"
  shows "ext_res k (fold_res f xs s) (fold_res g xs s)"
  using assms by (induction xs arbitrary: s) (auto intro!: ext_bind)

lemma ext_push_key: "ext_res k m m' \<Longrightarrow> ext_res k (map_fail (push_key key) m) (map_fail (push_key key) m')"
  by (auto simp: ext_res_def push_key_def map_fail_def split: sum.splits fault.splits ufail.splits option.split)

lemma ext_seg: "ext_res k m m' \<Longrightarrow> ext_res k (map_fail (ufail_seg s) m) (map_fail (ufail_seg s) m')"
  by (auto simp: ext_res_def map_fail_def split: sum.splits fault.splits ufail.splits)

lemma ext_slice [simp]: "ext_res k (slice_res buf a b) (slice_res (buf @ extra) a b)"
  by (simp add: slice_res_def)

lemma ext_nth [simp]: "ext_res k (nth_res buf i) (nth_res (buf @ extra) i)"
  by (simp add: nth_res_def nth_append)

lemma ext_read_bits: "ext_res k (read_bits buf base p item) (read_bits (buf @ extra) base p item)"
  unfolding read_bits_def read_bits_raw_def bit_step_def by (intro ext_bind ext_fold) simp_all

lemma position_append: "position P xs = Some i \<Longrightarrow> position P (xs @ ys) = Some i"
  by (induction xs arbitrary: i) (auto split: if_splits)

lemma take_min: "take (min (length xs) n) xs = take n xs" "take (min (length xs + length ys) n) (xs @ ys) = take n xs @ take (n - length xs) ys"
  by (simp_all add: min_def)

section \<open>The lockstep\<close>

locale stream =
  fixes B :: "('v, 'm, 'l) builder" and H :: hashes and buf extra :: bytes
  assumes list_hint: "b_list_new B n = b_list_new B 0"
begin

abbreviation short :: "('v, 'm, 'l) uenv" where
  "short \<equiv> \<lparr>ue_buf = buf, ue_builder = B, ue_hashes = H\<rparr>"

abbreviation long :: "('v, 'm, 'l) uenv" where
  "long \<equiv> \<lparr>ue_buf = buf @ extra, ue_builder = B, ue_hashes = H\<rparr>"

abbreviation ext :: "'a ures \<Rightarrow> 'a ures \<Rightarrow> bool" where
  "ext \<equiv> ext_res (length extra)"

text \<open>A window of the short buffer and the one it is in the long buffer: the same, or each to the end.\<close>

definition windows :: "nat \<Rightarrow> nat \<Rightarrow> bool" where
  "windows limit limit' \<longleftrightarrow>
     length buf + length extra < usize_max \<and> limit \<le> length buf \<and> (limit' = limit \<or> limit = length buf \<and> limit' = length buf + length extra)"

definition ext_value :: "bool \<Rightarrow> 'a uvalue \<Rightarrow> 'a uvalue \<Rightarrow> bool" where
  "ext_value sd f g \<longleftrightarrow>
     (\<forall>frames pos limit limit'. windows limit limit' \<longrightarrow> sd \<or> limit' = limit \<longrightarrow> ext (f frames pos limit) (g frames pos limit'))"

lemma ext_valueD:
  "ext_value sd f g \<Longrightarrow> windows limit limit' \<Longrightarrow> sd \<or> limit' = limit \<Longrightarrow> ext (f frames pos limit) (g frames pos limit')"
  unfolding ext_value_def by blast

lemma ext_need:
  assumes "windows limit limit'"
  shows "ext (need buf pos limit n) (need (buf @ extra) pos limit' n)"
proof -
  have fits: "length buf + length extra < usize_max" using assms by (simp add: windows_def)
  show ?thesis
  proof (cases "saturating_add pos n \<le> limit")
    case True
    then have "saturating_add pos n \<le> limit'" using assms by (auto simp: windows_def)
    then show ?thesis using True by (simp add: need_def)
  next
    case False
    have "limit' < saturating_add pos n"
      if "length extra < wrapping_sub (wrapping_add pos n) (length buf)" "limit = length buf" "limit' = length buf + length extra"
    proof (cases "pos + n \<le> usize_max")
      case True
      then have "wrapping_sub (wrapping_add pos n) (length buf) = pos + n - length buf"
        using False that fits by (auto simp: saturating_add_def wrapping_add_def wrapping_sub_def usize_max_def mod_if)
      then show ?thesis using that True by (simp add: saturating_add_def)
    next
      case False
      then show ?thesis using that fits by (simp add: saturating_add_def)
    qed
    then show ?thesis using False assms by (auto simp: need_def windows_def)
  qed
qed

lemma ext_read_fixed_item:
  "ext (read_fixed_item short item base frames) (read_fixed_item long item base frames)"
  by (cases "fi_kind item") (auto simp: read_fixed_item_def Let_def intro!: ext_bind)

lemma ext_do_flags:
  "windows limit limit' \<Longrightarrow>
    ext (do_flags short prim be items rest rm pos limit) (do_flags long prim be items rest rm pos limit')"
  by (auto simp: do_flags_def Let_def intro!: ext_bind ext_need split: rest_policy.split)

lemma ext_fixed_step: "ext (fixed_step short pos item st) (fixed_step long pos item st)"
  by (cases st) (auto simp: fixed_step_def intro!: ext_bind ext_push_key ext_read_fixed_item)

lemma ext_run_fixed:
  "windows limit limit' \<Longrightarrow> ext (run_fixed short width items limit st) (run_fixed long width items limit' st)"
  by (cases st) (auto simp: run_fixed_def intro!: ext_bind ext_need ext_fold ext_fixed_step)

lemma ext_bit_item_step: "ext (bit_item_step short pos item st) (bit_item_step long pos item st)"
  by (cases st) (auto simp: bit_item_step_def intro!: ext_bind ext_read_bits)

lemma ext_run_bits:
  "windows limit limit' \<Longrightarrow> ext (run_bits short nbytes items limit st) (run_bits long nbytes items limit' st)"
  by (cases st) (auto simp: run_bits_def intro!: ext_bind ext_need ext_fold ext_bit_item_step)

lemma ext_run_digest:
  "windows limit limit' \<Longrightarrow>
    ext (run_digest short algo over verify be c limit st) (run_digest long algo over verify be c limit' st)"
  by (cases st) (auto simp: run_digest_def Let_def intro!: ext_bind ext_need ext_push_key)

lemma ext_place_value: "ext r r' \<Longrightarrow> ext (place_value short c r st) (place_value long c r' st)"
  by (cases st) (auto simp: place_value_def intro!: ext_bind ext_push_key)

lemma ext_compute: "ext (compute H buf start end spans d) (compute H (buf @ extra) start end spans d)"
  unfolding compute_def feed_span_def
  by (rule ext_bind) (auto intro!: ext_bind ext_fold split: over.split)

lemma ext_check_deferred:
  "ext (check_deferred H buf start end spans d u) (check_deferred H (buf @ extra) start end spans d u)"
  by (auto simp: check_deferred_def intro!: ext_bind ext_compute)

lemma ext_do_cstr:
  assumes "windows limit limit'"
  shows "ext (do_cstr short mx e pos limit) (do_cstr long mx e pos limit')"
proof (cases "limit' = limit")
  case True
  show ?thesis unfolding True do_cstr_def Let_def
    using assms True by (auto intro!: ext_bind simp: windows_def split: option.split)
next
  case False
  have fits: "length buf + length extra < usize_max" using assms by (simp add: windows_def)
  have lim: "limit = length buf" "limit' = length buf + length extra" using assms False by (auto simp: windows_def)
  let ?scan = "min (length buf - pos) (saturating_add mx 1)" and ?scan' = "min (length buf + length extra - pos) (saturating_add mx 1)"
  show ?thesis
  proof (cases "pos \<le> length buf")
    case True
    have short_scan: "slice_res buf pos (pos + ?scan) = Inr (take ?scan (drop pos buf))"
      using True by (simp add: slice_res_def)
    have long_scan: "slice_res (buf @ extra) pos (pos + ?scan') = Inr (take ?scan' (drop pos buf @ extra))"
      using True by (auto simp: slice_res_def)
    show ?thesis
    proof (cases "position (\<lambda>b. b = 0) (take ?scan (drop pos buf))")
      case (Some i)
      let ?xs = "drop pos buf" and ?n = "saturating_add mx 1"
      have len: "length buf + length extra - pos = length ?xs + length extra" "length buf - pos = length ?xs"
        using True by simp_all
      have "take ?scan' (?xs @ extra) = take ?scan ?xs @ take (?n - length ?xs) extra"
        by (simp only: len take_min)
      then have found: "position (\<lambda>b. b = 0) (take ?scan' (?xs @ extra)) = Some i"
        using position_append [OF Some] by simp
      show ?thesis
        unfolding do_cstr_def Let_def lim uenv.simps short_scan long_scan bind_res_simps Some found option.case
        by (intro ext_bind) simp_all
    next
      case None
      show ?thesis
      proof (cases "mx < length buf - pos")
        case mx: True
        then have "saturating_add mx 1 = mx + 1" using fits by (simp add: saturating_add_def)
        then have "?scan = mx + 1" "?scan' = mx + 1" using mx by simp_all
        then have same: "take ?scan' (drop pos buf @ extra) = take ?scan (drop pos buf)" using mx by simp
        have "mx < length buf + length extra - pos" using mx by simp
        then show ?thesis
          unfolding do_cstr_def Let_def lim uenv.simps short_scan long_scan bind_res_simps same None option.case using mx by simp
      next
        case False
        then show ?thesis using \<open>limit' \<noteq> limit\<close>
          unfolding do_cstr_def Let_def lim uenv.simps short_scan bind_res_simps None option.case by simp
      qed
    qed
  next
    case False
    then have beyond: "slice_res buf pos (pos + ?scan) = panic" by (simp add: slice_res_def)
    show ?thesis unfolding do_cstr_def Let_def lim uenv.simps beyond bind_res_simps by simp
  qed
qed

lemma ext_do_nest:
  assumes f: "ext_value sd f g" and sd: "sd' \<Longrightarrow> sz \<noteq> None \<or> sd"
  shows "ext_value sd' (do_nest short f sz) (do_nest long g sz)"
  unfolding ext_value_def
proof (intro allI impI)
  fix frames pos limit limit'
  assume w: "windows limit limit'" and sd': "sd' \<or> limit' = limit"
  show "ext (do_nest short f sz frames pos limit) (do_nest long g sz frames pos limit')"
  proof (cases sz)
    case None
    then show ?thesis using ext_valueD [OF f w] sd sd' by (auto simp: do_nest_def)
  next
    case (Some len)
    have inner: "ext (f frames pos (pos + n)) (g frames pos (pos + n))" if "need buf pos limit n = Inr u" for n u
    proof (rule ext_valueD [OF f])
      show "windows (pos + n) (pos + n)"
        using that w by (auto simp: need_def windows_def saturating_add_def split: if_splits)
    qed simp
    show ?thesis unfolding do_nest_def Some option.case
      by (cases len) (auto intro!: ext_bind_same ext_bind [OF ext_need [OF w]] ext_bind [OF inner])
  qed
qed

lemma ext_array_step:
  "ext_value sd f g \<Longrightarrow> windows limit limit' \<Longrightarrow> sd \<or> limit' = limit \<Longrightarrow>
    ext (array_step B f limit i st) (array_step B g limit' i st)"
  by (cases st) (auto simp: array_step_def intro!: ext_bind ext_seg dest: ext_valueD)

lemma ext_eof_loop:
  assumes "\<And>i st. ext (step i st) (step' i st)"
  shows "ext (eof_loop step mc limit i st) (eof_loop step' mc limit i st)"
  using assms
proof (induction step mc limit i st rule: eof_loop.induct)
  case (1 step mc limit i st)
  obtain pos out frames where st: "st = (pos, out, frames)" by (cases st)
  show ?case
  proof (cases "pos < limit \<and> \<not> mc \<le> i")
    case True
    have "ext (bind_res (step i st) (eof_loop step mc limit (i + 1))) (bind_res (step' i st) (eof_loop step' mc limit (i + 1)))"
      using 1 True by (intro ext_bind) (auto simp: st)
    then show ?thesis using True
      by (subst eof_loop.simps [of step], subst eof_loop.simps [of step']) (simp add: st)
  next
    case False
    then show ?thesis by (subst eof_loop.simps [of step], subst eof_loop.simps [of step']) (auto simp: st)
  qed
qed

lemma ext_do_array:
  assumes f: "ext_value sd f g" and sd: "sd' \<Longrightarrow> count \<noteq> UntilEof \<and> sd"
  shows "ext_value sd' (do_array short f count mc em) (do_array long g count mc em)"
  unfolding ext_value_def
proof (intro allI impI)
  fix frames pos limit limit'
  assume w: "windows limit limit'" and sd': "sd' \<or> limit' = limit"
  note step = ext_array_step [OF f w]
  show "ext (do_array short f count mc em frames pos limit) (do_array long g count mc em frames pos limit')"
  proof (cases count)
    case (CountExpr e iv)
    have "sd \<or> limit' = limit" using sd sd' by blast
    note step = step [OF this]
    have loop: "ext (fold_res (array_step B f limit) ixs (pos, b_list_new B n, frames))
        (fold_res (array_step B g limit') ixs (pos, b_list_new B n', frames))" for ixs n n'
      unfolding list_hint [of n] list_hint [of n'] by (rule ext_fold [OF step])
    show ?thesis unfolding do_array_def Let_def CountExpr count_src.case uenv.simps
      by (rule ext_bind_same) (auto intro!: ext_bind [OF loop])
  next
    case UntilEof
    then have lim: "limit' = limit" using sd sd' by blast
    then have "ext (eof_loop (array_step B f limit) mc limit 0 (pos, b_list_new B 0, frames))
        (eof_loop (array_step B g limit) mc limit 0 (pos, b_list_new B 0, frames))"
      using step by (intro ext_eof_loop) simp
    then show ?thesis unfolding do_array_def Let_def UntilEof count_src.case uenv.simps lim
      by (rule ext_bind) simp
  qed
qed

lemma ext_do_switch:
  assumes "\<And>tag op. switch_branch tag cases dflt = Some op \<Longrightarrow> ext_value sd (f op) (g op)"
  shows "ext_value sd (do_switch f on cases dflt) (do_switch g on cases dflt)"
  using assms by (auto simp: ext_value_def do_switch_def intro!: ext_bind_same split: option.split)

lemma ext_run_struct_step:
  assumes ops: "\<And>op limit limit' st. op \<in> set (prog_ops prog) \<Longrightarrow> windows limit limit' \<Longrightarrow> sd_op op \<or> limit' = limit \<Longrightarrow>
      ext (run_op short op limit st) (run_op long op limit' st)"
  shows "ext_value (sd_prog prog) (run_struct short prog) (run_struct long prog)"
  unfolding ext_value_def
proof (intro allI impI)
  fix frames pos limit limit'
  assume w: "windows limit limit'" and sd: "sd_prog prog \<or> limit' = limit"
  have loop: "ext (fold_res (\<lambda>op st. run_op short op limit st) (prog_ops prog) st)
      (fold_res (\<lambda>op st. run_op long op limit' st) (prog_ops prog) st)" for st
    by (rule ext_fold) (use ops w sd in \<open>cases prog; auto simp: list_all_iff\<close>)
  show "ext (run_struct short prog frames pos limit) (run_struct long prog frames pos limit')"
    unfolding run_struct.simps uenv.simps
    by (auto intro!: ext_bind [OF loop] ext_bind ext_fold ext_check_deferred split: list.split)
qed

lemma ext_blob:
  assumes w: "windows limit limit'" and len: "len \<noteq> LenGreedy \<or> limit' = limit" and k: "\<And>n raw. ext (f n raw) (g n raw)"
  shows "ext (bind_res (resolve_len frames len mx pos limit) (\<lambda>n. bind_res (need buf pos limit n) (\<lambda>_.
      bind_res (slice_res buf pos (pos + n)) (f n))))
    (bind_res (resolve_len frames len mx pos limit') (\<lambda>n. bind_res (need (buf @ extra) pos limit' n) (\<lambda>_.
      bind_res (slice_res (buf @ extra) pos (pos + n)) (g n))))"
proof -
  have "resolve_len frames len mx pos limit' = resolve_len frames len mx pos limit"
    using len by (cases len) (auto simp: resolve_len_def)
  then show ?thesis by (auto intro!: ext_bind_same ext_bind [OF ext_need [OF w]] ext_bind [OF ext_slice] k)
qed

lemma ext_op_value_step:
  assumes nest: "\<And>prog sz c. op = OpNest prog sz c \<Longrightarrow> ext_value (sd_prog prog) (run_struct short prog) (run_struct long prog)"
    and elem: "\<And>count mc elem em c. op = OpArray count mc elem em c \<Longrightarrow> ext_value (sd_op elem) (op_value short elem) (op_value long elem)"
    and branch: "\<And>on cases dflt c tag b. op = OpSwitch on cases dflt c \<Longrightarrow> switch_branch tag cases dflt = Some b \<Longrightarrow>
      ext_value (sd_op b) (op_value short b) (op_value long b)"
  shows "ext_value (sd_op op) (op_value short op) (op_value long op)"
  unfolding ext_value_def
proof (intro allI impI)
  fix frames pos limit limit'
  assume w: "windows limit limit'" and sd: "sd_op op \<or> limit' = limit"
  show "ext (op_value short op frames pos limit) (op_value long op frames pos limit')"
  proof (cases op)
    case (OpFixed width items)
    show ?thesis unfolding OpFixed op_value.simps Let_def op.case uenv.simps
      by (intro ext_bind [OF ext_need [OF w]] ext_bind_same ext_bind [OF ext_read_fixed_item]) auto
  next
    case (OpBytes len mx c)
    have "len \<noteq> LenGreedy \<or> limit' = limit" using sd by (auto simp: OpBytes)
    then show ?thesis unfolding OpBytes op_value.simps Let_def op.case uenv.simps
      by (intro ext_blob [OF w]) auto
  next
    case (OpStr len mx e c)
    have "len \<noteq> LenGreedy \<or> limit' = limit" using sd by (auto simp: OpStr)
    then show ?thesis unfolding OpStr op_value.simps Let_def op.case uenv.simps
      by (intro ext_blob [OF w]) auto
  next
    case (OpCStr mx e c)
    show ?thesis unfolding OpCStr op_value.simps Let_def op.case
      by (rule ext_bind [OF ext_do_cstr [OF w]]) simp
  next
    case (OpFlags prim be items rest rm c)
    show ?thesis unfolding OpFlags op_value.simps Let_def op.case
      by (rule ext_bind [OF ext_do_flags [OF w]]) simp
  next
    case (OpNest prog sz c)
    have "ext_value (sd_op op) (do_nest short (run_struct short prog) sz) (do_nest long (run_struct long prog) sz)"
      by (rule ext_do_nest [OF nest [OF OpNest]]) (simp add: OpNest)
    from ext_valueD [OF this w sd] show ?thesis by (simp add: op_value.simps OpNest)
  next
    case (OpArray count mc elem_op em c)
    have "ext_value (sd_op op) (do_array short (op_value short elem_op) count mc em) (do_array long (op_value long elem_op) count mc em)"
      by (rule ext_do_array [OF elem [OF OpArray]]) (simp add: OpArray)
    from ext_valueD [OF this w sd] show ?thesis by (simp add: op_value.simps OpArray)
  next
    case (OpSwitch on cases dflt c)
    have "ext_value (sd_op op) (do_switch (op_value short) on cases dflt) (do_switch (op_value long) on cases dflt)"
    proof (rule ext_do_switch)
      fix tag b
      assume b: "switch_branch tag cases dflt = Some b"
      show "ext_value (sd_op op) (op_value short b) (op_value long b)"
        using branch [OF OpSwitch b] sd_branch [OF _ b, of on c] by (auto simp: ext_value_def OpSwitch)
    qed
    from ext_valueD [OF this w sd] show ?thesis by (simp add: op_value.simps OpSwitch)
  qed (simp_all add: op_value.simps)
qed

lemma ext_run_op_step:
  assumes w: "windows limit limit'" and sd: "sd_op op \<or> limit' = limit"
    and val: "ext_value (sd_op op) (op_value short op) (op_value long op)"
    and thn: "\<And>pred thn c. op = OpCond pred thn c \<Longrightarrow> ext_value (sd_op thn) (op_value short thn) (op_value long thn)"
  shows "ext (run_op short op limit st) (run_op long op limit' st)"
proof (cases op)
  case (OpFixed width items)
  then show ?thesis using ext_run_fixed [OF w] by (simp add: run_op.simps)
next
  case (OpBitRun nbytes items)
  then show ?thesis using ext_run_bits [OF w] by (simp add: run_op.simps)
next
  case (OpDigest algo over verify be c)
  then show ?thesis using ext_run_digest [OF w] by (simp add: run_op.simps)
next
  case (OpCond pred t c)
  have "sd_op t \<or> limit' = limit" using sd by (simp add: OpCond)
  note t = ext_valueD [OF thn [OF OpCond] w this]
  show ?thesis unfolding run_op.simps OpCond op.case
    by (cases st) (auto intro!: ext_bind_same ext_place_value t)
qed (use ext_place_value [OF ext_valueD [OF val w sd]] in \<open>auto simp: run_op.simps split: prod.split intro!: ext_bind_same\<close>)

lemma ext_walk:
  "(\<forall>prog. 2 * size prog < n \<longrightarrow> ext_value (sd_prog prog) (run_struct short prog) (run_struct long prog)) \<and>
   (\<forall>op limit limit' st. 2 * size op + 1 < n \<longrightarrow> windows limit limit' \<longrightarrow> sd_op op \<or> limit' = limit \<longrightarrow>
      ext (run_op short op limit st) (run_op long op limit' st)) \<and>
   (\<forall>op. 2 * size op < n \<longrightarrow> ext_value (sd_op op) (op_value short op) (op_value long op))"
proof (induction n)
  case (Suc n)
  have 1: "ext_value (sd_prog prog) (run_struct short prog) (run_struct long prog)" if "2 * size prog < Suc n" for prog
  proof (rule ext_run_struct_step)
    fix op limit limit' st
    assume op: "op \<in> set (prog_ops prog)" and w: "windows limit limit'" and sd: "sd_op op \<or> limit' = limit"
    have "2 * size op + 1 < n" using size_prog_ops [OF op] that by simp
    then show "ext (run_op short op limit st) (run_op long op limit' st)" using Suc w sd by blast
  qed
  have val: "ext_value (sd_op op) (op_value short op) (op_value long op)" if "2 * size op < n" for op
    using Suc that by blast
  have 3: "ext_value (sd_op op) (op_value short op) (op_value long op)" if sz: "2 * size op < Suc n" for op
  proof (rule ext_op_value_step)
    show "ext_value (sd_prog prog) (run_struct short prog) (run_struct long prog)" if "op = OpNest prog sz c" for prog sz c
      using that sz by (intro 1) simp_all
    show "ext_value (sd_op elem) (op_value short elem) (op_value long elem)" if "op = OpArray count mc elem em c" for count mc elem em c
      using that sz by (intro val) simp_all
    show "ext_value (sd_op b) (op_value short b) (op_value long b)"
      if "op = OpSwitch on cases dflt c" and b: "switch_branch tag cases dflt = Some b" for on cases dflt c tag b
      using that(1) sz size_switch_branch [OF b] by (intro val) simp_all
  qed
  have 2: "ext (run_op short op limit st) (run_op long op limit' st)"
    if sz: "2 * size op + 1 < Suc n" and w: "windows limit limit'" and sd: "sd_op op \<or> limit' = limit" for op limit limit' st
    using w sd
  proof (rule ext_run_op_step)
    show "ext_value (sd_op op) (op_value short op) (op_value long op)" using sz by (intro val) simp_all
    show "ext_value (sd_op thn) (op_value short thn) (op_value long thn)" if "op = OpCond pred thn c" for pred thn c
      using that sz by (intro val) simp_all
  qed
  show ?case using 1 2 3 by blast
qed simp

lemma ext_run_struct: "ext_value (sd_prog prog) (run_struct short prog) (run_struct long prog)"
  using ext_walk [of "Suc (2 * size prog)"] by blast

end

sublocale builder_contract \<subseteq> stream B H buf extra for H buf extra
  by unfold_locales (rule list_hint)

section \<open>Properties\<close>

text \<open>The two parses of the reference builder, from the same offset.\<close>

lemma parse_lockstep:
  assumes "sd_prog prog" and "length buf + length extra < usize_max" and "offset \<le> length buf"
  shows "ext_res (length extra)
    (run_struct \<lparr>ue_buf = buf, ue_builder = value_builder, ue_hashes = H\<rparr> prog [] offset (length buf))
    (run_struct \<lparr>ue_buf = buf @ extra, ue_builder = value_builder, ue_hashes = H\<rparr> prog [] offset (length buf + length extra))"
  by (rule value_builder.ext_valueD [OF value_builder.ext_run_struct]) (use assms in \<open>simp_all add: value_builder.windows_def\<close>)

lemma run_stream:
  "run H prog buf offset False True =
    (case run_struct \<lparr>ue_buf = buf, ue_builder = value_builder, ue_hashes = H\<rparr> prog [] (min offset (length buf)) (length buf) of
       Inr (v, pos, _) \<Rightarrow> Inr (OOk v pos)
     | Inl (Fail (Incomplete n)) \<Rightarrow> Inr (OIncomplete n)
     | Inl (Fail (Invalid i)) \<Rightarrow> Inr (OInvalid (inv_kind i) (inv_offset i) (format_path (inv_path i)))
     | Inl Panic \<Rightarrow> panic)"
  by (simp add: run_def run_with_def split: sum.split fault.split ufail.split)

text \<open>C36: a parse that is done is done: what a self-delimiting program decodes from the bytes received
  so far, or rejects in them, stays decoded or rejected, the same value at the same position, the
  same error at the same offset, whatever arrives after them.\<close>

theorem parse_stable:
  assumes "sd_prog prog" and "length buf + length extra < usize_max" and "offset \<le> length buf"
    and "run H prog buf offset False True = Inr r" and "\<And>n. r \<noteq> OIncomplete n"
  shows "run H prog (buf @ extra) offset False True = Inr r"
  using parse_lockstep [OF assms(1-3), of H] assms(3-5)
  by (auto simp: run_stream split: sum.splits fault.splits ufail.splits)

theorem parse_stable_witness:
  "run zero_hashes (Program [OpBytes (LenExpr (expr_imm 2) None) 10 (common_named ''b'')] 0 0 2 (Some 2)) ([65, 66] @ [67]) 0 False True =
    Inr (OOk (VMap [(''b'', VBytes [65, 66])]) 2)"
proof (rule parse_stable)
  show "run zero_hashes (Program [OpBytes (LenExpr (expr_imm 2) None) 10 (common_named ''b'')] 0 0 2 (Some 2)) [65, 66] 0 False True =
      Inr (OOk (VMap [(''b'', VBytes [65, 66])]) 2)"
    by code_simp
qed (simp_all add: usize_max_def)

text \<open>C35: streaming makes progress: when a message parses, every proper prefix of it that still holds the
  offset is answered \<open>Incomplete\<close>, never an error, and asks for no more bytes than are missing; so
  feeding what is asked for reaches the message without overshooting it.\<close>

theorem prefix_incomplete:
  assumes "sd_prog prog" and "wf_prog 0 prog" and "length buf + length extra < usize_max" and "offset \<le> length buf"
    and "run H prog (buf @ extra) offset False True = Inr (OOk v pos)" and "length buf < pos"
  shows "\<exists>n. run H prog buf offset False True = Inr (OIncomplete n) \<and> n \<le> length extra"
proof -
  let ?m = "run_struct \<lparr>ue_buf = buf, ue_builder = value_builder, ue_hashes = H\<rparr> prog [] offset (length buf)"
  let ?m' = "run_struct \<lparr>ue_buf = buf @ extra, ue_builder = value_builder, ue_hashes = H\<rparr> prog [] offset (length buf + length extra)"
  have off: "min offset (length buf) = offset" "min offset (length (buf @ extra)) = offset" using assms(4) by simp_all
  obtain fr where long: "?m' = Inr (v, pos, fr)"
    using assms(5) unfolding run_stream off by (auto split: sum.splits fault.splits ufail.splits)
  have "safe ?m (\<lambda>(v, pos, _). pos \<le> length buf)"
    using safe_run_top [OF assms(2), of buf value_builder H offset] assms(3) by (auto simp: off elim!: safe_mono)
  then consider w p fr' where "?m = Inr (w, p, fr')" "p \<le> length buf" | n where "?m = Inl (Fail (Incomplete n))"
    | i where "?m = Inl (Fail (Invalid i))"
    by (auto simp: safe_def split: sum.splits fault.splits) (metis ufail.exhaust)
  then show ?thesis
    using parse_lockstep [OF assms(1,3,4), of H] long assms(6)
    by cases (auto simp: run_stream off)
qed

theorem prefix_incomplete_witness:
  "\<exists>n. run zero_hashes (Program [OpBytes (LenExpr (expr_imm 2) None) 10 (common_named ''b'')] 0 0 2 (Some 2)) [65] 0 False True =
    Inr (OIncomplete n) \<and> n \<le> length [66 :: 8 word]"
proof (rule prefix_incomplete)
  show "run zero_hashes (Program [OpBytes (LenExpr (expr_imm 2) None) 10 (common_named ''b'')] 0 0 2 (Some 2)) ([65] @ [66]) 0 False True =
      Inr (OOk (VMap [(''b'', VBytes [65, 66])]) 2)"
    by code_simp
  show "wf_prog 0 (Program [OpBytes (LenExpr (expr_imm 2) None) 10 (common_named ''b'')] 0 0 2 (Some 2))"
    by (simp add: common_ok_def common_named_def expr_ok_def expr_imm_def len_ok_def EXPR_STACK_def ops_size_defs named_def idx_ok_def in_i64_iff as_usize_def)
qed (simp_all add: usize_max_def)

end
