(* ===== verification/Round_Trip.thy ===== *)
theory Round_Trip
  imports Round_Structs Pack_Extent Source_Sim Streaming
begin

text \<open>
  What is packed is read back, and packs to the same bytes. The programs are those whose fields do
  not overlap, whose names and registers differ inside a struct, and where only the last field of a
  window takes all that is left; digests are excluded, their field is written after the struct.
\<close>

section \<open>The programs\<close>

fun entry_names :: "op \<Rightarrow> string list" where
  "entry_names (OpFixed width items) = key_names (map fi_key items)"
| "entry_names (OpBitRun nbytes items) = key_names (map bi_key items)"
| "entry_names op = (case op_common op of Some c \<Rightarrow> key_names [c_key c] | None \<Rightarrow> [])"

fun entry_regs :: "op \<Rightarrow> nat list" where
  "entry_regs (OpFixed width items) = item_regs (map fi_reg items)"
| "entry_regs (OpBitRun nbytes items) = item_regs (map bi_reg items)"
| "entry_regs _ = []"

fun rt_prog :: "program \<Rightarrow> bool" and rt_op :: "op \<Rightarrow> bool" and rt_val :: "op \<Rightarrow> bool" where
  "rt_prog (Program ops _ _ _ _) \<longleftrightarrow>
     list_all rt_op ops \<and> list_all sd_op (butlast ops) \<and>
     distinct (concat (map entry_names ops)) \<and> distinct (concat (map entry_regs ops))"
| "rt_op op \<longleftrightarrow>
     (case op of
        OpFixed width items \<Rightarrow> width \<le> isize_max \<and> apart items
      | OpBitRun nbytes items \<Rightarrow> nbytes \<le> isize_max
      | OpDigest algo over verify be c \<Rightarrow> False
      | OpCond pred thn c \<Rightarrow> rt_val thn
      | _ \<Rightarrow> rt_val op)"
| "rt_val op \<longleftrightarrow>
     (case op of
        OpFixed width items \<Rightarrow> width \<le> isize_max \<and> fi_reg (items ! 0) = None
      | OpBytes len mx c \<Rightarrow> len_reads len
      | OpStr len mx e c \<Rightarrow> len_reads len
      | OpCStr mx e c \<Rightarrow> True
      | OpFlags prim be items rest rest_mask c \<Rightarrow> flags_ok prim items rest rest_mask
      | OpNest prog sz c \<Rightarrow> rt_prog prog \<and> (case sz of Some len \<Rightarrow> len_reads len | None \<Rightarrow> True)
      | OpArray count mc elem em c \<Rightarrow> rt_val elem \<and> sd_op elem \<and>
          (case count of CountExpr e iv \<Rightarrow> len_reads (LenExpr e iv) | UntilEof \<Rightarrow> 0 < em)
      | OpSwitch on cases dflt c \<Rightarrow> list_all (\<lambda>x. rt_val (snd x)) cases \<and> (case dflt of Some op \<Rightarrow> rt_val op | None \<Rightarrow> True)
      | _ \<Rightarrow> False)"

lemma rt_branch:
  assumes "switch_branch tag cases dflt = Some b" "rt_val (OpSwitch on cases dflt c)"
  shows "rt_val b"
  using switch_branch_cases [OF assms(1)] assms(2) by (force simp: list_all_iff)

lemma rt_fits:
  shows "rt_prog prog \<Longrightarrow> fits_prog prog" and "rt_op op \<Longrightarrow> fits_op op" and rt_val_fits: "rt_val op' \<Longrightarrow> fits_op op'"
proof (induction prog and op and op' rule: rt_prog_rt_op_rt_val.induct)
  case (1 ops a b c d)
  then show ?case by (simp add: list_all_iff)
next
  case (2 op)
  then show ?case by (cases op) (auto simp: list_all_iff split: option.splits)
next
  case (3 op)
  then show ?case by (cases op) (auto simp: list_all_iff split: option.splits)
qed

section \<open>Values and opcodes\<close>

definition rt_value :: "hashes \<Rightarrow> nat \<Rightarrow> op \<Rightarrow> bool" where
  "rt_value H d op \<longleftrightarrow> (\<forall>v. texts_ok v \<longrightarrow>
     val_mirror H d (sd_op op) (pack_value H tree_source op) (\<lambda>E. op_value E op) v)"

definition rt_struct :: "hashes \<Rightarrow> nat \<Rightarrow> program \<Rightarrow> bool" where
  "rt_struct H d prog \<longleftrightarrow> (\<forall>v. texts_ok v \<longrightarrow>
     val_mirror H d (sd_prog prog) (pack_struct H tree_source prog) (\<lambda>E. run_struct E prog) v)"

lemma elem_grows:
  assumes "hash_lengths H" and "wf_val (Suc d) elem" and "fits_op elem" and "0 < op_min elem"
    and "pack_value H tree_source elem u c = Inr c'" and "pctx_ok (Suc d) c" and "length (pc_out c') < usize_max"
  shows "length (pc_out c) < length (pc_out c')"
proof -
  have "pextent (Suc d) (pack_value H tree_source elem) (takes elem)"
    using pextent_walk [OF assms(1), of "Suc (2 * size elem)"] assms(2,3) by blast
  then have "takes elem (grew c c')" by (rule pextentD) (use assms(5-7) in \<open>simp_all add: usize_max_def\<close>)
  then show ?thesis using assms(4) by (auto simp: takes_def grew_def)
qed

lemma rt_value_step:
  assumes wf: "wf_val (Suc d) op" and rt: "rt_val op" and H: "hash_lengths H"
    and nest: "\<And>prog sz c. op = OpNest prog sz c \<Longrightarrow> rt_struct H (Suc d) prog"
    and elem: "\<And>count mc elem em c. op = OpArray count mc elem em c \<Longrightarrow> rt_value H (Suc d) elem"
    and branch: "\<And>on cases dflt c tag b. op = OpSwitch on cases dflt c \<Longrightarrow> switch_branch tag cases dflt = Some b \<Longrightarrow> rt_value H (Suc d) b"
  shows "rt_value H (Suc d) op"
  unfolding rt_value_def
proof (intro allI impI)
  fix v
  assume v: "texts_ok v"
  let ?goal = "val_mirror H (Suc d) (sd_op op) (pack_value H tree_source op) (\<lambda>E. op_value E op) v"
  show ?goal
  proof (cases op)
    case (OpFixed width items)
    show ?thesis unfolding OpFixed
      by (rule val_mirror_weaken [OF val_mirror_fixed]) (use wf rt OpFixed in simp_all)
  next
    case (OpBytes len mx c)
    show ?thesis unfolding OpBytes
      by (rule val_mirror_weaken [OF val_mirror_bytes]) (use wf rt OpBytes in simp_all)
  next
    case (OpStr len mx e c)
    show ?thesis unfolding OpStr
      by (rule val_mirror_weaken [OF val_mirror_str]) (use wf rt OpStr v in simp_all)
  next
    case (OpCStr mx e c)
    show ?thesis unfolding OpCStr
      by (rule val_mirror_weaken [OF val_mirror_cstr [OF v]]) simp
  next
    case (OpFlags prim be items rest rest_mask c)
    show ?thesis unfolding OpFlags
      by (rule val_mirror_weaken [OF val_mirror_flags]) (use rt OpFlags in simp_all)
  next
    case (OpNest prog sz c)
    have inner: "val_mirror H (Suc d) (sd_prog prog) (pack_struct H tree_source prog) (\<lambda>E. run_struct E prog) v"
      using nest [OF OpNest] v by (simp add: rt_struct_def)
    have "val_mirror H (Suc d) (sd_op op) (pack_nest (pack_struct H tree_source prog) sz) (\<lambda>E. do_nest E (run_struct E prog) sz) v"
      by (rule val_mirror_nest [OF inner]) (use wf rt in \<open>auto simp: OpNest split: option.splits\<close>)
    then show ?thesis by (simp add: val_mirror_def OpNest pack_value.simps op_value.simps)
  next
    case (OpArray count mc el em c)
    have vm: "val_mirror H (Suc d) True (pack_value H tree_source el) (\<lambda>E. op_value E el) u"
      if "vs_as_list v = Some us" "u \<in> set us" for u us
    proof -
      have "texts_ok u" using texts_ok_list [OF v that(1)] that(2) by (simp add: list_all_iff)
      then have "val_mirror H (Suc d) (sd_op el) (pack_value H tree_source el) (\<lambda>E. op_value E el) u"
        using elem [OF OpArray] by (simp add: rt_value_def)
      then show ?thesis using rt by (simp add: OpArray)
    qed
    have "val_mirror H (Suc d) (sd_op op) (pack_array tree_source (pack_value H tree_source el) count) (\<lambda>E. do_array E (op_value E el) count mc em) v"
    proof (rule val_mirror_array [where pv = "pack_value H tree_source el" and ov = "\<lambda>E. op_value E el", OF vm])
      show "case count of CountExpr e iv \<Rightarrow> len_src_ok (Suc d) (LenExpr e iv) \<and> len_reads (LenExpr e iv)
        | UntilEof \<Rightarrow> \<not> sd_op op \<and> (\<forall>u c c'. pack_value H tree_source el u c = Inr c' \<longrightarrow> pctx_ok (Suc d) c \<longrightarrow>
            length (pc_out c') < usize_max \<longrightarrow> length (pc_out c) < length (pc_out c'))"
        using wf rt elem_grows [OF H] rt_val_fits by (cases count) (auto simp: OpArray)
    qed
    then show ?thesis by (simp add: val_mirror_def OpArray pack_value.simps op_value.simps)
  next
    case (OpSwitch on cases dflt c)
    have "val_mirror H (Suc d) (sd_op op) (pack_switch (pack_value H tree_source) on cases dflt) (\<lambda>E. do_switch (op_value E) on cases dflt) v"
    proof (rule val_mirror_switch)
      fix tag b
      assume b: "switch_branch tag cases dflt = Some b"
      have "val_mirror H (Suc d) (sd_op b) (pack_value H tree_source b) (\<lambda>E. op_value E b) v"
        using branch [OF OpSwitch b] v by (simp add: rt_value_def)
      then show "val_mirror H (Suc d) (sd_op op) (pack_value H tree_source b) (\<lambda>E. op_value E b) v"
        by (rule val_mirror_weaken) (use sd_branch [OF _ b] OpSwitch in blast)
    qed
    then show ?thesis by (simp add: val_mirror_def OpSwitch pack_value.simps op_value.simps)
  qed (use wf in simp_all)
qed

definition rt_opcode :: "hashes \<Rightarrow> nat \<Rightarrow> op \<Rightarrow> bool" where
  "rt_opcode H d op \<longleftrightarrow> (\<forall>sd M. list_all (\<lambda>p. texts_ok (snd p)) M \<longrightarrow> (sd \<longrightarrow> sd_op op) \<longrightarrow> distinct (entry_regs op) \<longrightarrow>
     op_mirror H d (entry_regs op) (entry_names op) sd (\<lambda>view ctx. pack_op H tree_source op view ctx) (\<lambda>E limit st. run_op E op limit st) M)"

lemma value_op_mirror:
  assumes "rt_value H (Suc d) op" and "list_all (\<lambda>p. texts_ok (snd p)) M" and "sd \<longrightarrow> sd_op op" and "named c" "common_ok c"
  shows "op_mirror H d [] (key_names [c_key c]) sd (\<lambda>view. pack_named tree_source view c (pack_value H tree_source op))
    (\<lambda>E limit st. case st of (pos, m, deferred, frames) \<Rightarrow> place_value E c (op_value E op frames pos limit) st) M"
proof -
  obtain n where n: "key_name (c_key c) = Some n" using assms(4) by (auto simp: named_def)
  have "val_mirror H (Suc d) sd (pack_value H tree_source op) (\<lambda>E. op_value E op) u" if "map_of M n = Some u" for u
    using assms(1) texts_ok_get [OF assms(2) that] assms(3) val_mirror_weaken unfolding rt_value_def by blast
  from op_mirror_named [where ov = "\<lambda>E. op_value E op", OF this n assms(5)] show ?thesis by (simp add: n)
qed

lemma plain_op:
  assumes "op_common op = Some c" and "\<And>a ov v be c. op \<noteq> OpDigest a ov v be c" "\<And>p t c. op \<noteq> OpCond p t c"
  shows "entry_regs op = []" "entry_names op = key_names [c_key c]" "wf_op d op \<longleftrightarrow> named c \<and> common_ok c \<and> wf_val d op"
    "rt_op op \<longleftrightarrow> rt_val op" "pack_op H S op view = pack_named S view c (pack_value H S op)"
    "run_op E op limit = (\<lambda>st. case st of (pos, m, deferred, frames) \<Rightarrow> place_value E c (op_value E op frames pos limit) st)"
  using assms by (cases op; simp add: pack_op.simps run_op.simps fun_eq_iff)+

lemma rt_opcode_step:
  assumes wf: "wf_op (Suc d) op" and rt: "rt_op op"
    and val: "wf_val (Suc d) op \<Longrightarrow> rt_val op \<Longrightarrow> rt_value H (Suc d) op"
    and thn: "\<And>pred thn c. op = OpCond pred thn c \<Longrightarrow> rt_value H (Suc d) thn"
  shows "rt_opcode H d op"
  unfolding rt_opcode_def
proof (intro allI impI)
  fix sd and M :: "(string \<times> val_tree) list"
  assume M: "list_all (\<lambda>p. texts_ok (snd p)) M" and sd: "sd \<longrightarrow> sd_op op" and dr: "distinct (entry_regs op)"
  let ?goal = "op_mirror H d (entry_regs op) (entry_names op) sd (\<lambda>view ctx. pack_op H tree_source op view ctx) (\<lambda>E limit st. run_op E op limit st) M"
  have plain: ?goal if c: "op_common op = Some c" and op: "\<And>a ov v be c. op \<noteq> OpDigest a ov v be c" "\<And>p t c. op \<noteq> OpCond p t c" for c
  proof -
    note eqs = plain_op [OF c op]
    have "named c" "common_ok c" "wf_val (Suc d) op" "rt_val op" using wf rt unfolding eqs(3,4) by blast+
    from value_op_mirror [OF val [OF this(3,4)] M sd this(1,2)] show ?goal unfolding eqs(1,2,5,6) .
  qed
  show ?goal
  proof (cases op)
    case (OpFixed width items)
    have "op_mirror H d (item_regs (map fi_reg items)) (key_names (map fi_key items)) sd
        (\<lambda>view. pack_fixed tree_source view width items) (\<lambda>E. run_fixed E width items) M"
      by (rule op_mirror_fixed) (use wf rt dr OpFixed in simp_all)
    then show ?thesis by (simp add: OpFixed pack_op.simps run_op.simps)
  next
    case (OpBitRun nbytes items)
    have "op_mirror H d (item_regs (map bi_reg items)) (key_names (map bi_key items)) sd
        (\<lambda>view. pack_bits tree_source view nbytes items) (\<lambda>E. run_bits E nbytes items) M"
      by (rule op_mirror_bits) (use wf rt dr OpBitRun in simp_all)
    then show ?thesis by (simp add: OpBitRun pack_op.simps run_op.simps)
  next
    case (OpCond pred thn' c)
    have "op_mirror H d [] (key_names [c_key c]) sd (\<lambda>view. pack_named tree_source view c (pack_value H tree_source thn'))
      (\<lambda>E limit st. case st of (pos, m, deferred, frames) \<Rightarrow> place_value E c (op_value E thn' frames pos limit) st) M"
      by (rule value_op_mirror [OF thn [OF OpCond] M]) (use sd wf OpCond in simp_all)
    note om = op_mirror_cond [OF this, of pred]
    have pk: "(\<lambda>view ctx. pack_op H tree_source op view ctx) = (\<lambda>view ctx. bind_res (peval ctx pred) (\<lambda>b.
        if b \<noteq> 0 then pack_named tree_source view c (pack_value H tree_source thn') ctx else Inr ctx))"
      by (simp add: fun_eq_iff OpCond pack_op.simps)
    have un: "(\<lambda>(E :: (val_tree, val_tree, val_tree list) uenv) limit st. run_op E op limit st) =
      (\<lambda>E limit st. case st of (pos, m, deferred, frames) \<Rightarrow> bind_res (eval frames pred pos) (\<lambda>b. if b \<noteq> 0 then
         (case st of (pos, m, deferred, frames) \<Rightarrow> place_value E c (op_value E thn' frames pos limit) st) else Inr st))"
      by (simp add: fun_eq_iff OpCond run_op.simps cong: if_cong)
    show ?thesis unfolding pk un using om by (simp add: OpCond)
  next
    case (OpDigest algo over verify be c)
    then show ?thesis using rt by simp
  qed (rule plain; simp)+
qed

lemma rt_struct_step:
  assumes ops: "\<And>op. op \<in> set (prog_ops prog) \<Longrightarrow> rt_opcode H d op" and rt: "rt_prog prog"
  shows "rt_struct H d prog"
  unfolding rt_struct_def
proof (intro allI impI)
  fix v
  assume v: "texts_ok v"
  have p: "list_all sd_op (butlast (prog_ops prog))" "distinct (concat (map entry_names (prog_ops prog)))"
    "distinct (concat (map entry_regs (prog_ops prog)))" using rt by (cases prog; simp)+
  have sd: "sd_prog prog \<longleftrightarrow> list_all sd_op (prog_ops prog)" by (cases prog) simp
  show "val_mirror H d (sd_prog prog) (pack_struct H tree_source prog) (\<lambda>E. run_struct E prog) v"
  proof (rule val_mirror_struct [OF op_mirror_ops [OF _ p(3)] p(2)])
    fix M op sd'
    assume M: "v = VMap M" and op: "op \<in> set (prog_ops prog)" and s: "sd' \<Longrightarrow> op \<in> set (butlast (prog_ops prog)) \<or> sd_prog prog"
    have "distinct (entry_regs op)" using p(3) op by (auto simp: distinct_concat_iff)
    moreover have "sd' \<longrightarrow> sd_op op" using s p(1) op sd by (auto simp: list_all_iff)
    moreover have "list_all (\<lambda>p. texts_ok (snd p)) M" using v M by simp
    ultimately show "op_mirror H d (entry_regs op) (entry_names op) sd' (\<lambda>view ctx. pack_op H tree_source op view ctx) (\<lambda>E limit st. run_op E op limit st) M"
      using ops [OF op] by (simp add: rt_opcode_def)
  qed
qed

lemma rt_walk:
  assumes H: "hash_lengths H"
  shows "(\<forall>prog d. 2 * size prog < n \<longrightarrow> wf_prog d prog \<longrightarrow> rt_prog prog \<longrightarrow> rt_struct H d prog) \<and>
   (\<forall>op d. 2 * size op + 1 < n \<longrightarrow> wf_op (Suc d) op \<longrightarrow> rt_op op \<longrightarrow> rt_opcode H d op) \<and>
   (\<forall>op d. 2 * size op < n \<longrightarrow> wf_val (Suc d) op \<longrightarrow> rt_val op \<longrightarrow> rt_value H (Suc d) op)"
proof (induction n)
  case (Suc n)
  have 1: "rt_struct H d prog" if "2 * size prog < Suc n" "wf_prog d prog" "rt_prog prog" for prog d
  proof (rule rt_struct_step [OF _ that(3)])
    fix op
    assume op: "op \<in> set (prog_ops prog)"
    have "wf_op (Suc d) op" "rt_op op" using that(2,3) op by (cases prog; simp add: list_all_iff)+
    moreover have "2 * size op + 1 < n" using size_prog_op [OF op] that(1) by simp
    ultimately show "rt_opcode H d op" using Suc by blast
  qed
  have ih3: "rt_value H (Suc d) op" if "2 * size op < n" "wf_val (Suc d) op" "rt_val op" for op d
    using that Suc by blast
  have 3: "rt_value H (Suc d) op" if n: "2 * size op < Suc n" and wf: "wf_val (Suc d) op" and rt: "rt_val op" for op d
  proof (rule rt_value_step [OF wf rt H])
    show "rt_struct H (Suc d) prog" if "op = OpNest prog sz c" for prog sz c
      using that n wf rt by (intro 1) simp_all
    show "rt_value H (Suc d) elem" if "op = OpArray count mc elem em c" for count mc elem em c
      using that n wf rt by (intro ih3) simp_all
    show "rt_value H (Suc d) b"
      if "op = OpSwitch on cases dflt c" and b: "switch_branch tag cases dflt = Some b" for on cases dflt c tag b
      using that(1) n wf rt size_switch_branch [OF b] wf_switch_branch [OF b] rt_branch [OF b]
      by (intro ih3) simp_all
  qed
  have 2: "rt_opcode H d op" if "2 * size op + 1 < Suc n" "wf_op (Suc d) op" "rt_op op" for op d
  proof (rule rt_opcode_step [OF that(2,3)])
    show "rt_value H (Suc d) op" if "wf_val (Suc d) op" "rt_val op"
      using that \<open>2 * size op + 1 < Suc n\<close> by (intro 3) simp_all
    show "rt_value H (Suc d) thn" if "op = OpCond pred thn c" for pred thn c
      using that \<open>2 * size op + 1 < Suc n\<close> \<open>wf_op (Suc d) op\<close> \<open>rt_op op\<close> by (intro 3) simp_all
  qed
  show ?case using 1 2 3 by blast
qed simp

section \<open>Where the two walks differ\<close>

text \<open>The bounds that part the two walks, on small programs: the packer does not count an array against
  \<open>max_count\<close>, and keeps an integer in a register modulo \<open>2 ^ 64\<close> where the unpacker refuses it. A
  mask of all 64 bits is unpacked, but no value except zero packs into it: \<open>1u64 << 64\<close> wraps to one.\<close>

lemma count_bound_differs:
  "pack_run zero_hashes
      (Program [OpArray UntilEof 1 (OpFixed 1 [\<lparr>fi_off = 0, fi_kind = FInt U8 True None False, fi_reg = None, fi_span = None, fi_key = Skip\<rparr>]) 1
        (common_named ''a'')] 0 0 0 None) (VMap [(''a'', VList [VInt 1, VInt 2])]) = Inr (POk [1, 2])"
  "run zero_hashes
      (Program [OpArray UntilEof 1 (OpFixed 1 [\<lparr>fi_off = 0, fi_kind = FInt U8 True None False, fi_reg = None, fi_span = None, fi_key = Skip\<rparr>]) 1
        (common_named ''a'')] 0 0 0 None) [1, 2] 0 True False = Inr (OInvalid KLimit 1 ''a'')"
  by code_simp+

lemma register_bound_differs:
  "pack_run zero_hashes
      (Program [OpFixed 8 [\<lparr>fi_off = 0, fi_kind = FInt U64 True None False, fi_reg = Some 0, fi_span = None, fi_key = Named ''n''\<rparr>]] 1 0 8 (Some 8))
      (VMap [(''n'', VInt 9223372036854775808)]) = Inr (POk [128, 0, 0, 0, 0, 0, 0, 0])"
  "run zero_hashes
      (Program [OpFixed 8 [\<lparr>fi_off = 0, fi_kind = FInt U64 True None False, fi_reg = Some 0, fi_span = None, fi_key = Named ''n''\<rparr>]] 1 0 8 (Some 8))
      [128, 0, 0, 0, 0, 0, 0, 0] 0 True False = Inr (OInvalid KOverflow 0 ''n'')"
  by code_simp+

lemma full_mask_differs:
  "run zero_hashes
      (Program [OpFlags U64 True [\<lparr>fl_key = ''x'', fl_mask = 18446744073709551615, fl_shift = 0, fl_is_bool = False\<rparr>] Strict 0 (common_named ''f'')] 0 0 8 (Some 8))
      [0, 0, 0, 0, 0, 0, 0, 1] 0 True False = Inr (OOk (VMap [(''f'', VMap [(''x'', VInt 1)])]) 8)"
  "pack_run zero_hashes
      (Program [OpFlags U64 True [\<lparr>fl_key = ''x'', fl_mask = 18446744073709551615, fl_shift = 0, fl_is_bool = False\<rparr>] Strict 0 (common_named ''f'')] 0 0 8 (Some 8))
      (VMap [(''f'', VMap [(''x'', VInt 1)])]) = Inr (PErr KRange ''f'')"
  by code_simp+

section \<open>The round trip\<close>

text \<open>What \<open>pack\<close> wrote, \<open>unpack\<close> reads to the last byte, and the value it reads packs to the same
  bytes again, derived lengths, constants and defaults included. The one way not to get a value is a
  bound that the unpacker checks and the packer does not: a count or length above its limit, nesting
  above \<open>MAX_DEPTH\<close>, an integer that no register holds.\<close>

lemma pack_then_unpack:
  assumes "wf_prog 0 prog" and "rt_prog prog" and "hash_lengths H" and "distinct_keys v" and "texts_ok v"
    and "pack_run H prog v = Inr (POk out)"
  shows "(\<exists>v'. run H prog out 0 True False = Inr (OOk v' (length out)) \<and> distinct_keys v' \<and> pack_run H prog v' = Inr (POk out)) \<or>
    (\<exists>k \<in> beyond. \<exists>off path. run H prog out 0 True False = Inr (OInvalid k off path))"
proof -
  let ?ctx = "\<lparr>pc_out = [], pc_frames = []\<rparr>"
  have tree: "pack_run H prog u = pack_with H tree_source prog u" if "distinct_keys u" for u
    unfolding pack_run_def by (rule value_source.packs_tree [OF that])
  have pk: "pack_with H tree_source prog v = Inr (POk out)" using assms(6) tree [OF assms(4)] by simp
  then have cap: "with_capacity (prog_min_size prog) = Inr []"
    by (auto simp: pack_with_def pack_root_def with_capacity_def split: if_splits sum.splits fault.splits)
  obtain ctx where c: "pack_struct H tree_source prog v ?ctx = Inr ctx" and out: "out = pc_out ctx"
    using pk by (auto simp: pack_with_def pack_root_def cap bind_res_eq_Inr split: sum.splits fault.splits)
  have ok: "pctx_ok 0 ?ctx" "tidy ?ctx" by (simp_all add: pctx_ok_def isize_max_def tidy_def slot_at_def)
  have "rt_struct H 0 prog" using rt_walk [OF assms(3), of "Suc (2 * size prog)"] assms(1,2) by blast
  then have vm: "val_mirror H 0 (sd_prog prog) (pack_struct H tree_source prog) (\<lambda>E. run_struct E prog) v"
    using assms(5) by (simp add: rt_struct_def)
  have fr: "mirrors out ?ctx []" "frames_ok (length out) 0 []" by (simp_all add: mirrors_def frames_ok_def)
  have ag: "agree out ctx" by (simp add: agree_def agree_on_def out)
  have lim: "length (pc_out ctx) \<le> length out" "\<not> sd_prog prog \<Longrightarrow> length out = length (pc_out ctx)" by (simp_all add: out)
  have "pctx_ok 0 ctx" using val_mirrorD(1) [OF vm c ok] by (simp add: moves_def)
  then have small: "length out < usize_max" using pctx_ok_length by (fastforce simp: out isize_max_def usize_max_def)
  have "tame (run_struct (reader H out) prog [] 0 (length out))
      (value_back out 0 (\<lambda>w. pack_struct H tree_source prog w ?ctx = Inr ctx) ctx [])"
    using val_mirrorD(2) [OF vm c ok ag fr lim(1) order_refl small lim(2)] by simp
  then show ?thesis
    by (cases "run_struct (reader H out) prog [] 0 (length out)")
      (auto simp: run_def run_with_def tame_def value_back_def out tree pack_with_def pack_root_def cap split: fault.splits ufail.splits)
qed

end
