(* ===== verification/Scopes.thy ===== *)
theory Scopes
  imports Compile Wellformed
begin

text \<open>
  The invariant of the compiler's scopes, and that every change the compiler makes to a scope
  keeps it: the opcodes so far are well formed, every symbol knows where its field lives, a
  symbol with a register has it in its field, and what is derived has a register.
\<close>

section \<open>Where fields live\<close>

text \<open>The register of the field at a location; \<open>None\<close> where there is no such item.\<close>

fun reg_at :: "op list \<Rightarrow> loc \<Rightarrow> nat option option" where
  "reg_at ops (LocFix i j) =
     (if i < length ops then
        (case ops ! i of OpFixed w items \<Rightarrow> if j < length items then Some (fi_reg (items ! j)) else None | _ \<Rightarrow> None)
      else None)"
| "reg_at ops (LocBit i j) =
     (if i < length ops then
        (case ops ! i of OpBitRun n items \<Rightarrow> if j < length items then Some (bi_reg (items ! j)) else None | _ \<Rightarrow> None)
      else None)"
| "reg_at ops (LocOp i) = None"

definition loc_ok :: "op list \<Rightarrow> loc \<Rightarrow> bool" where
  "loc_ok ops l \<longleftrightarrow> (case l of LocOp i \<Rightarrow> i < length ops | _ \<Rightarrow> reg_at ops l \<noteq> None)"

definition has_reg :: "op list \<Rightarrow> loc \<Rightarrow> bool" where
  "has_reg ops l \<longleftrightarrow> (\<exists>r. reg_at ops l = Some (Some r))"

text \<open>Opcodes only gain registers, and locations stay valid.\<close>

definition ops_le :: "op list \<Rightarrow> op list \<Rightarrow> bool" where
  "ops_le ops ops' \<longleftrightarrow>
     length ops \<le> length ops' \<and>
     (\<forall>l r. reg_at ops l = Some r \<longrightarrow> (\<exists>r'. reg_at ops' l = Some r' \<and> (r \<noteq> None \<longrightarrow> r' \<noteq> None)))"

lemma ops_le_refl [simp]: "ops_le ops ops"
  by (auto simp: ops_le_def)

lemma ops_le_trans: "ops_le a b \<Longrightarrow> ops_le b c \<Longrightarrow> ops_le a c"
  unfolding ops_le_def by (metis le_trans)

lemma ops_le_loc_ok: "ops_le ops ops' \<Longrightarrow> loc_ok ops l \<Longrightarrow> loc_ok ops' l"
  unfolding loc_ok_def ops_le_def by (cases l) (simp_all del: reg_at.simps; metis option.exhaust option.distinct(1))+

lemma ops_le_has_reg: "ops_le ops ops' \<Longrightarrow> has_reg ops l \<Longrightarrow> has_reg ops' l"
  by (fastforce simp: ops_le_def has_reg_def)

section \<open>The invariant\<close>

definition sym_ok :: "op list \<Rightarrow> sym \<Rightarrow> bool" where
  "sym_ok ops y \<longleftrightarrow>
     loc_ok ops (sy_loc y) \<and>
     (sy_refable y \<longrightarrow> (\<forall>i. sy_loc y \<noteq> LocOp i)) \<and>
     (sy_spannable y \<longrightarrow> (\<forall>i j. sy_loc y \<noteq> LocBit i j)) \<and>
     (sy_reg y \<noteq> None \<longrightarrow> sy_refable y \<and> has_reg ops (sy_loc y)) \<and>
     (sy_len_referenced y \<longrightarrow> sy_reg y \<noteq> None) \<and>
     idx_ok MAX_REGS (sy_reg y) \<and> idx_ok MAX_SPANS (sy_span y)"

text \<open>An opcode under construction: the bytes of a bit run are only counted at the end.\<close>

definition op_ok :: "bool \<Rightarrow> nat \<Rightarrow> op \<Rightarrow> bool" where
  "op_ok aligned d op \<longleftrightarrow>
     (case op of
        OpBitRun nbytes items \<Rightarrow>
          list_all bit_item_ok items \<and> (aligned \<longrightarrow> bits_width items \<le> 8 * nbytes)
      | _ \<Rightarrow> wf_op d op)"

text \<open>The width of the fixed runs of a scope, which the code sums unchecked.\<close>

fun op_width :: "op \<Rightarrow> nat" where
  "op_width (OpFixed width items) = width"
| "op_width _ = 0"

definition fixed_total :: "scope \<Rightarrow> nat" where
  "fixed_total s = sum_list (map op_width (sc_ops s))"

definition scope_ok :: "bool \<Rightarrow> nat \<Rightarrow> scope \<Rightarrow> bool" where
  "scope_ok aligned d s \<longleftrightarrow>
     list_all (op_ok aligned d) (sc_ops s) \<and> list_all (sym_ok (sc_ops s)) (sc_syms s) \<and>
     list_all (\<lambda>x. fst x < length (sc_ops s)) (sc_digests s)"

fun scopes_ok :: "scope list \<Rightarrow> bool" where
  "scopes_ok [] \<longleftrightarrow> True"
| "scopes_ok (s # rest) \<longleftrightarrow> scope_ok False (Suc (length rest)) s \<and> scopes_ok rest"

lemma scope_ok_empty [simp]: "scope_ok al d empty_scope"
  by (simp add: scope_ok_def empty_scope_def)

lemma fixed_total_empty [simp]: "fixed_total empty_scope = 0"
  by (simp add: fixed_total_def empty_scope_def)

lemma sym_ok_mono: "ops_le ops ops' \<Longrightarrow> sym_ok ops y \<Longrightarrow> sym_ok ops' y"
  by (auto simp: sym_ok_def intro: ops_le_loc_ok ops_le_has_reg)

section \<open>Changing an opcode\<close>

text \<open>What a change inside a scope keeps besides the invariant.\<close>

definition keeps :: "scope \<Rightarrow> scope \<Rightarrow> bool" where
  "keeps s s' \<longleftrightarrow>
     fixed_total s' = fixed_total s \<and> ops_le (sc_ops s) (sc_ops s') \<and>
     length (sc_syms s') = length (sc_syms s) \<and> sc_digests s' = sc_digests s"

lemma keeps_refl [simp]: "keeps s s"
  by (simp add: keeps_def)

lemma keeps_trans: "keeps a b \<Longrightarrow> keeps b c \<Longrightarrow> keeps a c"
  by (auto simp: keeps_def intro: ops_le_trans)

lemma fixed_total_upd:
  assumes "i < length (sc_ops s)" and "op_width op = op_width (sc_ops s ! i)"
  shows "fixed_total (s\<lparr>sc_ops := (sc_ops s)[i := op]\<rparr>) = fixed_total s"
proof -
  have "map op_width ((sc_ops s)[i := op]) = map op_width (sc_ops s)"
    using assms by (metis list_update_id map_update nth_map)
  then show ?thesis by (simp add: fixed_total_def)
qed

definition ops_ok :: "bool \<Rightarrow> nat \<Rightarrow> scope \<Rightarrow> bool" where
  "ops_ok aligned d s \<longleftrightarrow> list_all (op_ok aligned d) (sc_ops s)"

lemma ops_ok_upd_op:
  assumes "ops_ok al d s" and "i < length (sc_ops s)" and "op_ok al d op"
    and "ops_le (sc_ops s) ((sc_ops s)[i := op])" and "op_width op = op_width (sc_ops s ! i)"
  shows "ops_ok al d (s\<lparr>sc_ops := (sc_ops s)[i := op]\<rparr>)" and "keeps s (s\<lparr>sc_ops := (sc_ops s)[i := op]\<rparr>)"
  using assms by (auto simp: keeps_def fixed_total_upd ops_ok_def list_all_iff dest!: set_update_subset_insert [THEN subsetD])

text \<open>With its opcodes well formed, a scope is as good as its symbols.\<close>

lemma scope_okI:
  assumes "scope_ok al d s" and "ops_ok al' d s'" and "keeps s s'" and "list_all (sym_ok (sc_ops s')) (sc_syms s')"
  shows "scope_ok al' d s'"
  using assms by (auto simp: scope_ok_def ops_ok_def keeps_def ops_le_def list_all_iff intro: order_less_le_trans)

lemma syms_ok_mono:
  "list_all (sym_ok (sc_ops s)) ys \<Longrightarrow> keeps s s' \<Longrightarrow> list_all (sym_ok (sc_ops s')) ys"
  by (auto simp: list_all_iff keeps_def intro: sym_ok_mono)

text \<open>An opcode that is replaced keeps its items, and their registers.\<close>

definition op_le :: "op \<Rightarrow> op \<Rightarrow> bool" where
  "op_le op op' \<longleftrightarrow> ops_le [op] [op']"

lemma reg_at_single:
  "reg_at [op] (LocFix 0 j) = (case op of OpFixed w items \<Rightarrow> if j < length items then Some (fi_reg (items ! j)) else None | _ \<Rightarrow> None)"
  "reg_at [op] (LocBit 0 j) = (case op of OpBitRun n items \<Rightarrow> if j < length items then Some (bi_reg (items ! j)) else None | _ \<Rightarrow> None)"
  by simp_all

lemma ops_le_update:
  assumes "op_le (ops ! i) op'" and "i < length ops"
  shows "ops_le ops (ops[i := op'])"
proof -
  have "\<exists>r'. reg_at (ops[i := op']) l = Some r' \<and> (r \<noteq> None \<longrightarrow> r' \<noteq> None)" if "reg_at ops l = Some r" for l r
  proof (cases l)
    case (LocFix k j)
    then show ?thesis using that assms
      by (cases "k = i") (auto simp: op_le_def ops_le_def dest!: spec [of _ "LocFix 0 j"] split: if_splits)
  next
    case (LocBit k j)
    then show ?thesis using that assms
      by (cases "k = i") (auto simp: op_le_def ops_le_def dest!: spec [of _ "LocBit 0 j"] split: if_splits)
  qed (use that in simp)
  then show ?thesis by (simp add: ops_le_def)
qed

lemma op_le_Fixed:
  assumes "length items \<le> length items'" and "\<And>j. j < length items \<Longrightarrow> fi_reg (items ! j) \<noteq> None \<Longrightarrow> fi_reg (items' ! j) \<noteq> None"
  shows "op_le (OpFixed w items) (OpFixed w' items')"
proof -
  have "\<exists>r'. reg_at [OpFixed w' items'] l = Some r' \<and> (r \<noteq> None \<longrightarrow> r' \<noteq> None)"
    if "reg_at [OpFixed w items] l = Some r" for l r
    using that assms by (cases l) (auto split: if_splits)
  then show ?thesis by (simp add: op_le_def ops_le_def)
qed

lemma op_le_BitRun:
  assumes "length items \<le> length items'" and "\<And>j. j < length items \<Longrightarrow> bi_reg (items ! j) \<noteq> None \<Longrightarrow> bi_reg (items' ! j) \<noteq> None"
  shows "op_le (OpBitRun n items) (OpBitRun n' items')"
proof -
  have "\<exists>r'. reg_at [OpBitRun n' items'] l = Some r' \<and> (r \<noteq> None \<longrightarrow> r' \<noteq> None)"
    if "reg_at [OpBitRun n items] l = Some r" for l r
    using that assms by (cases l) (auto split: if_splits)
  then show ?thesis by (simp add: op_le_def ops_le_def)
qed

section \<open>Patching\<close>

text \<open>A patched item keeps its place; \<open>r\<close> is the register it had.\<close>

lemma safe_patch_fixed:
  assumes ok: "ops_ok al d s" and at: "reg_at (sc_ops s) (LocFix i j) = Some r"
    and g: "\<And>w it. fi_reg it = r \<Longrightarrow> fixed_item_ok w it \<Longrightarrow> fixed_item_ok w (g it)"
    and reg: "\<And>it. fi_reg it = r \<Longrightarrow> fi_reg (g it) = r'" and r': "r \<noteq> None \<longrightarrow> r' \<noteq> None"
  shows "safe (patch_fixed i j g s) (\<lambda>s'. ops_ok al d s' \<and> keeps s s' \<and> sc_syms s' = sc_syms s \<and>
      reg_at (sc_ops s') (LocFix i j) = Some r')"
proof -
  obtain w items where i: "i < length (sc_ops s)" "sc_ops s ! i = OpFixed w items" and j: "j < length items" "fi_reg (items ! j) = r"
    using at by (auto split: if_splits op.splits)
  let ?op = "OpFixed w (items[j := g (items ! j)])"
  have "op_ok al d (OpFixed w items)" using ok i by (auto simp: ops_ok_def list_all_length)
  then have op: "op_ok al d ?op" using g [OF j(2)] j(1)
    by (auto simp: op_ok_def list_all_iff dest!: set_update_subset_insert [THEN subsetD])
  have "op_le (OpFixed w items) ?op"
    using reg [OF j(2)] r' j by (intro op_le_Fixed) (auto simp: nth_list_update)
  then have le: "ops_le (sc_ops s) ((sc_ops s)[i := ?op])" using i by (intro ops_le_update) simp_all
  from ops_ok_upd_op [OF ok i(1) op le] i j reg [OF j(2)] show ?thesis
    by (simp add: patch_fixed_def nth_res_def)
qed

lemma safe_patch_bit:
  assumes ok: "ops_ok al d s" and at: "reg_at (sc_ops s) (LocBit i j) = Some r"
    and g: "\<And>it. bi_reg it = r \<Longrightarrow> bit_item_ok it \<Longrightarrow> bit_item_ok (g it)" and w: "\<And>it. bi_width (g it) = bi_width it"
    and reg: "\<And>it. bi_reg it = r \<Longrightarrow> bi_reg (g it) = r'" and r': "r \<noteq> None \<longrightarrow> r' \<noteq> None"
  shows "safe (patch_bit i j g s) (\<lambda>s'. ops_ok al d s' \<and> keeps s s' \<and> sc_syms s' = sc_syms s \<and>
      reg_at (sc_ops s') (LocBit i j) = Some r')"
proof -
  obtain n items where i: "i < length (sc_ops s)" "sc_ops s ! i = OpBitRun n items" and j: "j < length items" "bi_reg (items ! j) = r"
    using at by (auto split: if_splits op.splits)
  let ?op = "OpBitRun n (items[j := g (items ! j)])"
  have "op_ok al d (OpBitRun n items)" using ok i by (auto simp: ops_ok_def list_all_length)
  moreover have "map bi_width (items[j := g (items ! j)]) = map bi_width items"
    using j w by (metis list_update_id map_update nth_map)
  ultimately have op: "op_ok al d ?op" using g [OF j(2)] j(1)
    by (auto simp: op_ok_def bits_width_def list_all_iff dest!: set_update_subset_insert [THEN subsetD])
  have "op_le (OpBitRun n items) ?op"
    using reg [OF j(2)] r' j by (intro op_le_BitRun) (auto simp: nth_list_update)
  then have le: "ops_le (sc_ops s) ((sc_ops s)[i := ?op])" using i by (intro ops_le_update) simp_all
  from ops_ok_upd_op [OF ok i(1) op le] i j reg [OF j(2)] show ?thesis
    by (simp add: patch_bit_def nth_res_def)
qed

lemma scope_ok_sym: "scope_ok al d s \<Longrightarrow> pos < length (sc_syms s) \<Longrightarrow> sym_ok (sc_ops s) (sc_syms s ! pos)"
  by (simp add: scope_ok_def list_all_length)

declare reg_at.simps [simp del]

lemma kind_ok_reg: "kind_ok r k \<Longrightarrow> kind_ok (Some idx) k"
  by (cases "(r, k)" rule: kind_ok.cases) auto

lemma safe_patch_reg:
  assumes ok: "ops_ok al d s" and pos: "pos < length (sc_syms s)" and idx: "idx < MAX_REGS"
    and loc: "loc_ok (sc_ops s) (sy_loc (sc_syms s ! pos))" "\<And>i. sy_loc (sc_syms s ! pos) \<noteq> LocOp i"
  shows "safe (patch_reg pos idx s) (\<lambda>s'. ops_ok al d s' \<and> keeps s s' \<and> sc_syms s' = sc_syms s \<and>
      has_reg (sc_ops s') (sy_loc (sc_syms s ! pos)))"
proof (cases "sy_loc (sc_syms s ! pos)")
  case (LocFix i j)
  then obtain r where "reg_at (sc_ops s) (LocFix i j) = Some r" using loc by (auto simp: loc_ok_def)
  then have "safe (patch_fixed i j (\<lambda>it. it\<lparr>fi_reg := Some idx\<rparr>) s) (\<lambda>s'. ops_ok al d s' \<and> keeps s s' \<and>
      sc_syms s' = sc_syms s \<and> reg_at (sc_ops s') (LocFix i j) = Some (Some idx))"
    by (rule safe_patch_fixed [OF ok]) (use idx in \<open>auto simp: fixed_item_ok_def idx_ok_def intro: kind_ok_reg\<close>)
  then show ?thesis using pos LocFix
    by (auto simp: patch_reg_def nth_res_def has_reg_def elim!: safe_mono)
next
  case (LocBit i j)
  then obtain r where "reg_at (sc_ops s) (LocBit i j) = Some r" using loc by (auto simp: loc_ok_def)
  from safe_patch_bit [OF ok this, of "\<lambda>it. it\<lparr>bi_reg := Some idx\<rparr>" "Some idx"] pos idx LocBit show ?thesis
    by (auto simp: patch_reg_def nth_res_def bit_item_ok_def idx_ok_def has_reg_def elim!: safe_mono)
qed (use loc in auto)

lemma kind_ok_mark_derived: "kind_ok (Some r) k \<Longrightarrow> kind_ok (Some r) (mark_derived k)"
  by (cases k) auto

lemma fix_width_mark_derived [simp]: "fix_width (mark_derived k) = fix_width k"
  by (cases k) auto

lemma safe_patch_derived:
  assumes ok: "ops_ok al d s" and pos: "pos < length (sc_syms s)" and reg: "has_reg (sc_ops s) (sy_loc (sc_syms s ! pos))"
  shows "safe (patch_derived pos s) (\<lambda>s'. ops_ok al d s' \<and> keeps s s' \<and> sc_syms s' = sc_syms s)"
proof (cases "sy_loc (sc_syms s ! pos)")
  case (LocFix i j)
  then obtain r where "reg_at (sc_ops s) (LocFix i j) = Some (Some r)" using reg by (auto simp: has_reg_def)
  from safe_patch_fixed [OF ok this, of "\<lambda>it. it\<lparr>fi_kind := mark_derived (fi_kind it)\<rparr>" "Some r"] pos LocFix
  show ?thesis
    by (auto simp: patch_derived_def nth_res_def fixed_item_ok_def kind_ok_mark_derived elim!: safe_mono)
next
  case (LocBit i j)
  then obtain r where "reg_at (sc_ops s) (LocBit i j) = Some (Some r)" using reg by (auto simp: has_reg_def)
  from safe_patch_bit [OF ok this, of "\<lambda>it. it\<lparr>bi_derived := True\<rparr>" "Some r"] pos LocBit show ?thesis
    by (auto simp: patch_derived_def nth_res_def bit_item_ok_def elim!: safe_mono)
qed (use reg in \<open>auto simp: has_reg_def reg_at.simps\<close>)

section \<open>Symbols\<close>

text \<open>A step inside a scope: the invariant holds after it, and what lives there stays.\<close>

definition step_ok :: "bool \<Rightarrow> nat \<Rightarrow> scope \<Rightarrow> scope \<Rightarrow> bool" where
  "step_ok al d s s' \<longleftrightarrow> scope_ok al d s' \<and> keeps s s'"

lemma scope_ok_ops: "scope_ok al d s \<Longrightarrow> ops_ok al d s"
  by (simp add: scope_ok_def ops_ok_def)

lemma step_ok_trans: "step_ok al d a b \<Longrightarrow> step_ok al d b c \<Longrightarrow> step_ok al d a c"
  by (auto simp: step_ok_def intro: keeps_trans)

lemma sym_okD:
  assumes "sym_ok ops y"
  shows "loc_ok ops (sy_loc y)" "sy_reg y \<noteq> None \<Longrightarrow> has_reg ops (sy_loc y)"
    "sy_refable y \<Longrightarrow> sy_loc y \<noteq> LocOp i" "sy_spannable y \<Longrightarrow> sy_loc y \<noteq> LocBit i j"
    "sy_len_referenced y \<Longrightarrow> sy_reg y \<noteq> None" "idx_ok MAX_REGS (sy_reg y)" "idx_ok MAX_SPANS (sy_span y)"
  using assms by (auto simp: sym_ok_def)

lemma safe_set_sym:
  assumes ok: "scope_ok al d s" and pos: "pos < length (sc_syms s)"
    and y: "sym_ok (sc_ops s) (sc_syms s ! pos) \<Longrightarrow> sym_ok (sc_ops s) (g (sc_syms s ! pos))"
  shows "safe (set_sym pos g s) (\<lambda>s'. step_ok al d s s' \<and> sc_syms s' = (sc_syms s)[pos := g (sc_syms s ! pos)])"
  using ok pos y [OF scope_ok_sym [OF ok pos]]
  by (auto simp: set_sym_def nth_res_def step_ok_def keeps_def fixed_total_def scope_ok_def list_all_iff
    dest!: set_update_subset_insert [THEN subsetD])

lemma safe_alloc_reg:
  assumes ok: "scope_ok al d s" and pos: "pos < length (sc_syms s)" and ref: "sy_refable (sc_syms s ! pos)"
  shows "safe (alloc_reg pos s) (\<lambda>s'. step_ok al d s s' \<and> sy_reg (sc_syms s' ! pos) \<noteq> None)"
proof (cases "MAX_REGS \<le> sc_nregs s")
  case False
  let ?y = "sc_syms s ! pos" and ?idx = "sc_nregs s"
  let ?s = "s\<lparr>sc_nregs := ?idx + 1, sc_syms := (sc_syms s)[pos := ?y\<lparr>sy_reg := Some ?idx\<rparr>]\<rparr>"
  note y = scope_ok_sym [OF ok pos]
  have "safe (patch_reg pos ?idx ?s) (\<lambda>s'. ops_ok al d s' \<and> keeps ?s s' \<and> sc_syms s' = sc_syms ?s \<and>
      has_reg (sc_ops s') (sy_loc (sc_syms ?s ! pos)))"
    using ok pos ref False sym_okD [OF y] by (intro safe_patch_reg) (auto simp: ops_ok_def scope_ok_def)
  then have "safe (patch_reg pos ?idx ?s) (\<lambda>s'. step_ok al d s s' \<and> sy_reg (sc_syms s' ! pos) \<noteq> None)"
  proof (rule safe_mono)
    fix s'
    assume "patch_reg pos ?idx ?s = Inr s'"
    assume s': "ops_ok al d s' \<and> keeps ?s s' \<and> sc_syms s' = sc_syms ?s \<and> has_reg (sc_ops s') (sy_loc (sc_syms ?s ! pos))"
    then have keeps: "keeps s s'" by (simp add: keeps_def fixed_total_def)
    then have ys: "list_all (sym_ok (sc_ops s')) (sc_syms s)" using ok by (auto simp: scope_ok_def intro: syms_ok_mono)
    then have "sym_ok (sc_ops s') ?y" using pos by (simp add: list_all_length)
    then have "sym_ok (sc_ops s') (?y\<lparr>sy_reg := Some ?idx\<rparr>)"
      using s' pos ref False by (auto simp: sym_ok_def idx_ok_def)
    then have "list_all (sym_ok (sc_ops s')) (sc_syms s')"
      using s' ys by (auto simp: list_all_iff dest!: set_update_subset_insert [THEN subsetD])
    then show "step_ok al d s s' \<and> sy_reg (sc_syms s' ! pos) \<noteq> None"
      using s' keeps pos scope_okI [OF ok, of al s'] by (simp add: step_ok_def)
  qed
  then show ?thesis using False pos by (simp add: alloc_reg_def Let_def set_sym_def nth_res_def)
qed (simp add: alloc_reg_def)

lemma sym_ok_mark_ref: "sym_ok ops y \<Longrightarrow> sy_reg y \<noteq> None \<Longrightarrow> sym_ok ops (mark_ref ctx y)"
  by (cases ctx) (auto simp: mark_ref_def sym_ok_def)

lemma safe_ref_in_scope:
  assumes ok: "scope_ok al d s" and pos: "pos < length (sc_syms s)"
  shows "safe (ref_in_scope name ctx pos s) (\<lambda>(idx, s'). idx < MAX_REGS \<and> step_ok al d s s')"
proof -
  let ?y = "sc_syms s ! pos"
  have alloc: "safe (if sy_reg ?y = None then alloc_reg pos s else Inr s)
      (\<lambda>s1. step_ok al d s s1 \<and> sy_reg (sc_syms s1 ! pos) \<noteq> None)" if "sy_refable ?y"
    using safe_alloc_reg [OF ok pos that] ok by (auto simp: step_ok_def)
  have rest: "safe (bind_res (set_sym pos (mark_ref ctx) s1) (\<lambda>s. bind_res (nth_res (sc_syms s) pos) (\<lambda>y.
      bind_res (expect (sy_reg y)) (\<lambda>idx. Inr (idx, s))))) (\<lambda>(idx, s'). idx < MAX_REGS \<and> step_ok al d s s')"
    if s1: "step_ok al d s s1" and reg: "sy_reg (sc_syms s1 ! pos) \<noteq> None" for s1
  proof -
    have pos1: "pos < length (sc_syms s1)" and ok1: "scope_ok al d s1"
      using s1 pos by (simp_all add: step_ok_def keeps_def)
    note y = scope_ok_sym [OF ok1 pos1]
    have mark: "safe (set_sym pos (mark_ref ctx) s1) (\<lambda>s2. step_ok al d s1 s2 \<and>
        sc_syms s2 = (sc_syms s1)[pos := mark_ref ctx (sc_syms s1 ! pos)])"
      by (rule safe_set_sym [OF ok1 pos1]) (rule sym_ok_mark_ref [OF _ reg])
    have keep: "sy_reg (mark_ref ctx y) = sy_reg y" for y by (cases ctx) (auto simp: mark_ref_def)
    show ?thesis
      by (rule safe_bind [OF mark])
        (use reg pos1 y step_ok_trans [OF s1] in \<open>auto simp: keep sym_ok_def idx_ok_def intro!: safe_bind [where P = "\<lambda>_. True"]\<close>)
  qed
  show ?thesis
  proof (cases "sy_is_flags ?y \<or> \<not> sy_refable ?y")
    case False
    then have "ref_in_scope name ctx pos s =
        bind_res (if sy_reg ?y = None then alloc_reg pos s else Inr s) (\<lambda>s1.
        bind_res (set_sym pos (mark_ref ctx) s1) (\<lambda>s. bind_res (nth_res (sc_syms s) pos) (\<lambda>y.
        bind_res (expect (sy_reg y)) (\<lambda>idx. Inr (idx, s)))))"
      using pos by (simp add: ref_in_scope_def nth_res_def)
    also have "safe \<dots> (\<lambda>(idx, s'). idx < MAX_REGS \<and> step_ok al d s s')"
      by (rule safe_bind [OF alloc]) (use False rest in auto)
    finally show ?thesis .
  qed (use pos in \<open>auto simp: ref_in_scope_def nth_res_def\<close>)
qed

section \<open>The stack of scopes\<close>

definition upd_ok :: "scope list \<Rightarrow> scope list \<Rightarrow> bool" where
  "upd_ok scopes scopes' \<longleftrightarrow> scopes_ok scopes' \<and> list_all2 keeps scopes scopes'"

lemma upd_ok_refl: "scopes_ok scopes \<Longrightarrow> upd_ok scopes scopes"
  by (simp add: upd_ok_def list.rel_refl)

lemma upd_ok_scopes: "upd_ok scopes scopes' \<Longrightarrow> scopes_ok scopes'"
  by (simp add: upd_ok_def)

lemma upd_ok_trans: "upd_ok a b \<Longrightarrow> upd_ok b c \<Longrightarrow> upd_ok a c"
  unfolding upd_ok_def by (blast intro: list_all2_trans keeps_trans)

lemma upd_ok_length: "upd_ok scopes scopes' \<Longrightarrow> length scopes' = length scopes"
  by (auto simp: upd_ok_def dest: list_all2_lengthD)

lemma upd_ok_Cons: "upd_ok (s # rest) scopes' \<longleftrightarrow>
    (\<exists>s' rest'. scopes' = s' # rest' \<and> step_ok False (Suc (length rest)) s s' \<and> upd_ok rest rest')"
  by (fastforce simp: upd_ok_def step_ok_def list_all2_Cons1 list_all2_lengthD [THEN sym])

text \<open>Steps on the stack compose: a result judged by the depth of the stack keeps its judgement.\<close>

lemma safe_upd_then:
  "safe m (\<lambda>(x, s2). upd_ok s1 s2 \<and> Q (length s1) x) \<Longrightarrow> upd_ok s s1 \<Longrightarrow>
     safe m (\<lambda>(x, s2). upd_ok s s2 \<and> Q (length s) x)"
  by (erule safe_mono) (auto dest: upd_ok_length intro: upd_ok_trans)

lemma safe_resolve_from:
  "scopes_ok scopes \<Longrightarrow> safe (resolve_from name ctx up scopes)
     (\<lambda>(r, scopes'). upd_ok scopes scopes' \<and> reg_idx r < MAX_REGS \<and> reg_up r < up + length scopes)"
proof (induction scopes arbitrary: up)
  case (Cons s rest)
  show ?case
  proof (cases "position (\<lambda>y. sy_name y = name) (sc_syms s)")
    case None
    show ?thesis using Cons.prems
      by (auto simp: None upd_ok_Cons step_ok_def intro!: safe_bind [OF Cons.IH])
  next
    case (Some pos)
    then have pos: "pos < length (sc_syms s)" by (auto dest: position_Some)
    have "up mod 256 < Suc (up + length rest)" by (meson le_imp_less_Suc mod_less_eq_dividend order_trans le_add1)
    then show ?thesis using Cons.prems
      by (auto simp: Some upd_ok_Cons intro: upd_ok_refl intro!: safe_bind [OF safe_ref_in_scope [OF _ pos]])
  qed
qed simp

lemma safe_resolve_ref:
  "scopes_ok scopes \<Longrightarrow> safe (resolve_ref name ctx scopes)
     (\<lambda>(r, scopes'). upd_ok scopes scopes' \<and> reg_ok (length scopes) r)"
  using safe_resolve_from [of scopes name ctx 0]
  by (auto simp: resolve_ref_def reg_ok_def elim!: safe_mono)

section \<open>Adding opcodes and symbols\<close>

lemma ops_le_append: "ops_le ops (ops @ tail)"
proof -
  have "reg_at (ops @ tail) l = Some r" if "reg_at ops l = Some r" for l r
    using that by (cases l) (auto simp: reg_at.simps nth_append split: if_splits)
  then show ?thesis by (auto simp: ops_le_def)
qed

lemma ops_le_last: "op_le op op' \<Longrightarrow> ops_le (ops @ [op]) (ops @ [op'])"
  using ops_le_update [of "ops @ [op]" "length ops" op'] by simp

lemma scope_ok_grow:
  assumes "scope_ok al d s" and "ops_le (sc_ops s) ops" and "list_all (op_ok al d) ops"
  shows "scope_ok al d (s\<lparr>sc_ops := ops\<rparr>)"
  using assms by (auto simp: scope_ok_def list_all_iff ops_le_def intro: order_less_le_trans intro!: sym_ok_mono [OF assms(2)])

lemma scope_ok_snoc:
  "scope_ok al d s \<Longrightarrow> op_ok al d op \<Longrightarrow> scope_ok al d (s\<lparr>sc_ops := sc_ops s @ [op]\<rparr>)"
  by (rule scope_ok_grow [OF _ ops_le_append]) (simp_all add: scope_ok_def)

text \<open>A pushed field: the scope it leaves, and the location it reports.\<close>

definition pushed_field :: "nat \<Rightarrow> nat \<Rightarrow> scope \<Rightarrow> loc \<Rightarrow> scope \<Rightarrow> bool" where
  "pushed_field d w s l s' \<longleftrightarrow>
     scope_ok False d s' \<and> fixed_total s' = fixed_total s + w \<and> loc_ok (sc_ops s') l"

lemma last_split: "ops \<noteq> [] \<Longrightarrow> last ops = op \<Longrightarrow> ops = butlast ops @ [op]"
  by auto

lemma push_fixed_ok:
  assumes ok: "scope_ok False d s" and w: "fixed_total s + fix_width kind \<le> usize_max" and kind: "kind_ok None kind"
  shows "\<exists>i j s'. push_fixed kind key (s # rest) = Inr (LocFix i j, s' # rest) \<and>
    pushed_field d (fix_width kind) s (LocFix i j) s'"
proof -
  let ?item = "\<lambda>off. \<lparr>fi_off = off, fi_kind = kind, fi_reg = None, fi_span = None, fi_key = key\<rparr>"
  have item: "off + fix_width kind \<le> width \<Longrightarrow> fixed_item_ok width (?item off)" for off width
    using kind by (simp add: fixed_item_ok_def idx_ok_def)
  have fresh: "pushed_field d (fix_width kind) s (LocFix (length (sc_ops s)) 0)
      (s\<lparr>sc_ops := sc_ops s @ [OpFixed (fix_width kind) [?item 0]]\<rparr>)"
    using scope_ok_snoc [OF ok] item by (simp add: pushed_field_def op_ok_def fixed_total_def loc_ok_def reg_at.simps)
  show ?thesis
  proof (cases "sc_ops s \<noteq> [] \<and> (\<exists>width items. last (sc_ops s) = OpFixed width items)")
    case True
    then obtain width items where l: "sc_ops s \<noteq> []" "last (sc_ops s) = OpFixed width items" by blast
    define pre where "pre = butlast (sc_ops s)"
    have ops: "sc_ops s = pre @ [OpFixed width items]" using last_split [OF l] by (simp add: pre_def)
    have "width \<le> fixed_total s" by (simp add: fixed_total_def ops)
    then have add: "wrapping_add width (fix_width kind) = width + fix_width kind"
      using w by (simp add: wrapping_add_def usize_max_def)
    let ?op = "OpFixed (width + fix_width kind) (items @ [?item width])"
    have "list_all (fixed_item_ok width) items" using ok by (simp add: scope_ok_def ops op_ok_def)
    then have op: "op_ok False d ?op" using item by (auto simp: op_ok_def list_all_iff fixed_item_ok_def)
    have "op_le (OpFixed width items) ?op" by (intro op_le_Fixed) (simp_all add: nth_append)
    then have le: "ops_le (sc_ops s) (pre @ [?op])" using ops_le_last by (simp add: ops)
    have "scope_ok False d (s\<lparr>sc_ops := pre @ [?op]\<rparr>)"
      using ok op by (intro scope_ok_grow [OF ok le]) (simp add: scope_ok_def ops)
    then have "pushed_field d (fix_width kind) s (LocFix (length pre) (length items)) (s\<lparr>sc_ops := pre @ [?op]\<rparr>)"
      by (simp add: pushed_field_def fixed_total_def ops loc_ok_def reg_at.simps)
    then show ?thesis by (simp add: push_fixed_def with_top_scope_def ops add)
  qed (use fresh in \<open>auto simp: push_fixed_def with_top_scope_def Let_def split: op.splits\<close>)
qed

lemma push_bits_ok:
  assumes ok: "scope_ok False d s" and item: "bit_item_ok item"
  shows "\<exists>i j s'. push_bits item (s # rest) = Inr (LocBit i j, s' # rest) \<and> pushed_field d 0 s (LocBit i j) s'"
proof -
  have fresh: "pushed_field d 0 s (LocBit (length (sc_ops s)) 0) (s\<lparr>sc_ops := sc_ops s @ [OpBitRun 0 [item]]\<rparr>)"
    using scope_ok_snoc [OF ok] item by (simp add: pushed_field_def op_ok_def fixed_total_def loc_ok_def reg_at.simps)
  show ?thesis
  proof (cases "sc_ops s \<noteq> [] \<and> (\<exists>n items. last (sc_ops s) = OpBitRun n items)")
    case True
    then obtain n items where l: "sc_ops s \<noteq> []" "last (sc_ops s) = OpBitRun n items" by blast
    define pre where "pre = butlast (sc_ops s)"
    have ops: "sc_ops s = pre @ [OpBitRun n items]" using last_split [OF l] by (simp add: pre_def)
    let ?op = "OpBitRun n (items @ [item])"
    have op: "op_ok False d ?op" using ok item by (simp add: scope_ok_def ops op_ok_def)
    have "op_le (OpBitRun n items) ?op" by (intro op_le_BitRun) (simp_all add: nth_append)
    then have le: "ops_le (sc_ops s) (pre @ [?op])" using ops_le_last by (simp add: ops)
    have "scope_ok False d (s\<lparr>sc_ops := pre @ [?op]\<rparr>)"
      using ok op by (intro scope_ok_grow [OF ok le]) (simp add: scope_ok_def ops)
    then have "pushed_field d 0 s (LocBit (length pre) (length items)) (s\<lparr>sc_ops := pre @ [?op]\<rparr>)"
      by (simp add: pushed_field_def fixed_total_def ops loc_ok_def reg_at.simps)
    then show ?thesis by (simp add: push_bits_def with_top_scope_def ops)
  qed (use fresh in \<open>auto simp: push_bits_def with_top_scope_def Let_def split: op.splits\<close>)
qed

lemma push_op_ok:
  assumes ok: "scope_ok False d s" and op: "op_ok False d op" "op_width op = 0"
  shows "\<exists>i s'. push_op op (s # rest) = Inr (LocOp i, s' # rest) \<and> pushed_field d 0 s (LocOp i) s'"
  using assms scope_ok_snoc [OF ok op(1)]
  by (auto simp: push_op_def with_top_scope_def pushed_field_def fixed_total_def loc_ok_def)

lemma add_sym_ok:
  assumes s: "pushed_field d w s0 l s" and l: "refable \<Longrightarrow> \<forall>i. l \<noteq> LocOp i" "spannable \<Longrightarrow> \<forall>i j. l \<noteq> LocBit i j"
  shows "\<exists>s'. add_sym name l refable is_flags is_const spannable (s # rest) = Inr (s' # rest) \<and>
    scope_ok False d s' \<and> fixed_total s' = fixed_total s0 + w"
proof (cases name)
  case (Some n)
  then show ?thesis using s l
    by (auto simp: add_sym_def pushed_field_def scope_ok_def fixed_total_def sym_ok_def idx_ok_def)
qed (use s in \<open>simp add: add_sym_def pushed_field_def\<close>)

section \<open>Closing a scope\<close>

lemma scope_ok_same_syms:
  assumes "scope_ok al d s" and "ops_ok al' d s'" and "keeps s s'" and "sc_syms s' = sc_syms s"
  shows "scope_ok al' d s'"
  using assms by (intro scope_okI [OF assms(1)]) (auto simp: scope_ok_def intro: syms_ok_mono)

lemma safe_derive_step:
  assumes ok: "scope_ok al d s" and pos: "pos < length (sc_syms s)"
  shows "safe (derive_step pos s) (step_ok al d s)"
proof (cases "sy_len_referenced (sc_syms s ! pos)")
  case True
  have reg: "has_reg (sc_ops s) (sy_loc (sc_syms s ! pos))"
    using sym_okD [OF scope_ok_sym [OF ok pos]] True by simp
  have patch: "safe (patch_derived pos s) (\<lambda>s1. step_ok al d s s1 \<and> sc_syms s1 = sc_syms s)"
    by (rule safe_mono [OF safe_patch_derived [OF scope_ok_ops [OF ok] pos reg]])
      (simp add: step_ok_def scope_ok_same_syms [OF ok])
  have mark: "safe (set_sym pos (\<lambda>y. y\<lparr>sy_derived := True\<rparr>) s1) (step_ok al d s)"
    if "step_ok al d s s1" "sc_syms s1 = sc_syms s" for s1
    using that pos
    by (intro safe_mono [OF safe_set_sym [of al d s1]]) (auto simp: step_ok_def sym_ok_def intro: keeps_trans)
  have "step_ok al d s s" using ok by (simp add: step_ok_def)
  then show ?thesis using pos safe_bind [OF patch mark] by (simp add: derive_step_def nth_res_def)
qed (use ok pos in \<open>auto simp: derive_step_def nth_res_def step_ok_def\<close>)

lemma safe_resolve_deferred_derives:
  assumes "scope_ok al d s"
  shows "safe (resolve_deferred_derives s) (step_ok al d s)"
  unfolding resolve_deferred_derives_def
proof (rule safe_fold_res)
  fix pos u
  assume "pos \<in> set [0..<length (sc_syms s)]" and u: "step_ok al d s u"
  then have "safe (derive_step pos u) (step_ok al d u)"
    by (intro safe_derive_step) (auto simp: step_ok_def keeps_def)
  then show "safe (derive_step pos u) (step_ok al d s)"
    by (rule safe_mono) (rule step_ok_trans [OF u])
qed (use assms in \<open>simp add: step_ok_def\<close>)

lemma ops_le_list_all2:
  assumes "list_all2 op_le ops ops'"
  shows "ops_le ops ops'"
proof -
  have "\<exists>r'. reg_at ops' l = Some r' \<and> (r \<noteq> None \<longrightarrow> r' \<noteq> None)" if "reg_at ops l = Some r" for l r
  proof (cases l)
    case (LocFix i j)
    then have i: "i < length ops" using that by (auto simp: reg_at.simps split: if_splits)
    then have "op_le (ops ! i) (ops' ! i)" "i < length ops'" using assms by (auto simp: list_all2_conv_all_nth)
    then show ?thesis using that i LocFix
      by (auto simp: op_le_def ops_le_def reg_at.simps dest!: spec [of _ "LocFix 0 j"])
  next
    case (LocBit i j)
    then have i: "i < length ops" using that by (auto simp: reg_at.simps split: if_splits)
    then have "op_le (ops ! i) (ops' ! i)" "i < length ops'" using assms by (auto simp: list_all2_conv_all_nth)
    then show ?thesis using that i LocBit
      by (auto simp: op_le_def ops_le_def reg_at.simps dest!: spec [of _ "LocBit 0 j"])
  qed (use that in \<open>simp add: reg_at.simps\<close>)
  then show ?thesis using assms by (simp add: ops_le_def list_all2_lengthD)
qed

lemma op_le_refl [simp]: "op_le op op"
  by (simp add: op_le_def)

lemma safe_align_bit_runs:
  "list_all (op_ok False d) ops \<Longrightarrow> safe (align_bit_runs ops) (\<lambda>ops'.
     list_all (op_ok True d) ops' \<and> list_all2 op_le ops ops' \<and> map op_width ops' = map op_width ops)"
proof (induction ops)
  case (Cons op ops)
  have "safe (case op of OpBitRun x items \<Rightarrow>
        if bit_total items mod 8 \<noteq> 0 then Inl (Fail (BitAlignment (bit_total items)))
        else Inr (OpBitRun (bit_total items div 8) items)
      | _ \<Rightarrow> Inr op)
    (\<lambda>op'. op_ok True d op' \<and> op_le op op' \<and> op_width op' = op_width op)"
    using Cons.prems
    by (cases op) (auto simp: op_ok_def bits_width_def bit_total_def intro!: op_le_BitRun)
  then show ?case using Cons
    by (auto intro!: safe_bind [where P = "\<lambda>op'. op_ok True d op' \<and> op_le op op' \<and> op_width op' = op_width op"]
      safe_bind [OF Cons.IH])
qed simp

text \<open>A span register in the opcode's common part changes nothing else.\<close>

lemma wf_val_map_common: "wf_val d (map_common g op) \<longleftrightarrow> wf_val d op"
  by (cases op) auto

lemma op_common_map_common: "op_common (map_common g op) = map_option g (op_common op)"
  by (cases op) auto

lemma op_ok_set_span:
  assumes "op_ok al d op" and "idx < MAX_SPANS"
  shows "op_ok al d (map_common (\<lambda>c. c\<lparr>c_span := Some idx\<rparr>) op)"
proof -
  have c: "common_ok (c\<lparr>c_span := Some idx\<rparr>)" "named (c\<lparr>c_span := Some idx\<rparr>) = named c" for c
    using assms(2) by (simp_all add: common_ok_def idx_ok_def named_def)
  show ?thesis using assms(1) by (cases op) (auto simp: op_ok_def c)
qed

lemma op_le_map_common: "op_le op (map_common g op)"
proof -
  have "reg_at [map_common g op] l = reg_at [op] l" for l
    by (cases l; cases op) (auto simp: reg_at.simps)
  then show ?thesis by (simp add: op_le_def ops_le_def)
qed

lemma op_width_map_common [simp]: "op_width (map_common g op) = op_width op"
  by (cases op) auto

lemma step_ok_upd_op:
  assumes ok: "scope_ok al d s" and i: "i < length (sc_ops s)" and op: "op_ok al d op"
    and le: "op_le (sc_ops s ! i) op" and w: "op_width op = op_width (sc_ops s ! i)"
  shows "step_ok al d s (s\<lparr>sc_ops := (sc_ops s)[i := op]\<rparr>)"
proof -
  note upd = ops_ok_upd_op [OF scope_ok_ops [OF ok] i op ops_le_update [OF le i] w]
  then show ?thesis by (simp add: step_ok_def scope_ok_same_syms [OF ok])
qed

lemma safe_alloc_span:
  assumes ok: "scope_ok al d s" and pos: "pos < length (sc_syms s)" and spannable: "sy_spannable (sc_syms s ! pos)"
  shows "safe (alloc_span pos (sc_syms s ! pos) s) (\<lambda>s'. step_ok al d s s' \<and>
    (\<exists>i < MAX_SPANS. sy_span (sc_syms s' ! pos) = Some i))"
proof (cases "MAX_SPANS \<le> sc_nspans s")
  case False
  let ?y = "sc_syms s ! pos" and ?idx = "sc_nspans s"
  let ?s = "s\<lparr>sc_nspans := ?idx + 1, sc_syms := (sc_syms s)[pos := ?y\<lparr>sy_span := Some ?idx\<rparr>]\<rparr>"
  note y = sym_okD [OF scope_ok_sym [OF ok pos]]
  have idx: "idx_ok MAX_SPANS (Some ?idx)" using False by (simp add: idx_ok_def)
  have ok1: "scope_ok al d ?s" and keeps: "keeps s ?s" and spanned: "\<exists>i < MAX_SPANS. sy_span (sc_syms ?s ! pos) = Some i"
    using ok pos False scope_ok_sym [OF ok pos]
    by (auto simp: scope_ok_def keeps_def fixed_total_def list_all_iff sym_ok_def idx_ok_def
      dest!: set_update_subset_insert [THEN subsetD])
  have fin: "step_ok al d s s' \<and> (\<exists>i < MAX_SPANS. sy_span (sc_syms s' ! pos) = Some i)"
    if "step_ok al d ?s s'" "sc_syms s' = sc_syms ?s" for s'
    using that spanned keeps by (auto simp: step_ok_def intro: keeps_trans)
  show ?thesis
  proof (cases "sy_loc ?y")
    case (LocFix i j)
    then obtain r where at: "reg_at (sc_ops ?s) (LocFix i j) = Some r" using y by (auto simp: loc_ok_def)
    have "safe (patch_fixed i j (\<lambda>it. it\<lparr>fi_span := Some ?idx\<rparr>) ?s) (\<lambda>s'. step_ok al d ?s s' \<and> sc_syms s' = sc_syms ?s)"
      by (rule safe_mono [OF safe_patch_fixed [OF scope_ok_ops [OF ok1] at, where r' = r]])
        (use idx in \<open>auto simp: fixed_item_ok_def step_ok_def intro: scope_ok_same_syms [OF ok1]\<close>)
    then have "safe (patch_fixed i j (\<lambda>it. it\<lparr>fi_span := Some ?idx\<rparr>) ?s) (\<lambda>s'. step_ok al d s s' \<and>
        (\<exists>i < MAX_SPANS. sy_span (sc_syms s' ! pos) = Some i))"
      by (rule safe_mono) (use fin in blast)
    then show ?thesis using False pos by (simp add: alloc_span_def Let_def set_sym_def nth_res_def LocFix)
  next
    case (LocOp i)
    then have i: "i < length (sc_ops ?s)" using y by (simp add: loc_ok_def)
    let ?op = "map_common (\<lambda>c. c\<lparr>c_span := Some ?idx\<rparr>) (sc_ops ?s ! i)"
    have "op_ok al d (sc_ops ?s ! i)" using ok i by (simp add: scope_ok_def list_all_length)
    then have "op_ok al d ?op" using False by (intro op_ok_set_span) simp_all
    from fin [OF step_ok_upd_op [OF ok1 i this op_le_map_common]] show ?thesis
      using False pos i by (simp add: alloc_span_def Let_def set_sym_def nth_res_def LocOp)
  qed (use y spannable in auto)
qed (simp add: alloc_span_def)

lemma safe_span_step:
  assumes ok: "scope_ok al d s" and spans: "list_all (\<lambda>i. i < MAX_SPANS) spans"
  shows "safe (span_step dname n (spans, s)) (\<lambda>(spans', s'). list_all (\<lambda>i. i < MAX_SPANS) spans' \<and> step_ok al d s s')"
proof (cases "position (\<lambda>y. sy_name y = n) (sc_syms s)")
  case (Some pos)
  then have pos: "pos < length (sc_syms s)" by (auto dest: position_Some)
  let ?y = "sc_syms s ! pos"
  have span: "safe (if sy_span ?y = None then alloc_span pos ?y s else Inr s) (\<lambda>s'. step_ok al d s s' \<and>
      (\<exists>i < MAX_SPANS. sy_span (sc_syms s' ! pos) = Some i))" if "sy_spannable ?y"
    using safe_alloc_span [OF ok pos that] ok sym_okD(7) [OF scope_ok_sym [OF ok pos]]
    by (auto simp: step_ok_def idx_ok_def)
  have len: "pos < length (sc_syms s')" if "step_ok al d s s'" for s'
    using that pos by (simp add: step_ok_def keeps_def)
  show ?thesis
  proof (cases "sy_spannable ?y")
    case True
    have "safe (bind_res (if sy_span ?y = None then alloc_span pos ?y s else Inr s) (\<lambda>s.
        bind_res (nth_res (sc_syms s) pos) (\<lambda>y. bind_res (expect (sy_span y)) (\<lambda>idx. Inr (spans @ [idx], s)))))
      (\<lambda>(spans', s'). list_all (\<lambda>i. i < MAX_SPANS) spans' \<and> step_ok al d s s')"
      by (rule safe_bind [OF span [OF True]]) (use spans len in \<open>auto simp: nth_res_def\<close>)
    then show ?thesis using pos True by (simp add: span_step_def Some nth_res_def)
  qed (use pos in \<open>simp add: span_step_def Some nth_res_def\<close>)
qed (simp add: span_step_def)

lemma op_ok_set_over:
  assumes "op_ok al d op" and "case over of Spans idxs \<Rightarrow> list_all (\<lambda>i. i < MAX_SPANS) idxs | Star \<Rightarrow> True"
  shows "op_ok al d (set_over over op)"
  using assms by (cases op) (auto simp: op_ok_def)

lemma op_width_set_over [simp]: "op_width (set_over over op) = op_width op"
  by (cases op) auto

lemma op_le_set_over: "op_le op (set_over over op)"
proof -
  have "reg_at [set_over over op] l = reg_at [op] l" for l
    by (cases l; cases op) (auto simp: reg_at.simps)
  then show ?thesis by (simp add: op_le_def ops_le_def)
qed

lemma safe_digest_step:
  assumes ok: "scope_ok al d s" and i: "fst dg < length (sc_ops s)"
  shows "safe (digest_step dg s) (step_ok al d s)"
proof -
  obtain i over_in dname where dg: "dg = (i, over_in, dname)" by (cases dg)
  have spans: "safe (fold_res (span_step dname) ns ([], s)) (\<lambda>(spans, s'). list_all (\<lambda>i. i < MAX_SPANS) spans \<and> step_ok al d s s')" for ns
  proof (rule safe_fold_res)
    fix n u
    assume "case u of (spans, s') \<Rightarrow> list_all (\<lambda>i. i < MAX_SPANS) spans \<and> step_ok al d s s'"
    then show "safe (span_step dname n u) (\<lambda>(spans, s'). list_all (\<lambda>i. i < MAX_SPANS) spans \<and> step_ok al d s s')"
      by (cases u) (auto simp: step_ok_def intro!: safe_mono [OF safe_span_step [of al d]] intro: keeps_trans)
  qed (use ok in \<open>simp add: step_ok_def\<close>)
  have over: "safe (case over_in of StarIn \<Rightarrow> Inr (Star, s)
      | NamesIn ns \<Rightarrow> bind_res (fold_res (span_step dname) ns ([], s)) (\<lambda>(spans, s). Inr (Spans spans, s)))
    (\<lambda>(over, s'). (case over of Spans idxs \<Rightarrow> list_all (\<lambda>i. i < MAX_SPANS) idxs | Star \<Rightarrow> True) \<and> step_ok al d s s')"
    using ok by (auto simp: step_ok_def [of _ _ s s] intro!: safe_bind [OF spans] split: over_in.split)
  have set: "safe (bind_res (nth_res (sc_ops s') i) (\<lambda>op. Inr (s'\<lparr>sc_ops := (sc_ops s')[i := set_over over op]\<rparr>))) (step_ok al d s)"
    if over: "case over of Spans idxs \<Rightarrow> list_all (\<lambda>i. i < MAX_SPANS) idxs | Star \<Rightarrow> True" and s': "step_ok al d s s'" for over s'
  proof -
    have ok': "scope_ok al d s'" and i': "i < length (sc_ops s')"
      using s' i by (auto simp: step_ok_def keeps_def ops_le_def dg)
    then have "op_ok al d (set_over over (sc_ops s' ! i))"
      by (intro op_ok_set_over over) (simp add: scope_ok_def list_all_length)
    from step_ok_upd_op [OF ok' i' this op_le_set_over op_width_set_over] step_ok_trans [OF s'] i' show ?thesis by (simp add: nth_res_def)
  qed
  show ?thesis unfolding digest_step_def dg prod.case
    by (rule safe_bind [OF over]) (use set in auto)
qed

text \<open>Only fixed runs and bit runs are different at the end: everything is a finished opcode.\<close>

lemma op_ok_aligned: "op_ok True d op \<Longrightarrow> wf_op d op"
  by (cases op) (auto simp: op_ok_def)

lemma wf_prog_scope: "scope_ok True (Suc d) s \<Longrightarrow> wf_prog d (Program (sc_ops s) nregs nspans (ops_min (sc_ops s)) (ops_static (sc_ops s)))"
  using op_ok_aligned by (auto simp: scope_ok_def list_all_iff simp del: wf_op.simps)

lemma safe_finish_scope:
  assumes ok: "scope_ok False (Suc d) s"
  shows "safe (finish_scope s) (wf_prog d)"
proof -
  have aligned: "scope_ok True (Suc d) (s\<lparr>sc_ops := ops, sc_digests := []\<rparr>) \<and>
      list_all (\<lambda>x. fst x < length ops) (sc_digests s)"
    if "list_all (op_ok True (Suc d)) ops \<and> list_all2 op_le (sc_ops s) ops \<and> map op_width ops = map op_width (sc_ops s)" for ops
    using ok that ops_le_list_all2 [of "sc_ops s" ops] list_all2_lengthD [of op_le "sc_ops s" ops]
    by (auto simp: scope_ok_def list_all_iff intro: sym_ok_mono)
  have digests: "safe (fold_res digest_step (sc_digests s) s0) (step_ok True (Suc d) s0)"
    if ok0: "scope_ok True (Suc d) s0" and "list_all (\<lambda>x. fst x < length (sc_ops s0)) (sc_digests s)" for s0
  proof (rule safe_fold_res)
    fix dg u
    assume "dg \<in> set (sc_digests s)" and u: "step_ok True (Suc d) s0 u"
    then have "safe (digest_step dg u) (step_ok True (Suc d) u)"
      using that by (intro safe_digest_step) (auto simp: step_ok_def keeps_def ops_le_def list_all_iff intro: order_less_le_trans)
    then show "safe (digest_step dg u) (step_ok True (Suc d) s0)"
      by (rule safe_mono) (rule step_ok_trans [OF u])
  qed (use ok0 in \<open>simp add: step_ok_def\<close>)
  have "list_all (op_ok False (Suc d)) (sc_ops s)" using ok by (simp add: scope_ok_def)
  then show ?thesis unfolding finish_scope_def
    by (rule safe_bind [OF safe_align_bit_runs])
      (use aligned in \<open>auto simp: step_ok_def wf_prog_scope simp del: wf_prog.simps intro!: safe_bind [OF digests]\<close>)
qed

lemma safe_close_scope:
  assumes "scopes_ok (s # rest)"
  shows "safe (close_scope (s # rest)) (\<lambda>(prog, scopes'). scopes' = rest \<and> wf_prog (length rest) prog)"
proof -
  have "scope_ok False (Suc (length rest)) s" using assms by simp
  then show ?thesis unfolding close_scope_def list.case
    by (intro safe_bind [OF safe_resolve_deferred_derives] safe_bind [OF safe_finish_scope]) (auto simp: step_ok_def)
qed

end
