(* ===== verification/Compile_Safety.thy ===== *)
theory Compile_Safety
  imports Scopes Unpack
begin

text \<open>
  The compiler never panics, and every program it produces is well formed, whatever the schema
  it is given, provided the bytes of the fixed fields of a struct fit a \<open>usize\<close>.
\<close>

section \<open>Expressions\<close>

text \<open>The constants of a schema are \<open>i64\<close> values.\<close>

fun imms_ok :: "expr_in \<Rightarrow> bool" where
  "imms_ok (EImm n) \<longleftrightarrow> in_i64 n"
| "imms_ok (EBin op l r) \<longleftrightarrow> imms_ok l \<and> imms_ok r"
| "imms_ok _ \<longleftrightarrow> True"

lemma fold_expr_imms: "imms_ok e \<Longrightarrow> fold_expr e = Inr e' \<Longrightarrow> imms_ok e'"
proof (induction e arbitrary: e')
  case (EBin op l r)
  from EBin.prems(2) show ?case
  proof (cases rule: fold_expr_EBinE)
    case (const a b v)
    have "in_i64 a" "in_i64 b"
      using EBin.IH(1) [OF _ const(1)] EBin.IH(2) [OF _ const(2)] EBin.prems(1) by simp_all
    then have "in_i64 v" by (rule apply_ins_in_i64 [OF _ _ apply_const_apply_ins [OF const(3)]])
    then show ?thesis by (simp add: const)
  next
    case (bin l' r')
    then show ?thesis using EBin.IH(1) [OF _ bin(1)] EBin.IH(2) [OF _ bin(2)] EBin.prems(1) by simp
  qed
qed auto

lemma no_panic_apply_const [simp]: "no_panic (apply_const op a b)"
  by (cases op) auto

lemma no_panic_fold_expr [simp]: "no_panic (fold_expr e)"
proof (induction e)
  case (EBin op l r)
  then show ?case unfolding fold_expr.simps
    by (intro no_panic_bind) (auto split: expr_in.split intro: no_panic_bind)
qed simp_all

lemma safe_fold_expr: "imms_ok e \<Longrightarrow> safe (fold_expr e) (\<lambda>e'. fold_expr e = Inr e' \<and> imms_ok e')"
  by (auto intro: safeI fold_expr_imms)

lemma linear_in_i64:
  "imms_ok e \<Longrightarrow> linear e = Some ln \<Longrightarrow> in_i64 (lin_b ln) \<and> (\<forall>n a. lin_ref ln = Some (n, a) \<longrightarrow> in_i64 a)"
proof (induction e arbitrary: ln)
  case (EBin op l r)
  from EBin.prems(2) obtain ll rr where lr: "linear l = Some ll" "linear r = Some rr"
    and op: "(op = BAdd \<and> lin_add ll rr = Some ln) \<or> (op = BSub \<and> lin_sub ll rr = Some ln) \<or>
     (op = BMul \<and> lin_mul ll rr = Some ln)" by (rule linear_EBinE)
  note ih = EBin.IH(1) [OF _ lr(1)] EBin.IH(2) [OF _ lr(2)]
  show ?case using op ih EBin.prems(1)
    by (auto simp: lin_add_def lin_sub_def lin_mul_def lin_scale_def Let_def split: option.splits)
qed (auto simp: in_i64_iff)

text \<open>What \<open>emit_into\<close> appends: the expression in postfix, each reference a register in scope.\<close>

fun emits :: "nat \<Rightarrow> expr_in \<Rightarrow> ins list \<Rightarrow> bool" where
  "emits d (EImm n) code \<longleftrightarrow> code = [IImm n]"
| "emits d EGreedy code \<longleftrightarrow> False"
| "emits d (ERef name) code \<longleftrightarrow> (\<exists>r. code = [IReg r] \<and> reg_ok d r)"
| "emits d (EBin op l r) code \<longleftrightarrow> (\<exists>a b. code = a @ b @ [ins_of op] \<and> emits d l a \<and> emits d r b)"

lemma emits_depth:
  "emits d e code \<Longrightarrow> fold depth_step code (k, m) = (k + 1, max m (k + stack_need e))"
proof (induction e arbitrary: code k m)
  case (EBin op l r)
  then show ?case by (auto simp: max.assoc max_add_distrib_right add.commute)
qed auto

lemma ins_ok_binary: "ins_ok d (ins_of op # rest) sp \<longleftrightarrow> 2 \<le> sp \<and> ins_ok d rest (sp - 1)"
  by (cases op) simp_all

lemma emits_ins_ok:
  "emits d e code \<Longrightarrow> imms_ok e \<Longrightarrow> sp + stack_need e \<le> EXPR_STACK \<Longrightarrow>
     ins_ok d (code @ rest) sp \<longleftrightarrow> ins_ok d rest (sp + 1)"
proof (induction e arbitrary: code rest sp)
  case (EBin op l r)
  from EBin.prems(1) obtain a b where ab: "code = a @ b @ [ins_of op]" "emits d l a" "emits d r b" by auto
  have "ins_ok d (a @ b @ ins_of op # rest) sp \<longleftrightarrow> ins_ok d (b @ ins_of op # rest) (sp + 1)"
    using EBin.prems ab by (intro EBin.IH) auto
  also have "\<dots> \<longleftrightarrow> ins_ok d (ins_of op # rest) (sp + 1 + 1)"
    using EBin.prems ab by (intro EBin.IH) auto
  finally show ?case by (simp add: ab ins_ok_binary del: ins_ok.simps)
qed auto

lemma emits_expr_ok:
  "emits d e code \<Longrightarrow> imms_ok e \<Longrightarrow> postfix_depth code \<le> EXPR_STACK \<Longrightarrow> expr_ok d (Expr code)"
  using emits_ins_ok [of d e code 0 "[]"] by (simp add: expr_ok_def postfix_depth_def emits_depth)

lemma safe_emit_into:
  "scopes_ok scopes \<Longrightarrow> safe (emit_into e ctx out scopes) (\<lambda>(out', scopes').
     upd_ok scopes scopes' \<and> (\<exists>code. out' = out @ code \<and> emits (length scopes) e code))"
proof (induction e arbitrary: out scopes)
  case (ERef name)
  then show ?case by (auto intro!: safe_bind [OF safe_resolve_ref])
next
  case (EBin op l r)
  have r: "safe (emit_into r ctx out1 s1) (\<lambda>(out', s2).
      upd_ok scopes s2 \<and> (\<exists>code. out' = out1 @ code \<and> emits (length scopes) r code))" if "upd_ok scopes s1" for s1 out1
    by (rule safe_upd_then [where Q = "\<lambda>n out'. \<exists>code. out' = out1 @ code \<and> emits n r code", OF EBin.IH(2) [OF upd_ok_scopes [OF that]] that])
  show ?case
    by (fastforce intro!: safe_bind [OF EBin.IH(1) [OF EBin.prems]] safe_bind [OF r])
qed (auto intro: upd_ok_refl)

lemma safe_emit_expr:
  assumes "scopes_ok scopes" and "imms_ok e"
  shows "safe (emit_expr e ctx scopes) (\<lambda>(ex, scopes'). upd_ok scopes scopes' \<and> expr_ok (length scopes) ex)"
  unfolding emit_expr_def
  by (rule safe_bind [OF safe_emit_into [OF assms(1)]]) (use assms(2) emits_expr_ok in auto)

lemma expr_ok_imm [simp]: "expr_ok d (expr_imm n) \<longleftrightarrow> in_i64 n" "as_const (expr_imm n) = Some n"
  by (simp_all add: expr_ok_def expr_imm_def EXPR_STACK_def)

lemma safe_build_len:
  assumes ok: "scopes_ok scopes" and e: "imms_ok e"
  shows "safe (build_len e what scopes) (\<lambda>(len, scopes'). upd_ok scopes scopes' \<and> len_src_ok (length scopes) len)"
proof (cases "e = EGreedy")
  case False
  have inverted: "safe (bind_res (ok_or (NotInvertible what) (linear f)) (\<lambda>ln.
      case lin_ref ln of None \<Rightarrow> panic
      | Some (name, a) \<Rightarrow> if a = 0 then Inl (Fail (ZeroCoefficient what))
          else bind_res (resolve_ref name RLen scopes) (\<lambda>(r, scopes).
            bind_res (emit_expr f RLen scopes) (\<lambda>(ex, scopes).
              Inr (LenExpr ex (Some \<lparr>inv_reg = r, inv_a = a, inv_b = lin_b ln\<rparr>), scopes)))))
      (\<lambda>(len, scopes'). upd_ok scopes scopes' \<and> len_src_ok (length scopes) len)"
    if f: "fold_expr e = Inr f" "imms_ok f" "\<forall>n. f \<noteq> EImm n" for f
  proof -
    have some: "lin_ref ln \<noteq> None" if "linear f = Some ln" for ln
      using fold_expr_closed [OF f(1)] f(3) linear_refs [OF that] by (cases "lin_ref ln") (auto simp: lin_names_def)
    have emit: "safe (emit_expr f RLen s1) (\<lambda>(ex, s2). upd_ok scopes s2 \<and> expr_ok (length scopes) ex)" if "upd_ok scopes s1" for s1
      by (rule safe_upd_then [where Q = expr_ok, OF safe_emit_expr [OF upd_ok_scopes [OF that] f(2)] that])
    show ?thesis
      by (rule safe_bind [where P = "\<lambda>ln. linear f = Some ln"])
        (use some linear_in_i64 [OF f(2)] in \<open>auto simp: len_ok_def inv_ok_def split: option.splits
          intro!: safe_bind [OF safe_resolve_ref [OF ok]] safe_bind [OF emit] \<close>)
  qed
  show ?thesis unfolding build_len_def using False
    by (simp only: if_False, intro safe_bind [OF safe_fold_expr [OF e]])
      (use inverted ok in \<open>auto split: expr_in.split simp: len_ok_def intro: upd_ok_refl\<close>)
qed (use ok in \<open>simp add: build_len_def upd_ok_refl\<close>)

section \<open>Leaf types\<close>

lemma common_simps [simp]:
  "common_ok (common_named n)" "named (common_named n)" "common_ok common_skip"
  by (simp_all add: common_ok_def named_def common_named_def common_skip_def idx_ok_def)

lemma safe_parse_enc: "safe (parse_enc encoding errors) (\<lambda>_. True)"
  by (auto simp: parse_enc_def intro!: safeI no_panic_map_fail parse_name_not_panic)

lemma safe_flag_masks: "safe (fold_res (flag_mask_step base_mask) fnames st) (\<lambda>_. True)"
  by (rule safe_fold_res) (auto simp: flag_mask_step_def Let_def split: prod.split)

lemma safe_flags_op:
  "safe (flags_op base order fnames rest bo name)
     (\<lambda>op. \<exists>be items policy m. op = OpFlags base be items policy m (common_named name))"
  by (auto simp: flags_op_def Let_def intro!: safe_bind [OF safe_flag_masks] safe_bind [where P = "\<lambda>_. True"]
    intro: safeI parse_name_not_panic)

lemma safe_int_kind:
  "safe (int_kind prim order const bo) (\<lambda>kind. kind_ok None kind \<and> fix_width kind = prim_width prim)"
  by (auto simp: int_kind_def prim_valid_def split: option.split)

lemma kind_ok_simps [simp]: "kind_ok None (float_kind is64 order bo)" "kind_ok None (FBool c)"
  "fix_width (float_kind is64 order bo) = (if is64 then 8 else 4)"
  by (simp_all add: float_kind_def)

lemma safe_raw_kind:
  "safe (raw_kind len const) (\<lambda>kind. kind_ok None kind \<and>
     fix_width kind = (case (len, const) of (Some l, _) \<Rightarrow> l | (None, Some c) \<Rightarrow> length c | _ \<Rightarrow> 0))"
  by (auto simp: raw_kind_def split: option.split)

lemma wf_val_fixed1: "kind_ok None kind \<Longrightarrow> wf_val d (fixed1 kind)"
  by (simp add: fixed1_def fixed_item_ok_def idx_ok_def)

lemma no_panic_preset: "safe (parse_algo name ov) (\<lambda>_. True)"
  by (auto simp: parse_algo_def intro!: safe_bind [where P = "\<lambda>_. True"] split: algo.split)

lemma safe_check_over: "safe (check_over name over) (\<lambda>_. True)"
proof -
  have "safe (digest_names_ok name seen ns) (\<lambda>_. True)" for seen ns
    by (induction ns arbitrary: seen) auto
  then show ?thesis by (auto simp: check_over_def split: over_in.split)
qed

lemma safe_check_size: "safe (check_size sz prog) (\<lambda>_. True)"
  by (auto simp: check_size_def split: option.split len_src.split)

lemma safe_count_src_of:
  assumes "scopes_ok scopes" and "\<And>e. count = Some e \<Longrightarrow> imms_ok e"
  shows "safe (count_src_of count until_eof scopes) (\<lambda>(src, scopes'). upd_ok scopes scopes' \<and> count_src_ok (length scopes) src)"
  using assms(1)
  by (auto simp: count_src_of_def upd_ok_refl split: option.split bool.split len_src.split
    intro!: safe_bind [OF safe_build_len [OF assms]])

lemma safe_nest_size:
  assumes "scopes_ok scopes" and "\<And>e. sz = Some e \<Longrightarrow> imms_ok e"
  shows "safe (nest_size sz scopes) (\<lambda>(len, scopes'). upd_ok scopes scopes' \<and>
    (case len of Some l \<Rightarrow> l \<noteq> LenGreedy \<and> len_src_ok (length scopes) l | None \<Rightarrow> True))"
  using assms(1)
  by (auto simp: nest_size_def upd_ok_refl split: option.split intro!: safe_bind [OF safe_build_len [OF assms]])

section \<open>Fields\<close>

text \<open>
  The width a type adds to the fixed run of its struct, and the schemas the theorems speak of:
  constants are \<open>i64\<close> values, and the fixed fields of each struct sum up to a \<open>usize\<close>.
\<close>

fun own_width :: "type_in \<Rightarrow> nat" where
  "own_width (TInt prim _ _) = prim_width prim"
| "own_width (TFloat is64 _) = (if is64 then 8 else 4)"
| "own_width (TBool _) = 1"
| "own_width (TRaw len const) = (case (len, const) of (Some l, _) \<Rightarrow> l | (None, Some c) \<Rightarrow> length c | _ \<Rightarrow> 0)"
| "own_width _ = 0"

definition widths_fit :: "field_in list \<Rightarrow> bool" where
  "widths_fit flds \<longleftrightarrow> sum_list (map (\<lambda>f. own_width (field_ty f)) flds) \<le> usize_max"

fun ty_ok :: "type_in \<Rightarrow> bool" and field_ok :: "field_in \<Rightarrow> bool" where
  "ty_ok (TBytes len _) \<longleftrightarrow> imms_ok len"
| "ty_ok (TStr len _ _ _) \<longleftrightarrow> imms_ok len"
| "ty_ok (TStruct flds _ sz) \<longleftrightarrow>
     widths_fit flds \<and> list_all field_ok flds \<and> (case sz of Some e \<Rightarrow> imms_ok e | None \<Rightarrow> True)"
| "ty_ok (TArray elem count _) \<longleftrightarrow> ty_ok elem \<and> (case count of Some e \<Rightarrow> imms_ok e | None \<Rightarrow> True)"
| "ty_ok (TSwitch on cases dflt) \<longleftrightarrow>
     imms_ok on \<and> list_all (\<lambda>c. ty_ok (snd c)) cases \<and> (case dflt of Some ty \<Rightarrow> ty_ok ty | None \<Rightarrow> True)"
| "ty_ok (TCond pred thn) \<longleftrightarrow> imms_ok pred \<and> ty_ok thn"
| "ty_ok _ \<longleftrightarrow> True"
| "field_ok (FieldIn _ ty) \<longleftrightarrow> ty_ok ty"

definition schema_ok :: "field_in list \<Rightarrow> bool" where
  "schema_ok flds \<longleftrightarrow> widths_fit flds \<and> list_all field_ok flds"

lemma field_ok_ty: "field_ok f \<longleftrightarrow> ty_ok (field_ty f)"
  by (cases f) simp

text \<open>A compiled field: the innermost scope has grown by at most \<open>w\<close> bytes of fixed fields.\<close>

definition grows :: "nat \<Rightarrow> scope list \<Rightarrow> scope list \<Rightarrow> bool" where
  "grows w scopes scopes' \<longleftrightarrow>
     scopes \<noteq> [] \<and> scopes' \<noteq> [] \<and> scopes_ok scopes' \<and>
     fixed_total (hd scopes') \<le> fixed_total (hd scopes) + w \<and> list_all2 keeps (tl scopes) (tl scopes')"

lemma grows_length: "grows w scopes scopes' \<Longrightarrow> length scopes' = length scopes"
  by (cases scopes; cases scopes') (auto simp: grows_def dest: list_all2_lengthD)

lemma grows_refl: "scopes_ok scopes \<Longrightarrow> scopes \<noteq> [] \<Longrightarrow> grows w scopes scopes"
  by (simp add: grows_def list.rel_refl)

lemma grows_trans: "grows v a b \<Longrightarrow> grows w b c \<Longrightarrow> grows (v + w) a c"
  by (auto simp: grows_def intro: list_all2_trans [of keeps keeps keeps] keeps_trans)

lemma upd_ok_grows: "upd_ok a b \<Longrightarrow> a \<noteq> [] \<Longrightarrow> grows 0 a b"
  by (cases a) (auto simp: upd_ok_def grows_def list_all2_Cons1 keeps_def)

lemma grows_upd: "upd_ok a b \<Longrightarrow> a \<noteq> [] \<Longrightarrow> grows w b c \<Longrightarrow> grows w a c"
  using grows_trans [of 0 a b w c] by (simp add: upd_ok_grows)

lemma safe_check_name: "scopes \<noteq> [] \<Longrightarrow> safe (check_name name scopes) (\<lambda>n. n = name)"
  by (auto simp: check_name_def split: option.split list.split)

lemma grows_pushed:
  assumes "scopes_ok (s # rest)" and "scope_ok False (Suc (length rest)) s'" and "fixed_total s' = fixed_total s + w"
  shows "grows w (s # rest) (s' # rest)"
  using assms by (simp add: grows_def list.rel_refl)

lemma safe_push_fixed_field:
  assumes ok: "scopes_ok scopes" "scopes \<noteq> []" and w: "fixed_total (hd scopes) + fix_width kind \<le> usize_max" and kind: "kind_ok None kind"
  shows "safe (push_fixed_field kind name refable is_const scopes) (grows (fix_width kind) scopes)"
proof (cases scopes)
  case (Cons s rest)
  then have s: "scope_ok False (Suc (length rest)) s" using ok by simp
  let ?key = "case name of Some n \<Rightarrow> Named n | None \<Rightarrow> Skip"
  from push_fixed_ok [OF s _ kind, of ?key rest] w Cons
  obtain i j s1 where 1: "push_fixed kind ?key (s # rest) = Inr (LocFix i j, s1 # rest)"
    "pushed_field (Suc (length rest)) (fix_width kind) s (LocFix i j) s1" by auto
  from add_sym_ok [OF 1(2), of refable True name False is_const rest] obtain s2 where
    "add_sym name (LocFix i j) refable False is_const True (s1 # rest) = Inr (s2 # rest)"
    "scope_ok False (Suc (length rest)) s2" "fixed_total s2 = fixed_total s + fix_width kind" by auto
  then show ?thesis using 1(1) ok grows_pushed by (simp add: push_fixed_field_def Cons)
qed (use ok in simp)

lemma safe_push_bits_field:
  assumes ok: "scopes_ok scopes" "scopes \<noteq> []"
  shows "safe (push_bits_field width sgnd name scopes) (grows 0 scopes)"
proof (cases "1 \<le> width \<and> width \<le> 64")
  case True
  obtain s rest where scopes: "scopes = s # rest" using ok(2) by (cases scopes) auto
  then have s: "scope_ok False (Suc (length rest)) s" using ok by simp
  let ?item = "\<lparr>bi_width = width, bi_signed = sgnd, bi_reg = None, bi_derived = False,
            bi_key = (case name of Some n \<Rightarrow> Named n | None \<Rightarrow> Skip)\<rparr>"
  have "bit_item_ok ?item" using True by (simp add: bit_item_ok_def idx_ok_def)
  from push_bits_ok [OF s this, of rest] obtain i j s1 where
    1: "push_bits ?item (s # rest) = Inr (LocBit i j, s1 # rest)" "pushed_field (Suc (length rest)) 0 s (LocBit i j) s1" by auto
  from add_sym_ok [OF 1(2), of True False name False False rest] obtain s2 where
    "add_sym name (LocBit i j) True False False False (s1 # rest) = Inr (s2 # rest)"
    "scope_ok False (Suc (length rest)) s2" "fixed_total s2 = fixed_total s + 0" by auto
  then show ?thesis using 1(1) ok True grows_pushed by (simp add: push_bits_field_def scopes)
qed (simp add: push_bits_field_def)

lemma op_ok_wf: "wf_op d op \<Longrightarrow> op_ok al d op"
  by (cases op) (auto simp: op_ok_def)

lemma safe_push_named:
  assumes ok: "scopes_ok scopes" "scopes \<noteq> []" and op: "wf_op (length scopes) op" "op_width op = 0"
  shows "safe (push_named op name is_flags spannable scopes) (grows 0 scopes)"
proof (cases scopes)
  case (Cons s rest)
  then have s: "scope_ok False (Suc (length rest)) s" using ok by simp
  from push_op_ok [OF s op_ok_wf op(2), of rest] op(1) Cons obtain i s1 where
    1: "push_op op (s # rest) = Inr (LocOp i, s1 # rest)" "pushed_field (Suc (length rest)) 0 s (LocOp i) s1" by auto
  from add_sym_ok [OF 1(2), of False spannable "Some name" is_flags False rest] obtain s2 where
    "add_sym (Some name) (LocOp i) False is_flags False spannable (s1 # rest) = Inr (s2 # rest)"
    "scope_ok False (Suc (length rest)) s2" "fixed_total s2 = fixed_total s + 0" by auto
  then show ?thesis using 1(1) ok grows_pushed by (simp add: push_named_def Cons)
qed (use ok in simp)

lemma safe_push_digest_field:
  assumes ok: "scopes_ok scopes" "scopes \<noteq> []"
  shows "safe (push_digest_field aname ov over verify bo name scopes) (grows 0 scopes)"
proof -
  obtain s rest where scopes: "scopes = s # rest" using ok(2) by (cases scopes) auto
  then have s: "scope_ok False (Suc (length rest)) s" using ok by simp
  have push: "safe (bind_res (push_op (OpDigest algo (Spans []) verify (bo = Big) (common_named name)) scopes) (\<lambda>(l, scopes).
       case l of LocOp i \<Rightarrow>
           bind_res (with_top_scope (\<lambda>s. Inr ((), s\<lparr>sc_digests := sc_digests s @ [(i, over, name)]\<rparr>)) scopes)
             (\<lambda>(_, scopes). add_sym (Some name) (LocOp i) False False False True scopes)
       | _ \<Rightarrow> panic)) (grows 0 scopes)" for algo
  proof -
    let ?op = "OpDigest algo (Spans []) verify (bo = Big) (common_named name)"
    have "op_ok False (Suc (length rest)) ?op" by (simp add: op_ok_def)
    from push_op_ok [OF s this, of rest] obtain i s1 where
      1: "push_op ?op (s # rest) = Inr (LocOp i, s1 # rest)" "pushed_field (Suc (length rest)) 0 s (LocOp i) s1" by auto
    let ?s = "s1\<lparr>sc_digests := sc_digests s1 @ [(i, over, name)]\<rparr>"
    have "pushed_field (Suc (length rest)) 0 s (LocOp i) ?s"
      using 1(2) by (simp add: pushed_field_def scope_ok_def fixed_total_def loc_ok_def)
    from add_sym_ok [OF this, of False True "Some name" False False rest] obtain s2 where
      "add_sym (Some name) (LocOp i) False False False True (?s # rest) = Inr (s2 # rest)"
      "scope_ok False (Suc (length rest)) s2" "fixed_total s2 = fixed_total s + 0" by auto
    then show ?thesis using 1(1) ok grows_pushed by (simp add: scopes with_top_scope_def)
  qed
  show ?thesis unfolding push_digest_field_def
    by (rule safe_bind [OF no_panic_preset], rule safe_bind [OF safe_check_over], rule push)
qed

section \<open>The recursion\<close>

definition scope_safe :: "options \<Rightarrow> field_in list \<Rightarrow> bool" where
  "scope_safe opts flds \<longleftrightarrow> (\<forall>bo scopes. scopes_ok scopes \<longrightarrow>
     safe (compile_scope opts flds bo scopes) (\<lambda>(prog, scopes'). upd_ok scopes scopes' \<and> wf_prog (length scopes) prog))"

definition elem_safe :: "(scope list \<Rightarrow> op cres) \<Rightarrow> bool" where
  "elem_safe ce \<longleftrightarrow> (\<forall>scopes. scopes_ok scopes \<longrightarrow> scopes \<noteq> [] \<longrightarrow>
     safe (ce scopes) (\<lambda>(op, scopes'). upd_ok scopes scopes' \<and> wf_val (length scopes) op))"

definition field_safe :: "options \<Rightarrow> field_in \<Rightarrow> bool" where
  "field_safe opts f \<longleftrightarrow> (\<forall>bo scopes. scopes_ok scopes \<longrightarrow> scopes \<noteq> [] \<longrightarrow>
     fixed_total (hd scopes) + own_width (field_ty f) \<le> usize_max \<longrightarrow>
     safe (compile_field opts f bo scopes) (grows (own_width (field_ty f)) scopes))"

lemma elem_safeD: "elem_safe ce \<Longrightarrow> scopes_ok scopes \<Longrightarrow> scopes \<noteq> [] \<Longrightarrow>
    safe (ce scopes) (\<lambda>(op, scopes'). upd_ok scopes scopes' \<and> wf_val (length scopes) op)"
  by (simp add: elem_safe_def)

lemma upd_ok_Nil: "upd_ok scopes scopes' \<Longrightarrow> scopes' = [] \<longleftrightarrow> scopes = []"
  by (auto simp: upd_ok_def)

lemma safe_elem_after:
  assumes "elem_safe ce" and "upd_ok scopes s1" and "scopes \<noteq> []"
  shows "safe (ce s1) (\<lambda>(op, s2). upd_ok scopes s2 \<and> wf_val (length scopes) op)"
  by (rule safe_upd_then [where Q = wf_val, OF elem_safeD [OF assms(1)] assms(2)])
    (use assms in \<open>auto dest: upd_ok_scopes upd_ok_Nil\<close>)

lemma safe_fields:
  assumes "\<And>f. f \<in> set flds \<Longrightarrow> field_safe opts f" and "scopes_ok scopes" and "scopes \<noteq> []"
    and "fixed_total (hd scopes) + sum_list (map (\<lambda>f. own_width (field_ty f)) flds) \<le> usize_max"
  shows "safe (fold_res (\<lambda>f s. compile_field opts f bo s) flds scopes)
    (grows (sum_list (map (\<lambda>f. own_width (field_ty f)) flds)) scopes)"
  using assms
proof (induction flds arbitrary: scopes)
  case (Cons f flds)
  have f: "safe (compile_field opts f bo scopes) (grows (own_width (field_ty f)) scopes)"
    using Cons.prems by (simp add: field_safe_def)
  have "safe (fold_res (\<lambda>f s. compile_field opts f bo s) flds s1)
      (grows (own_width (field_ty f) + sum_list (map (\<lambda>f. own_width (field_ty f)) flds)) scopes)"
    if s1: "grows (own_width (field_ty f)) scopes s1" for s1
    by (rule safe_mono [OF Cons.IH]) (use s1 Cons.prems grows_trans [OF s1] in \<open>auto simp: grows_def\<close>)
  then show ?case by (simp add: safe_bind [OF f])
qed (simp add: grows_refl)

lemma safe_compile_scope_step:
  assumes "\<And>f. f \<in> set flds \<Longrightarrow> field_safe opts f" and "widths_fit flds"
  shows "scope_safe opts flds"
  unfolding scope_safe_def compile_scope.simps
proof (intro allI impI)
  fix bo scopes
  assume ok: "scopes_ok scopes"
  have "safe (fold_res (\<lambda>f s. compile_field opts f bo s) flds (empty_scope # scopes))
      (grows (sum_list (map (\<lambda>f. own_width (field_ty f)) flds)) (empty_scope # scopes))"
    using assms ok by (intro safe_fields) (auto simp: widths_fit_def)
  then show "safe (bind_res (fold_res (\<lambda>f s. compile_field opts f bo s) flds (empty_scope # scopes)) close_scope)
      (\<lambda>(prog, scopes'). upd_ok scopes scopes' \<and> wf_prog (length scopes) prog)"
  proof (rule safe_bind)
    fix s1
    assume g: "grows (sum_list (map (\<lambda>f. own_width (field_ty f)) flds)) (empty_scope # scopes) s1"
    then obtain s rest where s1: "s1 = s # rest" "scopes_ok (s # rest)" "list_all2 keeps scopes rest"
      by (cases s1) (auto simp: grows_def)
    from s1 safe_close_scope [OF s1(2)] show "safe (close_scope s1) (\<lambda>(prog, scopes'). upd_ok scopes scopes' \<and> wf_prog (length scopes) prog)"
      by (auto simp: upd_ok_def dest: list_all2_lengthD elim!: safe_mono)
  qed
qed

lemma safe_array_op:
  assumes ok: "scopes_ok scopes" "scopes \<noteq> []" and e: "elem_safe (ce elem)" and count: "\<And>e. count = Some e \<Longrightarrow> imms_ok e"
  shows "safe (array_op opts ce elem count until_eof c scopes) (\<lambda>(op, scopes').
    upd_ok scopes scopes' \<and> wf_val (length scopes) op \<and> (\<exists>src op' mn. op = OpArray src (o_max_count opts) op' mn c))"
  unfolding array_op_def
  by (rule safe_bind [OF safe_count_src_of [OF ok(1) count]])
    (auto simp del: wf_val.simps simp: wf_val.simps [of _ "OpArray _ _ _ _ _"] intro!: safe_bind [OF safe_elem_after [OF e _ ok(2)]])

definition branch_ok :: "nat \<Rightarrow> int \<times> op \<Rightarrow> bool" where
  "branch_ok d b \<longleftrightarrow> wf_val d (snd b)"

lemma safe_case_steps:
  assumes "\<And>tag ty. (tag, ty) \<in> set cases \<Longrightarrow> elem_safe (ce ty)" and "scopes \<noteq> []" and "upd_ok scopes s1"
  shows "safe (fold_res (case_step ce) cases ([], [], s1))
    (\<lambda>(_, compiled, s2). upd_ok scopes s2 \<and> list_all (branch_ok (length scopes)) compiled)"
proof (rule safe_fold_res)
  fix tc and st :: "int list \<times> (int \<times> op) list \<times> scope list"
  assume tc: "tc \<in> set cases" and st: "case st of (_, compiled, s2) \<Rightarrow> upd_ok scopes s2 \<and> list_all (branch_ok (length scopes)) compiled"
  then show "safe (case_step ce tc st) (\<lambda>(_, compiled, s2). upd_ok scopes s2 \<and> list_all (branch_ok (length scopes)) compiled)"
    using assms(1) [of "fst tc" "snd tc"] assms(2)
    by (auto simp: case_step_def branch_ok_def simp del: wf_val.simps split: prod.split intro!: safe_bind [OF safe_elem_after])
qed (use assms(3) in simp)

lemma wf_switch: "expr_ok d on \<Longrightarrow> list_all (branch_ok d) cases \<Longrightarrow> (case dflt of Some op \<Rightarrow> wf_val d op | None \<Rightarrow> True) \<Longrightarrow>
    wf_val d (OpSwitch on cases dflt c)"
  by (simp add: branch_ok_def [abs_def] del: wf_val.simps add: wf_val.simps [of _ "OpSwitch _ _ _ _"])

lemma safe_switch_parts:
  assumes ok: "scopes_ok scopes" "scopes \<noteq> []" and on: "imms_ok on"
    and cases: "\<And>tag ty. (tag, ty) \<in> set cases \<Longrightarrow> elem_safe (ce ty)" and dflt: "\<And>ty. dflt = Some ty \<Longrightarrow> elem_safe (ce ty)"
  shows "safe (switch_parts ce on cases dflt scopes) (\<lambda>((e, compiled, d), scopes').
    upd_ok scopes scopes' \<and> wf_val (length scopes) (OpSwitch e compiled d c))"
proof (cases "cases = [] \<and> dflt = None")
  case False
  show ?thesis unfolding switch_parts_def using False
  proof (simp only: if_False, intro safe_bind [OF safe_fold_expr [OF on]], elim conjE)
    fix f
    assume f: "imms_ok f"
    show "safe (bind_res (emit_expr f ROn scopes) (\<lambda>(on_expr, scopes).
        bind_res (fold_res (case_step ce) cases ([], [], scopes)) (\<lambda>(_, compiled, scopes).
          case dflt of
            None \<Rightarrow> Inr ((on_expr, compiled, None), scopes)
          | Some ty \<Rightarrow> bind_res (ce ty scopes) (\<lambda>(op, scopes). Inr ((on_expr, compiled, Some op), scopes)))))
      (\<lambda>((e, compiled, d), scopes'). upd_ok scopes scopes' \<and> wf_val (length scopes) (OpSwitch e compiled d c))"
      by (rule safe_bind [OF safe_emit_expr [OF ok(1) f]])
        (use dflt in \<open>auto simp del: wf_val.simps split: option.split intro!: wf_switch
          safe_bind [OF safe_case_steps [OF cases ok(2)]] safe_bind [OF safe_elem_after [OF dflt _ ok(2)]]\<close>)
  qed
qed (simp add: switch_parts_def)

lemma wf_op_named: "op_common op = Some (common_named n) \<Longrightarrow> wf_val d op \<Longrightarrow> wf_op d op"
  by (cases op) auto

text \<open>The end of an arm of \<open>compile_field\<close>: the value's opcode, under the field's name.\<close>

lemma safe_push_value:
  assumes "upd_ok scopes s1" and "scopes \<noteq> []" and "wf_val (length scopes) op"
    and "op_common op = Some (common_named n)"
  shows "safe (push_named op n is_flags spannable s1) (grows 0 scopes)"
proof (rule safe_mono [OF safe_push_named])
  show "wf_op (length s1) op" using wf_op_named [OF assms(4,3)] upd_ok_length [OF assms(1)] by simp
  show "op_width op = 0" using assms(3,4) by (cases op) auto
qed (use assms in \<open>auto simp: upd_ok_scopes upd_ok_Nil intro: grows_upd\<close>)

definition parts_safe :: "options \<Rightarrow> type_in \<Rightarrow> bool" where
  "parts_safe opts ty \<longleftrightarrow>
     (case ty of
        TStruct flds _ _ \<Rightarrow> scope_safe opts flds
      | TArray elem _ _ \<Rightarrow> (\<forall>bo. elem_safe (compile_elem opts elem bo))
      | TSwitch _ cases dflt \<Rightarrow>
          (\<forall>c \<in> set cases. \<forall>bo. elem_safe (compile_elem opts (snd c) bo)) \<and>
          (\<forall>ty bo. dflt = Some ty \<longrightarrow> elem_safe (compile_elem opts ty bo))
      | TCond _ thn \<Rightarrow> \<forall>bo. elem_safe (compile_elem opts thn bo)
      | _ \<Rightarrow> True)"

lemma safe_nested:
  assumes "scope_safe opts flds" and "upd_ok scopes s1"
  shows "safe (compile_scope opts flds bo s1) (\<lambda>(prog, s2). upd_ok scopes s2 \<and> wf_prog (length scopes) prog)"
  by (rule safe_upd_then [where Q = wf_prog, OF _ assms(2)])
    (use assms upd_ok_scopes in \<open>simp add: scope_safe_def\<close>)

text \<open>The opcode of a type, in either position: what \<open>compile_field\<close> and \<open>compile_elem\<close> share.\<close>

lemma wf_val_simps [simp]:
  "wf_val d (OpBytes len mx c) \<longleftrightarrow> len_src_ok d len"
  "wf_val d (OpStr len mx e c) \<longleftrightarrow> len_src_ok d len"
  "wf_val d (OpCStr mx e c)"
  "wf_val d (OpFlags prim be items rest m c)"
  "wf_val d (OpNest prog sz c) \<longleftrightarrow> wf_prog d prog \<and> (case sz of Some l \<Rightarrow> l \<noteq> LenGreedy \<and> len_src_ok d l | None \<Rightarrow> True)"
  by simp_all

lemma safe_field_step:
  assumes ty: "ty_ok (field_ty f)" and parts: "parts_safe opts (field_ty f)"
  shows "field_safe opts f"
  unfolding field_safe_def
proof (intro allI impI)
  fix bo scopes
  assume ok: "scopes_ok scopes" "scopes \<noteq> []" and w: "fixed_total (hd scopes) + own_width (field_ty f) \<le> usize_max"
  note len = safe_build_len [OF ok(1)]
  have named: "safe (bind_res (named_only name what) h) Q" if "\<And>n. safe (h n) Q" for name what h and Q :: "scope list \<Rightarrow> bool"
    by (rule safe_bind [where P = "\<lambda>_. True"]) (use that in \<open>auto simp: named_only_def\<close>)
  note pushed = safe_push_value [OF _ ok(2)]
  note simps = safe_push_bits_field [OF ok] safe_push_digest_field [OF ok] upd_ok_refl [OF ok(1)] ok
  have fixed: "safe (push_fixed_field kind n refable is_const scopes) (grows k scopes)"
    if "kind_ok None kind" "fix_width kind = k" "own_width (field_ty f) = k" for kind n refable is_const k
    using safe_push_fixed_field [OF ok, of kind n] that w by simp
  show "safe (compile_field opts f bo scopes) (grows (own_width (field_ty f)) scopes)"
    unfolding compile_field.simps
  proof (rule safe_bind [OF safe_check_name [OF ok(2)]], cases "field_ty f", goal_cases)
    case (1 name prim order const)
    then show ?case by (auto intro!: safe_bind [OF safe_int_kind] fixed)
  next
    case (2 name is64 order)
    then show ?case by (auto intro!: fixed)
  next
    case (3 name const)
    then show ?case by (auto intro!: fixed)
  next
    case (4 name len const)
    then show ?case by (auto intro!: safe_bind [OF safe_raw_kind] fixed)
  next
    case (5 name l mx)
    then show ?case using ty by (auto simp del: wf_val.simps intro!: named safe_bind [OF len] pushed)
  next
    case (6 name l mx encoding errors)
    then show ?case using ty
      by (auto simp del: wf_val.simps intro!: named safe_bind [OF safe_parse_enc] safe_bind [OF len] pushed)
  next
    case (7 name mx encoding errors)
    then show ?case by (auto simp: simps simp del: wf_val.simps intro!: named safe_bind [OF safe_parse_enc] pushed)
  next
    case (8 name width sgnd)
    then show ?case by (simp add: simps)
  next
    case (9 name base order fnames rest)
    then show ?case by (auto simp: simps simp del: wf_val.simps intro!: named safe_bind [OF safe_flags_op] pushed)
  next
    case (10 name aname ov over verify)
    then show ?case by (auto simp: simps intro!: named)
  next
    case (11 name flds order sz)
    then have sc: "scope_safe opts flds" and sz: "\<And>e. sz = Some e \<Longrightarrow> imms_ok e"
      using ty parts by (simp_all add: parts_safe_def)
    show ?case using 11
      by (auto simp del: wf_val.simps wf_prog.simps
        intro!: named safe_bind [OF safe_nest_size [OF ok(1) sz]] safe_bind [OF safe_nested [OF sc]]
          safe_bind [OF safe_check_size] pushed)
  next
    case (12 name elem count until_eof)
    then have e: "elem_safe (compile_elem opts elem bo)" and count: "\<And>e. count = Some e \<Longrightarrow> imms_ok e"
      using ty parts by (simp_all add: parts_safe_def)
    show ?case using 12
      by (auto simp del: wf_val.simps
        intro!: named safe_bind [OF safe_array_op [OF ok, of "\<lambda>ty s. compile_elem opts ty bo s", OF e count]] pushed)
  next
    case (13 name on cases dflt)
    have sw: "safe (switch_parts (\<lambda>ty s. compile_elem opts ty bo s) on cases dflt scopes) (\<lambda>((e, compiled, d), scopes').
        upd_ok scopes scopes' \<and> wf_val (length scopes) (OpSwitch e compiled d c))" for c
      using 13 ty parts by (intro safe_switch_parts ok) (auto simp: parts_safe_def)
    show ?case using 13
      by (auto simp del: wf_val.simps intro!: named safe_bind [OF sw] pushed)
  next
    case (14 name pred thn)
    then have p: "imms_ok pred" and t: "elem_safe (compile_elem opts thn bo)"
      using ty parts by (simp_all add: parts_safe_def)
    have cond: "safe (push_named (OpCond e op (common_named n)) n False False s1) (grows 0 scopes)"
      if "upd_ok scopes s1" "expr_ok (length scopes) e" "wf_val (length scopes) op" for e op n s1
    proof -
      have "wf_op (length s1) (OpCond e op (common_named n))" using that by (simp add: upd_ok_length del: wf_val.simps)
      then have "safe (push_named (OpCond e op (common_named n)) n False False s1) (grows 0 s1)"
        using that ok by (intro safe_push_named) (auto simp: upd_ok_scopes upd_ok_Nil)
      then show ?thesis using that(1) ok(2) by (auto elim!: safe_mono intro: grows_upd)
    qed
    show ?case using 14
      by (auto simp del: wf_val.simps intro!: named safe_bind [OF safe_fold_expr [OF p]] safe_bind [OF safe_emit_expr [OF ok(1)]]
        safe_bind [OF safe_elem_after [OF t _ ok(2)]] cond)
  qed
qed

text \<open>Flags as an element go through a scope of their own, which holds just that opcode.\<close>

lemma elem_via_field_flags:
  "elem_via_field opts (TFlags base order fnames rest) bo scopes =
     bind_res (flags_op base order fnames rest bo ''_elem'') (\<lambda>op.
       Inr (map_common (\<lambda>c. c\<lparr>c_key := Skip\<rparr>) op, scopes))"
  by (simp add: elem_via_field.simps compile_field.simps [of _ "FieldIn (Some ''_elem'') _"] check_name_def
    named_only_def push_named_def push_op_def with_top_scope_def add_sym_def empty_scope_def bind_res_assoc)

lemma safe_elem_flags: "elem_safe (elem_via_field opts (TFlags base order fnames rest) bo)"
  by (auto simp: elem_safe_def elem_via_field_flags upd_ok_refl intro!: safe_bind [OF safe_flags_op])

lemma safe_elem_step:
  assumes ty: "ty_ok ty" and parts: "parts_safe opts ty"
  shows "elem_safe (compile_elem opts ty bo)"
  unfolding elem_safe_def
proof (intro allI impI)
  fix scopes
  assume ok: "scopes_ok scopes" "scopes \<noteq> []"
  note refl = upd_ok_refl [OF ok(1)]
  note len = safe_build_len [OF ok(1)]
  show "safe (compile_elem opts ty bo scopes) (\<lambda>(op, scopes'). upd_ok scopes scopes' \<and> wf_val (length scopes) op)"
    unfolding compile_elem.simps [of opts ty bo scopes]
  proof (cases ty, goal_cases)
    case (1 prim order const)
    then show ?case by (auto simp: refl wf_val_fixed1 simp del: wf_val.simps intro!: safe_bind [OF safe_int_kind])
  next
    case (4 l const)
    then show ?case by (auto simp: refl wf_val_fixed1 simp del: wf_val.simps intro!: safe_bind [OF safe_raw_kind])
  next
    case (5 l mx)
    then show ?case using ty by (auto simp del: wf_val.simps intro!: safe_bind [OF len])
  next
    case (6 l mx encoding errors)
    then show ?case using ty
      by (auto simp del: wf_val.simps intro!: safe_bind [OF len] safe_bind [OF safe_parse_enc])
  next
    case (7 mx encoding errors)
    then show ?case by (auto simp: refl simp del: wf_val.simps intro!: safe_bind [OF safe_parse_enc])
  next
    case (9 base order fnames rest)
    then show ?case using elem_safeD [OF safe_elem_flags ok] by simp
  next
    case (11 flds order sz)
    then have sc: "scope_safe opts flds" and sz: "\<And>e. sz = Some e \<Longrightarrow> imms_ok e"
      using ty parts by (simp_all add: parts_safe_def)
    show ?case using 11
      by (auto simp del: wf_val.simps wf_prog.simps
        intro!: safe_bind [OF safe_nest_size [OF ok(1) sz]] safe_bind [OF safe_nested [OF sc]])
  next
    case (12 elem count until_eof)
    then have e: "elem_safe (compile_elem opts elem bo)" and count: "\<And>e. count = Some e \<Longrightarrow> imms_ok e"
      using ty parts by (simp_all add: parts_safe_def)
    have "safe (array_op opts (\<lambda>ty s. compile_elem opts ty bo s) elem count until_eof common_skip scopes)
        (\<lambda>(op, scopes'). upd_ok scopes scopes' \<and> wf_val (length scopes) op)"
      by (rule safe_mono [OF safe_array_op [OF ok, of "\<lambda>ty s. compile_elem opts ty bo s", OF e count]])
        (auto simp del: wf_val.simps)
    then show ?case using 12 by simp
  next
    case (13 on cases dflt)
    have "safe (switch_parts (\<lambda>ty s. compile_elem opts ty bo s) on cases dflt scopes) (\<lambda>((e, compiled, d), scopes').
        upd_ok scopes scopes' \<and> wf_val (length scopes) (OpSwitch e compiled d common_skip))"
      using 13 ty parts by (intro safe_switch_parts ok) (auto simp: parts_safe_def)
    then show ?case using 13
      by (auto simp del: wf_val.simps intro!: safe_bind)
  qed (auto simp: refl wf_val_fixed1 simp del: wf_val.simps)
qed

lemma size_field_ty: "f \<in> set flds \<Longrightarrow> size (field_ty f) < size_list size flds"
proof -
  assume "f \<in> set flds"
  then have "size f \<le> size_list size flds" by (rule size_field_in_fields)
  moreover have "size (field_ty f) < size f" by (cases f) simp
  ultimately show ?thesis by simp
qed

lemma parts_safe_walk:
  "ty_ok ty \<Longrightarrow> (\<And>ty'. size ty' < size ty \<Longrightarrow> ty_ok ty' \<Longrightarrow> parts_safe opts ty') \<Longrightarrow> parts_safe opts ty"
proof (cases ty)
  case (TStruct flds order sz)
  assume ok: "ty_ok ty" and ih: "\<And>ty'. size ty' < size ty \<Longrightarrow> ty_ok ty' \<Longrightarrow> parts_safe opts ty'"
  have "field_safe opts f" if "f \<in> set flds" for f
    using ok ih [of "field_ty f"] size_field_ty [OF that] that
    by (intro safe_field_step) (auto simp: TStruct list_all_iff field_ok_ty)
  then show ?thesis using ok safe_compile_scope_step by (simp add: TStruct parts_safe_def)
next
  case (TSwitch on cases dflt)
  assume ok: "ty_ok ty" and ih: "\<And>ty'. size ty' < size ty \<Longrightarrow> ty_ok ty' \<Longrightarrow> parts_safe opts ty'"
  have "size (snd c) < size ty" if "c \<in> set cases" for c
    using size_case_type [of "fst c" "snd c" cases] that by (simp add: TSwitch)
  then show ?thesis using ok ih
    by (auto simp: parts_safe_def TSwitch list_all_iff intro!: safe_elem_step)
qed (auto simp: parts_safe_def intro!: safe_elem_step)

lemma parts_safe: "ty_ok ty \<Longrightarrow> parts_safe opts ty"
  by (induction ty rule: measure_induct_rule [of size]) (rule parts_safe_walk)

section \<open>Properties\<close>

lemma safe_compile:
  assumes "schema_ok flds"
  shows "safe (compile flds opts) (\<lambda>prog. wf_prog 0 prog \<and> frame_depth prog \<le> MAX_DEPTH)"
proof -
  have "field_safe opts f" if "f \<in> set flds" for f
    using assms that parts_safe by (auto intro!: safe_field_step simp: schema_ok_def list_all_iff field_ok_ty)
  then have scope: "scope_safe opts flds"
    using assms by (intro safe_compile_scope_step) (simp_all add: schema_ok_def)
  have "safe (compile_scope opts flds (o_byteorder opts) []) (\<lambda>(prog, _). wf_prog 0 prog)"
    by (rule safe_mono [OF scope [unfolded scope_safe_def, rule_format]]) (auto simp del: wf_prog.simps)
  then show ?thesis unfolding compile_def
    by (rule safe_bind) (auto simp del: wf_prog.simps)
qed

text \<open>C5: the compiler returns on every schema whose fixed fields fit a \<open>usize\<close>: a schema error or a
  program, never a panic; none of its \<open>unreachable!\<close>, \<open>expect\<close> and index expressions fires.\<close>

theorem compile_never_panics:
  assumes "schema_ok flds"
  shows "no_panic (compile flds opts)"
  by (rule safe_no_panic [OF safe_compile [OF assms]])

theorem compile_never_panics_witness:
  "no_panic (compile [FieldIn (Some ''n'') (TInt U8 None None), FieldIn (Some ''b'') (TBytes (ERef ''n'') None)] default_options)"
  by (rule compile_never_panics) (simp add: schema_ok_def widths_fit_def usize_max_def)


text \<open>A length-prefixed byte string, the running example of the witnesses.\<close>

definition blob_schema :: "field_in list" where
  "blob_schema = [FieldIn (Some ''n'') (TInt U8 None None), FieldIn (Some ''b'') (TBytes (ERef ''n'') None)]"

definition small_options :: options where
  "small_options = \<lparr>o_byteorder = Big, o_max_default = 10, o_max_count = 10\<rparr>"

definition blob_program :: program where
  "blob_program =
     Program [OpFixed 1 [\<lparr>fi_off = 0, fi_kind = FInt U8 True None True, fi_reg = Some 0, fi_span = None, fi_key = Named ''n''\<rparr>],
        OpBytes (LenExpr (Expr [IReg \<lparr>reg_up = 0, reg_idx = 0\<rparr>])
          (Some \<lparr>inv_reg = \<lparr>reg_up = 0, reg_idx = 0\<rparr>, inv_a = 1, inv_b = 0\<rparr>)) 10 (common_named ''b'')] 1 0 1 None"

lemma compile_blob: "compile blob_schema small_options = Inr blob_program"
  unfolding blob_schema_def small_options_def blob_program_def by code_simp

lemma schema_ok_blob: "schema_ok blob_schema"
  by (simp add: blob_schema_def schema_ok_def widths_fit_def usize_max_def)


text \<open>C28: two raw fields of \<open>2 ^ 63\<close> bytes make the compiler's unchecked sum of the run's width wrap to
  zero; the schema compiles, to a program whose unpacking panics on every buffer.\<close>

theorem wide_fixed_run_wraps:
  "\<exists>prog. compile [FieldIn None (TRaw (Some (2 ^ 63)) None), FieldIn None (TRaw (Some (2 ^ 63)) None)] opts = Inr prog \<and>
     \<not> wf_prog 0 prog \<and> (length buf < 2 ^ 63 \<longrightarrow> run H prog buf offset exact stream = panic)"
proof -
  let ?item = "\<lambda>off. \<lparr>fi_off = off, fi_kind = FRaw (2 ^ 63) None, fi_reg = None, fi_span = None, fi_key = Skip\<rparr>"
  let ?prog = "Program [OpFixed 0 [?item 0, ?item (2 ^ 63)]] 0 0 0 (Some 0)"
  have "compile [FieldIn None (TRaw (Some (2 ^ 63)) None), FieldIn None (TRaw (Some (2 ^ 63)) None)] opts = Inr ?prog"
    by (simp add: compile_def compile_scope.simps compile_field.simps check_name_def raw_kind_def push_fixed_field_def
      push_fixed_def with_top_scope_def add_sym_def empty_scope_def close_scope_def resolve_deferred_derives_def
      finish_scope_def wrapping_add_def saturating_add_def add_static_def ops_min_def ops_static_def MAX_DEPTH_def)
  moreover have "\<not> wf_prog 0 ?prog" by (simp add: fixed_item_ok_def)
  moreover have "run H ?prog buf offset exact stream = panic" if "length buf < 2 ^ 63"
    using that by (simp add: run_def run_with_def run_struct.simps run_op.simps run_fixed_def need_def saturating_add_def usize_max_def
      fixed_step_def read_fixed_item_def slice_res_def MAX_DEPTH_def)
  ultimately show ?thesis by blast
qed

theorem wide_fixed_run_wraps_witness:
  "\<exists>prog. compile [FieldIn None (TRaw (Some (2 ^ 63)) None), FieldIn None (TRaw (Some (2 ^ 63)) None)] default_options = Inr prog \<and>
     run zero_hashes prog [] 0 True False = panic"
  using wide_fixed_run_wraps [of default_options "[]" zero_hashes 0 True False] by auto

end
