(* ===== verification/Flag_Masks.thy ===== *)
theory Flag_Masks
  imports Round_Flags Compile
begin

text \<open>
  The masks of a flags field as the compiler checks them: each is one stretch of bits, inside the
  base integer and beside the masks before it.
\<close>

lemma trailing_zeros_bits:
  assumes "m \<noteq> 0"
  shows "bit m (trailing_zeros m)" and "i < trailing_zeros m \<Longrightarrow> \<not> bit m i"
proof -
  let ?P = "\<lambda>i. \<not> bit m i"
  have "\<exists>i \<in> set [0..<64]. bit m i"
  proof (rule ccontr)
    assume "\<not> ?thesis"
    then have "\<not> bit m i" for i using bit_imp_le_length [of m i] by fastforce
    then show False using assms by (simp add: bit_eq_iff)
  qed
  then have len: "length (takeWhile ?P [0..<64]) < length [0..<64]"
    using length_takeWhile_le [of ?P "[0..<64]"] takeWhile_eq_all_conv [of ?P "[0..<64]"] takeWhile_eq_take [of ?P "[0..<64]"]
    by (metis le_neq_implies_less order_refl take_all)
  show "bit m (trailing_zeros m)"
    using nth_length_takeWhile [OF len] len by (simp add: trailing_zeros_def)
  show "\<not> bit m i" if "i < trailing_zeros m"
  proof -
    have i: "i < length (takeWhile ?P [0..<64])" using that by (simp add: trailing_zeros_def)
    then have "?P (takeWhile ?P [0..<64] ! i)" using nth_mem set_takeWhileD by fastforce
    moreover have "takeWhile ?P [0..<64] ! i = i" using i len by (simp add: takeWhile_nth)
    ultimately show ?thesis by simp
  qed
qed

text \<open>A word that shares no bit with its successor is a mask.\<close>

lemma contiguous_mask:
  fixes low :: "64 word"
  assumes "low AND (low + 1) = 0"
  obtains k where "k \<le> 64" "low = Bit_Operations.mask k"
proof (cases "\<exists>k < 64. \<not> bit low k")
  case False
  then have "low = Bit_Operations.mask 64"
    by (auto simp: bit_eq_iff bit_mask_iff)
  then show thesis using that [of 64] by simp
next
  case True
  then obtain j where j: "j < 64" "\<not> bit low j" by blast
  obtain k where k: "\<not> bit low k" "\<forall>i < k. bit low i" using exists_least_iff [of "\<lambda>k. \<not> bit low k"] j(2) by blast
  then have k64: "k < 64" using j by (meson leD le_less_trans not_le_imp_less)
  let ?h = "drop_bit (Suc k) low"
  have "take_bit (Suc k) low = Bit_Operations.mask k"
    by (rule bit_eqI) (use k k64 in \<open>auto simp: bit_take_bit_iff bit_mask_iff less_Suc_eq\<close>)
  then have "low = push_bit (Suc k) ?h + Bit_Operations.mask k" using bits_ident [of "Suc k" low] by simp
  then have "low + 1 = push_bit (Suc k) ?h + Bit_Operations.mask k + 1" by (rule arg_cong)
  then have "low + 1 = push_bit (Suc k) ?h + 2 ^ k" unfolding mask_eq_exp_minus_1 by (simp only: add.assoc diff_add_cancel)
  also have "\<dots> = push_bit (Suc k) ?h OR 2 ^ k"
    by (rule disjunctive_add) (auto simp: bit_push_bit_iff bit_exp_iff simp del: push_bit_Suc)
  finally have sum: "low + 1 = push_bit (Suc k) ?h OR 2 ^ k" .
  have "drop_bit (Suc k) (low + 1) = ?h"
  proof (rule bit_eqI)
    fix n
    show "bit (drop_bit (Suc k) (low + 1)) n = bit ?h n"
      unfolding sum using bit_imp_le_length [of low "Suc k + n"]
      by (auto simp: bit_drop_bit_eq bit_or_iff bit_push_bit_iff bit_exp_iff simp del: push_bit_Suc)
  qed
  then have "drop_bit (Suc k) (low AND (low + 1)) = ?h" by (simp add: drop_bit_and)
  then have h: "?h = 0" using assms by simp
  have "bit low i \<longleftrightarrow> i < k" for i
  proof (cases "i \<le> k")
    case True
    then show ?thesis using k by (cases "i = k") auto
  next
    case False
    then have "bit low i = bit ?h (i - Suc k)" by (simp add: bit_drop_bit_eq)
    then show ?thesis using False h by simp
  qed
  then have "low = Bit_Operations.mask k" using k64 by (auto simp: bit_eq_iff bit_mask_iff)
  then show thesis using that [of k] k64 by simp
qed

lemma count_ones_mask: "k \<le> 64 \<Longrightarrow> count_ones (Bit_Operations.mask k) = k"
proof -
  assume k: "k \<le> 64"
  have "filter (bit (Bit_Operations.mask k :: 64 word)) [0..<64] = filter (\<lambda>i. i < k) ([0..<k] @ [k..<64])"
    using k upt_add_eq_append [of 0 k "64 - k"] by (intro filter_cong) (auto simp: bit_mask_iff)
  also have "\<dots> = [0..<k]" by simp
  finally show ?thesis by (simp add: count_ones_def)
qed

lemma mask_one_flag:
  assumes m: "m \<noteq> 0" and low: "drop_bit (trailing_zeros m) m AND (drop_bit (trailing_zeros m) m + 1) = 0"
    and i: "fl_mask i = m" "fl_shift i = trailing_zeros m"
  shows "flag_ok i" and "\<And>n. fl_shift i + flag_width i = Suc n \<Longrightarrow> bit m n"
proof -
  let ?t = "trailing_zeros m"
  obtain k where k: "k \<le> 64" "drop_bit ?t m = Bit_Operations.mask k" by (rule contiguous_mask [OF low])
  have w: "flag_width i = k" by (simp add: flag_width_def i k(2) count_ones_mask [OF k(1)])
  have t: "bit m ?t" "?t < 64" using trailing_zeros_bits(1) [OF m] bit_imp_le_length by fastforce+
  have bits: "bit m (?t + n) \<longleftrightarrow> n < k \<and> n < 64" for n
    using arg_cong [OF k(2), of "\<lambda>w. bit w n"] by (auto simp: bit_drop_bit_eq bit_mask_iff)
  have pos: "0 < k" using bits [of 0] t(1) by simp
  have "k - 1 < k" "k - 1 < 64" using pos k(1) by linarith+
  then have top: "bit m (?t + (k - 1))" using bits by blast
  then have "?t + (k - 1) < 64" using bit_imp_le_length [of m "?t + (k - 1)"] by simp
  then have le: "?t + k \<le> 64" using pos by linarith
  have "bit m n \<longleftrightarrow> bit (push_bit ?t (Bit_Operations.mask k) :: 64 word) n" for n
  proof (cases "?t \<le> n")
    case True
    then show ?thesis using bits [of "n - ?t"] le by (auto simp: bit_push_mask)
  next
    case False
    then show ?thesis using trailing_zeros_bits(2) [OF m] by (simp add: bit_push_bit_iff)
  qed
  then have "m = push_bit ?t (Bit_Operations.mask k)" by (simp add: bit_eq_iff)
  then show "flag_ok i" using pos le by (simp add: flag_ok_def w i)
  show "bit m n" if "fl_shift i + flag_width i = Suc n" for n
  proof -
    have "n = ?t + (k - 1)" using that pos by (simp add: w i)
    then show ?thesis using top by simp
  qed
qed

end
