(* ===== verification/Layout.thy ===== *)
theory Layout
  imports Round_Trip Compile_Safety Flag_Masks
begin

text \<open>
  What the compiler guarantees beyond well-formedness: fields of a run follow one another, names and
  registers differ inside a struct, flags do not overlap, and an inverted length is the one its
  expression computes. With windows that end (below), these are the programs of \<open>Round_Trip\<close>.
\<close>

section \<open>Results, if any\<close>

definition gives :: "('e, 'a) res \<Rightarrow> ('a \<Rightarrow> bool) \<Rightarrow> bool" where
  "gives m Q \<longleftrightarrow> (\<forall>a. m = Inr a \<longrightarrow> Q a)"

lemma gives_simps [simp]: "gives (Inr a) Q \<longleftrightarrow> Q a" "gives (Inl e) Q"
  by (simp_all add: gives_def)

lemma gives_bind: "gives m P \<Longrightarrow> (\<And>a. P a \<Longrightarrow> gives (f a) Q) \<Longrightarrow> gives (bind_res m f) Q"
  by (auto simp: gives_def bind_res_eq_Inr)

lemma gives_any: "(\<And>a. gives (f a) Q) \<Longrightarrow> gives (bind_res m f) Q"
  by (auto simp: gives_def bind_res_eq_Inr)

lemma gives_mono: "gives m P \<Longrightarrow> (\<And>a. P a \<Longrightarrow> Q a) \<Longrightarrow> gives m Q"
  by (auto simp: gives_def)

lemma gives_fold_res: "P s \<Longrightarrow> (\<And>x s. x \<in> set xs \<Longrightarrow> P s \<Longrightarrow> gives (f x s) P) \<Longrightarrow> gives (fold_res f xs s) P"
  by (induction xs arbitrary: s) (auto intro: gives_bind)

lemma gives_nth_res: "gives (nth_res xs i) (\<lambda>x. i < length xs \<and> x = xs ! i)"
  by (simp add: gives_def nth_res_def)

section \<open>Runs of fixed fields\<close>

definition item_span :: "fixed_item \<Rightarrow> nat \<times> nat" where
  "item_span i = (fi_off i, fix_width (fi_kind i))"

text \<open>Where a field ends is where the next begins; the sum of the code may wrap.\<close>

definition follows :: "nat \<times> nat \<Rightarrow> nat \<times> nat \<Rightarrow> bool" where
  "follows p q \<longleftrightarrow> fst q = fst p + snd p \<or> fst q = wrapping_add (fst p) (snd p)"

definition laid :: "nat \<Rightarrow> fixed_item list \<Rightarrow> bool" where
  "laid width items \<longleftrightarrow>
     successively follows (map item_span items @ [(width, 0)]) \<and> (2 \<le> length items \<longrightarrow> width \<le> usize_max)"

lemma laid_apart:
  assumes "laid width items" and ok: "list_all (fixed_item_ok width) items"
  shows "apart items"
proof (cases "2 \<le> length items")
  case True
  then have w: "width \<le> usize_max" using assms(1) by (simp add: laid_def)
  let ?R = "\<lambda>i j. fi_off i + fix_width (fi_kind i) \<le> fi_off j"
  have "successively follows (map item_span items)" using assms(1) by (simp add: laid_def successively_append_iff)
  then have "successively ?R items"
    using ok
  proof (induction items rule: induct_list012)
    case (3 i j items)
    have "fi_off i + fix_width (fi_kind i) \<le> usize_max" using 3(4) w by (simp add: fixed_item_ok_def)
    then have "?R i j" using 3(3) by (auto simp: follows_def item_span_def wrapping_add_def usize_max_def)
    then show ?case using 3 by simp
  qed simp_all
  then have "sorted_wrt ?R items" by (rule successively_iff_sorted_wrt_strong [THEN iffD1, rotated]) auto
  then show ?thesis by (simp add: apart_def)
next
  case False
  then show ?thesis by (cases items; cases "tl items") (auto simp: apart_def)
qed

lemma laid_one: "laid (fix_width kind) [\<lparr>fi_off = 0, fi_kind = kind, fi_reg = r, fi_span = s, fi_key = k\<rparr>]"
  by (simp add: laid_def follows_def item_span_def)

lemma laid_push:
  assumes "laid width items" and "items \<noteq> []"
  shows "laid (wrapping_add width (fix_width kind)) (items @ [\<lparr>fi_off = width, fi_kind = kind, fi_reg = r, fi_span = s, fi_key = k\<rparr>])"
proof -
  have "successively follows (map item_span items @ [(width, 0)])" using assms(1) by (simp add: laid_def)
  then have "successively follows (map item_span items @ [(width, fix_width kind)])"
    by (simp add: successively_append_iff follows_def split: if_splits)
  then have "successively follows ((map item_span items @ [(width, fix_width kind)]) @ [(wrapping_add width (fix_width kind), 0)])"
    by (simp add: successively_append_iff follows_def)
  moreover have "wrapping_add width (fix_width kind) \<le> usize_max" by (simp add: wrapping_add_def usize_max_def)
  ultimately show ?thesis by (simp add: laid_def item_span_def)
qed

lemma laid_cong: "map item_span items' = map item_span items \<Longrightarrow> laid width items' = laid width items"
  using map_eq_imp_length_eq [of item_span items' item_span items] by (simp add: laid_def)

section \<open>Programs\<close>

fun lay_prog :: "program \<Rightarrow> bool" and lay_op :: "op \<Rightarrow> bool" and lay_val :: "op \<Rightarrow> bool" where
  "lay_prog (Program ops _ _ _ _) \<longleftrightarrow>
     list_all lay_op ops \<and> distinct (concat (map entry_names ops)) \<and> distinct (concat (map entry_regs ops))"
| "lay_op op \<longleftrightarrow>
     (case op of
        OpFixed width items \<Rightarrow> items \<noteq> [] \<and> laid width items
      | OpBitRun nbytes items \<Rightarrow> True
      | OpDigest algo over verify be c \<Rightarrow> True
      | OpCond pred thn c \<Rightarrow> lay_val thn
      | _ \<Rightarrow> lay_val op)"
| "lay_val op \<longleftrightarrow>
     (case op of
        OpFixed width items \<Rightarrow> fi_reg (items ! 0) = None
      | OpBytes len mx c \<Rightarrow> len_reads len
      | OpStr len mx e c \<Rightarrow> len_reads len
      | OpCStr mx e c \<Rightarrow> True
      | OpFlags prim be items rest rest_mask c \<Rightarrow> flags_ok prim items rest rest_mask
      | OpNest prog sz c \<Rightarrow> lay_prog prog \<and> (case sz of Some len \<Rightarrow> len_reads len | None \<Rightarrow> True)
      | OpArray count mc elem em c \<Rightarrow> lay_val elem \<and> (case count of CountExpr e iv \<Rightarrow> len_reads (LenExpr e iv) | UntilEof \<Rightarrow> True)
      | OpSwitch on cases dflt c \<Rightarrow> list_all (\<lambda>x. lay_val (snd x)) cases \<and> (case dflt of Some op \<Rightarrow> lay_val op | None \<Rightarrow> True)
      | _ \<Rightarrow> False)"

text \<open>What a program needs besides to be read back: no digest, a field that takes all that is left only
  at the end of its struct, elements that say where they end and take at least a byte, and no run
  wider than a vector can be (\<open>pack_resize_wraps\<close> is what happens to a wider one).\<close>

fun win_prog :: "program \<Rightarrow> bool" and win_op :: "op \<Rightarrow> bool" where
  "win_prog (Program ops _ _ _ _) \<longleftrightarrow> list_all win_op ops \<and> list_all sd_op (butlast ops)"
| "win_op (OpFixed width _) \<longleftrightarrow> width \<le> isize_max"
| "win_op (OpBitRun nbytes _) \<longleftrightarrow> nbytes \<le> isize_max"
| "win_op (OpDigest _ _ _ _ _) \<longleftrightarrow> False"
| "win_op (OpNest prog _ _) \<longleftrightarrow> win_prog prog"
| "win_op (OpArray count _ elem em _) \<longleftrightarrow> win_op elem \<and> sd_op elem \<and> (count = UntilEof \<longrightarrow> 0 < em)"
| "win_op (OpSwitch _ cases dflt _) \<longleftrightarrow> list_all (\<lambda>x. win_op (snd x)) cases \<and> (case dflt of Some op \<Rightarrow> win_op op | None \<Rightarrow> True)"
| "win_op (OpCond _ thn _) \<longleftrightarrow> win_op thn"
| "win_op _ \<longleftrightarrow> True"

lemma rt_of_layout:
  "wf_prog d prog \<Longrightarrow> lay_prog prog \<Longrightarrow> win_prog prog \<Longrightarrow> rt_prog prog"
  "wf_op d op \<Longrightarrow> lay_op op \<Longrightarrow> win_op op \<Longrightarrow> rt_op op"
  "wf_val d op \<Longrightarrow> lay_val op \<Longrightarrow> win_op op \<Longrightarrow> rt_val op"
proof (induction prog and op and op arbitrary: d and d and d rule: rt_prog_rt_op_rt_val.induct)
  case (1 ops a b c e)
  then show ?case by (auto simp: list_all_iff)
next
  case (2 op)
  then show ?case by (cases op) (auto intro: laid_apart)
next
  case (3 op)
  then show ?case by (cases op) (fastforce simp: list_all_iff split: option.splits count_src.splits)+
qed

section \<open>Scopes\<close>

definition scope_names :: "scope \<Rightarrow> string list" where
  "scope_names s = map sy_name (sc_syms s)"

definition scope_regs :: "scope \<Rightarrow> nat list" where
  "scope_regs s = concat (map entry_regs (sc_ops s))"

text \<open>A scope under construction: its symbols are its names in order, and its registers are distinct.\<close>

definition lay_scope :: "scope \<Rightarrow> bool" where
  "lay_scope s \<longleftrightarrow>
     list_all lay_op (sc_ops s) \<and> concat (map entry_names (sc_ops s)) = scope_names s \<and> distinct (scope_names s) \<and>
     distinct (scope_regs s) \<and> (\<forall>r \<in> set (scope_regs s). r < sc_nregs s)"

definition lay_scopes :: "scope list \<Rightarrow> bool" where
  "lay_scopes = list_all lay_scope"

lemma lay_scopes_simps [simp]: "lay_scopes []" "lay_scopes (s # rest) \<longleftrightarrow> lay_scope s \<and> lay_scopes rest"
  by (simp_all add: lay_scopes_def)

lemma lay_empty [simp]: "lay_scope empty_scope"
  by (simp add: lay_scope_def scope_names_def scope_regs_def empty_scope_def)

lemma concat_upd:
  assumes "i < length xs"
  shows "concat (map f (xs[i := x])) = concat (map f (take i xs)) @ f x @ concat (map f (drop (Suc i) xs))"
    and "concat (map f xs) = concat (map f (take i xs)) @ f (xs ! i) @ concat (map f (drop (Suc i) xs))"
proof -
  show "concat (map f (xs[i := x])) = concat (map f (take i xs)) @ f x @ concat (map f (drop (Suc i) xs))"
    by (simp add: upd_conv_take_nth_drop assms)
  show "concat (map f xs) = concat (map f (take i xs)) @ f (xs ! i) @ concat (map f (drop (Suc i) xs))"
    by (subst id_take_nth_drop [OF assms]) simp
qed

lemma item_regs_append [simp]: "item_regs (xs @ ys) = item_regs xs @ item_regs ys"
  by (induction xs) (auto split: option.split)

lemma item_regs_upd:
  assumes "j < length rs" and "distinct (item_regs rs)" and "n \<notin> set (item_regs rs)"
  shows "distinct (item_regs (rs[j := Some n]))" "set (item_regs (rs[j := Some n])) \<subseteq> insert n (set (item_regs rs))"
proof -
  have rs: "item_regs rs = item_regs (take j rs) @ item_regs [rs ! j] @ item_regs (drop (Suc j) rs)"
    using arg_cong [OF id_take_nth_drop [OF assms(1)], of item_regs] unfolding item_regs_append
    using item_regs_append [of "[rs ! j]" "drop (Suc j) rs"] by simp
  have upd: "item_regs (rs[j := Some n]) = item_regs (take j rs) @ n # item_regs (drop (Suc j) rs)"
    by (simp add: upd_conv_take_nth_drop assms(1))
  show "distinct (item_regs (rs[j := Some n]))" "set (item_regs (rs[j := Some n])) \<subseteq> insert n (set (item_regs rs))"
    using assms(2,3) unfolding upd rs by auto
qed

lemma lay_upd:
  assumes s: "lay_scope s" and i: "i < length (sc_ops s)" and op: "lay_op op" and nm: "entry_names op = entry_names (sc_ops s ! i)"
    and rg: "distinct (entry_regs op)" "set (entry_regs op) \<subseteq> set (entry_regs (sc_ops s ! i)) \<union> R"
    and R: "R \<inter> set (scope_regs s) = {}" "\<forall>r\<in>R. r < sc_nregs s"
  shows "lay_scope (s\<lparr>sc_ops := (sc_ops s)[i := op]\<rparr>)"
proof -
  let ?s = "s\<lparr>sc_ops := (sc_ops s)[i := op]\<rparr>"
  note names = concat_upd [OF i, of entry_names] and regs = concat_upd [OF i, of entry_regs]
  have nms: "concat (map entry_names (sc_ops ?s)) = scope_names ?s"
    using s nm names(1) [of op] names(2) by (simp add: lay_scope_def scope_names_def)
  have new: "scope_regs ?s = concat (map entry_regs (take i (sc_ops s))) @ entry_regs op @ concat (map entry_regs (drop (Suc i) (sc_ops s)))"
    by (simp add: scope_regs_def regs(1))
  have old: "scope_regs s = concat (map entry_regs (take i (sc_ops s))) @ entry_regs (sc_ops s ! i) @ concat (map entry_regs (drop (Suc i) (sc_ops s)))"
    by (simp add: scope_regs_def regs(2))
  have "distinct (scope_regs s)" "\<forall>r \<in> set (scope_regs s). r < sc_nregs s" using s by (simp_all add: lay_scope_def)
  then have "distinct (scope_regs ?s)" "\<forall>r \<in> set (scope_regs ?s). r < sc_nregs ?s"
    using rg R unfolding new old by (auto simp del: set_concat)
  moreover have "list_all lay_op (sc_ops ?s)"
    using s op by (auto simp: lay_scope_def list_all_iff dest!: set_update_subset_insert [THEN subsetD])
  ultimately show ?thesis using s nms by (simp add: lay_scope_def scope_names_def)
qed

lemma lay_same:
  assumes "lay_scope s" and "i < length (sc_ops s)" and "lay_op op" and "entry_names op = entry_names (sc_ops s ! i)"
    and "entry_regs op = entry_regs (sc_ops s ! i)"
  shows "lay_scope (s\<lparr>sc_ops := (sc_ops s)[i := op]\<rparr>)"
proof (rule lay_upd [OF assms(1-4), where R = "{}"])
  show "distinct (entry_regs op)"
    using assms(1) concat_upd(2) [OF assms(2), of entry_regs] unfolding assms(5) by (simp add: lay_scope_def scope_regs_def)
qed (simp_all add: assms(5))

text \<open>A scope whose symbols keep their names.\<close>

lemma lay_syms: "lay_scope s \<Longrightarrow> map sy_name ys = map sy_name (sc_syms s) \<Longrightarrow> lay_scope (s\<lparr>sc_syms := ys\<rparr>)"
  by (simp add: lay_scope_def scope_names_def scope_regs_def)

lemma map_upd_same: "j < length xs \<Longrightarrow> f (g (xs ! j)) = f (xs ! j) \<Longrightarrow> map f (xs[j := g (xs ! j)]) = map f xs"
  by (metis list_update_id map_update)

section \<open>Patches\<close>

text \<open>A change of an item that keeps its place and its key, and its register or takes one of \<open>R\<close>.\<close>

lemma lay_patch_fixed:
  assumes s: "lay_scope s" and g: "\<And>it. item_span (g it) = item_span it" "\<And>it. fi_key (g it) = fi_key it"
    and reg: "(\<forall>it. fi_reg (g it) = fi_reg it) \<or> (\<exists>n. (\<forall>it. fi_reg (g it) = Some n) \<and> n \<notin> set (scope_regs s) \<and> n < sc_nregs s)"
  shows "gives (patch_fixed i j g s) (\<lambda>s'. lay_scope s' \<and> sc_syms s' = sc_syms s)"
  unfolding patch_fixed_def
proof (rule gives_bind [OF gives_nth_res], elim conjE)
  fix op
  assume i: "i < length (sc_ops s)" and op: "op = sc_ops s ! i"
  show "gives (case op of OpFixed width items \<Rightarrow> bind_res (nth_res items j) (\<lambda>it. Inr (s\<lparr>sc_ops := (sc_ops s)[i := OpFixed width (items[j := g it])]\<rparr>))
      | _ \<Rightarrow> Inr s) (\<lambda>s'. lay_scope s' \<and> sc_syms s' = sc_syms s)"
  proof (cases "\<exists>width items. op = OpFixed width items")
    case True
    then obtain width items where o: "op = OpFixed width items" by blast
    have at: "sc_ops s ! i = OpFixed width items" using o op by simp
    have old: "lay_op (OpFixed width items)" using s i at by (auto simp: lay_scope_def list_all_length)
    have dr: "distinct (item_regs (map fi_reg items))" and sub: "set (item_regs (map fi_reg items)) \<subseteq> set (scope_regs s)"
      using s concat_upd(2) [OF i, of entry_regs] at by (auto simp: lay_scope_def scope_regs_def)
    have "lay_scope (s\<lparr>sc_ops := (sc_ops s)[i := OpFixed width (items[j := g (items ! j)])]\<rparr>)" if j: "j < length items"
    proof -
      let ?op = "OpFixed width (items[j := g (items ! j)])"
      have "map item_span (items[j := g (items ! j)]) = map item_span items" using j g(1) by (rule map_upd_same)
      then have lay: "lay_op ?op" using old laid_cong [of "items[j := g (items ! j)]" items width] by simp
      have names: "entry_names ?op = entry_names (sc_ops s ! i)" using map_upd_same [where f = fi_key and g = g, OF j g(2)] by (simp add: at)
      from reg show ?thesis
      proof
        assume "\<forall>it. fi_reg (g it) = fi_reg it"
        then have "entry_regs ?op = entry_regs (sc_ops s ! i)" using map_upd_same [where f = fi_reg and g = g, OF j] by (simp add: at)
        then show ?thesis by (rule lay_same [OF s i lay names])
      next
        assume "\<exists>n. (\<forall>it. fi_reg (g it) = Some n) \<and> n \<notin> set (scope_regs s) \<and> n < sc_nregs s"
        then obtain n where n: "\<And>it. fi_reg (g it) = Some n" "n \<notin> set (scope_regs s)" "n < sc_nregs s" by blast
        have "entry_regs ?op = item_regs ((map fi_reg items)[j := Some n])" by (simp add: map_update n(1))
        moreover have "n \<notin> set (item_regs (map fi_reg items))" using n(2) sub by blast
        ultimately have "distinct (entry_regs ?op)" "set (entry_regs ?op) \<subseteq> set (entry_regs (sc_ops s ! i)) \<union> {n}"
          using item_regs_upd [of j "map fi_reg items" n] j dr by (simp_all add: at)
        then show ?thesis by (rule lay_upd [OF s i lay names]) (use n in auto)
      qed
    qed
    then show ?thesis by (cases "j < length items") (simp_all add: o nth_res_def)
  next
    case False
    then show ?thesis using s by (cases op) simp_all
  qed
qed

lemma lay_patch_bit:
  assumes s: "lay_scope s" and g: "\<And>it. bi_key (g it) = bi_key it"
    and reg: "(\<forall>it. bi_reg (g it) = bi_reg it) \<or> (\<exists>n. (\<forall>it. bi_reg (g it) = Some n) \<and> n \<notin> set (scope_regs s) \<and> n < sc_nregs s)"
  shows "gives (patch_bit i j g s) (\<lambda>s'. lay_scope s' \<and> sc_syms s' = sc_syms s)"
  unfolding patch_bit_def
proof (rule gives_bind [OF gives_nth_res], elim conjE)
  fix op
  assume i: "i < length (sc_ops s)" and op: "op = sc_ops s ! i"
  show "gives (case op of OpBitRun nbytes items \<Rightarrow> bind_res (nth_res items j) (\<lambda>it. Inr (s\<lparr>sc_ops := (sc_ops s)[i := OpBitRun nbytes (items[j := g it])]\<rparr>))
      | _ \<Rightarrow> Inr s) (\<lambda>s'. lay_scope s' \<and> sc_syms s' = sc_syms s)"
  proof (cases "\<exists>nbytes items. op = OpBitRun nbytes items")
    case True
    then obtain nbytes items where o: "op = OpBitRun nbytes items" by blast
    have at: "sc_ops s ! i = OpBitRun nbytes items" using o op by simp
    have dr: "distinct (item_regs (map bi_reg items))" and sub: "set (item_regs (map bi_reg items)) \<subseteq> set (scope_regs s)"
      using s concat_upd(2) [OF i, of entry_regs] at by (auto simp: lay_scope_def scope_regs_def)
    have "lay_scope (s\<lparr>sc_ops := (sc_ops s)[i := OpBitRun nbytes (items[j := g (items ! j)])]\<rparr>)" if j: "j < length items"
    proof -
      let ?op = "OpBitRun nbytes (items[j := g (items ! j)])"
      have lay: "lay_op ?op" by simp
      have names: "entry_names ?op = entry_names (sc_ops s ! i)" using map_upd_same [where f = bi_key and g = g, OF j g] by (simp add: at)
      from reg show ?thesis
      proof
        assume "\<forall>it. bi_reg (g it) = bi_reg it"
        then have "entry_regs ?op = entry_regs (sc_ops s ! i)" using map_upd_same [where f = bi_reg and g = g, OF j] by (simp add: at)
        then show ?thesis by (rule lay_same [OF s i lay names])
      next
        assume "\<exists>n. (\<forall>it. bi_reg (g it) = Some n) \<and> n \<notin> set (scope_regs s) \<and> n < sc_nregs s"
        then obtain n where n: "\<And>it. bi_reg (g it) = Some n" "n \<notin> set (scope_regs s)" "n < sc_nregs s" by blast
        have "entry_regs ?op = item_regs ((map bi_reg items)[j := Some n])" by (simp add: map_update n(1))
        moreover have "n \<notin> set (item_regs (map bi_reg items))" using n(2) sub by blast
        ultimately have "distinct (entry_regs ?op)" "set (entry_regs ?op) \<subseteq> set (entry_regs (sc_ops s ! i)) \<union> {n}"
          using item_regs_upd [of j "map bi_reg items" n] j dr by (simp_all add: at)
        then show ?thesis by (rule lay_upd [OF s i lay names]) (use n in auto)
      qed
    qed
    then show ?thesis by (cases "j < length items") (simp_all add: o nth_res_def)
  next
    case False
    then show ?thesis using s by (cases op) simp_all
  qed
qed

section \<open>References\<close>

text \<open>What a step inside a scope keeps.\<close>

definition same_names :: "scope \<Rightarrow> scope \<Rightarrow> bool" where
  "same_names s s' \<longleftrightarrow> lay_scope s' \<and> scope_names s' = scope_names s"

lemma gives_set_sym:
  assumes "lay_scope s" and "\<And>y. sy_name (g y) = sy_name y"
  shows "gives (set_sym pos g s) (\<lambda>s'. same_names s s' \<and> pos < length (sc_syms s) \<and> s' = s\<lparr>sc_syms := (sc_syms s)[pos := g (sc_syms s ! pos)]\<rparr>)"
  using map_upd_same [where f = sy_name and g = g, of pos "sc_syms s"] assms lay_syms [OF assms(1), of "(sc_syms s)[pos := g (sc_syms s ! pos)]"]
  by (auto simp: gives_def set_sym_def bind_res_eq_Inr nth_res_def same_names_def scope_names_def split: if_splits)

lemma same_names_trans: "same_names a b \<Longrightarrow> same_names b c \<Longrightarrow> same_names a c"
  by (simp add: same_names_def)

lemma gives_patch_reg:
  assumes s: "lay_scope s" and idx: "idx \<notin> set (scope_regs s)" "idx < sc_nregs s"
  shows "gives (patch_reg pos idx s) (same_names s)"
  unfolding patch_reg_def
proof (rule gives_any)
  fix y
  show "gives (case sy_loc y of LocFix i item \<Rightarrow> patch_fixed i item (\<lambda>it. it\<lparr>fi_reg := Some idx\<rparr>) s
      | LocBit i item \<Rightarrow> patch_bit i item (\<lambda>it. it\<lparr>bi_reg := Some idx\<rparr>) s | LocOp _ \<Rightarrow> panic) (same_names s)"
  proof (cases "sy_loc y")
    case (LocFix i j)
    show ?thesis unfolding LocFix loc.case
      by (rule gives_mono [OF lay_patch_fixed [OF s]]) (use idx in \<open>auto simp: item_span_def same_names_def scope_names_def\<close>)
  next
    case (LocBit i j)
    show ?thesis unfolding LocBit loc.case
      by (rule gives_mono [OF lay_patch_bit [OF s]]) (use idx in \<open>auto simp: same_names_def scope_names_def\<close>)
  qed simp
qed

lemma lay_more_regs: "lay_scope s \<Longrightarrow> sc_nregs s \<le> n \<Longrightarrow> lay_scope (s\<lparr>sc_nregs := n\<rparr>)"
  by (fastforce simp: lay_scope_def scope_names_def scope_regs_def)

lemma gives_alloc_reg:
  assumes s: "lay_scope s"
  shows "gives (alloc_reg pos s) (same_names s)"
proof (cases "MAX_REGS \<le> sc_nregs s")
  case False
  let ?idx = "sc_nregs s" and ?s = "s\<lparr>sc_nregs := sc_nregs s + 1\<rparr>"
  have s1: "lay_scope ?s" using lay_more_regs [OF s] by simp
  have free: "?idx \<notin> set (scope_regs s)" using s by (auto simp: lay_scope_def)
  have "gives (bind_res (set_sym pos (\<lambda>y. y\<lparr>sy_reg := Some ?idx\<rparr>) ?s) (patch_reg pos ?idx)) (same_names s)"
  proof (rule gives_bind [OF gives_set_sym [OF s1]])
    fix s2
    assume a: "same_names ?s s2 \<and> pos < length (sc_syms ?s) \<and> s2 = ?s\<lparr>sc_syms := (sc_syms ?s)[pos := (sc_syms ?s ! pos)\<lparr>sy_reg := Some ?idx\<rparr>]\<rparr>"
    then have n: "same_names ?s s2" and e: "s2 = ?s\<lparr>sc_syms := (sc_syms ?s)[pos := (sc_syms ?s ! pos)\<lparr>sy_reg := Some ?idx\<rparr>]\<rparr>" by blast+
    have "lay_scope s2" "same_names s s2" using n by (simp_all add: same_names_def scope_names_def)
    moreover have "?idx \<notin> set (scope_regs s2)" "?idx < sc_nregs s2" using free e by (simp_all add: scope_regs_def)
    ultimately show "gives (patch_reg pos ?idx s2) (same_names s)"
      by (intro gives_mono [OF gives_patch_reg]) (auto intro: same_names_trans)
  qed simp
  then show ?thesis using False by (simp add: alloc_reg_def Let_def)
qed (simp add: alloc_reg_def)

lemma sy_mark_ref [simp]: "sy_name (mark_ref ctx y) = sy_name y" "sy_reg (mark_ref ctx y) = sy_reg y"
  by (cases ctx; simp add: mark_ref_def)+

text \<open>A reference gives the register of its symbol, which keeps it.\<close>

lemma gives_ref_in_scope:
  assumes s: "lay_scope s"
  shows "gives (ref_in_scope name ctx pos s) (\<lambda>(idx, s'). same_names s s' \<and> pos < length (sc_syms s) \<and>
    sy_reg (sc_syms s' ! pos) = Some idx \<and> (\<forall>r. sy_reg (sc_syms s ! pos) = Some r \<longrightarrow> idx = r))"
proof -
  have "same_names s s' \<and> pos < length (sc_syms s) \<and> sy_reg (sc_syms s' ! pos) = Some idx \<and> (\<forall>r. sy_reg (sc_syms s ! pos) = Some r \<longrightarrow> idx = r)"
    if "ref_in_scope name ctx pos s = Inr (idx, s')" for idx s'
  proof -
    from that obtain s1 where pos: "pos < length (sc_syms s)"
      and s1: "(if sy_reg (sc_syms s ! pos) = None then alloc_reg pos s else Inr s) = Inr s1"
      and s': "set_sym pos (mark_ref ctx) s1 = Inr s'" and idx: "sy_reg (sc_syms s' ! pos) = Some idx"
      by (auto simp: ref_in_scope_def bind_res_eq_Inr nth_res_def split: if_splits)
    have n1: "same_names s s1" using s1 gives_alloc_reg [OF s, of pos] s by (auto simp: gives_def same_names_def split: if_splits)
    then have l1: "lay_scope s1" by (simp add: same_names_def)
    have n2: "same_names s1 s'" "s' = s1\<lparr>sc_syms := (sc_syms s1)[pos := mark_ref ctx (sc_syms s1 ! pos)]\<rparr>" "pos < length (sc_syms s1)"
      using gives_set_sym [OF l1, of "mark_ref ctx" pos, OF sy_mark_ref(1)] s' unfolding gives_def by blast+
    have "idx = r" if "sy_reg (sc_syms s ! pos) = Some r" for r 
    proof -
      have "s1 = s" using s1 that by simp
      then have "sy_reg (sc_syms s' ! pos) = sy_reg (sc_syms s ! pos)" unfolding n2(2) using n2(3) by simp
      then show ?thesis using that idx by simp
    qed
    then show ?thesis using same_names_trans [OF n1 n2(1)] pos idx by blast
  qed
  then show ?thesis unfolding gives_def by blast
qed

section \<open>Resolving a name twice\<close>

lemma position_map: "position (\<lambda>y. f y = n) xs = position (\<lambda>m. m = n) (map f xs)"
  by (induction xs) auto

lemma same_names_position: "same_names s s' \<Longrightarrow> position (\<lambda>y. sy_name y = n) (sc_syms s') = position (\<lambda>y. sy_name y = n) (sc_syms s)"
  using position_map [of sy_name n "sc_syms s"] position_map [of sy_name n "sc_syms s'"] by (simp add: same_names_def scope_names_def)

fun settled_at :: "string \<Rightarrow> reg \<Rightarrow> nat \<Rightarrow> scope list \<Rightarrow> bool" where
  "settled_at name r up [] \<longleftrightarrow> False"
| "settled_at name r up (s # rest) \<longleftrightarrow>
     (case position (\<lambda>y. sy_name y = name) (sc_syms s) of
        None \<Rightarrow> settled_at name r (up + 1) rest
      | Some pos \<Rightarrow> sy_reg (sc_syms s ! pos) = Some (reg_idx r) \<and> reg_up r = up mod 256)"

lemma gives_resolve_from:
  "lay_scopes scopes \<Longrightarrow> gives (resolve_from name ctx up scopes) (\<lambda>(r, scopes'). lay_scopes scopes' \<and>
     list_all2 same_names scopes scopes' \<and> settled_at name r up scopes' \<and> (\<forall>r'. settled_at name r' up scopes \<longrightarrow> r = r'))"
proof (induction scopes arbitrary: up)
  case (Cons s rest)
  have s: "lay_scope s" "lay_scopes rest" using Cons.prems by simp_all
  have refl: "same_names s s" "list_all2 same_names rest rest"
    using s by (auto simp: same_names_def lay_scopes_def list_all2_conv_all_nth list_all_length)
  show ?case
  proof (cases "position (\<lambda>y. sy_name y = name) (sc_syms s)")
    case None
    then show ?thesis using Cons.IH [OF s(2), of "up + 1"] s refl by (auto simp: gives_def bind_res_eq_Inr)
  next
    case (Some pos)
    have "gives (bind_res (ref_in_scope name ctx pos s) (\<lambda>(idx, s). Inr (\<lparr>reg_up = up mod 256, reg_idx = idx\<rparr>, s # rest)))
      (\<lambda>(r, scopes'). lay_scopes scopes' \<and> list_all2 same_names (s # rest) scopes' \<and> settled_at name r up scopes' \<and>
        (\<forall>r'. settled_at name r' up (s # rest) \<longrightarrow> r = r'))"
    proof (rule gives_bind [OF gives_ref_in_scope [OF s(1)]], elim case_prodE conjE, simp only: prod.case gives_simps)
      fix idx s'
      assume n: "same_names s s'" and at: "sy_reg (sc_syms s' ! pos) = Some idx" "\<forall>r. sy_reg (sc_syms s ! pos) = Some r \<longrightarrow> idx = r"
      have "position (\<lambda>y. sy_name y = name) (sc_syms s') = Some pos" using same_names_position [OF n] Some by simp
      moreover have "\<lparr>reg_up = up mod 256, reg_idx = idx\<rparr> = r'" if "sy_reg (sc_syms s ! pos) = Some (reg_idx r')" "reg_up r' = up mod 256" for r'
        using that at(2) by (cases r') simp
      ultimately show "lay_scopes (s' # rest) \<and> list_all2 same_names (s # rest) (s' # rest) \<and>
          settled_at name \<lparr>reg_up = up mod 256, reg_idx = idx\<rparr> up (s' # rest) \<and>
          (\<forall>r'. settled_at name r' up (s # rest) \<longrightarrow> \<lparr>reg_up = up mod 256, reg_idx = idx\<rparr> = r')"
        using n at s refl Some by (simp add: same_names_def)
    qed
    then show ?thesis by (simp add: Some)
  qed
qed simp

section \<open>Expressions and lengths\<close>

text \<open>Steps that add no field keep the names of every scope.\<close>

definition kept :: "scope list \<Rightarrow> scope list \<Rightarrow> bool" where
  "kept scopes scopes' \<longleftrightarrow> list_all2 same_names scopes scopes'"

lemma kept_refl: "lay_scopes scopes \<Longrightarrow> kept scopes scopes"
  by (auto simp: kept_def same_names_def lay_scopes_def list_all2_conv_all_nth list_all_length)

lemma kept_trans: "kept a b \<Longrightarrow> kept b c \<Longrightarrow> kept a c"
  unfolding kept_def by (blast intro: list_all2_trans same_names_trans)

lemma kept_lay: "kept a b \<Longrightarrow> lay_scopes b"
  by (auto simp: kept_def same_names_def lay_scopes_def list_all2_conv_all_nth list_all_length)

lemma kept_Cons: "kept (s # rest) scopes' \<longleftrightarrow> (\<exists>s' rest'. scopes' = s' # rest' \<and> same_names s s' \<and> kept rest rest')"
  by (simp add: kept_def list_all2_Cons1)

lemma gives_kept: "gives m (\<lambda>(x, s2). kept s1 s2 \<and> Q x) \<Longrightarrow> kept s s1 \<Longrightarrow> gives m (\<lambda>(x, s2). kept s s2 \<and> Q x)"
  by (erule gives_mono) (auto intro: kept_trans)

lemma gives_resolve_ref:
  "lay_scopes scopes \<Longrightarrow> gives (resolve_ref name ctx scopes) (\<lambda>(r, scopes'). kept scopes scopes' \<and>
     settled_at name r 0 scopes' \<and> (\<forall>r'. settled_at name r' 0 scopes \<longrightarrow> r = r'))"
  using gives_resolve_from [of scopes name ctx 0] by (auto simp: resolve_ref_def gives_def kept_def)

lemma gives_emit_into:
  "lay_scopes scopes \<Longrightarrow> gives (emit_into e ctx out scopes) (\<lambda>(out', scopes'). kept scopes scopes' \<and>
     (\<forall>n r. settled_at n r 0 scopes \<longrightarrow> refs e \<subseteq> {n} \<longrightarrow> settled_at n r 0 scopes' \<and> out' = out @ postfix (\<lambda>_. r) e))"
proof (induction e arbitrary: out scopes)
  case (EImm n)
  then show ?case by (simp add: kept_refl)
next
  case (ERef name)
  show ?case unfolding emit_into.simps
    by (rule gives_bind [OF gives_resolve_ref [OF ERef]]) auto
next
  case (EBin op l r)
  show ?case unfolding emit_into.simps
  proof (rule gives_bind [OF EBin.IH(1) [OF EBin.prems]], elim case_prodE conjE, simp only: prod.case)
    fix out1 s1
    assume k: "kept scopes s1" and l: "\<forall>n r. settled_at n r 0 scopes \<longrightarrow> refs l \<subseteq> {n} \<longrightarrow> settled_at n r 0 s1 \<and> out1 = out @ postfix (\<lambda>_. r) l"
    show "gives (bind_res (emit_into r ctx out1 s1) (\<lambda>(out, scopes). Inr (out @ [ins_of op], scopes))) (\<lambda>(out', scopes').
        kept scopes scopes' \<and> (\<forall>n ra. settled_at n ra 0 scopes \<longrightarrow> refs (EBin op l r) \<subseteq> {n} \<longrightarrow>
          settled_at n ra 0 scopes' \<and> out' = out @ postfix (\<lambda>_. ra) (EBin op l r)))"
      by (rule gives_bind [OF EBin.IH(2) [OF kept_lay [OF k]]]) (use k l kept_trans in fastforce)
  qed
qed simp

lemma gives_emit_expr:
  "lay_scopes scopes \<Longrightarrow> gives (emit_expr e ctx scopes) (\<lambda>(ex, scopes'). kept scopes scopes' \<and>
     (\<forall>n r. settled_at n r 0 scopes \<longrightarrow> refs e \<subseteq> {n} \<longrightarrow> ex = Expr (postfix (\<lambda>_. r) e) \<and> postfix_depth (postfix (\<lambda>_. r) e) \<le> EXPR_STACK))"
  unfolding emit_expr_def by (rule gives_bind [OF gives_emit_into]) auto

lemma gives_build_len:
  assumes s: "lay_scopes scopes"
  shows "gives (build_len e what scopes) (\<lambda>(len, scopes'). kept scopes scopes' \<and> len_reads len)"
proof -
  have inverted: "gives (bind_res (resolve_ref name RLen scopes) (\<lambda>(r, scopes).
      bind_res (emit_expr f RLen scopes) (\<lambda>(ex, scopes). Inr (LenExpr ex (Some \<lparr>inv_reg = r, inv_a = a, inv_b = lin_b ln\<rparr>), scopes))))
      (\<lambda>(len, scopes'). kept scopes scopes' \<and> len_reads len)"
    if f: "fold_expr e = Inr f" "linear f = Some ln" "lin_ref ln = Some (name, a)" for f ln name a
  proof (rule gives_bind [OF gives_resolve_ref [OF s]], elim case_prodE conjE, simp only: prod.case)
    fix r s1
    assume k: "kept scopes s1" and r: "settled_at name r 0 s1"
    have refs: "refs f \<subseteq> {name}" using linear_refs [OF f(2)] f(3) by (simp add: lin_names_def)
    show "gives (bind_res (emit_expr f RLen s1) (\<lambda>(ex, scopes). Inr (LenExpr ex (Some \<lparr>inv_reg = r, inv_a = a, inv_b = lin_b ln\<rparr>), scopes)))
        (\<lambda>(len, scopes'). kept scopes scopes' \<and> len_reads len)"
    proof (rule gives_bind [OF gives_emit_expr [OF kept_lay [OF k]]], elim case_prodE conjE, simp only: prod.case gives_simps)
      fix ex s2
      assume k2: "kept s1 s2" and "\<forall>n r. settled_at n r 0 s1 \<longrightarrow> refs f \<subseteq> {n} \<longrightarrow>
          ex = Expr (postfix (\<lambda>_. r) f) \<and> postfix_depth (postfix (\<lambda>_. r) f) \<le> EXPR_STACK"
      then have ex: "ex = Expr (postfix (\<lambda>_. r) f)" and d: "postfix_depth (postfix (\<lambda>_. r) f) \<le> EXPR_STACK" using r refs by blast+
      show "kept scopes s2 \<and> len_reads (LenExpr ex (Some \<lparr>inv_reg = r, inv_a = a, inv_b = lin_b ln\<rparr>))"
        using kept_trans [OF k k2] inv_reads_compiled [OF f(2,3) fold_expr_greedy_free [OF f(1)] d] by (simp add: ex)
    qed
  qed
  have folded: "gives (bind_res (ok_or (NotInvertible what) (linear f)) (\<lambda>ln. case lin_ref ln of None \<Rightarrow> panic
      | Some (name, a) \<Rightarrow> if a = 0 then Inl (Fail (ZeroCoefficient what))
          else bind_res (resolve_ref name RLen scopes) (\<lambda>(r, scopes).
            bind_res (emit_expr f RLen scopes) (\<lambda>(ex, scopes). Inr (LenExpr ex (Some \<lparr>inv_reg = r, inv_a = a, inv_b = lin_b ln\<rparr>), scopes)))))
      (\<lambda>(len, scopes'). kept scopes scopes' \<and> len_reads len)" if f: "fold_expr e = Inr f" for f
    by (cases "linear f") (use inverted [OF f] in \<open>auto split: option.split\<close>)
  have "gives (bind_res (fold_expr e) (\<lambda>folded. case folded of
        EImm n \<Rightarrow> if n < 0 then Inl (Fail (NegativeConstLen what n)) else Inr (LenExpr (expr_imm n) None, scopes)
      | _ \<Rightarrow> bind_res (ok_or (NotInvertible what) (linear folded)) (\<lambda>ln. case lin_ref ln of None \<Rightarrow> panic
        | Some (name, a) \<Rightarrow> if a = 0 then Inl (Fail (ZeroCoefficient what))
          else bind_res (resolve_ref name RLen scopes) (\<lambda>(r, scopes).
            bind_res (emit_expr folded RLen scopes) (\<lambda>(ex, scopes). Inr (LenExpr ex (Some \<lparr>inv_reg = r, inv_a = a, inv_b = lin_b ln\<rparr>), scopes))))))
      (\<lambda>(len, scopes'). kept scopes scopes' \<and> len_reads len)"
    by (rule gives_bind [where P = "\<lambda>f. fold_expr e = Inr f"])
      (use folded kept_refl [OF s] in \<open>auto simp: gives_def [of "fold_expr e"] split: expr_in.split\<close>)
  then show ?thesis using kept_refl [OF s] by (simp add: build_len_def)
qed

lemma gives_count_src_of:
  assumes s: "lay_scopes scopes"
  shows "gives (count_src_of count until_eof scopes) (\<lambda>(src, scopes'). kept scopes scopes' \<and>
    (case src of CountExpr e iv \<Rightarrow> len_reads (LenExpr e iv) | UntilEof \<Rightarrow> True))"
  using kept_refl [OF s]
  by (cases until_eof) (auto simp: count_src_of_def split: option.split len_src.split intro!: gives_bind [OF gives_build_len [OF s]])

lemma gives_nest_size:
  assumes s: "lay_scopes scopes"
  shows "gives (nest_size sz scopes) (\<lambda>(len, scopes'). kept scopes scopes' \<and> (case len of Some l \<Rightarrow> len_reads l | None \<Rightarrow> True))"
  using kept_refl [OF s]
  by (auto simp: nest_size_def split: option.split intro!: gives_bind [OF gives_build_len [OF s]])

section \<open>Flags\<close>

definition masks_ok :: "nat \<Rightarrow> flag_item list \<times> 64 word \<Rightarrow> bool" where
  "masks_ok w st \<longleftrightarrow> (case st of (items, used) \<Rightarrow>
     list_all (\<lambda>i. flag_ok i \<and> fl_shift i + flag_width i \<le> w \<and> fl_mask i AND NOT used = 0) items \<and>
     sorted_wrt (\<lambda>i j. fl_mask i AND fl_mask j = 0) items \<and>
     distinct (map fl_key items) \<and> ''_rest'' \<notin> set (map fl_key items))"

lemma and_not_or: "a AND NOT u = 0 \<Longrightarrow> a AND NOT (u OR v) = (0 :: 64 word)"
  by (auto simp: bit_eq_iff bit_and_iff bit_or_iff bit_not_iff)

lemma and_disjoint: "a AND NOT u = 0 \<Longrightarrow> m AND u = 0 \<Longrightarrow> a AND m = (0 :: 64 word)"
  by (auto simp: bit_eq_iff bit_and_iff bit_not_iff)

lemma gives_flag_mask_step:
  assumes ok: "masks_ok w st"
  shows "gives (flag_mask_step (Bit_Operations.mask w) nm st) (masks_ok w)"
proof -
  obtain fname m where nm: "nm = (fname, m)" by (cases nm)
  obtain items used where st: "st = (items, used)" by (cases st)
  let ?i = "\<lparr>fl_key = fname, fl_mask = m, fl_shift = trailing_zeros m, fl_is_bool = (popcount m = 1)\<rparr>"
  have "masks_ok w (items @ [?i], used OR m)"
    if m: "m \<noteq> 0" "m AND NOT (Bit_Operations.mask w) = 0" "m AND used = 0"
      and low: "drop_bit (trailing_zeros m) m AND (drop_bit (trailing_zeros m) m + 1) = 0"
      and new: "fname \<noteq> ''_rest''" "\<not> list_ex (\<lambda>i. fl_key i = fname) items"
  proof -
    have i: "fl_mask ?i = m" "fl_shift ?i = trailing_zeros m" by simp_all
    note one = mask_one_flag [OF m(1) low i]
    have "0 < flag_width ?i" using one(1) by (simp add: flag_ok_def)
    then obtain n where n: "trailing_zeros m + flag_width ?i = Suc n" using gr0_conv_Suc by auto
    have top: "bit m n" by (rule one(2)) (use n in simp)
    have "bit (m AND NOT (Bit_Operations.mask w)) n \<longleftrightarrow> False" by (simp add: m(2))
    then have "n < w" using top bit_imp_le_length [OF top] by (auto simp: bit_and_iff bit_not_iff bit_mask_iff)
    then have "trailing_zeros m + flag_width ?i \<le> w" using n by simp
    moreover have "m AND NOT (used OR m) = 0" by (auto simp: bit_eq_iff bit_and_iff bit_or_iff bit_not_iff)
    moreover have "fl_mask i AND NOT (used OR m) = 0 \<and> fl_mask i AND m = 0" if "i \<in> set items" for i
    proof -
      have h: "fl_mask i AND NOT used = 0" using ok that by (simp add: masks_ok_def st list_all_iff)
      show ?thesis using and_not_or [OF h] and_disjoint [OF h m(3)] by blast
    qed
    ultimately show ?thesis
      using ok one(1) new by (auto simp: masks_ok_def st list_all_iff sorted_wrt_append list_ex_iff)
  qed
  then show ?thesis unfolding flag_mask_step_def nm st prod.case Let_def by simp
qed

lemma gives_flags_op:
  "gives (flags_op base order fnames rest bo name)
     (\<lambda>op. \<exists>be items policy m. op = OpFlags base be items policy m (common_named name) \<and> flags_ok base items policy m)"
proof -
  let ?w = "8 * prim_width base" and ?base = "if prim_width base = 8 then - 1 else push_bit (prim_width base * 8) 1 - 1 :: 64 word"
  have base: "?base = Bit_Operations.mask ?w" by (auto simp: mask_eq_exp_minus_1 mult.commute)
  have fold: "gives (fold_res (flag_mask_step ?base) fnames ([], 0)) (masks_ok ?w)"
    unfolding base by (rule gives_fold_res) (auto simp: masks_ok_def [of _ "([], 0)"] intro: gives_flag_mask_step)
  have flags: "flags_ok base items policy (?base AND NOT used)" if "masks_ok ?w (items, used)" for items used policy
  proof -
    have "fl_mask i AND (Bit_Operations.mask ?w AND NOT used) = 0" if "fl_mask i AND NOT used = 0" for i :: flag_item
    proof -
      have "fl_mask i AND (Bit_Operations.mask ?w AND NOT used) = (fl_mask i AND NOT used) AND Bit_Operations.mask ?w" by (rule bit_eqI) (auto simp: bit_and_iff)
      then show ?thesis using that by simp
    qed
    moreover have "take_bit ?w (Bit_Operations.mask ?w AND NOT used) = Bit_Operations.mask ?w AND NOT used"
      by (auto simp: bit_eq_iff bit_take_bit_iff bit_and_iff bit_mask_iff)
    ultimately show ?thesis using that unfolding base flags_ok_def masks_ok_def by (auto simp: list_all_iff)
  qed
  have "gives (bind_res (fold_res (flag_mask_step ?base) fnames ([], 0)) (\<lambda>(items, used).
      bind_res (map_fail UnknownName (parse_name REST_POLICIES rest)) (\<lambda>policy.
        Inr (OpFlags base (is_big order bo) items policy (?base AND NOT used) (common_named name)))))
      (\<lambda>op. \<exists>be items policy m. op = OpFlags base be items policy m (common_named name) \<and> flags_ok base items policy m)"
  proof (rule gives_bind [OF fold])
    fix st
    assume "masks_ok ?w st"
    then show "gives (case st of (items, used) \<Rightarrow> bind_res (map_fail UnknownName (parse_name REST_POLICIES rest)) (\<lambda>policy.
        Inr (OpFlags base (is_big order bo) items policy (?base AND NOT used) (common_named name))))
      (\<lambda>op. \<exists>be items policy m. op = OpFlags base be items policy m (common_named name) \<and> flags_ok base items policy m)"
      by (cases st) (simp only: prod.case, intro gives_any, simp only: gives_simps, blast intro: flags)
  qed
  then show ?thesis unfolding flags_op_def Let_def by simp
qed

end
