(* ===== verification/Layout_Compile.thy ===== *)
theory Layout_Compile
  imports Layout
begin

text \<open>
  The compiler keeps the layout: pushing a field, closing a scope, and the recursion over the schema.
\<close>

section \<open>Pushing fields\<close>

definition added :: "scope list \<Rightarrow> scope list \<Rightarrow> bool" where
  "added scopes scopes' \<longleftrightarrow> lay_scopes scopes' \<and> kept (tl scopes) (tl scopes') \<and> (scopes' = [] \<longrightarrow> scopes = [])"

definition free_name :: "string \<Rightarrow> scope list \<Rightarrow> bool" where
  "free_name n scopes \<longleftrightarrow> (case scopes of [] \<Rightarrow> True | s # _ \<Rightarrow> n \<notin> set (scope_names s))"

lemma kept_Nil [simp]: "kept [] b \<longleftrightarrow> b = []" "kept b [] \<longleftrightarrow> b = []"
  by (simp_all add: kept_def)

lemma kept_free: "kept a b \<Longrightarrow> free_name n a \<Longrightarrow> free_name n b"
  by (cases a) (auto simp: kept_Cons free_name_def same_names_def)

lemma kept_added: "kept a b \<Longrightarrow> added b c \<Longrightarrow> added a c"
  by (cases a) (auto simp: kept_Cons added_def intro: kept_trans)

lemma added_refl: "lay_scopes scopes \<Longrightarrow> added scopes scopes"
  by (cases scopes) (auto simp: added_def kept_refl)

lemma added_trans: "added a b \<Longrightarrow> added b c \<Longrightarrow> added a c"
  by (auto simp: added_def intro: kept_trans)

lemma added_lay: "added a b \<Longrightarrow> lay_scopes b"
  by (simp add: added_def)

lemma key_names_append [simp]: "key_names (xs @ ys) = key_names xs @ key_names ys"
  by (induction xs) (auto split: option.split)

lemma lay_snoc:
  assumes "lay_scope s" and "lay_op op" and "entry_names op = [n]" and "entry_regs op = []" and "n \<notin> set (scope_names s)" and "sy_name y = n"
  shows "lay_scope (s\<lparr>sc_ops := sc_ops s @ [op], sc_syms := sc_syms s @ [y]\<rparr>)"
  using assms by (simp add: lay_scope_def scope_names_def scope_regs_def)

lemma gives_push_named:
  assumes s: "lay_scopes scopes" "free_name n scopes" and op: "lay_op op" "entry_names op = [n]" "entry_regs op = []"
  shows "gives (push_named op n is_flags spannable scopes) (added scopes)"
proof (cases scopes)
  case (Cons s rest)
  have "lay_scope (s\<lparr>sc_ops := sc_ops s @ [op], sc_syms := sc_syms s @
      [\<lparr>sy_name = n, sy_loc = LocOp (length (sc_ops s)), sy_refable = False, sy_is_flags = is_flags,
        sy_is_const = False, sy_spannable = spannable, sy_reg = None, sy_span = None,
        sy_derived = False, sy_len_referenced = False, sy_used_in_on = False\<rparr>]\<rparr>)"
    by (rule lay_snoc) (use s op Cons in \<open>simp_all add: free_name_def\<close>)
  then show ?thesis using s kept_refl [of rest]
    by (simp add: push_named_def push_op_def with_top_scope_def add_sym_def Cons added_def)
qed (simp add: push_named_def push_op_def with_top_scope_def)

lemma gives_push_digest_field:
  assumes s: "lay_scopes scopes" "free_name n scopes"
  shows "gives (push_digest_field aname ov over verify bo n scopes) (added scopes)"
proof (cases scopes)
  case (Cons s rest)
  have "lay_scope (s\<lparr>sc_ops := sc_ops s @ [OpDigest algo (Spans []) verify (bo = Big) (common_named n)], sc_syms := sc_syms s @
      [\<lparr>sy_name = n, sy_loc = LocOp (length (sc_ops s)), sy_refable = False, sy_is_flags = False,
        sy_is_const = False, sy_spannable = True, sy_reg = None, sy_span = None,
        sy_derived = False, sy_len_referenced = False, sy_used_in_on = False\<rparr>]\<rparr>)" for algo
    by (rule lay_snoc) (use s Cons in \<open>simp_all add: free_name_def common_named_def\<close>)
  then have "lay_scope (s\<lparr>sc_ops := sc_ops s @ [OpDigest algo (Spans []) verify (bo = Big) (common_named n)],
      sc_digests := sc_digests s @ [(length (sc_ops s), over, n)], sc_syms := sc_syms s @
      [\<lparr>sy_name = n, sy_loc = LocOp (length (sc_ops s)), sy_refable = False, sy_is_flags = False,
        sy_is_const = False, sy_spannable = True, sy_reg = None, sy_span = None,
        sy_derived = False, sy_len_referenced = False, sy_used_in_on = False\<rparr>]\<rparr>)" for algo
    by (simp add: lay_scope_def scope_names_def scope_regs_def)
  note lay = this
  show ?thesis unfolding push_digest_field_def Cons
    by (rule gives_any, rule gives_any) (use s kept_refl [of rest] lay Cons in \<open>simp add: push_op_def with_top_scope_def add_sym_def added_def\<close>)
qed (auto simp: push_digest_field_def push_op_def with_top_scope_def intro!: gives_any)

text \<open>A field of a run: the last opcode grows, or a new one begins.\<close>

definition grown :: "scope \<Rightarrow> key \<Rightarrow> op list \<Rightarrow> bool" where
  "grown s key ops \<longleftrightarrow> list_all lay_op ops \<and> concat (map entry_names ops) = scope_names s @ key_names [key] \<and>
     concat (map entry_regs ops) = scope_regs s"

lemma lay_grown:
  assumes "lay_scope s" and "grown s (case name of Some n \<Rightarrow> Named n | None \<Rightarrow> Skip) ops" and "\<And>n. name = Some n \<Longrightarrow> free_name n (s # rest)"
    and "lay_scopes rest"
  shows "gives (add_sym name l refable is_flags is_const spannable (s\<lparr>sc_ops := ops\<rparr> # rest)) (added (s # rest))"
  using assms kept_refl [of rest]
  by (cases name) (auto simp: add_sym_def grown_def lay_scope_def scope_names_def scope_regs_def added_def free_name_def)

lemma gives_push_fixed_field:
  assumes s: "lay_scopes scopes" "\<And>n. name = Some n \<Longrightarrow> free_name n scopes"
  shows "gives (push_fixed_field kind name refable is_const scopes) (added scopes)"
proof (cases scopes)
  case (Cons s rest)
  let ?key = "case name of Some n \<Rightarrow> Named n | None \<Rightarrow> Skip"
  let ?item = "\<lambda>off. \<lparr>fi_off = off, fi_kind = kind, fi_reg = None, fi_span = None, fi_key = ?key\<rparr>"
  have lay: "lay_scope s" "lay_scopes rest" using s Cons by simp_all
  have go: "gives (push_fixed_field kind name refable is_const (s # rest)) (added (s # rest))"
    if "push_fixed kind ?key (s # rest) = Inr (l, s\<lparr>sc_ops := ops\<rparr> # rest)" "grown s ?key ops" for l ops
    using that lay_grown [OF lay(1) that(2) _ lay(2)] s(2) Cons by (simp add: push_fixed_field_def)
  have fresh: "grown s ?key (sc_ops s @ [OpFixed (fix_width kind) [?item 0]])"
    using lay(1) laid_one [of kind None None ?key] by (simp add: grown_def lay_scope_def scope_regs_def)
  show ?thesis
  proof (cases "sc_ops s \<noteq> [] \<and> (\<exists>width items. last (sc_ops s) = OpFixed width items)")
    case True
    then obtain width items where l: "sc_ops s \<noteq> []" "last (sc_ops s) = OpFixed width items" by blast
    define pre where "pre = butlast (sc_ops s)"
    have ops: "sc_ops s = pre @ [OpFixed width items]" using last_split [OF l] by (simp add: pre_def)
    have "laid width items" "items \<noteq> []" using lay(1) by (simp_all add: lay_scope_def ops)
    then have "laid (wrapping_add width (fix_width kind)) (items @ [?item width])" by (rule laid_push)
    then have "grown s ?key (pre @ [OpFixed (wrapping_add width (fix_width kind)) (items @ [?item width])])"
      using lay(1) by (simp add: grown_def lay_scope_def scope_regs_def ops del: key_names_simps)
    moreover have "push_fixed kind ?key (s # rest) = Inr (LocFix (length pre) (length items),
        s\<lparr>sc_ops := pre @ [OpFixed (wrapping_add width (fix_width kind)) (items @ [?item width])]\<rparr> # rest)"
      by (simp add: push_fixed_def with_top_scope_def ops)
    ultimately show ?thesis using go Cons by simp
  next
    case False
    then have "push_fixed kind ?key (s # rest) = Inr (LocFix (length (sc_ops s)) 0, s\<lparr>sc_ops := sc_ops s @ [OpFixed (fix_width kind) [?item 0]]\<rparr> # rest)"
      by (auto simp: push_fixed_def with_top_scope_def Let_def split: op.splits)
    then show ?thesis using go fresh Cons by simp
  qed
qed (simp add: push_fixed_field_def push_fixed_def with_top_scope_def)

lemma gives_push_bits_field:
  assumes s: "lay_scopes scopes" "\<And>n. name = Some n \<Longrightarrow> free_name n scopes"
  shows "gives (push_bits_field width sgnd name scopes) (added scopes)"
proof (cases scopes)
  case (Cons s rest)
  let ?key = "case name of Some n \<Rightarrow> Named n | None \<Rightarrow> Skip"
  let ?item = "\<lparr>bi_width = width, bi_signed = sgnd, bi_reg = None, bi_derived = False, bi_key = ?key\<rparr>"
  have lay: "lay_scope s" "lay_scopes rest" using s Cons by simp_all
  have go: "gives (push_bits_field width sgnd name (s # rest)) (added (s # rest))"
    if "push_bits ?item (s # rest) = Inr (l, s\<lparr>sc_ops := ops\<rparr> # rest)" "grown s ?key ops" for l ops
    using that lay_grown [OF lay(1) that(2) _ lay(2)] s(2) Cons by (simp add: push_bits_field_def)
  have fresh: "grown s ?key (sc_ops s @ [OpBitRun 0 [?item]])"
    using lay(1) by (simp add: grown_def lay_scope_def scope_regs_def)
  show ?thesis
  proof (cases "sc_ops s \<noteq> [] \<and> (\<exists>n items. last (sc_ops s) = OpBitRun n items)")
    case True
    then obtain n items where l: "sc_ops s \<noteq> []" "last (sc_ops s) = OpBitRun n items" by blast
    define pre where "pre = butlast (sc_ops s)"
    have ops: "sc_ops s = pre @ [OpBitRun n items]" using last_split [OF l] by (simp add: pre_def)
    have "grown s ?key (pre @ [OpBitRun n (items @ [?item])])"
      using lay(1) by (simp add: grown_def lay_scope_def scope_regs_def ops del: key_names_simps)
    moreover have "push_bits ?item (s # rest) = Inr (LocBit (length pre) (length items), s\<lparr>sc_ops := pre @ [OpBitRun n (items @ [?item])]\<rparr> # rest)"
      by (simp add: push_bits_def with_top_scope_def ops)
    ultimately show ?thesis using go Cons by simp
  next
    case False
    then have "push_bits ?item (s # rest) = Inr (LocBit (length (sc_ops s)) 0, s\<lparr>sc_ops := sc_ops s @ [OpBitRun 0 [?item]]\<rparr> # rest)"
      by (auto simp: push_bits_def with_top_scope_def Let_def split: op.splits)
    then show ?thesis using go fresh Cons by simp
  qed
qed (simp add: push_bits_field_def push_bits_def with_top_scope_def)

lemma gives_check_name:
  "gives (check_name name scopes) (\<lambda>name'. name' = name \<and> (\<forall>n. name = Some n \<longrightarrow> free_name n scopes))"
  by (auto simp: gives_def check_name_def free_name_def scope_names_def list_ex_iff split: option.splits if_splits list.splits)

section \<open>Closing a scope\<close>

lemma gives_patch_derived:
  assumes s: "lay_scope s"
  shows "gives (patch_derived pos s) (same_names s)"
  unfolding patch_derived_def
proof (rule gives_any)
  fix y
  have kind: "fix_width (mark_derived k) = fix_width k" for k by (cases k) simp_all
  show "gives (case sy_loc y of LocFix i item \<Rightarrow> patch_fixed i item (\<lambda>it. it\<lparr>fi_kind := mark_derived (fi_kind it)\<rparr>) s
      | LocBit i item \<Rightarrow> patch_bit i item (\<lambda>it. it\<lparr>bi_derived := True\<rparr>) s | LocOp _ \<Rightarrow> panic) (same_names s)"
  proof (cases "sy_loc y")
    case (LocFix i j)
    show ?thesis unfolding LocFix loc.case
      by (rule gives_mono [OF lay_patch_fixed [OF s]]) (auto simp: item_span_def same_names_def scope_names_def kind)
  next
    case (LocBit i j)
    show ?thesis unfolding LocBit loc.case
      by (rule gives_mono [OF lay_patch_bit [OF s]]) (auto simp: same_names_def scope_names_def)
  qed simp
qed

lemma gives_set_sym_names: "lay_scope s \<Longrightarrow> (\<And>y. sy_name (g y) = sy_name y) \<Longrightarrow> gives (set_sym pos g s) (same_names s)"
  by (rule gives_mono [OF gives_set_sym]) auto

lemma gives_derive_step:
  assumes s: "lay_scope s"
  shows "gives (derive_step pos s) (same_names s)"
proof -
  have "gives (bind_res (patch_derived pos s) (set_sym pos (\<lambda>y. y\<lparr>sy_derived := True\<rparr>))) (same_names s)"
    by (rule gives_bind [OF gives_patch_derived [OF s]])
      (auto simp: same_names_def intro!: gives_mono [OF gives_set_sym_names])
  then show ?thesis unfolding derive_step_def by (intro gives_any) (simp add: same_names_def s)
qed

lemma gives_resolve_deferred_derives: "lay_scope s \<Longrightarrow> gives (resolve_deferred_derives s) lay_scope"
  unfolding resolve_deferred_derives_def
  by (rule gives_fold_res) (auto intro: gives_mono [OF gives_derive_step] simp: same_names_def)

text \<open>An opcode that keeps what the scope knows of it.\<close>

definition alike :: "op \<Rightarrow> op \<Rightarrow> bool" where
  "alike op op' \<longleftrightarrow> (lay_op op \<longrightarrow> lay_op op') \<and> entry_names op' = entry_names op \<and> entry_regs op' = entry_regs op"

lemma alike_refl: "alike op op"
  by (simp add: alike_def)

lemma alike_set_over: "alike op (set_over over op)"
  by (cases op) (simp_all add: alike_def)

lemma alike_span: "alike op (map_common (\<lambda>c. c\<lparr>c_span := x\<rparr>) op)"
  by (cases op) (simp_all add: alike_def)

lemma gives_align_bit_runs: "gives (align_bit_runs ops) (list_all2 alike ops)"
proof (induction ops)
  case (Cons op ops)
  show ?case unfolding align_bit_runs.simps
    by (rule gives_bind [where P = "alike op"], cases op)
      (auto simp: alike_def intro!: gives_bind [OF Cons])
qed simp

lemma lay_alike:
  assumes s: "lay_scope s" and ops: "list_all2 alike (sc_ops s) ops"
  shows "lay_scope (s\<lparr>sc_ops := ops\<rparr>)"
proof -
  have "map entry_names ops = map entry_names (sc_ops s)" "map entry_regs ops = map entry_regs (sc_ops s)"
    using ops by (auto simp: list_all2_conv_all_nth alike_def intro: nth_equalityI)
  moreover have "list_all lay_op ops"
    using s ops by (auto simp: lay_scope_def list_all2_conv_all_nth alike_def list_all_length simp del: lay_op.simps)
  ultimately show ?thesis using s by (simp add: lay_scope_def scope_names_def scope_regs_def)
qed

lemma gives_alike_op:
  assumes s: "lay_scope s" and g: "\<And>op. alike op (g op)"
  shows "gives (bind_res (nth_res (sc_ops s) i) (\<lambda>op. Inr (s\<lparr>sc_ops := (sc_ops s)[i := g op]\<rparr>))) (same_names s)"
proof (rule gives_bind [OF gives_nth_res], elim conjE)
  fix op
  assume i: "i < length (sc_ops s)" and op: "op = sc_ops s ! i"
  have "list_all2 alike (sc_ops s) ((sc_ops s)[i := g op])"
    using g [of op] op i by (auto simp: list_all2_conv_all_nth nth_list_update alike_refl)
  then show "gives (Inr (s\<lparr>sc_ops := (sc_ops s)[i := g op]\<rparr>)) (same_names s)"
    using lay_alike [OF s] by (simp add: same_names_def scope_names_def)
qed

lemma gives_alloc_span:
  assumes s: "lay_scope s"
  shows "gives (alloc_span pos y s) (same_names s)"
proof (cases "MAX_SPANS \<le> sc_nspans s")
  case False
  let ?idx = "sc_nspans s" and ?s = "s\<lparr>sc_nspans := sc_nspans s + 1\<rparr>"
  have s1: "lay_scope ?s" using s by (simp add: lay_scope_def scope_names_def scope_regs_def)
  have "gives (bind_res (set_sym pos (\<lambda>y. y\<lparr>sy_span := Some ?idx\<rparr>) ?s) (\<lambda>s. case sy_loc y of
      LocFix i item \<Rightarrow> patch_fixed i item (\<lambda>it. it\<lparr>fi_span := Some ?idx\<rparr>) s
    | LocOp i \<Rightarrow> bind_res (nth_res (sc_ops s) i) (\<lambda>op. Inr (s\<lparr>sc_ops := (sc_ops s)[i := map_common (\<lambda>c. c\<lparr>c_span := Some ?idx\<rparr>) op]\<rparr>))
    | LocBit _ _ \<Rightarrow> panic)) (same_names s)"
  proof (rule gives_bind [OF gives_set_sym_names [OF s1]])
    fix s2
    assume "same_names ?s s2"
    then have s2: "lay_scope s2" "same_names s s2" by (simp_all add: same_names_def scope_names_def)
    show "gives (case sy_loc y of
      LocFix i item \<Rightarrow> patch_fixed i item (\<lambda>it. it\<lparr>fi_span := Some ?idx\<rparr>) s2
    | LocOp i \<Rightarrow> bind_res (nth_res (sc_ops s2) i) (\<lambda>op. Inr (s2\<lparr>sc_ops := (sc_ops s2)[i := map_common (\<lambda>c. c\<lparr>c_span := Some ?idx\<rparr>) op]\<rparr>))
    | LocBit _ _ \<Rightarrow> panic) (same_names s)"
    proof (cases "sy_loc y")
      case (LocFix i j)
      show ?thesis unfolding LocFix loc.case
        by (rule gives_mono [OF lay_patch_fixed [OF s2(1)]]) (use s2(2) in \<open>auto simp: item_span_def same_names_def scope_names_def\<close>)
    next
      case (LocOp i)
      show ?thesis unfolding LocOp loc.case
        by (rule gives_mono [OF gives_alike_op [OF s2(1) alike_span]]) (rule same_names_trans [OF s2(2)])
    qed simp
  qed simp
  then show ?thesis using False by (simp add: alloc_span_def Let_def)
qed (simp add: alloc_span_def)

lemma gives_span_step:
  assumes s: "lay_scope (snd st)"
  shows "gives (span_step dname n st) (\<lambda>st'. lay_scope (snd st'))"
proof (cases st)
  case (Pair spans s)
  have s: "lay_scope s" using assms Pair by simp
  have alloc: "gives (if sy_span y = None then alloc_span pos y s else Inr s) lay_scope" for y pos
    using gives_mono [OF gives_alloc_span [OF s], of lay_scope pos y] s by (auto simp: same_names_def)
  show ?thesis
  proof (cases "position (\<lambda>y. sy_name y = n) (sc_syms s)")
    case (Some pos)
    have "gives (bind_res (if sy_span y = None then alloc_span pos y s else Inr s) (\<lambda>s.
        bind_res (nth_res (sc_syms s) pos) (\<lambda>y. bind_res (expect (sy_span y)) (\<lambda>idx. Inr (spans @ [idx], s))))) (\<lambda>st'. lay_scope (snd st'))" for y
      by (rule gives_bind [OF alloc], rule gives_any, rule gives_any) simp
    then show ?thesis unfolding Pair span_step_def prod.case Some option.case by (intro gives_any) simp
  qed (simp add: Pair span_step_def)
qed

lemma gives_digest_step:
  assumes s: "lay_scope s"
  shows "gives (digest_step d s) lay_scope"
proof -
  obtain op_idx over_in dname where d: "d = (op_idx, over_in, dname)" by (cases d)
  have over: "gives (case over_in of StarIn \<Rightarrow> Inr (Star, s)
      | NamesIn ns \<Rightarrow> bind_res (fold_res (span_step dname) ns ([], s)) (\<lambda>(spans, s). Inr (Spans spans, s))) (\<lambda>os. lay_scope (snd os))"
  proof (cases over_in)
    case (NamesIn ns)
    have "gives (fold_res (span_step dname) ns ([], s)) (\<lambda>st. lay_scope (snd st))"
      by (rule gives_fold_res) (auto intro: gives_span_step s)
    then show ?thesis unfolding NamesIn over_in.case by (rule gives_bind) auto
  qed (simp add: s)
  show ?thesis unfolding digest_step_def d prod.case
  proof (rule gives_bind [OF over])
    fix os :: "over \<times> scope"
    assume "lay_scope (snd os)"
    then show "gives (case os of (over, s) \<Rightarrow> bind_res (nth_res (sc_ops s) op_idx) (\<lambda>op. Inr (s\<lparr>sc_ops := (sc_ops s)[op_idx := set_over over op]\<rparr>))) lay_scope"
      by (cases os) (auto intro!: gives_mono [OF gives_alike_op] simp: alike_set_over same_names_def)
  qed
qed

lemma gives_finish_scope:
  assumes s: "lay_scope s"
  shows "gives (finish_scope s) lay_prog"
  unfolding finish_scope_def
proof (rule gives_bind [OF gives_align_bit_runs])
  fix ops
  assume "list_all2 alike (sc_ops s) ops"
  then have "lay_scope (s\<lparr>sc_ops := ops, sc_digests := []\<rparr>)" using lay_alike [OF s] by (simp add: lay_scope_def scope_names_def scope_regs_def)
  then have fold: "gives (fold_res digest_step (sc_digests s) (s\<lparr>sc_ops := ops, sc_digests := []\<rparr>)) lay_scope"
    by (rule gives_fold_res) (rule gives_digest_step)
  have done_: "lay_prog (Program (sc_ops s) a b c e)" if "lay_scope s" for s a b c e
    using that by (simp add: lay_scope_def scope_regs_def del: lay_op.simps)
  show "gives (bind_res (fold_res digest_step (sc_digests s) (s\<lparr>sc_ops := ops, sc_digests := []\<rparr>)) (\<lambda>s.
      Inr (Program (sc_ops s) (sc_nregs s) (sc_nspans s) (ops_min (sc_ops s)) (ops_static (sc_ops s))))) lay_prog"
    by (rule gives_bind [OF fold]) (simp only: gives_simps done_)
qed

lemma gives_close_scope:
  assumes "added (s # scopes) scopes'"
  shows "gives (close_scope scopes') (\<lambda>(prog, rest). lay_prog prog \<and> kept scopes rest)"
proof (cases scopes')
  case (Cons s' rest)
  then have s: "lay_scope s'" "kept scopes rest" using assms by (simp_all add: added_def)
  show ?thesis unfolding close_scope_def Cons list.case
    by (rule gives_bind [OF gives_resolve_deferred_derives [OF s(1)]], rule gives_bind [OF gives_finish_scope]) (simp_all add: s)
qed (use assms in \<open>simp add: added_def\<close>)

section \<open>The recursion\<close>

definition scope_lays :: "options \<Rightarrow> field_in list \<Rightarrow> bool" where
  "scope_lays opts flds \<longleftrightarrow> (\<forall>bo scopes. lay_scopes scopes \<longrightarrow>
     gives (compile_scope opts flds bo scopes) (\<lambda>(prog, scopes'). kept scopes scopes' \<and> lay_prog prog))"

definition elem_lays :: "(scope list \<Rightarrow> op cres) \<Rightarrow> bool" where
  "elem_lays ce \<longleftrightarrow> (\<forall>scopes. lay_scopes scopes \<longrightarrow> gives (ce scopes) (\<lambda>(op, scopes'). kept scopes scopes' \<and> lay_val op))"

definition field_lays :: "options \<Rightarrow> field_in \<Rightarrow> bool" where
  "field_lays opts f \<longleftrightarrow> (\<forall>bo scopes. lay_scopes scopes \<longrightarrow> gives (compile_field opts f bo scopes) (added scopes))"

lemma scope_lays_step:
  assumes flds: "\<And>f. f \<in> set flds \<Longrightarrow> field_lays opts f"
  shows "scope_lays opts flds"
  unfolding scope_lays_def
proof (intro allI impI)
  fix bo scopes
  assume s: "lay_scopes scopes"
  have "gives (fold_res (\<lambda>f s. compile_field opts f bo s) flds (empty_scope # scopes)) (added (empty_scope # scopes))"
  proof (rule gives_fold_res)
    fix f s1
    assume f: "f \<in> set flds" and a: "added (empty_scope # scopes) s1"
    show "gives (compile_field opts f bo s1) (added (empty_scope # scopes))"
      by (rule gives_mono [OF flds [OF f, unfolded field_lays_def, rule_format, OF added_lay [OF a]]]) (rule added_trans [OF a])
  qed (simp add: added_refl s)
  then show "gives (compile_scope opts flds bo scopes) (\<lambda>(prog, scopes'). kept scopes scopes' \<and> lay_prog prog)"
    unfolding compile_scope.simps by (rule gives_bind) (auto intro: gives_mono [OF gives_close_scope])
qed

text \<open>After steps that keep the scopes.\<close>

lemma elem_after: "elem_lays ce \<Longrightarrow> kept scopes s1 \<Longrightarrow> gives (ce s1) (\<lambda>(op, s2). kept scopes s2 \<and> lay_val op)"
  by (rule gives_kept) (auto simp: elem_lays_def dest: kept_lay)

lemma scope_after: "scope_lays opts flds \<Longrightarrow> kept scopes s1 \<Longrightarrow> gives (compile_scope opts flds bo s1) (\<lambda>(prog, s2). kept scopes s2 \<and> lay_prog prog)"
  by (rule gives_kept) (auto simp: scope_lays_def dest: kept_lay)

lemma gives_pushed:
  assumes "kept scopes s1" and "free_name n scopes" and "lay_op op" "entry_names op = [n]" "entry_regs op = []"
  shows "gives (push_named op n is_flags spannable s1) (added scopes)"
  by (rule gives_mono [OF gives_push_named [OF kept_lay [OF assms(1)] kept_free [OF assms(1,2)] assms(3-5)]]) (rule kept_added [OF assms(1)])

lemma gives_array_op:
  assumes s: "lay_scopes scopes" and e: "elem_lays (ce elem)"
  shows "gives (array_op opts ce elem count until_eof c scopes) (\<lambda>(op, s'). kept scopes s' \<and>
    (\<exists>src mx elem em. op = OpArray src mx elem em c \<and> lay_val op))"
  unfolding array_op_def
proof (rule gives_bind [OF gives_count_src_of [OF s]], elim case_prodE conjE, simp only: prod.case)
  fix src s1
  assume k: "kept scopes s1" and src: "case src of CountExpr e iv \<Rightarrow> len_reads (LenExpr e iv) | UntilEof \<Rightarrow> True"
  show "gives (bind_res (ce elem s1) (\<lambda>(op, scopes). Inr (OpArray src (o_max_count opts) op (op_min op) c, scopes)))
      (\<lambda>(op, s'). kept scopes s' \<and> (\<exists>src mx elem em. op = OpArray src mx elem em c \<and> lay_val op))"
    by (rule gives_bind [OF elem_after [OF e k]]) (use src in auto)
qed

definition branches_lay :: "scope list \<Rightarrow> int list \<times> (int \<times> op) list \<times> scope list \<Rightarrow> bool" where
  "branches_lay scopes st \<longleftrightarrow> (case st of (_, compiled, s2) \<Rightarrow> kept scopes s2 \<and> list_all (\<lambda>x. lay_val (snd x)) compiled)"

lemma gives_case_steps:
  assumes cases: "\<And>tag ty. (tag, ty) \<in> set cases \<Longrightarrow> elem_lays (ce ty)" and k: "kept scopes s1"
  shows "gives (fold_res (case_step ce) cases ([], [], s1)) (branches_lay scopes)"
proof (rule gives_fold_res)
  fix tc st
  assume tc: "tc \<in> set cases" and st: "branches_lay scopes st"
  obtain tag ty where t: "tc = (tag, ty)" by (cases tc)
  obtain tags compiled s2 where s: "st = (tags, compiled, s2)" by (cases st)
  have "elem_lays (ce ty)" using cases tc t by blast
  then have "gives (bind_res (ce ty s2) (\<lambda>(op, scopes). Inr (tags @ [tag], compiled @ [(tag, op)], scopes)))
      (branches_lay scopes)"
    using st s by (auto simp: branches_lay_def intro!: gives_bind [OF elem_after])
  then show "gives (case_step ce tc st) (branches_lay scopes)"
    by (simp add: case_step_def t s)
qed (simp add: branches_lay_def k)

lemma gives_switch_parts:
  assumes s: "lay_scopes scopes" and cases: "\<And>tag ty. (tag, ty) \<in> set cases \<Longrightarrow> elem_lays (ce ty)"
    and dflt: "\<And>ty. dflt = Some ty \<Longrightarrow> elem_lays (ce ty)"
  shows "gives (switch_parts ce on cases dflt scopes) (\<lambda>((e, compiled, d), s'). kept scopes s' \<and> lay_val (OpSwitch e compiled d c))"
proof -
  have rest: "gives (bind_res (fold_res (case_step ce) cases ([], [], s1)) (\<lambda>(_, compiled, scopes). case dflt of
        None \<Rightarrow> Inr ((e, compiled, None), scopes)
      | Some ty \<Rightarrow> bind_res (ce ty scopes) (\<lambda>(op, scopes). Inr ((e, compiled, Some op), scopes))))
      (\<lambda>((e, compiled, d), s'). kept scopes s' \<and> lay_val (OpSwitch e compiled d c))" if k: "kept scopes s1" for e s1
  proof (rule gives_bind [OF gives_case_steps [OF cases k]], assumption, unfold branches_lay_def, elim case_prodE conjE, simp only: prod.case)
    fix tags :: "int list" and compiled :: "(int \<times> op) list" and s2
    assume k2: "kept scopes s2" and c: "list_all (\<lambda>x. lay_val (snd x)) compiled"
    show "gives (case dflt of None \<Rightarrow> Inr ((e, compiled, None), s2)
        | Some ty \<Rightarrow> bind_res (ce ty s2) (\<lambda>(op, scopes). Inr ((e, compiled, Some op), scopes)))
        (\<lambda>((e, compiled, d), s'). kept scopes s' \<and> lay_val (OpSwitch e compiled d c))"
    proof (cases dflt)
      case (Some ty)
      show ?thesis unfolding Some option.case
        by (rule gives_bind [OF elem_after [OF dflt [OF Some] k2]]) (use c in auto)
    qed (use k2 c in simp)
  qed
  have "gives (bind_res (fold_expr on) (\<lambda>folded. bind_res (emit_expr folded ROn scopes) (\<lambda>(on_expr, scopes).
      bind_res (fold_res (case_step ce) cases ([], [], scopes)) (\<lambda>(_, compiled, scopes). case dflt of
        None \<Rightarrow> Inr ((on_expr, compiled, None), scopes)
      | Some ty \<Rightarrow> bind_res (ce ty scopes) (\<lambda>(op, scopes). Inr ((on_expr, compiled, Some op), scopes))))))
      (\<lambda>((e, compiled, d), s'). kept scopes s' \<and> lay_val (OpSwitch e compiled d c))"
    by (rule gives_any, rule gives_bind [OF gives_emit_expr [OF s]]) (auto intro!: rest simp del: lay_val.simps)
  then show ?thesis by (simp add: switch_parts_def del: lay_val.simps)
qed

definition parts_lay :: "options \<Rightarrow> type_in \<Rightarrow> bool" where
  "parts_lay opts ty \<longleftrightarrow>
     (case ty of
        TStruct flds _ _ \<Rightarrow> scope_lays opts flds
      | TArray elem _ _ \<Rightarrow> (\<forall>bo. elem_lays (compile_elem opts elem bo))
      | TSwitch _ cases dflt \<Rightarrow>
          (\<forall>c \<in> set cases. \<forall>bo. elem_lays (compile_elem opts (snd c) bo)) \<and>
          (\<forall>ty bo. dflt = Some ty \<longrightarrow> elem_lays (compile_elem opts ty bo))
      | TCond _ thn \<Rightarrow> \<forall>bo. elem_lays (compile_elem opts thn bo)
      | _ \<Rightarrow> True)"

lemma lay_fixed1: "lay_val (fixed1 kind)"
  by (simp add: fixed1_def)

lemma lay_flags: "flags_ok base items policy m \<Longrightarrow> lay_val (OpFlags base be items policy m c)"
  by simp

lemma elem_lays_step:
  assumes parts: "parts_lay opts ty"
  shows "elem_lays (compile_elem opts ty bo)"
  unfolding elem_lays_def
proof (intro allI impI)
  fix scopes
  assume s: "lay_scopes scopes"
  note refl = kept_refl [OF s]
  show "gives (compile_elem opts ty bo scopes) (\<lambda>(op, scopes'). kept scopes scopes' \<and> lay_val op)"
    unfolding compile_elem.simps [of opts ty bo scopes]
  proof (cases ty, goal_cases)
    case (5 l mx)
    then show ?case by (auto intro!: gives_bind [OF gives_build_len [OF s]])
  next
    case (6 l mx encoding errors)
    then show ?case by (auto intro!: gives_bind [OF gives_build_len [OF s]] gives_any [of _ _ "parse_enc encoding errors"])
  next
    case (9 base order fnames rest)
    then show ?case by (auto simp: elem_via_field_flags refl intro!: gives_bind [OF gives_flags_op])
  next
    case (11 flds order sz)
    then have "scope_lays opts flds" using parts by (simp add: parts_lay_def)
    then show ?case using 11 by (auto intro!: gives_bind [OF gives_nest_size [OF s]] gives_bind [OF scope_after])
  next
    case (12 elem count until_eof)
    then have "elem_lays (compile_elem opts elem bo)" using parts by (simp add: parts_lay_def)
    then show ?case using 12
      by (auto simp del: lay_val.simps intro!: gives_mono [OF gives_array_op [OF s, where ce = "\<lambda>ty s. compile_elem opts ty bo s"]])
  next
    case (13 on cases dflt)
    have "gives (switch_parts (\<lambda>ty s. compile_elem opts ty bo s) on cases dflt scopes)
        (\<lambda>((e, compiled, d), s'). kept scopes s' \<and> lay_val (OpSwitch e compiled d common_skip))"
      using 13 parts by (intro gives_switch_parts s) (auto simp: parts_lay_def)
    then show ?case using 13 by (auto simp del: lay_val.simps intro!: gives_bind)
  qed (auto simp: refl lay_fixed1 simp del: lay_val.simps intro!: gives_any, auto simp: refl)
qed

lemma field_lays_step:
  assumes parts: "parts_lay opts (field_ty f)"
  shows "field_lays opts f"
  unfolding field_lays_def
proof (intro allI impI)
  fix bo scopes
  assume s: "lay_scopes scopes"
  note refl = kept_refl [OF s]
  have named: "gives (bind_res (named_only name what) h) Q" if "\<And>n. name = Some n \<Longrightarrow> gives (h n) Q" for name what h and Q :: "scope list \<Rightarrow> bool"
    using that by (cases name) (simp_all add: named_only_def)
  show "gives (compile_field opts f bo scopes) (added scopes)"
    unfolding compile_field.simps
  proof (rule gives_bind [OF gives_check_name], elim conjE, cases "field_ty f", goal_cases)
    case (1 name prim order const)
    then show ?case by (auto intro!: gives_any gives_push_fixed_field s)
  next
    case (2 name is64 order)
    then show ?case by (auto intro!: gives_push_fixed_field s)
  next
    case (3 name const)
    then show ?case by (auto intro!: gives_push_fixed_field s)
  next
    case (4 name len const)
    then show ?case by (auto intro!: gives_any gives_push_fixed_field s)
  next
    case (5 name l mx)
    then show ?case by (auto simp: common_named_def intro!: named gives_bind [OF gives_build_len [OF s]] gives_pushed)
  next
    case (6 name l mx encoding errors)
    then show ?case by (auto simp: common_named_def intro!: named gives_bind [OF gives_build_len [OF s]] gives_pushed gives_any [of _ _ "parse_enc encoding errors"])
  next
    case (7 name mx encoding errors)
    then show ?case by (auto simp: common_named_def refl intro!: named gives_pushed gives_any [of _ _ "parse_enc encoding errors"])
  next
    case (8 name width sgnd)
    then show ?case by (auto intro!: gives_push_bits_field s)
  next
    case (9 name base order fnames rest)
    then show ?case by (auto simp: common_named_def refl intro!: named gives_bind [OF gives_flags_op] gives_pushed)
  next
    case (10 name aname ov over verify)
    then show ?case by (auto intro!: named gives_push_digest_field s)
  next
    case (11 name flds order sz)
    then have "scope_lays opts flds" using parts by (simp add: parts_lay_def)
    then show ?case using 11
      by (auto simp: common_named_def simp del: lay_prog.simps
        intro!: named gives_bind [OF gives_nest_size [OF s]] gives_bind [OF scope_after] gives_any [of _ _ "check_size x y" for x y] gives_pushed)
  next
    case (12 name elem count until_eof)
    then have "elem_lays (compile_elem opts elem bo)" using parts by (simp add: parts_lay_def)
    then show ?case using 12
      by (auto simp: common_named_def intro!: named gives_bind [OF gives_array_op [OF s, where ce = "\<lambda>ty s. compile_elem opts ty bo s"]] gives_pushed)
  next
    case (13 name on cases dflt)
    have "gives (switch_parts (\<lambda>ty s. compile_elem opts ty bo s) on cases dflt scopes)
        (\<lambda>((e, compiled, d), s'). kept scopes s' \<and> lay_val (OpSwitch e compiled d c))" for c
      using 13 parts by (intro gives_switch_parts s) (auto simp: parts_lay_def)
    then show ?case using 13 by (auto simp: common_named_def intro!: named gives_bind gives_pushed)
  next
    case (14 name pred thn)
    then have "elem_lays (compile_elem opts thn bo)" using parts by (simp add: parts_lay_def)
    then show ?case using 14
      by (auto simp: common_named_def simp del: lay_val.simps intro!: named gives_any [of _ _ "fold_expr pred"] gives_bind [OF gives_emit_expr [OF s]] gives_bind [OF elem_after] gives_pushed)
  qed
qed

lemma parts_lay_walk:
  assumes ih: "\<And>ty'. size ty' < size ty \<Longrightarrow> parts_lay opts ty'"
  shows "parts_lay opts ty"
proof (cases ty)
  case (TStruct flds order sz)
  have "field_lays opts f" if "f \<in> set flds" for f
    using ih [of "field_ty f"] size_field_ty [OF that] by (intro field_lays_step) (simp add: TStruct)
  then show ?thesis by (simp add: TStruct parts_lay_def scope_lays_step)
next
  case (TSwitch on cases dflt)
  have "size (snd c) < size ty" if "c \<in> set cases" for c
    using size_case_type [of "fst c" "snd c" cases] that by (simp add: TSwitch)
  then show ?thesis using ih by (auto simp: parts_lay_def TSwitch intro!: elem_lays_step)
qed (use ih in \<open>auto simp: parts_lay_def intro!: elem_lays_step\<close>)

lemma parts_lay: "parts_lay opts ty"
  by (induction ty rule: measure_induct_rule [of size]) (rule parts_lay_walk)

lemma compile_lays: "compile flds opts = Inr prog \<Longrightarrow> lay_prog prog"
proof -
  have "scope_lays opts flds" by (rule scope_lays_step) (rule field_lays_step [OF parts_lay])
  then have "gives (compile_scope opts flds (o_byteorder opts) []) (\<lambda>(prog, scopes'). kept [] scopes' \<and> lay_prog prog)"
    unfolding scope_lays_def by (simp del: kept_Nil)
  then have "gives (compile flds opts) lay_prog" unfolding compile_def by (rule gives_bind) auto
  then show "compile flds opts = Inr prog \<Longrightarrow> lay_prog prog" by (simp add: gives_def)
qed

section \<open>Properties\<close>



end
