(* ===== verification/Python.thy ===== *)
theory Python
  imports Schema Errors
begin

text \<open>
  What the bindings use of Python through PyO3: an interface of operations on objects of an
  opaque type \<open>'o\<close>, a parameter of every definition over it. PyO3 and the interpreter are not
  part of the repository; each operation below is one call the code makes, with the answers the
  code distinguishes.

  An iteration is the list of what the iterator yields, each an object or the exception it
  raises; an iterator that never ends is outside the model.
\<close>

section \<open>Exceptions\<close>

text \<open>
  \<open>SchemaError\<close> with its message, or with an error of the core compiler; the exceptions of
  decoding and packing with their attributes; \<open>TypeError\<close> and \<open>NotImplementedError\<close>; and any
  exception Python code raised.
\<close>

datatype pyerr =
    SchemaErr string
  | CoreErr schema_error
  | InvalidDataErr kind nat string
  | PackErr kind string
  | TypeErr string
  | NotImplementedErr string
  | Raised nat

type_synonym 'a pyres = "(pyerr, 'a) res"

section \<open>Objects\<close>

record 'o py =
  py_is_none :: "'o \<Rightarrow> bool"
  py_is_bool :: "'o \<Rightarrow> bool"
  py_is_int :: "'o \<Rightarrow> bool"
  py_str :: "'o \<Rightarrow> string pyres option"
  py_tuple :: "'o \<Rightarrow> 'o list option"
  py_is_dict :: "'o \<Rightarrow> bool"
  py_keys :: "'o \<Rightarrow> 'o list"
  py_get_item :: "'o \<Rightarrow> string \<Rightarrow> 'o option pyres"
  py_iter :: "'o \<Rightarrow> 'o pyres list option"
  py_int :: "'o \<Rightarrow> int option"
  py_bool :: "'o \<Rightarrow> bool option"
  py_bytes :: "'o \<Rightarrow> bytes option"
  py_repr :: "'o \<Rightarrow> string"

text \<open>
  \<open>py_str\<close> is \<open>cast::<PyString>\<close>, with the answer of \<open>to_str\<close>, which fails on a lone surrogate;
  \<open>py_int\<close> is the number an integer extraction reads, before its range is checked.
\<close>

definition extract_str :: "'o py \<Rightarrow> 'o \<Rightarrow> string option" where
  "extract_str P v = (case py_str P v of Some (Inr s) \<Rightarrow> Some s | _ \<Rightarrow> None)"

definition extract_between :: "int \<Rightarrow> int \<Rightarrow> 'o py \<Rightarrow> 'o \<Rightarrow> int option" where
  "extract_between lo hi P v =
     (case py_int P v of Some n \<Rightarrow> if lo \<le> n \<and> n \<le> hi then Some n else None | None \<Rightarrow> None)"

definition extract_u64 :: "'o py \<Rightarrow> 'o \<Rightarrow> nat option" where
  "extract_u64 P v = map_option nat (extract_between 0 (2 ^ 64 - 1) P v)"

definition extract_i64 :: "'o py \<Rightarrow> 'o \<Rightarrow> int option" where
  "extract_i64 P v = extract_between i64_min i64_max P v"

definition extract_i128 :: "'o py \<Rightarrow> 'o \<Rightarrow> int option" where
  "extract_i128 P v = extract_between (- (2 ^ 127)) (2 ^ 127 - 1) P v"

section \<open>Messages\<close>

definition int_to_string :: "int \<Rightarrow> string" where
  "int_to_string i = (if i < 0 then ''-'' @ nat_to_string (nat (- i)) else nat_to_string (nat i))"

text \<open>\<open>{s:?}\<close>: quotes and backslashes escaped. Escapes of control and non-printable characters
  do not matter to the code, which only looks for \<open>" (at "\<close> in a message.\<close>

definition debug_str :: "string \<Rightarrow> string" where
  "debug_str s =
     [CHR 0x22] @ concat (map (\<lambda>c. if c = CHR 0x22 \<or> c = CHR 0x5C then [CHR 0x5C, c] else [c]) s) @ [CHR 0x22]"

fun not_supported :: "name_error \<Rightarrow> string" where
  "not_supported (NotSupported what s allowed) =
     what @ '' '' @ debug_str s @ '' is not supported ('' @ allowed @ '')''"

text \<open>\<open>names::ClosedSet::parse(..).map_err(schema_err)\<close>\<close>

definition parse_closed :: "'a closed_set \<Rightarrow> string \<Rightarrow> 'a pyres" where
  "parse_closed cs s = map_fail (\<lambda>e. SchemaErr (not_supported e)) (parse_name cs s)"

section \<open>A tree of objects\<close>

text \<open>
  A model of the interface: objects as trees, with the documented answers of PyO3 for the types
  the schema form is made of, strings being ASCII where they are iterated. \<open>PyObj\<close> is an object of
  another type, with its \<open>repr\<close>.
\<close>

datatype (plugins only: code size) pyval =
    PyNone
  | PyBool bool
  | PyInt int
  | PyStr string
  | PyBytes bytes
  | PyTuple "pyval list"
  | PyList "pyval list"
  | PyDict "(string \<times> pyval) list"
  | PyObj string

fun pv_int :: "pyval \<Rightarrow> int option" where
  "pv_int (PyInt n) = Some n"
| "pv_int (PyBool b) = Some (of_bool b)"
| "pv_int _ = None"

fun pv_tuple :: "pyval \<Rightarrow> pyval list option" where
  "pv_tuple (PyTuple vs) = Some vs"
| "pv_tuple _ = None"

fun pv_iter :: "pyval \<Rightarrow> pyval pyres list option" where
  "pv_iter (PyTuple vs) = Some (map Inr vs)"
| "pv_iter (PyList vs) = Some (map Inr vs)"
| "pv_iter (PyStr s) = Some (map (\<lambda>c. Inr (PyStr [c])) s)"
| "pv_iter (PyBytes b) = Some (map (\<lambda>x. Inr (PyInt (uint x))) b)"
| "pv_iter (PyDict ps) = Some (map (\<lambda>p. Inr (PyStr (fst p))) ps)"
| "pv_iter _ = None"

fun pv_keys :: "pyval \<Rightarrow> pyval list" where
  "pv_keys (PyDict ps) = map (\<lambda>p. PyStr (fst p)) ps"
| "pv_keys _ = []"

fun pv_get_item :: "pyval \<Rightarrow> string \<Rightarrow> pyval option" where
  "pv_get_item (PyDict ps) k = map_of ps k"
| "pv_get_item _ k = None"

text \<open>A \<open>Vec<u8>\<close> is extracted from bytes or from a sequence of small ints.\<close>

definition pv_byte :: "pyval \<Rightarrow> 8 word option" where
  "pv_byte v = (case pv_int v of Some n \<Rightarrow> if 0 \<le> n \<and> n \<le> 255 then Some (word_of_int n) else None | None \<Rightarrow> None)"

fun pv_bytes :: "pyval \<Rightarrow> bytes option" where
  "pv_bytes (PyBytes b) = Some b"
| "pv_bytes (PyList vs) = those (map pv_byte vs)"
| "pv_bytes (PyTuple vs) = those (map pv_byte vs)"
| "pv_bytes _ = None"

definition tree_py :: "pyval py" where
  "tree_py =
     \<lparr>py_is_none = (\<lambda>v. v = PyNone), py_is_bool = (\<lambda>v. case v of PyBool _ \<Rightarrow> True | _ \<Rightarrow> False),
      py_is_int = (\<lambda>v. pv_int v \<noteq> None), py_str = (\<lambda>v. case v of PyStr s \<Rightarrow> Some (Inr s) | _ \<Rightarrow> None),
      py_tuple = pv_tuple, py_is_dict = (\<lambda>v. case v of PyDict _ \<Rightarrow> True | _ \<Rightarrow> False),
      py_keys = pv_keys, py_get_item = (\<lambda>v k. Inr (pv_get_item v k)), py_iter = pv_iter,
      py_int = pv_int, py_bool = (\<lambda>v. case v of PyBool b \<Rightarrow> Some b | _ \<Rightarrow> None), py_bytes = pv_bytes,
      py_repr = (\<lambda>v. case v of PyObj s \<Rightarrow> s | _ \<Rightarrow> [])\<rparr>"

section \<open>The contract\<close>

text \<open>What the parser relies on: a call answers or raises; it does not panic.\<close>

locale python_api =
  fixes P :: "'o py"
  assumes str_answers: "py_str P v = Some s \<Longrightarrow> no_panic s"
    and item_answers: "no_panic (py_get_item P v k)"
    and iter_answers: "py_iter P v = Some items \<Longrightarrow> item \<in> set items \<Longrightarrow> no_panic item"
begin

lemma safe_py_str: "py_str P v = Some s \<Longrightarrow> safe s (\<lambda>_. True)"
  by (auto intro: safeI str_answers)

lemma safe_get_item: "safe (py_get_item P v k) (\<lambda>_. True)"
  by (auto intro: safeI item_answers)

end

interpretation tree_py: python_api tree_py
proof
  show "no_panic item" if "py_iter tree_py v = Some items" "item \<in> set items" for v items item
    using that by (cases v) (auto simp: tree_py_def)
qed (auto simp: tree_py_def split: pyval.splits)

end
