(* ===== verification/Builder_Sim.thy ===== *)
theory Builder_Sim
  imports Unpack Keys
begin

text \<open>
  Two builders related operation by operation build related values from the same bytes, with the
  same errors at the same places: the walk looks at the bytes and never at what is built. The
  operation \<open>map_set\<close> need only be related at the names of the program.
\<close>

section \<open>Related results\<close>

abbreviation rel_res :: "('a \<Rightarrow> 'b \<Rightarrow> bool) \<Rightarrow> 'e + 'a \<Rightarrow> 'e + 'b \<Rightarrow> bool" where
  "rel_res \<equiv> rel_sum (=)"

lemma rel_bind:
  "rel_res R m m' \<Longrightarrow> (\<And>a b. R a b \<Longrightarrow> rel_res Q (f a) (g b)) \<Longrightarrow> rel_res Q (bind_res m f) (bind_res m' g)"
  by (cases m; cases m') auto

lemma rel_bind_run:
  "rel_res R m m' \<Longrightarrow> (\<And>a b. m = Inr a \<Longrightarrow> R a b \<Longrightarrow> rel_res Q (f a) (g b)) \<Longrightarrow> rel_res Q (bind_res m f) (bind_res m' g)"
  by (cases m; cases m') auto

lemma rel_bind_same:
  "(\<And>a. rel_res Q (f a) (g a)) \<Longrightarrow> rel_res Q (bind_res m f) (bind_res m g)"
  by (cases m) auto

lemma rel_map_fail: "rel_res R m m' \<Longrightarrow> rel_res R (map_fail g m) (map_fail g m')"
  by (cases m; cases m') (auto simp: map_fail_def split: fault.split)

lemma rel_refl: "(\<And>a. R a a) \<Longrightarrow> rel_res R m m"
  by (cases m) auto

lemma rel_fold:
  assumes "\<And>x s t. x \<in> set xs \<Longrightarrow> R s t \<Longrightarrow> rel_res R (f x s) (g x t)"
  shows "R s t \<Longrightarrow> rel_res R (fold_res f xs s) (fold_res g xs t)"
  using assms by (induction xs arbitrary: s t) (auto intro!: rel_bind [where R = R])

definition rel_value :: "('v \<Rightarrow> 'w \<Rightarrow> bool) \<Rightarrow> 'v uvalue \<Rightarrow> 'w uvalue \<Rightarrow> bool" where
  "rel_value RV f g \<longleftrightarrow> (\<forall>frames pos limit. rel_res (rel_prod RV (=)) (f frames pos limit) (g frames pos limit))"

lemma rel_valueD: "rel_value RV f g \<Longrightarrow> rel_res (rel_prod RV (=)) (f frames pos limit) (g frames pos limit)"
  by (simp add: rel_value_def)

abbreviation rel_ustate :: "('m \<Rightarrow> 'n \<Rightarrow> bool) \<Rightarrow> 'm ustate \<Rightarrow> 'n ustate \<Rightarrow> bool" where
  "rel_ustate RM \<equiv> rel_prod (=) (rel_prod RM (=))"

section \<open>The simulation\<close>

locale builder_sim =
  fixes B :: "('v, 'm, 'l) builder" and C :: "('w, 'n, 'k) builder"
    and RV :: "'v \<Rightarrow> 'w \<Rightarrow> bool" and RM :: "'m \<Rightarrow> 'n \<Rightarrow> bool" and RL :: "'l \<Rightarrow> 'k \<Rightarrow> bool"
    and K :: "string set"
  assumes sim_int: "RV (b_int B i) (b_int C i)"
    and sim_float: "RV (b_float B f) (b_float C f)"
    and sim_bool: "RV (b_bool B b) (b_bool C b)"
    and sim_bytes: "RV (b_bytes B bs) (b_bytes C bs)"
    and sim_string: "RV (b_string B s) (b_string C s)"
    and sim_map_new: "RM (b_map_new B n) (b_map_new C n)"
    and sim_map_set: "name \<in> K \<Longrightarrow> RM m m' \<Longrightarrow> RV v v' \<Longrightarrow> RM (b_map_set B m name v) (b_map_set C m' name v')"
    and sim_map_finish: "RM m m' \<Longrightarrow> RV (b_map_finish B m) (b_map_finish C m')"
    and sim_list_new: "RL (b_list_new B n) (b_list_new C n)"
    and sim_list_push: "RL l l' \<Longrightarrow> RV v v' \<Longrightarrow> RL (b_list_push B l v) (b_list_push C l' v')"
    and sim_list_finish: "RL l l' \<Longrightarrow> RV (b_list_finish B l) (b_list_finish C l')"
begin

lemma sim_insert_key:
  "keyed K k \<Longrightarrow> RV v v' \<Longrightarrow> RM m m' \<Longrightarrow> RM (insert_key B k v m) (insert_key C k v' m')"
  by (cases "key_name k") (auto simp: insert_key_def keyed_iff sim_map_set)

abbreviation bs_source :: "bytes \<Rightarrow> hashes \<Rightarrow> ('v, 'm, 'l) uenv" where
  "bs_source buf H \<equiv> \<lparr>ue_buf = buf, ue_builder = B, ue_hashes = H\<rparr>"

abbreviation bs_target :: "bytes \<Rightarrow> hashes \<Rightarrow> ('w, 'n, 'k) uenv" where
  "bs_target buf H \<equiv> \<lparr>ue_buf = buf, ue_builder = C, ue_hashes = H\<rparr>"

lemma sim_read_fixed_item:
  "rel_res (rel_prod RV (=)) (read_fixed_item (bs_source buf H) item base frames)
     (read_fixed_item (bs_target buf H) item base frames)"
  by (cases "fi_kind item")
     (auto simp: read_fixed_item_def Let_def sim_int sim_float sim_bool sim_bytes intro!: rel_bind_same)

lemma sim_flag_value: "RV (flag_value B raw item) (flag_value C raw item)"
  by (simp add: flag_value_def Let_def sim_bool sim_int)

lemma sim_flag_map:
  assumes "fl_key ` set items \<subseteq> K" and "RM m m'"
  shows "RM (foldl (\<lambda>m item. b_map_set B m (fl_key item) (flag_value B raw item)) m items)
    (foldl (\<lambda>m item. b_map_set C m (fl_key item) (flag_value C raw item)) m' items)"
  using assms by (induction items arbitrary: m m') (simp_all add: sim_map_set sim_flag_value)

lemma sim_do_flags:
  assumes "fl_key ` set items \<subseteq> K" and "rest = Keep \<Longrightarrow> ''_rest'' \<in> K"
  shows "rel_res (rel_prod RV (=)) (do_flags (bs_source buf H) prim be items rest rm pos limit)
    (do_flags (bs_target buf H) prim be items rest rm pos limit)"
  using assms(2)
  by (cases rest)
     (auto simp: do_flags_def Let_def sim_int intro!: rel_bind_same sim_map_finish sim_map_set sim_flag_map sim_map_new assms(1))

lemma sim_do_cstr:
  "rel_res (rel_prod RV (=)) (do_cstr (bs_source buf H) mx e pos limit) (do_cstr (bs_target buf H) mx e pos limit)"
  by (auto simp: do_cstr_def Let_def sim_string intro!: rel_bind_same split: option.split)

lemma sim_fixed_step:
  assumes "keyed K (fi_key item)" and "rel_prod RM (=) st st'"
  shows "rel_res (rel_prod RM (=)) (fixed_step (bs_source buf H) pos item st) (fixed_step (bs_target buf H) pos item st')"
proof -
  obtain m m' frames where st: "st = (m, frames)" "st' = (m', frames)" "RM m m'"
    using assms(2) by (cases st; cases st') auto
  show ?thesis unfolding fixed_step_def st(1,2) prod.case
    by (rule rel_bind [OF rel_map_fail [OF sim_read_fixed_item]])
      (use st(3) assms(1) in \<open>auto intro: sim_insert_key\<close>)
qed

lemma sim_run_fixed:
  assumes keys: "list_all (\<lambda>item. keyed K (fi_key item)) items" and st: "rel_ustate RM st st'"
  shows "rel_res (rel_ustate RM) (run_fixed (bs_source buf H) width items limit st)
    (run_fixed (bs_target buf H) width items limit st')"
proof -
  obtain pos m m' df frames where eq: "st = (pos, m, df, frames)" "st' = (pos, m', df, frames)" "RM m m'"
    using st by (cases st; cases st') auto
  have loop: "rel_res (rel_prod RM (=)) (fold_res (fixed_step (bs_source buf H) pos) items (m, frames))
      (fold_res (fixed_step (bs_target buf H) pos) items (m', frames))"
    by (rule rel_fold [OF sim_fixed_step]) (use keys eq(3) in \<open>auto simp: list_all_iff\<close>)
  show ?thesis unfolding run_fixed_def eq(1,2) prod.case uenv.simps
    by (rule rel_bind_same, rule rel_bind [OF loop]) auto
qed

lemma sim_bit_item_step:
  assumes "keyed K (bi_key item)" and "rel_prod (=) (rel_prod RM (=)) st st'"
  shows "rel_res (rel_prod (=) (rel_prod RM (=))) (bit_item_step (bs_source buf H) pos item st)
    (bit_item_step (bs_target buf H) pos item st')"
proof -
  obtain bitpos m m' frames where eq: "st = (bitpos, m, frames)" "st' = (bitpos, m', frames)" "RM m m'"
    using assms(2) by (cases st; cases st') auto
  show ?thesis unfolding bit_item_step_def eq(1,2) prod.case uenv.simps
    by (intro rel_bind_same) (simp add: sim_insert_key assms(1) eq(3) sim_int)
qed

lemma sim_run_bits:
  assumes keys: "list_all (\<lambda>item. keyed K (bi_key item)) items" and st: "rel_ustate RM st st'"
  shows "rel_res (rel_ustate RM) (run_bits (bs_source buf H) nbytes items limit st)
    (run_bits (bs_target buf H) nbytes items limit st')"
proof -
  obtain pos m m' df frames where eq: "st = (pos, m, df, frames)" "st' = (pos, m', df, frames)" "RM m m'"
    using st by (cases st; cases st') auto
  have loop: "rel_res (rel_prod (=) (rel_prod RM (=))) (fold_res (bit_item_step (bs_source buf H) pos) items (0, m, frames))
      (fold_res (bit_item_step (bs_target buf H) pos) items (0, m', frames))"
    by (rule rel_fold [OF sim_bit_item_step]) (use keys eq(3) in \<open>auto simp: list_all_iff\<close>)
  show ?thesis unfolding run_bits_def eq(1,2) prod.case uenv.simps
    by (rule rel_bind_same, rule rel_bind [OF loop]) auto
qed

lemma sim_run_digest:
  assumes key: "keyed K (c_key c)" and st: "rel_ustate RM st st'"
  shows "rel_res (rel_ustate RM) (run_digest (bs_source buf H) algo over verify be c limit st)
    (run_digest (bs_target buf H) algo over verify be c limit st')"
proof -
  obtain pos m m' df frames where eq: "st = (pos, m, df, frames)" "st' = (pos, m', df, frames)" "RM m m'"
    using st by (cases st; cases st') auto
  show ?thesis unfolding run_digest_def eq(1,2) prod.case uenv.simps Let_def
    by (intro rel_bind_same) (auto simp: eq(3) sim_int sim_bytes intro!: rel_bind_same sim_insert_key key)
qed

lemma sim_place_value:
  assumes key: "keyed K (c_key c)" and st: "rel_ustate RM st st'"
    and r: "rel_res (rel_prod RV (=)) r r'"
  shows "rel_res (rel_ustate RM) (place_value (bs_source buf H) c r st) (place_value (bs_target buf H) c r' st')"
proof -
  obtain pos m m' df frames where eq: "st = (pos, m, df, frames)" "st' = (pos, m', df, frames)" "RM m m'"
    using st by (cases st; cases st') auto
  show ?thesis unfolding place_value_def eq(1,2) prod.case uenv.simps
    by (rule rel_bind [OF rel_map_fail [OF r]]) (auto simp: eq(3) intro!: rel_bind_same sim_insert_key key)
qed

lemma sim_do_nest:
  "rel_value RV f f' \<Longrightarrow> rel_value RV (do_nest (bs_source buf H) f sz) (do_nest (bs_target buf H) f' sz)"
  by (auto simp: rel_value_def do_nest_def intro!: rel_bind_same rel_bind [where R = "rel_prod RV (=)"] split: option.split len_src.split)

abbreviation rel_astate :: "'l astate \<Rightarrow> 'k astate \<Rightarrow> bool" where
  "rel_astate \<equiv> rel_prod (=) (rel_prod RL (=))"

lemma sim_array_step:
  assumes "rel_value RV f f'" and st: "rel_astate st st'"
  shows "rel_res rel_astate (array_step B f limit i st) (array_step C f' limit i st')"
proof -
  obtain pos l l' frames where eq: "st = (pos, l, frames)" "st' = (pos, l', frames)" "RL l l'"
    using st by (cases st; cases st') auto
  show ?thesis unfolding array_step_def eq(1,2) prod.case
    by (rule rel_bind [OF rel_map_fail [OF rel_valueD [OF assms(1)]]]) (auto simp: sim_list_push eq(3))
qed

lemma sim_eof_loop:
  assumes "\<And>i st st'. rel_astate st st' \<Longrightarrow> rel_res rel_astate (step i st) (step' i st')"
  shows "rel_astate st st' \<Longrightarrow> rel_res rel_astate (eof_loop step mc limit i st) (eof_loop step' mc limit i st')"
  using assms
proof (induction step mc limit i st arbitrary: st' rule: eof_loop.induct)
  case (1 step mc limit i st)
  obtain pos l l' frames where eq: "st = (pos, l, frames)" "st' = (pos, l', frames)" "RL l l'"
    using 1(2) by (cases st; cases st') auto
  show ?case
  proof (cases "pos < limit \<and> \<not> mc \<le> i")
    case True
    then have "rel_res rel_astate (bind_res (step i st) (eof_loop step mc limit (i + 1)))
        (bind_res (step' i st') (eof_loop step' mc limit (i + 1)))"
      using 1 by (intro rel_bind_run [where R = rel_astate]) (auto simp: eq)
    then show ?thesis using True
      by (subst eof_loop.simps [of step], subst eof_loop.simps [of step']) (simp add: eq)
  next
    case False
    then show ?thesis by (subst eof_loop.simps [of step], subst eof_loop.simps [of step']) (auto simp: eq)
  qed
qed

lemma sim_do_array:
  assumes f: "rel_value RV f f'"
  shows "rel_value RV (do_array (bs_source buf H) f count mc em) (do_array (bs_target buf H) f' count mc em)"
  unfolding rel_value_def
proof (intro allI)
  fix frames pos limit
  note step = sim_array_step [OF f]
  show "rel_res (rel_prod RV (=)) (do_array (bs_source buf H) f count mc em frames pos limit)
      (do_array (bs_target buf H) f' count mc em frames pos limit)"
  proof (cases count)
    case (CountExpr e iv)
    have loop: "rel_res rel_astate (fold_res (array_step B f limit) ixs (pos, b_list_new B n, frames))
        (fold_res (array_step C f' limit) ixs (pos, b_list_new C n, frames))" for ixs n
      by (rule rel_fold [OF step]) (auto simp: sim_list_new)
    show ?thesis unfolding do_array_def Let_def CountExpr count_src.case uenv.simps
      by (rule rel_bind_same) (auto intro!: rel_bind [OF loop] simp: sim_list_finish)
  next
    case UntilEof
    have loop: "rel_res rel_astate (eof_loop (array_step B f limit) mc limit 0 (pos, b_list_new B 0, frames))
        (eof_loop (array_step C f' limit) mc limit 0 (pos, b_list_new C 0, frames))"
      by (rule sim_eof_loop) (auto simp: sim_list_new step)
    show ?thesis unfolding do_array_def Let_def UntilEof count_src.case uenv.simps
      by (rule rel_bind [OF loop]) (auto simp: sim_list_finish)
  qed
qed

lemma sim_do_switch:
  assumes "\<And>tag op. switch_branch tag cases dflt = Some op \<Longrightarrow> rel_value RV (f op) (f' op)"
  shows "rel_value RV (do_switch f on cases dflt) (do_switch f' on cases dflt)"
  using assms by (auto simp: rel_value_def do_switch_def intro!: rel_bind_same split: option.split)

lemma sim_run_struct_step:
  assumes ops: "\<And>op limit st st'. op \<in> set (prog_ops prog) \<Longrightarrow> rel_ustate RM st st' \<Longrightarrow>
      rel_res (rel_ustate RM) (run_op (bs_source buf H) op limit st) (run_op (bs_target buf H) op limit st')"
  shows "rel_value RV (run_struct (bs_source buf H) prog) (run_struct (bs_target buf H) prog)"
  unfolding rel_value_def
proof (intro allI)
  fix frames pos limit
  have loop: "rel_res (rel_ustate RM)
      (fold_res (\<lambda>op st. run_op (bs_source buf H) op limit st) (prog_ops prog)
        (pos, b_map_new B n, [], new_frame # frames))
      (fold_res (\<lambda>op st. run_op (bs_target buf H) op limit st) (prog_ops prog)
        (pos, b_map_new C n, [], new_frame # frames))" for n
    by (rule rel_fold [OF ops]) (auto simp: sim_map_new)
  show "rel_res (rel_prod RV (=)) (run_struct (bs_source buf H) prog frames pos limit)
      (run_struct (bs_target buf H) prog frames pos limit)"
    unfolding run_struct.simps uenv.simps
    by (auto intro!: rel_bind [OF loop] rel_bind_same simp: sim_map_finish split: list.split)
qed

lemma sim_op_value_step:
  assumes keys: "op_keyed K op"
    and nest: "\<And>prog sz c. op = OpNest prog sz c \<Longrightarrow> rel_value RV (run_struct (bs_source buf H) prog) (run_struct (bs_target buf H) prog)"
    and elem: "\<And>count mc elem em c. op = OpArray count mc elem em c \<Longrightarrow>
      rel_value RV (op_value (bs_source buf H) elem) (op_value (bs_target buf H) elem)"
    and branch: "\<And>on cases dflt c tag b. op = OpSwitch on cases dflt c \<Longrightarrow> switch_branch tag cases dflt = Some b \<Longrightarrow>
      rel_value RV (op_value (bs_source buf H) b) (op_value (bs_target buf H) b)"
  shows "rel_value RV (op_value (bs_source buf H) op) (op_value (bs_target buf H) op)"
  unfolding rel_value_def
proof (intro allI)
  fix frames pos limit
  show "rel_res (rel_prod RV (=)) (op_value (bs_source buf H) op frames pos limit) (op_value (bs_target buf H) op frames pos limit)"
  proof (cases op)
    case (OpFixed width items)
    show ?thesis unfolding OpFixed op_value.simps Let_def op.case uenv.simps
      by (intro rel_bind_same rel_bind [OF sim_read_fixed_item]) auto
  next
    case (OpFlags prim be items rest rm c)
    then have "rel_res (rel_prod RV (=)) (do_flags (bs_source buf H) prim be items rest rm pos limit)
        (do_flags (bs_target buf H) prim be items rest rm pos limit)"
      using keys by (intro sim_do_flags) auto
    then show ?thesis unfolding OpFlags op_value.simps Let_def op.case
      by (rule rel_bind) auto
  next
    case (OpCStr mx e c)
    show ?thesis unfolding OpCStr op_value.simps Let_def op.case
      by (rule rel_bind [OF sim_do_cstr]) auto
  next
    case (OpNest prog sz c)
    show ?thesis using rel_valueD [OF sim_do_nest [OF nest [OF OpNest]]] by (simp add: op_value.simps OpNest)
  next
    case (OpArray count mc elem_op em c)
    show ?thesis using rel_valueD [OF sim_do_array [OF elem [OF OpArray]]] by (simp add: op_value.simps OpArray)
  next
    case (OpSwitch on cases dflt c)
    show ?thesis using rel_valueD [OF sim_do_switch [OF branch [OF OpSwitch]]] by (simp add: op_value.simps OpSwitch)
  qed (auto simp: op_value.simps sim_bytes sim_string intro!: rel_bind_same)
qed

lemma sim_run_op_step:
  assumes keys: "op_keyed K op" and st: "rel_ustate RM st st'"
    and val: "rel_value RV (op_value (bs_source buf H) op) (op_value (bs_target buf H) op)"
    and thn: "\<And>pred thn c. op = OpCond pred thn c \<Longrightarrow>
      rel_value RV (op_value (bs_source buf H) thn) (op_value (bs_target buf H) thn)"
  shows "rel_res (rel_ustate RM) (run_op (bs_source buf H) op limit st) (run_op (bs_target buf H) op limit st')"
proof -
  obtain pos m m' df frames where eq: "st = (pos, m, df, frames)" "st' = (pos, m', df, frames)" "RM m m'"
    using st by (cases st; cases st') auto
  have place: "rel_res (rel_ustate RM)
      (place_value (bs_source buf H) c (op_value (bs_source buf H) op' frames pos limit) st)
      (place_value (bs_target buf H) c (op_value (bs_target buf H) op' frames pos limit) st')"
    if "keyed K (c_key c)" "rel_value RV (op_value (bs_source buf H) op') (op_value (bs_target buf H) op')" for c op'
    by (rule sim_place_value [OF that(1) st rel_valueD [OF that(2)]])
  show ?thesis
  proof (cases op)
    case (OpFixed width items)
    then show ?thesis using sim_run_fixed [OF _ st] keys by (simp add: run_op.simps)
  next
    case (OpBitRun nbytes items)
    then show ?thesis using sim_run_bits [OF _ st] keys by (simp add: run_op.simps)
  next
    case (OpDigest algo over verify be c)
    then show ?thesis using sim_run_digest [OF _ st] keys by (simp add: run_op.simps)
  next
    case (OpCond pred t c)
    then have "keyed K (c_key c)" using keys by simp
    from place [OF this thn [OF OpCond]] show ?thesis
      by (auto simp: run_op.simps OpCond eq(1,2) st [unfolded eq] eq(3) intro!: rel_bind_same)
  qed (use place [OF _ val] keys in \<open>auto simp: run_op.simps eq(1,2)\<close>)
qed

lemma sim_walk:
  "(\<forall>prog. 2 * size prog < n \<longrightarrow> prog_keyed K prog \<longrightarrow>
      rel_value RV (run_struct (bs_source buf H) prog) (run_struct (bs_target buf H) prog)) \<and>
   (\<forall>op limit st st'. 2 * size op + 1 < n \<longrightarrow> op_keyed K op \<longrightarrow> rel_ustate RM st st' \<longrightarrow>
      rel_res (rel_ustate RM) (run_op (bs_source buf H) op limit st) (run_op (bs_target buf H) op limit st')) \<and>
   (\<forall>op. 2 * size op < n \<longrightarrow> op_keyed K op \<longrightarrow>
      rel_value RV (op_value (bs_source buf H) op) (op_value (bs_target buf H) op))"
proof (induction n)
  case (Suc n)
  have 1: "rel_value RV (run_struct (bs_source buf H) prog) (run_struct (bs_target buf H) prog)"
    if "2 * size prog < Suc n" "prog_keyed K prog" for prog
  proof (rule sim_run_struct_step)
    fix op limit st st'
    assume op: "op \<in> set (prog_ops prog)" and st: "rel_ustate RM st st'"
    have "op_keyed K op" using that(2) op by (simp add: prog_keyed_ops list_all_iff)
    moreover have "2 * size op + 1 < n" using size_prog_ops [OF op] that(1) by simp
    ultimately show "rel_res (rel_ustate RM) (run_op (bs_source buf H) op limit st) (run_op (bs_target buf H) op limit st')"
      using Suc st by blast
  qed
  have val: "rel_value RV (op_value (bs_source buf H) op) (op_value (bs_target buf H) op)"
    if "2 * size op < n" "op_keyed K op" for op using Suc that by blast
  have 3: "rel_value RV (op_value (bs_source buf H) op) (op_value (bs_target buf H) op)"
    if sz: "2 * size op < Suc n" and keys: "op_keyed K op" for op
  proof (rule sim_op_value_step [OF keys])
    show "rel_value RV (run_struct (bs_source buf H) prog) (run_struct (bs_target buf H) prog)"
      if "op = OpNest prog sz c" for prog sz c
      using that sz keys by (intro 1) simp_all
    show "rel_value RV (op_value (bs_source buf H) elem) (op_value (bs_target buf H) elem)"
      if "op = OpArray count mc elem em c" for count mc elem em c
      using that sz keys by (intro val) simp_all
    show "rel_value RV (op_value (bs_source buf H) b) (op_value (bs_target buf H) b)"
      if "op = OpSwitch on cases dflt c" and b: "switch_branch tag cases dflt = Some b" for on cases dflt c tag b
      using that(1) sz size_switch_branch [OF b] op_keyed_branch [OF keys [unfolded that(1)] b]
      by (intro val) simp_all
  qed
  have 2: "rel_res (rel_ustate RM) (run_op (bs_source buf H) op limit st) (run_op (bs_target buf H) op limit st')"
    if sz: "2 * size op + 1 < Suc n" and keys: "op_keyed K op" and st: "rel_ustate RM st st'" for op limit st st'
    using keys st
  proof (rule sim_run_op_step)
    show "rel_value RV (op_value (bs_source buf H) op) (op_value (bs_target buf H) op)"
      using sz keys by (intro val) simp_all
    show "rel_value RV (op_value (bs_source buf H) thn) (op_value (bs_target buf H) thn)"
      if "op = OpCond pred thn c" for pred thn c
      using that sz keys by (intro val) simp_all
  qed
  show ?case using 1 2 3 by blast
qed simp

lemma sim_run_struct:
  "prog_keyed K prog \<Longrightarrow> rel_value RV (run_struct (bs_source buf H) prog) (run_struct (bs_target buf H) prog)"
  using sim_walk [of "Suc (2 * size prog)" buf H] by blast

lemma sim_run_with:
  assumes "prog_keyed K prog"
  shows "rel_res (rel_outcome RV) (run_with H B prog buf offset exact stream) (run_with H C prog buf offset exact stream)"
proof -
  let ?run = "\<lambda>E. run_struct E prog [] (min offset (length buf)) (length buf)"
  have "rel_res (rel_prod RV (=)) (?run (bs_source buf H)) (?run (bs_target buf H))"
    by (rule rel_valueD [OF sim_run_struct [OF assms]])
  then show ?thesis
    by (cases "?run (bs_source buf H)"; cases "?run (bs_target buf H)")
       (auto simp: run_with_def split: fault.split ufail.split)
qed

end

section \<open>Any builder renders the value tree\<close>

definition rendered_map :: "('v, 'm, 'l) builder \<Rightarrow> val_tree \<Rightarrow> 'm \<Rightarrow> bool" where
  "rendered_map B t m \<longleftrightarrow>
     (\<exists>ps. t = VMap ps \<and> m = foldl (\<lambda>m (k, v). b_map_set B m k v) (b_map_new B 0) (map (map_prod id (render B)) ps))"

sublocale builder_contract \<subseteq> rendering: builder_sim value_builder B "\<lambda>t x. x = render B t" "rendered_map B"
    "\<lambda>vs l. l = foldl (b_list_push B) (b_list_new B 0) (map (render B) vs)" UNIV
proof unfold_locales
  fix n show "rendered_map B (b_map_new value_builder n) (b_map_new B n)"
    by (simp add: rendered_map_def value_builder_def value_map_def map_hint [of n])
  show "rendered_map B (b_map_set value_builder t k v) (b_map_set B m k x)"
    if "rendered_map B t m" "x = render B v" for t m k v x
    using that by (auto simp: rendered_map_def value_builder_def)
  show "b_map_finish B m = render B (b_map_finish value_builder t)" if "rendered_map B t m" for t m
    using that by (auto simp: rendered_map_def value_builder_def)
  show "b_list_new B n = foldl (b_list_push B) (b_list_new B 0) (map (render B) (b_list_new value_builder n))" for n
    by (simp add: value_builder_def list_hint [of n])
qed (auto simp: value_builder_def)

lemma rel_render: "rel_res (rel_outcome (\<lambda>t x. x = g t)) r r' \<longleftrightarrow> r' = map_sum id (map_outcome g) r"
proof -
  have "rel_outcome (\<lambda>t x. x = g t) a b \<longleftrightarrow> b = map_outcome g a" for a b
    by (cases a; cases b) auto
  then show ?thesis by (cases r; cases r') auto
qed

context builder_contract begin

lemma run_renders:
  "run_with H B prog buf offset exact stream = map_sum id (map_outcome (render B)) (run H prog buf offset exact stream)"
  using rendering.sim_run_with [of prog H buf offset exact stream]
  by (simp add: rel_render run_def prog_keyed_def)

end

text \<open>C32: an unpacker with any builder whose size hints do not show is a refinement of the
  reference one: the outcome is the outcome of \<open>unpack::run\<close> with its value tree replayed through
  the builder, on every program, buffer, offset and mode.\<close>

theorem unpack_refines_reference:
  assumes "\<And>n. b_map_new B n = b_map_new B 0" and "\<And>n. b_list_new B n = b_list_new B 0"
  shows "run_with H B prog buf offset exact stream = map_sum id (map_outcome (render B)) (run H prog buf offset exact stream)"
  by (rule builder_contract.run_renders [OF builder_contract.intro]) (rule assms)+

theorem unpack_refines_reference_witness:
  "run_with zero_hashes (value_builder\<lparr>b_bool := \<lambda>b. VInt (of_bool b)\<rparr>)
      (Program [OpFixed 1 [\<lparr>fi_off = 0, fi_kind = FBool None, fi_reg = None, fi_span = None, fi_key = Named ''t''\<rparr>]] 0 0 1 (Some 1)) [7] 0 True False =
    Inr (OOk (VMap [(''t'', VInt 1)]) 1)"
  by (subst unpack_refines_reference)
    (simp_all add: value_builder_def value_map_def run_def run_with_def run_struct.simps run_op.simps run_fixed_def need_def
      saturating_add_def usize_max_def fixed_step_def read_fixed_item_def slice_res_def nth_res_def set_span_def insert_key_def
      MAX_DEPTH_def new_frame_def)

section \<open>The key cache\<close>

text \<open>Builders that differ only in what they do with names outside the cache.\<close>

definition same_inserts :: "string set \<Rightarrow> ('v, 'm, 'l) builder \<Rightarrow> ('v, 'm, 'l) builder \<Rightarrow> bool" where
  "same_inserts K B C \<longleftrightarrow> (\<exists>f. C = B\<lparr>b_map_set := f\<rparr> \<and> (\<forall>m v. \<forall>k\<in>K. f m k v = b_map_set B m k v))"

lemma same_inserts_sim: "same_inserts K B C \<Longrightarrow> builder_sim B C (=) (=) (=) K"
  by unfold_locales (auto simp: same_inserts_def)

end
