(* ===== verification/Objects.thy ===== *)
theory Objects
  imports Python Builder_Sim Source_Sim
begin

text \<open>
  Python objects as the unpacker builds them and the packer reads them: \<open>PyBuilder\<close> and
  \<open>PySource\<close> of \<open>crates/rustruct-py/src/lib.rs\<close>, as a builder and a source over objects of an
  opaque type. What PyO3 does is the records \<open>py_new\<close> and \<open>py_read\<close>, one field per call of the
  code, and the interface \<open>py\<close> of \<open>Python\<close>.

  Both look names up in the key cache. The panic of the \<open>expect\<close> on a name that is not cached
  stands as the argument \<open>missing\<close>: the properties hold for every \<open>missing\<close>, so the outcome never
  depends on it.
\<close>

section \<open>The hash of the key cache\<close>

definition fnv_default :: "64 word" where
  "fnv_default = 0xcbf29ce484222325"

definition fnv_write :: "bytes \<Rightarrow> 64 word \<Rightarrow> 64 word" where
  "fnv_write bs h = fold (\<lambda>b h. (h XOR ucast b) * 0x100000001b3) bs h"

section \<open>Building\<close>

record 'o py_new =
  pn_i64 :: "int \<Rightarrow> 'o"
  pn_i128 :: "int \<Rightarrow> 'o"
  pn_float :: "64 word \<Rightarrow> 'o"
  pn_bool :: "bool \<Rightarrow> 'o"
  pn_bytes :: "bytes \<Rightarrow> 'o"
  pn_string :: "ustr \<Rightarrow> 'o"
  pn_key :: "string \<Rightarrow> 'o"
  pn_dict :: 'o
  pn_set_item :: "'o \<Rightarrow> 'o \<Rightarrow> 'o \<Rightarrow> 'o"
  pn_list :: "'o list \<Rightarrow> 'o"

definition pb_int :: "'o py_new \<Rightarrow> int \<Rightarrow> 'o" where
  "pb_int N v = (if in_i64 v then pn_i64 N v else pn_i128 N v)"

definition pb_map_set :: "'o py_new \<Rightarrow> string list \<Rightarrow> ('o \<Rightarrow> string \<Rightarrow> 'o \<Rightarrow> 'o) \<Rightarrow> 'o \<Rightarrow> string \<Rightarrow> 'o \<Rightarrow> 'o" where
  "pb_map_set N cache missing m k v =
     (if k \<in> set cache then pn_set_item N m (pn_key N k) v else missing m k v)"

definition py_builder ::
    "'o py_new \<Rightarrow> string list \<Rightarrow> ('o \<Rightarrow> string \<Rightarrow> 'o \<Rightarrow> 'o) \<Rightarrow> ('o, 'o, 'o list) builder" where
  "py_builder N cache missing =
     \<lparr>b_int = pb_int N, b_float = pn_float N, b_bool = pn_bool N, b_bytes = pn_bytes N, b_string = pn_string N,
      b_map_new = (\<lambda>_. pn_dict N), b_map_set = pb_map_set N cache missing, b_map_finish = (\<lambda>m. m),
      b_list_new = (\<lambda>_. []), b_list_push = (\<lambda>l v. l @ [v]), b_list_finish = pn_list N\<rparr>"

text \<open>The builder of a cache that holds every name.\<close>

abbreviation py_builder_all :: "'o py_new \<Rightarrow> ('o, 'o, 'o list) builder" where
  "py_builder_all N \<equiv> py_builder N [] (\<lambda>m k v. pn_set_item N m (pn_key N k) v)"

interpretation py_builder: builder_contract "py_builder N cache missing" for N cache missing
  by unfold_locales (simp_all add: py_builder_def)

lemma py_builder_cached: "same_inserts (set cache) (py_builder N cache missing) (py_builder_all N)"
  by (auto simp: same_inserts_def py_builder_def pb_map_set_def)

interpretation py_cached: builder_sim "py_builder N cache missing" "py_builder_all N" "(=)" "(=)" "(=)" "set cache"
  for N cache missing
  by (rule same_inserts_sim [OF py_builder_cached])

section \<open>Reading\<close>

record 'o py_read =
  rd_items :: "'o \<Rightarrow> 'o list option"
  rd_pair :: "'o \<Rightarrow> ('o \<times> 'o) option"
  rd_dict_get :: "'o \<Rightarrow> 'o \<Rightarrow> 'o option"
  rd_dict_len :: "'o \<Rightarrow> nat"
  rd_list :: "'o \<Rightarrow> 'o list option"
  rd_float :: "'o \<Rightarrow> 64 word option"
  rd_text :: "'o \<Rightarrow> ustr option"
  rd_text_len :: "'o \<Rightarrow> nat option"
  rd_bytes :: "'o \<Rightarrow> bytes option"
  rd_bytearray :: "'o \<Rightarrow> bytes option"
  rd_buffer :: "'o \<Rightarrow> (bool \<times> bytes) option"

text \<open>
  \<open>rd_items\<close> is what the iterator of \<open>v.items()\<close> yields, without the exceptions it raises;
  \<open>rd_text_len\<close> is the length of a \<open>str\<close>, zero where it has none; \<open>rd_buffer\<close> is a buffer of bytes
  and whether it is C-contiguous.
\<close>

datatype 'o py_view = PyDictView 'o | PyGeneric "(string \<times> 'o) list"

definition ps_pair :: "'o py \<Rightarrow> 'o py_read \<Rightarrow> 'o \<Rightarrow> (string \<times> 'o) list \<Rightarrow> (string \<times> 'o) list" where
  "ps_pair P R pair m =
     (case rd_pair R pair of
        Some (k, v) \<Rightarrow> (case extract_str P k of Some key \<Rightarrow> AList.update key v m | None \<Rightarrow> m)
      | None \<Rightarrow> m)"

definition ps_map_view :: "'o py \<Rightarrow> 'o py_read \<Rightarrow> 'o \<Rightarrow> 'o py_view option" where
  "ps_map_view P R v =
     (if py_is_dict P v then Some (PyDictView v)
      else map_option (\<lambda>items. PyGeneric (fold (ps_pair P R) items [])) (rd_items R v))"

fun ps_view_get :: "'o py_new \<Rightarrow> 'o py_read \<Rightarrow> string list \<Rightarrow> ('o \<Rightarrow> string \<Rightarrow> 'o option) \<Rightarrow>
    'o py_view \<Rightarrow> string \<Rightarrow> 'o option" where
  "ps_view_get N R cache missing (PyDictView d) k =
     (if k \<in> set cache then rd_dict_get R d (pn_key N k) else missing d k)"
| "ps_view_get N R cache missing (PyGeneric m) k = map_of m k"

fun ps_view_keys :: "'o py \<Rightarrow> 'o py_view \<Rightarrow> string list" where
  "ps_view_keys P (PyDictView d) = List.map_filter (extract_str P) (py_keys P d)"
| "ps_view_keys P (PyGeneric m) = map fst m"

definition ps_as_list :: "'o py \<Rightarrow> 'o py_read \<Rightarrow> 'o \<Rightarrow> 'o list option" where
  "ps_as_list P R v = (case rd_list R v of Some l \<Rightarrow> Some l | None \<Rightarrow> py_tuple P v)"

definition extract_int :: "'o py \<Rightarrow> 'o \<Rightarrow> int option" where
  "extract_int P v = (case extract_i64 P v of Some x \<Rightarrow> Some x | None \<Rightarrow> extract_i128 P v)"

definition is_true :: "'o py \<Rightarrow> 'o \<Rightarrow> bool" where
  "is_true P v \<longleftrightarrow> py_bool P v = Some True"

definition ps_as_int :: "'o py \<Rightarrow> 'o \<Rightarrow> int option" where
  "ps_as_int P v =
     (if py_is_bool P v then Some (of_bool (is_true P v))
      else if py_is_int P v then extract_int P v else None)"

definition ps_as_float :: "'o py \<Rightarrow> 'o py_read \<Rightarrow> 'o \<Rightarrow> 64 word option" where
  "ps_as_float P R v =
     (case rd_float R v of
        Some f \<Rightarrow> Some f
      | None \<Rightarrow> if py_is_int P v \<and> \<not> py_is_bool P v then map_option f64_of_int (extract_int P v) else None)"

definition ps_as_bytes :: "'o py_read \<Rightarrow> 'o \<Rightarrow> bytes option" where
  "ps_as_bytes R v =
     (case rd_bytes R v of
        Some b \<Rightarrow> Some b
      | None \<Rightarrow>
          (case rd_bytearray R v of
             Some b \<Rightarrow> Some b
           | None \<Rightarrow> (case rd_buffer R v of Some (True, data) \<Rightarrow> Some data | _ \<Rightarrow> None)))"

definition ps_truthy :: "'o py \<Rightarrow> 'o py_read \<Rightarrow> 'o \<Rightarrow> bool option" where
  "ps_truthy P R v =
     (if py_is_bool P v then Some (is_true P v)
      else if py_is_int P v then map_option (\<lambda>x. x \<noteq> 0) (extract_i128 P v)
      else case rd_float R v of
        Some f \<Rightarrow> Some (f64_nonzero f)
      | None \<Rightarrow> (case rd_text_len R v of
        Some n \<Rightarrow> Some (n \<noteq> 0)
      | None \<Rightarrow> (case rd_bytes R v of
        Some b \<Rightarrow> Some (b \<noteq> [])
      | None \<Rightarrow> (case rd_bytearray R v of
        Some b \<Rightarrow> Some (length b \<noteq> 0)
      | None \<Rightarrow> (case rd_list R v of
        Some l \<Rightarrow> Some (length l \<noteq> 0)
      | None \<Rightarrow> (case py_tuple P v of
        Some t \<Rightarrow> Some (length t \<noteq> 0)
      | None \<Rightarrow> if py_is_dict P v then Some (rd_dict_len R v \<noteq> 0) else None))))))"

definition py_source ::
    "'o py \<Rightarrow> 'o py_new \<Rightarrow> 'o py_read \<Rightarrow> string list \<Rightarrow> ('o \<Rightarrow> string \<Rightarrow> 'o option) \<Rightarrow> ('o, 'o py_view) source" where
  "py_source P N R cache missing =
     \<lparr>s_map_view = ps_map_view P R, s_view_get = ps_view_get N R cache missing, s_view_keys = ps_view_keys P,
      s_as_list = ps_as_list P R, s_as_int = ps_as_int P, s_as_float = ps_as_float P R,
      s_as_bytes = ps_as_bytes R, s_as_str = rd_text R, s_truthy = ps_truthy P R\<rparr>"

abbreviation py_source_all :: "'o py \<Rightarrow> 'o py_new \<Rightarrow> 'o py_read \<Rightarrow> ('o, 'o py_view) source" where
  "py_source_all P N R \<equiv> py_source P N R [] (\<lambda>d k. rd_dict_get R d (pn_key N k))"

lemma py_source_cached: "same_lookups (set cache) (py_source P N R cache missing) (py_source_all P N R)"
proof -
  have "\<forall>w. \<forall>k\<in>set cache. ps_view_get N R [] (\<lambda>d k. rd_dict_get R d (pn_key N k)) w k = ps_view_get N R cache missing w k"
  proof (intro allI ballI)
    fix w k
    assume "k \<in> set cache"
    then show "ps_view_get N R [] (\<lambda>d k. rd_dict_get R d (pn_key N k)) w k = ps_view_get N R cache missing w k"
      by (cases w) simp_all
  qed
  then show ?thesis unfolding same_lookups_def by (intro exI) (auto simp: py_source_def)
qed

interpretation py_source_cached: source_sim "py_source P N R cache missing" "py_source_all P N R" "(=)" "(=)" "set cache"
  for P N R cache missing
  by (rule same_lookups_sim [OF py_source_cached])

section \<open>A tree of objects\<close>

text \<open>
  A model of the three interfaces: the objects packing distinguishes, as trees, with the documented
  answers of PyO3. Names are strings whose characters are the code points of the \<open>str\<close>.
\<close>

datatype (plugins only: code size) pydata =
    ObNone
  | ObBool bool
  | ObInt int
  | ObFloat "64 word"
  | ObStr ustr
  | ObBytes bytes
  | ObByteArray bytes
  | ObTuple "pydata list"
  | ObList "pydata list"
  | ObDict "(string \<times> pydata) list"
  | ObMapping "(string \<times> pydata) list"

definition name_str :: "string \<Rightarrow> ustr" where
  "name_str k = map of_char k"

definition str_name :: "ustr \<Rightarrow> string" where
  "str_name u = map char_of u"

lemma str_name_str [simp]: "str_name (name_str k) = k"
  by (simp add: str_name_def name_str_def comp_def)

fun d_int :: "pydata \<Rightarrow> int option" where
  "d_int (ObInt i) = Some i"
| "d_int (ObBool b) = Some (of_bool b)"
| "d_int _ = None"

fun d_str :: "pydata \<Rightarrow> ustr option" where
  "d_str (ObStr u) = Some u"
| "d_str _ = None"

fun d_bytes :: "pydata \<Rightarrow> bytes option" where
  "d_bytes (ObBytes b) = Some b"
| "d_bytes (ObByteArray b) = Some b"
| "d_bytes _ = None"

fun d_items :: "pydata \<Rightarrow> (string \<times> pydata) list" where
  "d_items (ObDict ps) = ps"
| "d_items (ObMapping ps) = ps"
| "d_items _ = []"

definition data_py :: "pydata py" where
  "data_py =
     \<lparr>py_is_none = (\<lambda>v. v = ObNone), py_is_bool = (\<lambda>v. case v of ObBool _ \<Rightarrow> True | _ \<Rightarrow> False),
      py_is_int = (\<lambda>v. d_int v \<noteq> None), py_str = (\<lambda>v. map_option (\<lambda>u. Inr (str_name u)) (d_str v)),
      py_tuple = (\<lambda>v. case v of ObTuple vs \<Rightarrow> Some vs | _ \<Rightarrow> None),
      py_is_dict = (\<lambda>v. case v of ObDict _ \<Rightarrow> True | _ \<Rightarrow> False),
      py_keys = (\<lambda>v. map (\<lambda>p. ObStr (name_str (fst p))) (d_items v)),
      py_get_item = (\<lambda>v k. Inr (map_of (d_items v) k)),
      py_iter = (\<lambda>v. case v of ObTuple vs \<Rightarrow> Some (map Inr vs) | ObList vs \<Rightarrow> Some (map Inr vs) | _ \<Rightarrow> None),
      py_int = d_int, py_bool = (\<lambda>v. case v of ObBool b \<Rightarrow> Some b | _ \<Rightarrow> None), py_bytes = d_bytes,
      py_repr = (\<lambda>_. [])\<rparr>"

fun d_set_item :: "pydata \<Rightarrow> pydata \<Rightarrow> pydata \<Rightarrow> pydata" where
  "d_set_item (ObDict ps) (ObStr u) v = ObDict (AList.update (str_name u) v ps)"
| "d_set_item m k v = m"

definition data_new :: "pydata py_new" where
  "data_new =
     \<lparr>pn_i64 = ObInt, pn_i128 = ObInt, pn_float = ObFloat, pn_bool = ObBool, pn_bytes = ObBytes, pn_string = ObStr,
      pn_key = (\<lambda>k. ObStr (name_str k)), pn_dict = ObDict [], pn_set_item = d_set_item, pn_list = ObList\<rparr>"

definition data_read :: "pydata py_read" where
  "data_read =
     \<lparr>rd_items = (\<lambda>v. case v of ObMapping ps \<Rightarrow> Some (map (\<lambda>p. ObTuple [ObStr (name_str (fst p)), snd p]) ps)
        | ObDict ps \<Rightarrow> Some (map (\<lambda>p. ObTuple [ObStr (name_str (fst p)), snd p]) ps) | _ \<Rightarrow> None),
      rd_pair = (\<lambda>v. case v of ObTuple [a, b] \<Rightarrow> Some (a, b) | _ \<Rightarrow> None),
      rd_dict_get = (\<lambda>d k. case k of ObStr u \<Rightarrow> map_of (d_items d) (str_name u) | _ \<Rightarrow> None),
      rd_dict_len = (\<lambda>d. length (d_items d)),
      rd_list = (\<lambda>v. case v of ObList vs \<Rightarrow> Some vs | _ \<Rightarrow> None),
      rd_float = (\<lambda>v. case v of ObFloat f \<Rightarrow> Some f | _ \<Rightarrow> None),
      rd_text = d_str, rd_text_len = (\<lambda>v. map_option length (d_str v)),
      rd_bytes = (\<lambda>v. case v of ObBytes b \<Rightarrow> Some b | _ \<Rightarrow> None),
      rd_bytearray = (\<lambda>v. case v of ObByteArray b \<Rightarrow> Some b | _ \<Rightarrow> None),
      rd_buffer = (\<lambda>v. map_option (Pair True) (d_bytes v))\<rparr>"

text \<open>The value tree an object stands for, and the objects the contract covers.\<close>

fun data_value :: "pydata \<Rightarrow> val_tree" where
  "data_value ObNone = VUnsupported"
| "data_value (ObBool b) = VBool b"
| "data_value (ObInt i) = (if - (2 ^ 127) \<le> i \<and> i \<le> 2 ^ 127 - 1 then VInt i else VUnsupported)"
| "data_value (ObFloat f) = VFloat f"
| "data_value (ObStr u) = VStr u"
| "data_value (ObBytes b) = VBytes b"
| "data_value (ObByteArray b) = VBytes b"
| "data_value (ObTuple vs) = VList (map data_value vs)"
| "data_value (ObList vs) = VList (map data_value vs)"
| "data_value (ObDict ps) = VMap (map (map_prod id data_value) ps)"
| "data_value (ObMapping ps) = VMap (map (map_prod id data_value) ps)"

fun dicts_only :: "pydata \<Rightarrow> bool" where
  "dicts_only (ObDict ps) \<longleftrightarrow> distinct (map fst ps) \<and> list_all (\<lambda>p. dicts_only (snd p)) ps"
| "dicts_only (ObMapping ps) \<longleftrightarrow> False"
| "dicts_only (ObTuple vs) \<longleftrightarrow> list_all dicts_only vs"
| "dicts_only (ObList vs) \<longleftrightarrow> list_all dicts_only vs"
| "dicts_only _ \<longleftrightarrow> True"

lemma map_of_map_value: "map_of (map (map_prod id f) ps) k = map_option f (map_of ps k)"
  by (induction ps) auto

lemma extract_int_is: "extract_int P v = (case py_int P v of
    Some n \<Rightarrow> if - (2 ^ 127) \<le> n \<and> n \<le> 2 ^ 127 - 1 then Some n else None | None \<Rightarrow> None)"
  by (auto simp: extract_int_def extract_i64_def extract_i128_def extract_between_def i64_min_def i64_max_def split: option.split)

interpretation data_source: source_contract "py_source_all data_py data_new data_read" data_value dicts_only
proof unfold_locales
  fix v w ps k u us
  assume ok: "dicts_only v"
  let ?S = "py_source_all data_py data_new data_read"
  note defs = py_source_def data_py_def data_read_def data_new_def
  show "(s_map_view ?S v = None) = (as_pairs (data_value v) = None)"
    using ok by (cases v) (simp_all add: defs ps_map_view_def)
  have dict: "\<exists>qs. v = ObDict qs \<and> w = PyDictView v" if "s_map_view ?S v = Some w"
    using that ok by (cases v) (simp_all add: defs ps_map_view_def)
  show "map_option data_value (s_view_get ?S w k) = map_of ps k"
    if "s_map_view ?S v = Some w" "as_pairs (data_value v) = Some ps"
    using dict [OF that(1)] that(2) by (auto simp: defs map_of_map_value)
  show "set (s_view_keys ?S w) = fst ` set ps"
    if "s_map_view ?S v = Some w" "as_pairs (data_value v) = Some ps"
    using dict [OF that(1)] that(2)
    by (force simp: defs extract_str_def map_filter_def image_image)
  show "dicts_only u" if "s_map_view ?S v = Some w" "s_view_get ?S w k = Some u"
    using dict [OF that(1)] that(2) ok by (fastforce simp: defs list_all_iff dest!: map_of_SomeD)
  show "map_option (map data_value) (s_as_list ?S v) = vs_as_list (data_value v)"
    by (cases v) (simp_all add: defs ps_as_list_def)
  show "dicts_only u" if "s_as_list ?S v = Some us" "u \<in> set us"
    using that ok by (cases v) (auto simp: defs ps_as_list_def list_all_iff)
  show "s_as_int ?S v = vs_as_int (data_value v)"
    by (cases v) (simp_all add: defs ps_as_int_def extract_int_is is_true_def)
  show "s_as_float ?S v = vs_as_float (data_value v)"
    by (cases v) (simp_all add: defs ps_as_float_def extract_int_is)
  show "s_as_bytes ?S v = vs_as_bytes (data_value v)"
    by (cases v) (simp_all add: defs ps_as_bytes_def)
  show "s_as_str ?S v = vs_as_str (data_value v)"
    by (cases v) (simp_all add: defs)
  show "s_truthy ?S v = vs_truthy (data_value v)"
    using ok by (cases v) (simp_all add: defs ps_truthy_def is_true_def extract_i128_def extract_between_def)
qed

end
