(* ===== verification/Nearest.thy ===== *)
theory Nearest
  imports Complex_Main Text_Codec
begin

text \<open>
  The spelling hint of the schema parser, \<open>distance\<close> and \<open>nearest\<close> of
  \<open>crates/rustruct-py/src/parse.rs\<close>: optimal string alignment over three rolling rows, and the
  choice of the closest allowed name. The rows compute a recursion on the two words, which is
  the least cost of an edit script.
\<close>

section \<open>Three rolling rows\<close>

type_synonym rows = "nat list \<times> nat list \<times> nat list"

text \<open>
  One cell, \<open>current[j] = best\<close>. The words and rows are indexed as the code does; a sum that
  the lengths bound does not wrap. \<open>&&\<close> stops at the first condition that fails.
\<close>

definition swapped :: "'a list \<Rightarrow> 'a list \<Rightarrow> nat \<Rightarrow> nat \<Rightarrow> ('e, bool) res" where
  "swapped a b i j =
     (if 1 < i \<and> 1 < j
      then bind_res (nth_res a (i - 1)) (\<lambda>ai. bind_res (nth_res b (j - 2)) (\<lambda>bj.
             if ai \<noteq> bj then Inr False
             else bind_res (nth_res a (i - 2)) (\<lambda>ai. bind_res (nth_res b (j - 1)) (\<lambda>bj. Inr (ai = bj)))))
      else Inr False)"

definition cell :: "'a list \<Rightarrow> 'a list \<Rightarrow> nat \<Rightarrow> nat list \<Rightarrow> nat list \<Rightarrow> nat \<Rightarrow> nat list \<Rightarrow> ('e, nat list) res" where
  "cell a b i before previous j current =
     bind_res (nth_res previous (j - 1)) (\<lambda>diag.
     bind_res (nth_res a (i - 1)) (\<lambda>ai.
     bind_res (nth_res b (j - 1)) (\<lambda>bj.
     bind_res (nth_res previous j) (\<lambda>up.
     bind_res (nth_res current (j - 1)) (\<lambda>left.
       let substitute = diag + of_bool (ai \<noteq> bj); delete = up + 1; insert = left + 1;
           best = min (min substitute delete) insert
       in bind_res (swapped a b i j) (\<lambda>sw.
          bind_res (if sw then bind_res (nth_res before (j - 2)) (\<lambda>x. Inr (min best (x + 1))) else Inr best)
            (update_res current j)))))))"

text \<open>One round of the outer loop; the two swaps rotate the rows.\<close>

definition row_step :: "'a list \<Rightarrow> 'a list \<Rightarrow> nat \<Rightarrow> rows \<Rightarrow> ('e, rows) res" where
  "row_step a b i st = (case st of (before, previous, current) \<Rightarrow>
     bind_res (update_res current 0 i) (\<lambda>current.
     bind_res (fold_res (cell a b i before previous) [1..<length b + 1] current) (\<lambda>current.
       Inr (previous, current, before))))"

definition distance :: "'a list \<Rightarrow> 'a list \<Rightarrow> ('e, nat) res" where
  "distance a b =
     (let n = length b in
      bind_res (fold_res (row_step a b) [1..<length a + 1]
          (replicate (n + 1) 0, [0..<n + 1], replicate (n + 1) 0)) (\<lambda>(_, previous, _).
        nth_res previous n))"

section \<open>The recursion the rows compute\<close>

fun osa :: "'a list \<Rightarrow> 'a list \<Rightarrow> nat" where
  "osa [] ys = length ys"
| "osa xs [] = length xs"
| "osa (x # xs) (y # ys) =
     (let best = min (min (osa xs ys + of_bool (x \<noteq> y)) (osa xs (y # ys) + 1)) (osa (x # xs) ys + 1)
      in case (xs, ys) of
           (x' # xs', y' # ys') \<Rightarrow> if x = y' \<and> x' = y then min best (osa xs' ys' + 1) else best
         | _ \<Rightarrow> best)"

text \<open>The words read backwards up to \<open>i\<close> and \<open>j\<close>: cell \<open>j\<close> of row \<open>i\<close>.\<close>

definition osa_at :: "'a list \<Rightarrow> 'a list \<Rightarrow> nat \<Rightarrow> nat \<Rightarrow> nat" where
  "osa_at a b i j = osa (rev (take i a)) (rev (take j b))"

lemma osa_Nil2: "osa xs [] = length xs"
  by (cases xs) simp_all

lemma osa_at_0: "j \<le> length b \<Longrightarrow> osa_at a b 0 j = j" "i \<le> length a \<Longrightarrow> osa_at a b i 0 = i"
  by (simp_all add: osa_at_def osa_Nil2)

lemma rev_take_Suc: "i < length a \<Longrightarrow> rev (take (Suc i) a) = a ! i # rev (take i a)"
  by (simp add: take_Suc_conv_app_nth)

lemma rev_take_hd_tl:
  assumes "0 < i" and "i \<le> length a"
  shows "rev (take i a) \<noteq> []" "hd (rev (take i a)) = a ! (i - 1)" "tl (rev (take i a)) = rev (take (i - 1) a)"
  using assms rev_take_Suc [of "i - 1" a] by simp_all

lemma osa_Cons:
  "osa (x # xs) (y # ys) =
    (let best = min (min (osa xs ys + of_bool (x \<noteq> y)) (osa xs (y # ys) + 1)) (osa (x # xs) ys + 1)
     in if xs \<noteq> [] \<and> ys \<noteq> [] \<and> x = hd ys \<and> hd xs = y then min best (osa (tl xs) (tl ys) + 1) else best)"
  by (cases xs; cases ys) (simp_all only: osa.simps Let_def prod.case list.case list.sel, auto)

declare osa.simps(3) [simp del]

lemma osa_at_Suc:
  assumes i: "i < length a" and j: "j < length b"
  shows "osa_at a b (Suc i) (Suc j) =
    (let best = min (min (osa_at a b i j + of_bool (a ! i \<noteq> b ! j)) (osa_at a b i (Suc j) + 1)) (osa_at a b (Suc i) j + 1)
     in if 0 < i \<and> 0 < j \<and> a ! i = b ! (j - 1) \<and> a ! (i - 1) = b ! j
        then min best (osa_at a b (i - 1) (j - 1) + 1) else best)"
proof -
  have "rev (take i a) = [] \<longleftrightarrow> i = 0" "rev (take j b) = [] \<longleftrightarrow> j = 0" using i j by auto
  then show ?thesis
    unfolding osa_at_def rev_take_Suc [OF i] rev_take_Suc [OF j] osa_Cons Let_def
    using rev_take_hd_tl [of i a] rev_take_hd_tl [of j b] i j by (auto simp del: rev_is_Nil_conv)
qed

definition row :: "'a list \<Rightarrow> 'a list \<Rightarrow> nat \<Rightarrow> nat list" where
  "row a b i = map (osa_at a b i) [0..<length b + 1]"

lemma row_nth: "j \<le> length b \<Longrightarrow> row a b i ! j = osa_at a b i j"
  by (simp add: row_def nth_append)

lemma length_row [simp]: "length (row a b i) = length b + 1"
  by (simp add: row_def)

lemma cell_next:
  assumes i: "i < length a" and j: "j < length b"
    and before: "length before = length b + 1" "0 < i \<Longrightarrow> before = row a b (i - 1)"
    and current: "length current = length b + 1" "\<forall>k \<le> j. current ! k = osa_at a b (Suc i) k"
  shows "cell a b (Suc i) before (row a b i) (Suc j) current = Inr (current[Suc j := osa_at a b (Suc i) (Suc j)])"
proof -
  have sw: "swapped a b (Suc i) (Suc j) = Inr (0 < i \<and> 0 < j \<and> a ! i = b ! (j - 1) \<and> a ! (i - 1) = b ! j)"
    using i j by (auto simp: swapped_def nth_res_def numeral_2_eq_2)
  have "before ! (j - 1) = osa_at a b (i - 1) (j - 1)" if "0 < i" "0 < j"
    using before(2) [OF that(1)] j by (simp add: row_nth)
  then show ?thesis
    using i j before(1) current unfolding cell_def sw osa_at_Suc [OF i j]
    by (auto simp: nth_res_def update_res_def row_nth Let_def)
qed

lemma cells:
  assumes i: "i < length a" and before: "length before = length b + 1" "0 < i \<Longrightarrow> before = row a b (i - 1)"
  shows "j \<le> length b \<Longrightarrow> length current = length b + 1 \<Longrightarrow> current ! 0 = osa_at a b (Suc i) 0 \<Longrightarrow>
    \<exists>c. fold_res (cell a b (Suc i) before (row a b i)) [1..<j + 1] current = (Inr c :: ('e, nat list) res) \<and>
      length c = length b + 1 \<and> (\<forall>k \<le> j. c ! k = osa_at a b (Suc i) k)"
proof (induction j)
  case (Suc j)
  then obtain c where c: "fold_res (cell a b (Suc i) before (row a b i)) [1..<j + 1] current = (Inr c :: ('e, nat list) res)"
    "length c = length b + 1" "\<forall>k \<le> j. c ! k = osa_at a b (Suc i) k" by auto
  have "cell a b (Suc i) before (row a b i) (Suc j) c = (Inr (c[Suc j := osa_at a b (Suc i) (Suc j)]) :: ('e, nat list) res)"
    by (rule cell_next) (use i before c Suc.prems in auto)
  moreover have "\<forall>k \<le> Suc j. c[Suc j := osa_at a b (Suc i) (Suc j)] ! k = osa_at a b (Suc i) k"
    using c(2,3) Suc.prems(1) by (simp add: nth_list_update le_Suc_eq)
  ultimately show ?case using c(1,2) by (simp add: fold_res_append)
qed simp

lemma rows:
  "i \<le> length a \<Longrightarrow> \<exists>before current. fold_res (row_step a b) [1..<i + 1]
      (replicate (length b + 1) 0, [0..<length b + 1], replicate (length b + 1) 0) = (Inr (before, row a b i, current) :: ('e, rows) res) \<and>
    length before = length b + 1 \<and> length current = length b + 1 \<and> (0 < i \<longrightarrow> before = row a b (i - 1))"
proof (induction i)
  case 0
  have "[0..<length b + 1] = row a b 0" by (rule nth_equalityI) (auto simp: row_nth osa_at_0 nth_append)
  then show ?case by simp
next
  case (Suc i)
  from Suc.IH [OF Suc_leD [OF Suc.prems]] obtain before current where st: "fold_res (row_step a b) [1..<i + 1]
      (replicate (length b + 1) 0, [0..<length b + 1], replicate (length b + 1) 0) = (Inr (before, row a b i, current) :: ('e, rows) res)"
    and len: "length before = length b + 1" "length current = length b + 1" and b: "0 < i \<longrightarrow> before = row a b (i - 1)"
    by blast
  obtain c where c: "fold_res (cell a b (Suc i) before (row a b i)) [1..<length b + 1] (current[0 := Suc i]) = (Inr c :: ('e, nat list) res)"
    "length c = length b + 1" "\<forall>k \<le> length b. c ! k = osa_at a b (Suc i) k"
    using cells [of i a before b "length b" "current[0 := Suc i]"] Suc.prems len b by (auto simp: osa_at_0)
  have "c = row a b (Suc i)" by (rule nth_equalityI) (use c in \<open>auto simp: row_nth\<close>)
  then have "row_step a b (Suc i) (before, row a b i, current) = (Inr (row a b i, row a b (Suc i), before) :: ('e, rows) res)"
    using c(1) len by (cases current) (simp_all add: row_step_def update_res_def)
  then show ?case using st len by (simp add: fold_res_append)
qed

lemma distance_osa: "(distance a b :: ('e, nat) res) = Inr (osa (rev a) (rev b))"
proof -
  obtain before current where "fold_res (row_step a b) [1..<length a + 1]
      (replicate (length b + 1) 0, [0..<length b + 1], replicate (length b + 1) 0) = (Inr (before, row a b (length a), current) :: ('e, rows) res)"
    using rows [of "length a" a b] by blast
  then have "(distance a b :: ('e, nat) res) = nth_res (row a b (length a)) (length b)" by (simp only: distance_def Let_def bind_res_simps prod.case)
  then show ?thesis by (simp add: nth_res_def row_nth osa_at_def)
qed

section \<open>Edit scripts\<close>

text \<open>One word turned into another by keeping, replacing, deleting and inserting letters and by
  swapping two neighbours, each change at cost one.\<close>

inductive edits :: "'a list \<Rightarrow> 'a list \<Rightarrow> nat \<Rightarrow> bool" where
  edits_Nil: "edits [] [] 0"
| edits_keep: "edits xs ys n \<Longrightarrow> edits (x # xs) (x # ys) n"
| edits_replace: "edits xs ys n \<Longrightarrow> edits (x # xs) (y # ys) (n + 1)"
| edits_delete: "edits xs ys n \<Longrightarrow> edits (x # xs) ys (n + 1)"
| edits_insert: "edits xs ys n \<Longrightarrow> edits xs (y # ys) (n + 1)"
| edits_swap: "edits xs ys n \<Longrightarrow> edits (x # y # xs) (y # x # ys) (n + 1)"

lemma edits_append: "edits xs ys n \<Longrightarrow> edits us vs m \<Longrightarrow> edits (xs @ us) (ys @ vs) (n + m)"
proof (induction rule: edits.induct)
  case (edits_keep xs ys n x)
  then show ?case using edits.edits_keep [of "xs @ us" "ys @ vs" "n + m" x] by simp
next
  case (edits_replace xs ys n x y)
  then show ?case using edits.edits_replace [of "xs @ us" "ys @ vs" "n + m" x y] by simp
next
  case (edits_delete xs ys n x)
  then show ?case using edits.edits_delete [of "xs @ us" "ys @ vs" "n + m" x] by simp
next
  case (edits_insert xs ys n y)
  then show ?case using edits.edits_insert [of "xs @ us" "ys @ vs" "n + m" y] by simp
next
  case (edits_swap xs ys n x y)
  then show ?case using edits.edits_swap [of "xs @ us" "ys @ vs" "n + m" x y] by simp
qed simp

lemma edits_rev: "edits xs ys n \<Longrightarrow> edits (rev xs) (rev ys) n"
proof (induction rule: edits.induct)
  case (edits_keep xs ys n x)
  then show ?case using edits_append [OF _ edits.edits_keep [OF edits_Nil, of x]] by fastforce
next
  case (edits_replace xs ys n x y)
  then show ?case using edits_append [OF _ edits.edits_replace [OF edits_Nil, of x y]] by fastforce
next
  case (edits_delete xs ys n x)
  then show ?case using edits_append [OF _ edits.edits_delete [OF edits_Nil, of x]] by fastforce
next
  case (edits_insert xs ys n y)
  then show ?case using edits_append [OF _ edits.edits_insert [OF edits_Nil, of y]] by fastforce
next
  case (edits_swap xs ys n x y)
  then show ?case using edits_append [OF _ edits.edits_swap [OF edits_Nil, of y x]] by fastforce
qed (simp add: edits_Nil)

lemma edits_to_Nil: "edits xs [] (length xs)"
  by (induction xs) (use edits_Nil edits_delete in fastforce)+

lemma edits_from_Nil: "edits [] ys (length ys)"
  by (induction ys) (use edits_Nil edits_insert in fastforce)+

lemma osa_edits: "edits xs ys (osa xs ys)"
proof (induction "length xs + length ys" arbitrary: xs ys rule: less_induct)
  case less
  show ?case
  proof (cases "xs = [] \<or> ys = []")
    case True
    then show ?thesis by (auto simp: edits_to_Nil edits_from_Nil osa_Nil2)
  next
    case False
    then obtain x xs' y ys' where xy: "xs = x # xs'" "ys = y # ys'" by (metis list.exhaust)
    have sub: "edits xs ys (osa xs' ys' + of_bool (x \<noteq> y))"
      using less [of xs' ys'] xy edits_keep edits_replace by (cases "x = y") auto
    have del: "edits xs ys (osa xs' ys + 1)" unfolding xy by (rule edits_delete) (use less xy in auto)
    have ins: "edits xs ys (osa xs ys' + 1)" unfolding xy by (rule edits_insert) (use less xy in auto)
    have sw: "edits xs ys (osa (tl xs') (tl ys') + 1)" if "xs' \<noteq> []" "ys' \<noteq> []" "x = hd ys'" "hd xs' = y"
    proof -
      have "xs = x # y # tl xs'" "ys = y # x # tl ys'" using that xy by (cases xs'; cases ys'; simp)+
      then have e: "edits xs ys n" if "edits (tl xs') (tl ys') m" "n = m + 1" for n m using that edits_swap by metis
      have "edits (tl xs') (tl ys') (osa (tl xs') (tl ys'))" by (rule less) (use xy in simp)
      then show ?thesis by (rule e) simp
    qed
    show ?thesis using sub del ins sw unfolding xy osa_Cons Let_def min_def by (simp only: split: if_split) blast
  qed
qed

lemma osa_le_parts:
  "osa (x # xs) (y # ys) \<le> min (min (osa xs ys + of_bool (x \<noteq> y)) (osa xs (y # ys) + 1)) (osa (x # xs) ys + 1)"
  unfolding osa_Cons [of x xs y ys] Let_def by (simp only: min.cobounded1 order_refl split: if_split) blast

lemma osa_le_del: "osa (x # xs) ys \<le> osa xs ys + 1"
  using osa_le_parts [of x xs] by (cases ys) (simp_all add: osa_Nil2)

lemma osa_le_ins: "osa xs (y # ys) \<le> osa xs ys + 1"
  using osa_le_parts [of _ _ y ys] by (cases xs) simp_all

lemma osa_le_both: "osa (x # xs) (y # ys) \<le> osa xs ys + of_bool (x \<noteq> y)"
  using osa_le_parts [of x xs y ys] by linarith

lemma osa_le_swap: "osa (x # y # xs) (y # x # ys) \<le> osa xs ys + 1"
proof -
  have "osa (x # y # xs) (y # x # ys) = min best (osa xs ys + 1)"
    if "best = min (min (osa (y # xs) (x # ys) + of_bool (x \<noteq> y)) (osa (y # xs) (y # x # ys) + 1)) (osa (x # y # xs) (x # ys) + 1)" for best
    unfolding that osa_Cons [of x "y # xs" y "x # ys"] by (simp only: Let_def list.sel list.distinct simp_thms if_True)
  then show ?thesis by simp
qed

lemma osa_least: "edits xs ys n \<Longrightarrow> osa xs ys \<le> n"
proof (induction rule: edits.induct)
  case (edits_keep xs ys n x)
  then show ?case using osa_le_both [of x xs x ys] by simp
next
  case (edits_replace xs ys n x y)
  then show ?case using osa_le_both [of x xs y ys] by (cases "x = y") simp_all
next
  case (edits_delete xs ys n x)
  then show ?case using osa_le_del [of x xs ys] by simp
next
  case (edits_insert xs ys n y)
  then show ?case using osa_le_ins [of xs y ys] by simp
next
  case (edits_swap xs ys n x y)
  then show ?case using osa_le_swap [of x y xs ys] by simp
qed simp

text \<open>C23: the three rolling rows compute the least cost of an edit script, and never index out of
  range.\<close>

theorem distance_least:
  "\<exists>d. distance a b = Inr d \<and> edits a b d \<and> {n. edits a b n} \<subseteq> {d..}"
  using osa_edits [of "rev a" "rev b", THEN edits_rev] osa_least [OF edits_rev]
  by (auto simp: distance_osa)

section \<open>The closest name\<close>

text \<open>
  The score is a quotient of lengths; rounding it to a double keeps the order of two such
  quotients and their comparison with the cutoff for words below a million letters, so it is
  a rational here. The words are compared by character.
\<close>

definition chars :: "string \<Rightarrow> ustr" where
  "chars s = (case from_utf8 (map of_char s) of Some u \<Rightarrow> u | None \<Rightarrow> [])"

definition CUTOFF :: rat where
  "CUTOFF = 3 / 5"

definition score :: "ustr \<Rightarrow> ustr \<Rightarrow> ('e, rat) res" where
  "score word other =
     bind_res (distance word other) (\<lambda>d.
       let shared = max (length word) (length other) - d
       in Inr (2 * of_nat shared / of_nat (max (length word + length other) 1)))"

definition nearest_step :: "ustr \<Rightarrow> string \<Rightarrow> string option \<times> rat \<Rightarrow> ('e, string option \<times> rat) res" where
  "nearest_step word candidate st = (case st of (best, best_score) \<Rightarrow>
     bind_res (score word (chars candidate)) (\<lambda>s.
       Inr (if CUTOFF \<le> s \<and> best_score < s then (Some candidate, s) else st)))"

definition nearest :: "string \<Rightarrow> string list \<Rightarrow> ('e, string option) res" where
  "nearest word allowed =
     bind_res (fold_res (nearest_step (chars word)) allowed (None, 0)) (\<lambda>(best, _). Inr best)"

definition closeness :: "string \<Rightarrow> string \<Rightarrow> rat" where
  "closeness word other = (let w = chars word; c = chars other in
     2 * of_nat (max (length w) (length c) - osa (rev w) (rev c)) / of_nat (max (length w + length c) 1))"

lemma score_chars: "score (chars word) (chars other) = Inr (closeness word other)"
  by (simp add: score_def distance_osa closeness_def Let_def)

definition closest :: "string \<Rightarrow> string list \<Rightarrow> string option \<times> rat \<Rightarrow> bool" where
  "closest word seen st = (case st of
       (None, s) \<Rightarrow> s = 0 \<and> list_all (\<lambda>d. closeness word d < CUTOFF) seen
     | (Some c, s) \<Rightarrow> c \<in> set seen \<and> s = closeness word c \<and> CUTOFF \<le> s \<and> list_all (\<lambda>d. closeness word d \<le> s) seen)"

lemma nearest_steps:
  "closest word seen st \<Longrightarrow>
    \<exists>st'. fold_res (nearest_step (chars word)) allowed st = (Inr st' :: ('e, _) res) \<and> closest word (seen @ allowed) st'"
proof (induction allowed arbitrary: seen st)
  case (Cons c allowed)
  obtain best s where st: "st = (best, s)" by fastforce
  let ?st = "if CUTOFF \<le> closeness word c \<and> s < closeness word c then (Some c, closeness word c) else st"
  have step: "nearest_step (chars word) c st = (Inr ?st :: ('e, _) res)" by (simp add: nearest_step_def score_chars st)
  have "0 < CUTOFF" by (simp add: CUTOFF_def)
  then have "closest word (seen @ [c]) ?st"
    using Cons.prems by (cases best) (auto simp: closest_def st list_all_iff not_le not_less intro: order_trans less_imp_le)
  from Cons.IH [OF this] step show ?case by simp
qed simp

text \<open>C24: the suggestion for a misspelt name is the allowed name closest to it, if any is close
  enough: no allowed name scores higher, and without a suggestion every one is below the cutoff.\<close>

theorem nearest_is_closest:
  "\<exists>r. nearest word allowed = (Inr r :: ('e, string option) res) \<and>
    (case r of
       Some c \<Rightarrow> c \<in> set allowed \<and> CUTOFF \<le> closeness word c \<and> list_all (\<lambda>d. closeness word d \<le> closeness word c) allowed
     | None \<Rightarrow> list_all (\<lambda>d. closeness word d < CUTOFF) allowed)"
proof -
  have "closest word [] (None, 0)" by (simp add: closest_def)
  then obtain best s where "fold_res (nearest_step (chars word)) allowed (None, 0) = (Inr (best, s) :: ('e, _) res)"
    and c: "closest word ([] @ allowed) (best, s)"
    using nearest_steps [of word "[]" "(None, 0)" allowed] by fastforce
  then have "nearest word allowed = (Inr best :: ('e, _) res)" by (simp add: nearest_def)
  with c show ?thesis by (cases best) (auto simp: closest_def)
qed

text \<open>A swapped pair of letters is found, as the comment of the code promises.\<close>

lemma nearest_examples:
  "nearest ''siez'' [''fields'', ''byteorder'', ''size''] = (Inr (Some ''size'') :: (unit, _) res)"
  "nearest ''conut'' [''elem'', ''count'', ''until_eof''] = (Inr (Some ''count'') :: (unit, _) res)"
  "nearest ''byteodrer'' [''byteorder'', ''const''] = (Inr (Some ''byteorder'') :: (unit, _) res)"
  "nearest ''xyz'' [''len'', ''max''] = (Inr None :: (unit, _) res)"
  by code_simp+

end
