(* ===== verification/Schema_Parse.thy ===== *)
theory Schema_Parse
  imports Python Nearest "HOL-Library.Sublist" "HOL-Library.AList"
begin

text \<open>
  The schema boundary, \<open>crates/rustruct-py/src/parse.rs\<close>: the untyped \<open>(name, kind, opts)\<close> form
  read into the compiler's input types. Messages are the strings the code formats.

  The recursion of \<open>parse_type\<close>, \<open>parse_type_spec\<close> and \<open>parse_fields\<close> runs over objects of the
  caller, which may be cyclic; it ends because every level is deeper and \<open>parse_type\<close> gives up
  below \<open>MAX_SCHEMA_DEPTH\<close>. The option parsers take the function they call back as an argument.
\<close>

definition MAX_SCHEMA_DEPTH :: nat where
  "MAX_SCHEMA_DEPTH = 64"

definition MAX_EXPR_DEPTH :: nat where
  "MAX_EXPR_DEPTH = 128"

section \<open>Closed sets\<close>

definition BYTEORDERS :: "byte_order closed_set" where
  "BYTEORDERS =
     \<lparr>cs_what = ''byteorder'',
      cs_allowed = ''only \"big\"/\"little\"/\"network\"; \"native\" is forbidden, since it makes the wire format depend on the running machine'',
      cs_eq = (=),
      cs_names = [(''big'', Big), (''network'', Big), (''little'', Little)],
      cs_aliases = []\<rparr>"

definition INT_PRIMS :: "int_prim closed_set" where
  "INT_PRIMS =
     \<lparr>cs_what = ''an integer kind'',
      cs_allowed = ''only \"u8\"/\"i8\" through \"u64\"/\"i64\"'',
      cs_eq = (=),
      cs_names = [(''u8'', U8), (''i8'', I8), (''u16'', U16), (''i16'', I16),
        (''u32'', U32), (''i32'', I32), (''u64'', U64), (''i64'', I64)],
      cs_aliases = []\<rparr>"

definition BINOPS :: "binop closed_set" where
  "BINOPS =
     \<lparr>cs_what = ''an operator'',
      cs_allowed = ''one of add/sub/mul/div/shl/shr/and/or/xor/eq/ne/lt/le/gt/ge'',
      cs_eq = (=),
      cs_names = [(''add'', BAdd), (''sub'', BSub), (''mul'', BMul), (''div'', BDiv), (''shl'', BShl),
        (''shr'', BShr), (''and'', BAnd), (''or'', BOr), (''xor'', BXor), (''eq'', BEq), (''ne'', BNe),
        (''lt'', BLt), (''le'', BLe), (''gt'', BGt), (''ge'', BGe)],
      cs_aliases = []\<rparr>"

definition byteorder :: "string \<Rightarrow> byte_order pyres" where
  "byteorder s = parse_closed BYTEORDERS s"

section \<open>Where parsing is\<close>

datatype pseg = PNothing | PField string | PSuffix string | PCase int

text \<open>The chain of borrowed segments, innermost first.\<close>

record pos_ctx =
  cx_depth :: nat
  cx_segs :: "pseg list"

definition ctx_root :: pos_ctx where
  "ctx_root = \<lparr>cx_depth = 0, cx_segs = [PNothing]\<rparr>"

definition ctx_nest :: "pseg \<Rightarrow> bool \<Rightarrow> pos_ctx \<Rightarrow> pos_ctx" where
  "ctx_nest seg deeper cx = \<lparr>cx_depth = cx_depth cx + of_bool deeper, cx_segs = seg # cx_segs cx\<rparr>"

definition ctx_deeper :: "pos_ctx \<Rightarrow> pos_ctx" where
  "ctx_deeper = ctx_nest PNothing True"

definition ctx_elem :: "pos_ctx \<Rightarrow> pos_ctx" where
  "ctx_elem = ctx_nest (PSuffix ''[]'') True"

definition ctx_then :: "pos_ctx \<Rightarrow> pos_ctx" where
  "ctx_then = ctx_nest PNothing True"

definition ctx_default_branch :: "pos_ctx \<Rightarrow> pos_ctx" where
  "ctx_default_branch = ctx_nest (PSuffix ''?default'') True"

definition ctx_case :: "int \<Rightarrow> pos_ctx \<Rightarrow> pos_ctx" where
  "ctx_case tag = ctx_nest (PCase tag) True"

definition ctx_field :: "string \<Rightarrow> pos_ctx \<Rightarrow> pos_ctx" where
  "ctx_field leaf = ctx_nest (PField leaf) False"

fun path_seg :: "pseg \<Rightarrow> string \<Rightarrow> string" where
  "path_seg PNothing out = out"
| "path_seg (PField name) out = (if out \<noteq> [] then out @ ''.'' @ name else name)"
| "path_seg (PSuffix text) out = out @ text"
| "path_seg (PCase tag) out = out @ ''?'' @ int_to_string tag"

definition ctx_path :: "pos_ctx \<Rightarrow> string" where
  "ctx_path cx = fold path_seg (rev (cx_segs cx)) []"

text \<open>Say where a schema error came from, once.\<close>

definition locate :: "string \<Rightarrow> pyerr \<Rightarrow> pyerr" where
  "locate path err =
     (case err of
        SchemaErr msg \<Rightarrow> if sublist '' (at '' msg then err else SchemaErr (msg @ '' (at '' @ path @ '')'')
      | _ \<Rightarrow> err)"

section \<open>Options\<close>

definition opt_get :: "'o py \<Rightarrow> 'o \<Rightarrow> string \<Rightarrow> 'o option pyres" where
  "opt_get P opts key =
     bind_res (py_get_item P opts key) (\<lambda>v.
       Inr (case v of Some v \<Rightarrow> if py_is_none P v then None else Some v | None \<Rightarrow> None))"

definition check_key :: "'o py \<Rightarrow> string list \<Rightarrow> string \<Rightarrow> 'o \<Rightarrow> unit \<Rightarrow> unit pyres" where
  "check_key P allowed kind key u =
     (case py_str P key of
        None \<Rightarrow> fail (SchemaErr (kind @ '': opts keys must be str''))
      | Some s \<Rightarrow>
          bind_res s (\<lambda>k.
            if k \<in> set allowed then Inr ()
            else bind_res (nearest k allowed) (\<lambda>hint.
              fail (SchemaErr (case hint of
                Some h \<Rightarrow> kind @ '': unknown option '' @ [CHR 0x27] @ k @ [CHR 0x27] @ '' (did you mean '' @ [CHR 0x27] @ h @ [CHR 0x27] @ ''?)''
              | None \<Rightarrow> kind @ '': unknown option '' @ [CHR 0x27] @ k @ [CHR 0x27])))))"

definition check_keys :: "'o py \<Rightarrow> 'o \<Rightarrow> string list \<Rightarrow> string \<Rightarrow> unit pyres" where
  "check_keys P opts allowed kind = fold_res (check_key P allowed kind) (py_keys P opts) ()"

section \<open>Option parsers\<close>

text \<open>The macro \<open>simple!\<close>: an extraction that fails with the same message.\<close>

definition p_simple :: "('o \<Rightarrow> 'a option) \<Rightarrow> string \<Rightarrow> 'o \<Rightarrow> string \<Rightarrow> string \<Rightarrow> 'a pyres" where
  "p_simple ex what v kind key = ok_or (SchemaErr (kind @ '': '' @ key @ '' must be '' @ what)) (ex v)"

definition p_bool :: "'o py \<Rightarrow> 'o \<Rightarrow> string \<Rightarrow> string \<Rightarrow> bool pyres" where
  "p_bool P = p_simple (py_bool P) ''a bool''"

definition p_usize :: "'o py \<Rightarrow> 'o \<Rightarrow> string \<Rightarrow> string \<Rightarrow> nat pyres" where
  "p_usize P = p_simple (extract_u64 P) ''a non-negative int''"

definition p_u64 :: "'o py \<Rightarrow> 'o \<Rightarrow> string \<Rightarrow> string \<Rightarrow> 64 word pyres" where
  "p_u64 P = p_simple (\<lambda>v. map_option of_nat (extract_u64 P v)) ''a non-negative int''"

definition p_i128 :: "'o py \<Rightarrow> 'o \<Rightarrow> string \<Rightarrow> string \<Rightarrow> int pyres" where
  "p_i128 P = p_simple (extract_i128 P) ''an int''"

definition p_bytes :: "'o py \<Rightarrow> 'o \<Rightarrow> string \<Rightarrow> string \<Rightarrow> bytes pyres" where
  "p_bytes P = p_simple (py_bytes P) ''bytes''"

definition p_string :: "'o py \<Rightarrow> 'o \<Rightarrow> string \<Rightarrow> string \<Rightarrow> string pyres" where
  "p_string P = p_simple (extract_str P) ''a str''"

definition p_byteorder :: "'o py \<Rightarrow> 'o \<Rightarrow> string \<Rightarrow> string \<Rightarrow> byte_order pyres" where
  "p_byteorder P v kind key = bind_res (p_string P v kind key) (parse_closed BYTEORDERS)"

definition p_prim :: "'o py \<Rightarrow> 'o \<Rightarrow> string \<Rightarrow> string \<Rightarrow> int_prim pyres" where
  "p_prim P v kind key = bind_res (p_string P v kind key) (parse_closed INT_PRIMS)"

definition p_width :: "'o py \<Rightarrow> 'o \<Rightarrow> string \<Rightarrow> string \<Rightarrow> nat pyres" where
  "p_width P v kind key =
     bind_res (ok_or (SchemaErr (kind @ '': '' @ key @ '' must be an int in 1..64'')) (extract_i64 P v)) (\<lambda>n.
       if n < 1 \<or> 64 < n
       then fail (SchemaErr (kind @ '': '' @ key @ '' '' @ int_to_string n @ '' is outside 1..64''))
       else Inr (nat n))"

text \<open>\<open>int | "*" | ("ref", name) | (op, a, b)\<close>\<close>

function parse_expr :: "'o py \<Rightarrow> string \<Rightarrow> string \<Rightarrow> 'o \<Rightarrow> nat \<Rightarrow> expr_in pyres" where
  "parse_expr P kind key v depth =
     (let expected = SchemaErr (kind @ '': '' @ key @ '': expected an int, '' @ [CHR 0x27] @ ''*'' @ [CHR 0x27]
            @ '', or a tuple starting with an operator'');
          bad_ref = SchemaErr ''(\"ref\", name): exactly two elements, name a str''
      in if MAX_EXPR_DEPTH < depth
         then fail (SchemaErr (kind @ '': '' @ key @ '' nests deeper than '' @ nat_to_string MAX_EXPR_DEPTH @ '' levels''))
         else if py_is_bool P v
         then fail (SchemaErr (kind @ '': '' @ key @ '': a bool is not a length; use an int, '' @ [CHR 0x27] @ ''*'' @ [CHR 0x27]
                @ '', or a reference''))
         else case py_str P v of
           Some s \<Rightarrow> bind_res s (\<lambda>s. if s = ''*'' then Inr EGreedy else fail expected)
         | None \<Rightarrow>
             if py_is_int P v
             then bind_res (ok_or (SchemaErr (kind @ '': '' @ key @ '' literal does not fit in i64'')) (extract_i64 P v))
                    (\<lambda>n. Inr (EImm n))
             else case py_tuple P v of
               None \<Rightarrow> fail expected
             | Some [] \<Rightarrow> fail expected
             | Some (head # rest) \<Rightarrow>
                 (case py_str P head of
                    None \<Rightarrow> fail expected
                  | Some head \<Rightarrow>
                      bind_res head (\<lambda>head.
                        if head = ''ref''
                        then case rest of
                            [name] \<Rightarrow> bind_res (ok_or bad_ref (extract_str P name)) (\<lambda>n. Inr (ERef n))
                          | _ \<Rightarrow> fail bad_ref
                        else case rest of
                            [a, b] \<Rightarrow>
                              bind_res (parse_closed BINOPS head) (\<lambda>op.
                              bind_res (parse_expr P kind key a (depth + 1)) (\<lambda>x.
                              bind_res (parse_expr P kind key b (depth + 1)) (\<lambda>y.
                                Inr (EBin op x y))))
                          | _ \<Rightarrow> fail (SchemaErr (''(\"'' @ head @ ''\", a, b): exactly three elements'')))))"
  by pat_completeness auto
termination by (relation "measure (\<lambda>(_, _, _, _, depth). MAX_EXPR_DEPTH + 1 - depth)") auto

declare parse_expr.simps [simp del]

definition p_expr :: "'o py \<Rightarrow> 'o \<Rightarrow> string \<Rightarrow> string \<Rightarrow> expr_in pyres" where
  "p_expr P v kind key = parse_expr P kind key v 0"

text \<open>The loop of \<open>for x in v.try_iter()\<close>: each item may be an exception.\<close>

definition over_items :: "pyerr \<Rightarrow> ('o \<Rightarrow> 'a pyres) \<Rightarrow> 'o pyres list option \<Rightarrow> 'a list pyres" where
  "over_items shape f items =
     bind_res (ok_or shape items) (\<lambda>items.
       fold_res (\<lambda>item out. bind_res item (\<lambda>v. bind_res (f v) (\<lambda>x. Inr (out @ [x])))) items [])"

definition p_over :: "'o py \<Rightarrow> 'o \<Rightarrow> over_in pyres" where
  "p_over P v =
     (let shape = SchemaErr ''digest: over is either \"*\" or a tuple of names'' in
      case py_str P v of
        Some s \<Rightarrow> bind_res s (\<lambda>s. if s = ''*'' then Inr StarIn else fail shape)
      | None \<Rightarrow>
          bind_res (over_items shape (\<lambda>n. ok_or (SchemaErr ''digest: names in over must be str'') (extract_str P n)) (py_iter P v))
            (\<lambda>names. Inr (NamesIn names)))"

text \<open>\<open>extract::<(String, u64)>\<close>\<close>

definition extract_flag :: "'o py \<Rightarrow> 'o \<Rightarrow> (string \<times> 64 word) option" where
  "extract_flag P v =
     (case py_tuple P v of
        Some [n, m] \<Rightarrow>
          (case (extract_str P n, extract_u64 P m) of (Some n, Some m) \<Rightarrow> Some (n, of_nat m) | _ \<Rightarrow> None)
      | _ \<Rightarrow> None)"

definition p_names :: "'o py \<Rightarrow> 'o \<Rightarrow> (string \<times> 64 word) list pyres" where
  "p_names P v =
     (let shape = SchemaErr ''flags: names must be a sequence of (str, int) pairs'' in
      over_items shape (\<lambda>pair. ok_or shape (extract_flag P pair)) (py_iter P v))"

type_synonym 'o spec_parser = "'o \<Rightarrow> pos_ctx \<Rightarrow> type_in pyres"

definition p_case :: "'o py \<Rightarrow> 'o spec_parser \<Rightarrow> pos_ctx \<Rightarrow> 'o \<Rightarrow> (int \<times> type_in) pyres" where
  "p_case P spec cx item =
     (let shape = SchemaErr ''switch: a cases element must be a (int, (kind, opts)) tuple'';
          bad_tag = SchemaErr ''switch: a branch tag must be an int (i64)'' in
      case py_tuple P item of
        Some [tag_obj, ty] \<Rightarrow>
          if py_is_bool P tag_obj then fail bad_tag
          else bind_res (ok_or bad_tag (extract_i64 P tag_obj)) (\<lambda>tag.
            bind_res (spec ty (ctx_case tag cx)) (\<lambda>ty. Inr (tag, ty)))
      | _ \<Rightarrow> fail shape)"

definition p_cases :: "'o py \<Rightarrow> 'o spec_parser \<Rightarrow> 'o \<Rightarrow> pos_ctx \<Rightarrow> (int \<times> type_in) list pyres" where
  "p_cases P spec v cx =
     over_items (SchemaErr ''switch: a cases element must be a (int, (kind, opts)) tuple'') (p_case P spec cx) (py_iter P v)"

definition extent_of :: "expr_in option \<Rightarrow> bool \<Rightarrow> expr_in pyres" where
  "extent_of count until_eof =
     (case (count, until_eof) of
        (Some _, True) \<Rightarrow> fail (SchemaErr ''array: count and until_eof are mutually exclusive'')
      | (None, False) \<Rightarrow> fail (SchemaErr ''array: count or until_eof is required'')
      | (None, True) \<Rightarrow> Inr EGreedy
      | (Some c, False) \<Rightarrow> Inr c)"

section \<open>The kind table\<close>

text \<open>The macro \<open>bind!\<close>: an option that must be given, and one that may be.\<close>

definition req :: "'o py \<Rightarrow> 'o \<Rightarrow> string \<Rightarrow> string \<Rightarrow> ('o \<Rightarrow> string \<Rightarrow> string \<Rightarrow> 'a pyres) \<Rightarrow> 'a pyres" where
  "req P opts kind key parse =
     bind_res (opt_get P opts key) (\<lambda>v.
       case v of
         Some v \<Rightarrow> parse v kind key
       | None \<Rightarrow> fail (SchemaErr (kind @ '': '' @ key @ '' is required'')))"

definition opt :: "'o py \<Rightarrow> 'o \<Rightarrow> string \<Rightarrow> string \<Rightarrow> ('o \<Rightarrow> string \<Rightarrow> string \<Rightarrow> 'a pyres) \<Rightarrow> 'a option pyres" where
  "opt P opts kind key parse =
     bind_res (opt_get P opts key) (\<lambda>v.
       case v of
         Some v \<Rightarrow> bind_res (parse v kind key) (\<lambda>x. Inr (Some x))
       | None \<Rightarrow> Inr None)"

definition or_else :: "'a option \<Rightarrow> 'a \<Rightarrow> 'a" where
  "or_else x d = (case x of Some a \<Rightarrow> a | None \<Rightarrow> d)"

definition int_kinds :: "string list" where
  "int_kinds = [''u8'', ''i8'', ''u16'', ''i16'', ''u32'', ''i32'', ''u64'', ''i64'']"

text \<open>The table \<open>OPTIONS\<close>: the kinds that reach an arm and the options it reads.\<close>

definition OPTIONS :: "(string list \<times> string list) list" where
  "OPTIONS =
     [(int_kinds, [''byteorder'', ''const'']),
      ([''f32'', ''f64''], [''byteorder'']),
      ([''bool''], [''const'']),
      ([''raw''], [''len'', ''const'']),
      ([''bytes''], [''len'', ''max'']),
      ([''str''], [''len'', ''max'', ''encoding'', ''errors'']),
      ([''cstr''], [''max'', ''encoding'', ''errors'']),
      ([''bits''], [''width'', ''signed'']),
      ([''flags''], [''base'', ''names'', ''rest'', ''byteorder'']),
      ([''digest''], [''algo'', ''over'', ''verify'', ''poly'', ''init'', ''xorout'', ''refin'', ''refout'']),
      ([''struct''], [''fields'', ''byteorder'', ''size'']),
      ([''array''], [''elem'', ''count'', ''until_eof'']),
      ([''switch''], [''on'', ''cases'', ''default'']),
      ([''cond''], [''pred'', ''then''])]"

definition allowed_of :: "string \<Rightarrow> string list option" where
  "allowed_of kind = map_option snd (List.find (\<lambda>(kinds, _). kind \<in> set kinds) OPTIONS)"

text \<open>What each arm builds.\<close>

definition arm_int :: "'o py \<Rightarrow> string \<Rightarrow> 'o \<Rightarrow> type_in pyres" where
  "arm_int P kind opts =
     bind_res (opt P opts kind ''byteorder'' (p_byteorder P)) (\<lambda>bo.
     bind_res (opt P opts kind ''const'' (p_i128 P)) (\<lambda>const.
     bind_res (parse_closed INT_PRIMS kind) (\<lambda>prim.
       Inr (TInt prim bo const))))"

definition arm_float :: "'o py \<Rightarrow> string \<Rightarrow> 'o \<Rightarrow> type_in pyres" where
  "arm_float P kind opts =
     bind_res (opt P opts kind ''byteorder'' (p_byteorder P)) (\<lambda>bo. Inr (TFloat (kind = ''f64'') bo))"

definition arm_bool :: "'o py \<Rightarrow> string \<Rightarrow> 'o \<Rightarrow> type_in pyres" where
  "arm_bool P kind opts = bind_res (opt P opts kind ''const'' (p_bool P)) (\<lambda>const. Inr (TBool const))"

definition arm_raw :: "'o py \<Rightarrow> string \<Rightarrow> 'o \<Rightarrow> type_in pyres" where
  "arm_raw P kind opts =
     bind_res (opt P opts kind ''len'' (p_usize P)) (\<lambda>len.
     bind_res (opt P opts kind ''const'' (p_bytes P)) (\<lambda>const.
       Inr (TRaw len const)))"

definition arm_bytes :: "'o py \<Rightarrow> string \<Rightarrow> 'o \<Rightarrow> type_in pyres" where
  "arm_bytes P kind opts =
     bind_res (req P opts kind ''len'' (p_expr P)) (\<lambda>len.
     bind_res (opt P opts kind ''max'' (p_usize P)) (\<lambda>mx.
       Inr (TBytes len mx)))"

definition arm_str :: "'o py \<Rightarrow> string \<Rightarrow> 'o \<Rightarrow> type_in pyres" where
  "arm_str P kind opts =
     bind_res (req P opts kind ''len'' (p_expr P)) (\<lambda>len.
     bind_res (opt P opts kind ''max'' (p_usize P)) (\<lambda>mx.
     bind_res (opt P opts kind ''encoding'' (p_string P)) (\<lambda>encoding.
     bind_res (opt P opts kind ''errors'' (p_string P)) (\<lambda>errors.
       Inr (TStr len mx (or_else encoding ''utf-8'') (or_else errors ''strict''))))))"

definition arm_cstr :: "'o py \<Rightarrow> string \<Rightarrow> 'o \<Rightarrow> type_in pyres" where
  "arm_cstr P kind opts =
     bind_res (opt P opts kind ''max'' (p_usize P)) (\<lambda>mx.
     bind_res (opt P opts kind ''encoding'' (p_string P)) (\<lambda>encoding.
     bind_res (opt P opts kind ''errors'' (p_string P)) (\<lambda>errors.
       Inr (TCStr mx (or_else encoding ''utf-8'') (or_else errors ''strict'')))))"

definition arm_bits :: "'o py \<Rightarrow> string \<Rightarrow> 'o \<Rightarrow> type_in pyres" where
  "arm_bits P kind opts =
     bind_res (req P opts kind ''width'' (p_width P)) (\<lambda>width.
     bind_res (opt P opts kind ''signed'' (p_bool P)) (\<lambda>sgnd.
       Inr (TBits width (or_else sgnd False))))"

definition arm_flags :: "'o py \<Rightarrow> string \<Rightarrow> 'o \<Rightarrow> type_in pyres" where
  "arm_flags P kind opts =
     bind_res (req P opts kind ''base'' (p_prim P)) (\<lambda>base.
     bind_res (req P opts kind ''names'' (\<lambda>v _ _. p_names P v)) (\<lambda>flags.
     bind_res (opt P opts kind ''rest'' (p_string P)) (\<lambda>rest.
     bind_res (opt P opts kind ''byteorder'' (p_byteorder P)) (\<lambda>bo.
       Inr (TFlags base bo flags (or_else rest ''keep''))))))"

definition arm_digest :: "'o py \<Rightarrow> string \<Rightarrow> 'o \<Rightarrow> type_in pyres" where
  "arm_digest P kind opts =
     bind_res (req P opts kind ''algo'' (p_string P)) (\<lambda>algo.
     bind_res (req P opts kind ''over'' (\<lambda>v _ _. p_over P v)) (\<lambda>over.
     bind_res (opt P opts kind ''verify'' (p_bool P)) (\<lambda>verify.
     bind_res (opt P opts kind ''poly'' (p_u64 P)) (\<lambda>poly.
     bind_res (opt P opts kind ''init'' (p_u64 P)) (\<lambda>init.
     bind_res (opt P opts kind ''xorout'' (p_u64 P)) (\<lambda>xorout.
     bind_res (opt P opts kind ''refin'' (p_bool P)) (\<lambda>refin.
     bind_res (opt P opts kind ''refout'' (p_bool P)) (\<lambda>refout.
       Inr (TDigest algo
         \<lparr>ov_poly = poly, ov_init = init, ov_xorout = xorout, ov_refin = refin, ov_refout = refout\<rparr>
         over (or_else verify True))))))))))"

type_synonym 'o fields_parser = "'o \<Rightarrow> pos_ctx \<Rightarrow> field_in list pyres"

definition arm_struct :: "'o py \<Rightarrow> 'o fields_parser \<Rightarrow> string \<Rightarrow> 'o \<Rightarrow> pos_ctx \<Rightarrow> type_in pyres" where
  "arm_struct P fields_of kind opts cx =
     bind_res (req P opts kind ''fields'' (\<lambda>v _ _. fields_of v (ctx_deeper cx))) (\<lambda>flds.
     bind_res (opt P opts kind ''byteorder'' (p_byteorder P)) (\<lambda>bo.
     bind_res (opt P opts kind ''size'' (p_expr P)) (\<lambda>sz.
       Inr (TStruct flds bo sz))))"

definition arm_array :: "'o py \<Rightarrow> 'o spec_parser \<Rightarrow> string \<Rightarrow> 'o \<Rightarrow> pos_ctx \<Rightarrow> type_in pyres" where
  "arm_array P spec kind opts cx =
     bind_res (req P opts kind ''elem'' (\<lambda>v _ _. spec v (ctx_elem cx))) (\<lambda>elem.
     bind_res (opt P opts kind ''count'' (p_expr P)) (\<lambda>count.
     bind_res (opt P opts kind ''until_eof'' (p_bool P)) (\<lambda>until_eof.
     bind_res (extent_of count (or_else until_eof False)) (\<lambda>count.
       Inr (TArray elem (Some count) False)))))"

definition arm_switch :: "'o py \<Rightarrow> 'o spec_parser \<Rightarrow> string \<Rightarrow> 'o \<Rightarrow> pos_ctx \<Rightarrow> type_in pyres" where
  "arm_switch P spec kind opts cx =
     bind_res (req P opts kind ''on'' (p_expr P)) (\<lambda>on.
     bind_res (req P opts kind ''cases'' (\<lambda>v _ _. p_cases P spec v cx)) (\<lambda>cases.
     bind_res (opt P opts kind ''default'' (\<lambda>v _ _. spec v (ctx_default_branch cx))) (\<lambda>dflt.
       Inr (TSwitch on cases dflt))))"

definition arm_cond :: "'o py \<Rightarrow> 'o spec_parser \<Rightarrow> string \<Rightarrow> 'o \<Rightarrow> pos_ctx \<Rightarrow> type_in pyres" where
  "arm_cond P spec kind opts cx =
     bind_res (req P opts kind ''pred'' (p_expr P)) (\<lambda>pred.
     bind_res (req P opts kind ''then'' (\<lambda>v _ _. spec v (ctx_then cx))) (\<lambda>thn.
       Inr (TCond pred thn)))"

definition build :: "'o py \<Rightarrow> 'o fields_parser \<Rightarrow> 'o spec_parser \<Rightarrow> string \<Rightarrow> 'o \<Rightarrow> pos_ctx \<Rightarrow> type_in pyres" where
  "build P fields_of spec kind opts cx =
     (if kind \<in> set int_kinds then arm_int P kind opts
      else if kind = ''f32'' \<or> kind = ''f64'' then arm_float P kind opts
      else if kind = ''bool'' then arm_bool P kind opts
      else if kind = ''raw'' then arm_raw P kind opts
      else if kind = ''bytes'' then arm_bytes P kind opts
      else if kind = ''str'' then arm_str P kind opts
      else if kind = ''cstr'' then arm_cstr P kind opts
      else if kind = ''bits'' then arm_bits P kind opts
      else if kind = ''flags'' then arm_flags P kind opts
      else if kind = ''digest'' then arm_digest P kind opts
      else if kind = ''struct'' then arm_struct P fields_of kind opts cx
      else if kind = ''array'' then arm_array P spec kind opts cx
      else if kind = ''switch'' then arm_switch P spec kind opts cx
      else arm_cond P spec kind opts cx)"

text \<open>An arm calls back one level deeper, so only the values there matter.\<close>

lemma ctx_depth_simps [simp]:
  "cx_depth (ctx_deeper cx) = Suc (cx_depth cx)" "cx_depth (ctx_elem cx) = Suc (cx_depth cx)"
  "cx_depth (ctx_then cx) = Suc (cx_depth cx)" "cx_depth (ctx_default_branch cx) = Suc (cx_depth cx)"
  "cx_depth (ctx_case tag cx) = Suc (cx_depth cx)" "cx_depth (ctx_field leaf cx) = cx_depth cx"
  by (simp_all add: ctx_deeper_def ctx_elem_def ctx_then_def ctx_default_branch_def ctx_case_def ctx_field_def ctx_nest_def)

lemma build_cong [fundef_cong]:
  assumes "P = P'" and "kind = kind'" and "opts = opts'" and "cx = cx'"
    and f: "\<And>v c. cx_depth c = Suc (cx_depth cx') \<Longrightarrow> F v c = F' v c"
    and g: "\<And>v c. cx_depth c = Suc (cx_depth cx') \<Longrightarrow> G v c = G' v c"
  shows "build P F G kind opts cx = build P' F' G' kind' opts' cx'"
proof -
  have "p_case P' G cx' = p_case P' G' cx'" by (simp add: fun_eq_iff p_case_def g Let_def split: option.split list.split)
  then show ?thesis
    unfolding build_def arm_struct_def arm_array_def arm_switch_def arm_cond_def p_cases_def
    by (simp add: assms(1-4) f g)
qed

section \<open>The tuple forms around it\<close>

definition kind_str :: "'o py \<Rightarrow> 'o \<Rightarrow> string pyres" where
  "kind_str P obj =
     (case py_str P obj of Some s \<Rightarrow> s | None \<Rightarrow> fail (SchemaErr (''unknown kind '' @ py_repr P obj)))"

definition opts_dict :: "'o py \<Rightarrow> 'o \<Rightarrow> string \<Rightarrow> 'o pyres" where
  "opts_dict P obj kind = (if py_is_dict P obj then Inr obj else fail (SchemaErr (kind @ '': opts must be a dict'')))"

text \<open>A field's name; the closure that reads its kind and options and parses the type.\<close>

definition field_name_of :: "'o py \<Rightarrow> 'o \<Rightarrow> string option pyres" where
  "field_name_of P obj =
     (if py_is_none P obj then Inr None
      else bind_res (ok_or (SchemaErr ''field name must be a str or None'') (extract_str P obj)) (\<lambda>s. Inr (Some s)))"

definition parse_field :: "'o py \<Rightarrow> (string \<Rightarrow> 'o \<Rightarrow> pos_ctx \<Rightarrow> type_in pyres) \<Rightarrow> pos_ctx \<Rightarrow> 'o \<Rightarrow> field_in pyres" where
  "parse_field P ty_of cx item =
     (case py_tuple P item of
        Some [name_obj, kind_obj, opts_obj] \<Rightarrow>
          bind_res (field_name_of P name_obj) (\<lambda>name.
            let here = ctx_field (or_else name ''<unnamed>'') cx in
            bind_res
              (map_fail (locate (ctx_path here))
                (bind_res (kind_str P kind_obj) (\<lambda>kind.
                 bind_res (opts_dict P opts_obj kind) (\<lambda>opts. ty_of kind opts here))))
              (\<lambda>ty. Inr (FieldIn name ty)))
      | _ \<Rightarrow> fail (SchemaErr ''a field must be a (name, kind, opts) tuple''))"

definition parse_items :: "'o py \<Rightarrow> (string \<Rightarrow> 'o \<Rightarrow> pos_ctx \<Rightarrow> type_in pyres) \<Rightarrow> 'o \<Rightarrow> pos_ctx \<Rightarrow> field_in list pyres" where
  "parse_items P ty_of obj cx =
     over_items (SchemaErr ''fields must be an iterable of (name, kind, opts) tuples'') (parse_field P ty_of cx) (py_iter P obj)"

lemma parse_items_cong [fundef_cong]:
  assumes "P = P'" and "obj = obj'" and "cx = cx'"
    and "\<And>kind opts c. cx_depth c = cx_depth cx' \<Longrightarrow> T kind opts c = T' kind opts c"
  shows "parse_items P T obj cx = parse_items P' T' obj' cx'"
proof -
  have "parse_field P' T cx' = parse_field P' T' cx'" by (simp add: fun_eq_iff parse_field_def assms(4) Let_def split: option.split list.split)
  then show ?thesis by (simp add: parse_items_def assms(1-3))
qed

definition parse_spec :: "'o py \<Rightarrow> (string \<Rightarrow> 'o \<Rightarrow> pos_ctx \<Rightarrow> type_in pyres) \<Rightarrow> 'o \<Rightarrow> pos_ctx \<Rightarrow> type_in pyres" where
  "parse_spec P ty_of obj cx =
     (case py_tuple P obj of
        Some [kind_obj, opts_obj] \<Rightarrow>
          bind_res (kind_str P kind_obj) (\<lambda>kind.
          bind_res (opts_dict P opts_obj kind) (\<lambda>opts. ty_of kind opts cx))
      | _ \<Rightarrow> fail (SchemaErr ''a type spec must be a (kind, opts) tuple''))"

lemma parse_spec_cong [fundef_cong]:
  assumes "P = P'" and "obj = obj'" and "cx = cx'"
    and "\<And>kind opts. T kind opts cx' = T' kind opts cx'"
  shows "parse_spec P T obj cx = parse_spec P' T' obj' cx'"
  by (simp add: parse_spec_def assms split: option.split list.split)

function parse_type :: "'o py \<Rightarrow> string \<Rightarrow> 'o \<Rightarrow> pos_ctx \<Rightarrow> type_in pyres" where
  "parse_type P kind opts cx =
     (if MAX_SCHEMA_DEPTH < cx_depth cx
      then fail (SchemaErr (''schema nests deeper than '' @ nat_to_string MAX_SCHEMA_DEPTH @ '' levels''))
      else case allowed_of kind of
          None \<Rightarrow> fail (SchemaErr (''unknown kind '' @ [CHR 0x27] @ kind @ [CHR 0x27]))
        | Some allowed \<Rightarrow>
            bind_res (check_keys P opts allowed kind) (\<lambda>_.
              build P (parse_items P (parse_type P)) (parse_spec P (parse_type P)) kind opts cx))"
  by pat_completeness auto
termination by (relation "measure (\<lambda>(_, _, _, cx). MAX_SCHEMA_DEPTH + 1 - cx_depth cx)") auto

declare parse_type.simps [simp del]

definition parse_type_spec :: "'o py \<Rightarrow> 'o \<Rightarrow> pos_ctx \<Rightarrow> type_in pyres" where
  "parse_type_spec P obj cx = parse_spec P (parse_type P) obj cx"

definition parse_fields :: "'o py \<Rightarrow> 'o \<Rightarrow> pos_ctx \<Rightarrow> field_in list pyres" where
  "parse_fields P obj cx = parse_items P (parse_type P) obj cx"

section \<open>The published vocabulary\<close>

text \<open>\<open>vocabulary()\<close>: the names of each closed set, the spellings accepted, and the options of each
  kind, a later entry of a dictionary replacing an earlier one.\<close>

record vocabulary =
  vo_sets :: "(string \<times> string list) list"
  vo_accepted :: "(string \<times> string list) list"
  vo_options :: "(string \<times> string list) list"

definition vocabulary :: vocabulary where
  "vocabulary =
     \<lparr>vo_sets =
        [(''byteorders'', names BYTEORDERS), (''int_prims'', names INT_PRIMS), (''binops'', names BINOPS),
         (''error_kinds'', kind_ALL), (''encodings'', names ENCODINGS), (''algos'', names ALGOS),
         (''rest_policies'', names REST_POLICIES)],
      vo_accepted =
        [(''byteorders'', accepted BYTEORDERS), (''int_prims'', accepted INT_PRIMS), (''binops'', accepted BINOPS),
         (''encodings'', accepted ENCODINGS), (''algos'', accepted ALGOS), (''rest_policies'', accepted REST_POLICIES)],
      vo_options =
        fold (\<lambda>(kinds, opts) d. fold (\<lambda>kind d. AList.update kind opts d) kinds d) OPTIONS []\<rparr>"

end
