(* ===== verification/Parse_Forms.thy ===== *)
theory Parse_Forms
  imports Schema_Parse Compile_Safety
begin

text \<open>
  The schemas the boundary yields are exactly those in range and at most \<open>MAX_SCHEMA_DEPTH\<close> levels
  deep: parsing returns nothing else, whatever the objects, and each of them has a spelling in
  the \<open>(name, kind, opts)\<close> form that parses back to it.
\<close>

section \<open>The schemas in range\<close>

fun expr_form :: "nat \<Rightarrow> expr_in \<Rightarrow> bool" where
  "expr_form n (EImm i) \<longleftrightarrow> in_i64 i"
| "expr_form n (EBin op l r) \<longleftrightarrow> 0 < n \<and> expr_form (n - 1) l \<and> expr_form (n - 1) r"
| "expr_form n _ \<longleftrightarrow> True"

abbreviation exp_form :: "expr_in \<Rightarrow> bool" where
  "exp_form \<equiv> expr_form MAX_EXPR_DEPTH"

definition is_usize :: "nat \<Rightarrow> bool" where
  "is_usize n \<longleftrightarrow> n < 2 ^ 64"

definition is_i128 :: "int \<Rightarrow> bool" where
  "is_i128 i \<longleftrightarrow> - (2 ^ 127) \<le> i \<and> i \<le> 2 ^ 127 - 1"

fun type_form :: "nat \<Rightarrow> type_in \<Rightarrow> bool" and field_form :: "nat \<Rightarrow> field_in \<Rightarrow> bool" where
  "type_form n (TInt prim bo const) \<longleftrightarrow> pred_option is_i128 const"
| "type_form n (TRaw len const) \<longleftrightarrow> pred_option is_usize len"
| "type_form n (TBytes len mx) \<longleftrightarrow> exp_form len \<and> pred_option is_usize mx"
| "type_form n (TStr len mx encoding errors) \<longleftrightarrow> exp_form len \<and> pred_option is_usize mx"
| "type_form n (TCStr mx encoding errors) \<longleftrightarrow> pred_option is_usize mx"
| "type_form n (TBits width sgnd) \<longleftrightarrow> 1 \<le> width \<and> width \<le> 64"
| "type_form n (TStruct flds bo sz) \<longleftrightarrow> (flds \<noteq> [] \<longrightarrow> 0 < n) \<and> list_all (field_form (n - 1)) flds \<and> pred_option exp_form sz"
| "type_form n (TArray elem count until_eof) \<longleftrightarrow>
     0 < n \<and> type_form (n - 1) elem \<and> count \<noteq> None \<and> pred_option exp_form count \<and> \<not> until_eof"
| "type_form n (TSwitch on cases dflt) \<longleftrightarrow>
     exp_form on \<and> (cases \<noteq> [] \<or> dflt \<noteq> None \<longrightarrow> 0 < n) \<and>
     list_all (\<lambda>c. in_i64 (fst c) \<and> type_form (n - 1) (snd c)) cases \<and>
     (case dflt of Some ty \<Rightarrow> type_form (n - 1) ty | None \<Rightarrow> True)"
| "type_form n (TCond pred thn) \<longleftrightarrow> 0 < n \<and> exp_form pred \<and> type_form (n - 1) thn"
| "type_form n _ \<longleftrightarrow> True"
| "field_form n (FieldIn name ty) \<longleftrightarrow> type_form n ty"

lemma field_form_ty: "field_form n f \<longleftrightarrow> type_form n (field_ty f)"
  by (cases f) simp

section \<open>Parsing stays in range\<close>

lemma extract_between_range: "extract_between lo hi P v = Some n \<Longrightarrow> lo \<le> n \<and> n \<le> hi"
  by (auto simp: extract_between_def split: option.splits if_splits)

lemma extract_u64_range: "extract_u64 P v = Some n \<Longrightarrow> is_usize n"
  by (auto simp: extract_u64_def is_usize_def dest!: extract_between_range)

lemma extract_i64_range: "extract_i64 P v = Some n \<Longrightarrow> in_i64 n"
  by (auto simp: extract_i64_def in_i64_def dest!: extract_between_range)

lemma extract_i128_range: "extract_i128 P v = Some n \<Longrightarrow> is_i128 n"
  by (auto simp: extract_i128_def is_i128_def dest!: extract_between_range)

lemma safe_parse_closed [simp]: "safe (parse_closed cs s) (\<lambda>_. True)"
  by (auto simp: parse_closed_def intro: safeI)

lemma safe_p_simple: "(\<And>a. ex v = Some a \<Longrightarrow> Q a) \<Longrightarrow> safe (p_simple ex what v kind key) Q"
  by (simp add: p_simple_def)

lemma safe_readers:
  "safe (p_bool P v kind key) (\<lambda>_. True)" "safe (p_usize P v kind key) is_usize" "safe (p_u64 P v kind key) (\<lambda>_. True)"
  "safe (p_i128 P v kind key) is_i128" "safe (p_bytes P v kind key) (\<lambda>_. True)" "safe (p_string P v kind key) (\<lambda>_. True)"
  by (auto simp: p_bool_def p_usize_def p_u64_def p_i128_def p_bytes_def p_string_def
    intro!: safe_p_simple extract_u64_range extract_i128_range)

lemma safe_names_readers:
  "safe (p_byteorder P v kind key) (\<lambda>_. True)" "safe (p_prim P v kind key) (\<lambda>_. True)"
  by (auto simp: p_byteorder_def p_prim_def intro!: safe_bind [OF safe_readers(6)])

lemma safe_p_width: "safe (p_width P v kind key) (\<lambda>w. 1 \<le> w \<and> w \<le> 64)"
  by (auto simp: p_width_def intro!: safe_bind [where P = "\<lambda>_. True"])

lemma safe_over_items:
  assumes "\<And>item. items \<noteq> None \<Longrightarrow> item \<in> set (the items) \<Longrightarrow> safe item (\<lambda>_. True)"
    and "\<And>v. safe (f v) Q"
  shows "safe (over_items shape f items) (list_all Q)"
  unfolding over_items_def
  by (rule safe_bind [where P = "\<lambda>xs. items = Some xs"], simp, rule safe_fold_res)
    (use assms(1) in \<open>auto intro!: safe_bind [where P = "\<lambda>_. True"] safe_bind [OF assms(2)]\<close>)

lemma safe_distance [simp]: "safe (nearest word allowed) (\<lambda>_. True)"
  using nearest_steps [of word "[]" "(None, 0)" allowed, where 'e = 'a]
  by (auto simp: nearest_def closest_def)

lemma safe_bind_ok_or [simp]: "safe (bind_res (ok_or e x) f) Q \<longleftrightarrow> (\<forall>a. x = Some a \<longrightarrow> safe (f a) Q)"
  by (cases x) simp_all

context python_api
begin

lemma safe_bind_str: "py_str P v = Some s \<Longrightarrow> (\<And>x. safe (f x) Q) \<Longrightarrow> safe (bind_res s f) Q"
  by (rule safe_bind [OF safe_py_str])

lemma safe_parse_expr: "safe (parse_expr P kind key v depth) (expr_form (MAX_EXPR_DEPTH - depth))"
proof (induction "MAX_EXPR_DEPTH + 1 - depth" arbitrary: v depth rule: less_induct)
  case less
  show ?case
  proof (cases "MAX_EXPR_DEPTH < depth")
    case False
    have sub: "safe (parse_expr P kind key a (depth + 1))
        (\<lambda>e. 0 < MAX_EXPR_DEPTH - depth \<and> expr_form (MAX_EXPR_DEPTH - depth - 1) e)" for a
    proof (cases "depth = MAX_EXPR_DEPTH")
      case True
      then show ?thesis by (subst parse_expr.simps) (simp add: Let_def)
    next
      case False
      then show ?thesis using \<open>\<not> MAX_EXPR_DEPTH < depth\<close> less [of "depth + 1" a] by (auto elim!: safe_mono)
    qed
    have bin: "safe (bind_res (parse_closed BINOPS h) (\<lambda>op. bind_res (parse_expr P kind key a (depth + 1)) (\<lambda>x.
        bind_res (parse_expr P kind key b (depth + 1)) (\<lambda>y. Inr (EBin op x y))))) (expr_form (MAX_EXPR_DEPTH - depth))" for h a b
      by (rule safe_bind [OF safe_parse_closed], rule safe_bind [OF sub], rule safe_bind [OF sub]) simp
    show ?thesis
    proof (cases "py_str P v")
      case None
      then show ?thesis
      proof (cases "\<exists>h rest s. py_tuple P v = Some (h # rest) \<and> py_str P h = Some s")
        case True
        then obtain h rest s where h: "py_tuple P v = Some (h # rest)" "py_str P h = Some s" by blast
        show ?thesis
          unfolding parse_expr.simps [of P kind key v depth] Let_def h None option.case list.case
          by (auto split: list.split dest: extract_i64_range intro!: safe_bind_str [OF h(2)] bin [simplified])
      next
        case other: False
        then show ?thesis
          unfolding parse_expr.simps [of P kind key v depth] Let_def None option.case
          by (auto split: option.split list.split dest: extract_i64_range)
      qed
    next
      case (Some s)
      then show ?thesis
        unfolding parse_expr.simps [of P kind key v depth] Let_def using False
        by (auto intro!: safe_bind_str [OF Some])
    qed
  qed (simp add: parse_expr.simps [of P kind key v depth] Let_def)
qed

lemma safe_p_expr: "safe (p_expr P v kind key) exp_form"
  using safe_parse_expr [of kind key v 0] by (simp add: p_expr_def)

lemma safe_opt_get: "safe (opt_get P opts key) (\<lambda>_. True)"
  by (auto simp: opt_get_def intro!: safe_bind [OF safe_get_item])

lemma safe_req: "(\<And>v. safe (parse v kind key) Q) \<Longrightarrow> safe (req P opts kind key parse) Q"
  by (auto simp: req_def split: option.split intro!: safe_bind [OF safe_opt_get])

lemma safe_opt_read: "(\<And>v. safe (parse v kind key) Q) \<Longrightarrow> safe (opt P opts kind key parse) (pred_option Q)"
  by (auto simp: opt_def split: option.split intro!: safe_bind [OF safe_opt_get] safe_bind [where P = Q])

lemma safe_check_keys: "safe (check_keys P opts allowed kind) (\<lambda>_. True)"
proof -
  have "safe (check_key P allowed kind key u) (\<lambda>_. True)" for key u
  proof (cases "py_str P key")
    case (Some s)
    show ?thesis unfolding check_key_def Some option.case
      by (rule safe_bind_str [OF Some]) (auto intro!: safe_bind [OF safe_distance])
  qed (simp add: check_key_def)
  then show ?thesis by (auto simp: check_keys_def intro: safe_fold_res)
qed

lemma safe_item: "items \<noteq> None \<Longrightarrow> item \<in> set (the items) \<Longrightarrow> py_iter P v = items \<Longrightarrow> safe item (\<lambda>_. True)"
  using iter_answers [of v "the items" item] by (auto intro: safeI)

lemma safe_over_iter:
  "(\<And>v. safe (f v) Q) \<Longrightarrow> safe (over_items shape f (py_iter P v)) (list_all Q)"
  by (rule safe_over_items) (auto intro: safe_item)

lemma safe_p_over: "safe (p_over P v) (\<lambda>_. True)"
  by (auto simp: p_over_def Let_def split: option.split
    intro!: safe_bind [OF safe_over_iter [where Q = "\<lambda>_. True"]] intro: safe_bind_str)

lemma safe_p_names: "safe (p_names P v) (\<lambda>_. True)"
  unfolding p_names_def Let_def
  by (rule safe_mono [OF safe_over_iter [where Q = "\<lambda>_. True"]]) auto

lemma safe_p_cases:
  assumes "\<And>v tag. safe (spec v (ctx_case tag cx)) Q"
  shows "safe (p_cases P spec v cx) (list_all (\<lambda>c. in_i64 (fst c) \<and> Q (snd c)))"
  unfolding p_cases_def
  by (rule safe_over_iter)
    (auto simp: p_case_def Let_def split: option.split list.split
      dest: extract_i64_range intro!: safe_bind [OF assms])

lemma safe_kind_str: "safe (kind_str P obj) (\<lambda>_. True)"
  by (auto simp: kind_str_def split: option.split intro: safe_py_str)

lemma safe_typed:
  "(\<And>kind opts. safe (ty_of kind opts cx) Q) \<Longrightarrow>
     safe (bind_res (kind_str P kind_obj) (\<lambda>kind. bind_res (opts_dict P opts_obj kind) (\<lambda>opts. ty_of kind opts cx))) Q"
  by (rule safe_bind [OF safe_kind_str]) (auto simp: opts_dict_def)

lemma safe_parse_spec:
  "(\<And>kind opts. safe (ty_of kind opts cx) Q) \<Longrightarrow> safe (parse_spec P ty_of obj cx) Q"
  by (auto simp: parse_spec_def split: option.split list.split intro: safe_typed)

lemma safe_parse_items:
  assumes "\<And>kind opts c. cx_depth c = cx_depth cx \<Longrightarrow> safe (ty_of kind opts c) Q"
  shows "safe (parse_items P ty_of obj cx) (list_all (\<lambda>f. Q (field_ty f)))"
proof -
  have ty: "safe (bind_res (kind_str P k) (\<lambda>kind. bind_res (opts_dict P v kind) (\<lambda>opts. ty_of kind opts c))) Q"
    if "cx_depth c = cx_depth cx" for k v c
    by (rule safe_typed) (rule assms [OF that])
  have name: "safe (field_name_of P v) (\<lambda>_. True)" for v
    by (simp add: field_name_of_def)
  have "safe (parse_field P ty_of cx item) (\<lambda>f. Q (field_ty f))" for item
    by (auto simp: parse_field_def Let_def split: option.split list.split
      intro!: safe_bind [OF name] safe_bind_map_fail [OF ty])
  then show ?thesis unfolding parse_items_def by (rule safe_over_iter)
qed

text \<open>The arms of the kind table.\<close>

lemmas safe_read =
  safe_bind [OF safe_opt_read [OF safe_readers(1)]] safe_bind [OF safe_opt_read [OF safe_readers(2)]]
  safe_bind [OF safe_opt_read [OF safe_readers(3)]] safe_bind [OF safe_opt_read [OF safe_readers(4)]]
  safe_bind [OF safe_opt_read [OF safe_readers(5)]] safe_bind [OF safe_opt_read [OF safe_readers(6)]]
  safe_bind [OF safe_opt_read [OF safe_names_readers(1)]] safe_bind [OF safe_opt_read [OF safe_p_expr]]
  safe_bind [OF safe_req [OF safe_readers(6)]] safe_bind [OF safe_req [OF safe_names_readers(2)]]
  safe_bind [OF safe_req [OF safe_p_expr]] safe_bind [OF safe_req [OF safe_p_width]]
  safe_bind [OF safe_req [OF safe_p_names]] safe_bind [OF safe_req [OF safe_p_over]]

lemma safe_leaf_arms:
  "safe (arm_int P kind opts) (type_form n)" "safe (arm_float P kind opts) (type_form n)"
  "safe (arm_bool P kind opts) (type_form n)" "safe (arm_raw P kind opts) (type_form n)"
  "safe (arm_bytes P kind opts) (type_form n)" "safe (arm_str P kind opts) (type_form n)"
  "safe (arm_cstr P kind opts) (type_form n)" "safe (arm_bits P kind opts) (type_form n)"
  "safe (arm_flags P kind opts) (type_form n)" "safe (arm_digest P kind opts) (type_form n)"
  unfolding arm_int_def arm_float_def arm_bool_def arm_raw_def arm_bytes_def arm_str_def arm_cstr_def arm_bits_def
    arm_flags_def arm_digest_def
  by (auto intro!: safe_read safe_bind [OF safe_parse_closed])

lemma safe_extent_of: "pred_option exp_form count \<Longrightarrow> safe (extent_of count until_eof) exp_form"
  by (auto simp: extent_of_def split: option.split bool.split)

lemma safe_build:
  assumes F: "\<And>v c. cx_depth c = Suc (cx_depth cx) \<Longrightarrow> safe (F v c) (list_all (\<lambda>f. 0 < n \<and> type_form (n - 1) (field_ty f)))"
    and G: "\<And>v c. cx_depth c = Suc (cx_depth cx) \<Longrightarrow> safe (G v c) (\<lambda>ty. 0 < n \<and> type_form (n - 1) ty)"
  shows "safe (build P F G kind opts cx) (type_form n)"
proof -
  have flds: "(flds \<noteq> [] \<longrightarrow> 0 < n) \<and> list_all (field_form (n - 1)) flds"
    if "list_all (\<lambda>f. 0 < n \<and> type_form (n - 1) (field_ty f)) flds" for flds
    using that by (cases flds) (auto simp: list_all_iff field_form_ty)
  have "safe (req P opts kind ''fields'' (\<lambda>v _ _. F v (ctx_deeper cx))) (\<lambda>flds. (flds \<noteq> [] \<longrightarrow> 0 < n) \<and> list_all (field_form (n - 1)) flds)"
    by (rule safe_req, rule safe_mono [OF F]) (use flds in auto)
  then have "safe (arm_struct P F kind opts cx) (type_form n)"
    unfolding arm_struct_def by (rule safe_bind) (auto intro!: safe_read)
  moreover have "safe (arm_array P G kind opts cx) (type_form n)"
    unfolding arm_array_def
    by (rule safe_bind [OF safe_req [where Q = "\<lambda>ty. 0 < n \<and> type_form (n - 1) ty"]], rule G, simp)
      (auto intro!: safe_read safe_bind [OF safe_extent_of])
  moreover have "safe (arm_switch P G kind opts cx) (type_form n)"
    unfolding arm_switch_def
    by (rule safe_bind [OF safe_req [OF safe_p_expr]],
        rule safe_bind [OF safe_req [OF safe_p_cases [where Q = "\<lambda>ty. 0 < n \<and> type_form (n - 1) ty"]]], rule G, simp,
        rule safe_bind [OF safe_opt_read [where Q = "\<lambda>ty. 0 < n \<and> type_form (n - 1) ty"]], rule G, simp)
      (auto simp: list_all_iff neq_Nil_conv split: option.split)
  moreover have "safe (arm_cond P G kind opts cx) (type_form n)"
    unfolding arm_cond_def
    by (rule safe_bind [OF safe_req [OF safe_p_expr]],
        rule safe_bind [OF safe_req [where Q = "\<lambda>ty. 0 < n \<and> type_form (n - 1) ty"]], rule G) auto
  ultimately show ?thesis using safe_leaf_arms [of kind opts n] unfolding build_def by (simp only: simp_thms split: if_split)
qed

lemma safe_parse_type: "safe (parse_type P kind opts cx) (type_form (MAX_SCHEMA_DEPTH - cx_depth cx))"
proof (induction "MAX_SCHEMA_DEPTH + 1 - cx_depth cx" arbitrary: kind opts cx rule: less_induct)
  case less
  let ?n = "MAX_SCHEMA_DEPTH - cx_depth cx"
  show ?case
  proof (cases "MAX_SCHEMA_DEPTH < cx_depth cx")
    case False
    have sub: "safe (parse_type P kind opts c) (\<lambda>ty. 0 < ?n \<and> type_form (?n - 1) ty)" if "cx_depth c = Suc (cx_depth cx)" for kind opts c
    proof (cases "cx_depth cx = MAX_SCHEMA_DEPTH")
      case True
      then show ?thesis using that by (subst parse_type.simps) simp
    next
      case neq: False
      then show ?thesis using less [of c kind opts] False that by (auto elim!: safe_mono)
    qed
    have "safe (build P (parse_items P (parse_type P)) (parse_spec P (parse_type P)) kind opts cx) (type_form ?n)"
    proof (rule safe_build)
      fix v and c :: pos_ctx
      assume "cx_depth c = Suc (cx_depth cx)"
      then show "safe (parse_items P (parse_type P) v c) (list_all (\<lambda>f. 0 < ?n \<and> type_form (?n - 1) (field_ty f)))"
        "safe (parse_spec P (parse_type P) v c) (\<lambda>ty. 0 < ?n \<and> type_form (?n - 1) ty)"
        using sub by (auto intro!: safe_parse_items safe_parse_spec)
    qed
    then show ?thesis using False
      by (subst parse_type.simps) (auto split: option.split intro!: safe_bind [OF safe_check_keys])
  qed (subst parse_type.simps, simp)
qed

lemma safe_parse_fields: "safe (parse_fields P obj ctx_root) (list_all (field_form MAX_SCHEMA_DEPTH))"
proof -
  have "safe (parse_fields P obj ctx_root) (list_all (\<lambda>f. type_form MAX_SCHEMA_DEPTH (field_ty f)))"
    unfolding parse_fields_def
  proof (rule safe_parse_items)
    fix kind opts and c :: pos_ctx
    assume "cx_depth c = cx_depth ctx_root"
    then show "safe (parse_type P kind opts c) (type_form MAX_SCHEMA_DEPTH)"
      using safe_parse_type [of kind opts c] by (simp add: ctx_root_def)
  qed
  then show ?thesis by (rule safe_mono) (simp add: list_all_iff field_form_ty)
qed

end

end
