(* ===== verification/Codec.thy ===== *)
theory Codec
  imports Objects Parse_Forms Pack_Safety
begin

text \<open>
  The codec classes of \<open>crates/rustruct-py/src/lib.rs\<close>: \<open>compile\<close> from Python objects to a \<open>Codec\<close>,
  and the methods of \<open>Codec\<close>, with the exceptions they raise. A \<open>PyErr\<close> of a method is a failure
  of type \<open>pyerr\<close>, whose attributes are kept and whose formatted message is not.
\<close>

section \<open>Buffers\<close>

record buffer =
  bf_readonly :: bool
  bf_contiguous :: bool
  bf_data :: bytes

definition with_buffer :: "('o \<Rightarrow> buffer pyres) \<Rightarrow> 'o \<Rightarrow> (bytes \<Rightarrow> 'a pyres) \<Rightarrow> 'a pyres" where
  "with_buffer get obj f =
     bind_res (get obj) (\<lambda>buf.
       if \<not> bf_contiguous buf then fail (TypeErr ''expected a C-contiguous buffer'') else f (bf_data buf))"

section \<open>The codec\<close>

record codec =
  cd_prog :: program
  cd_key_cache :: "string list"

definition codec_compile :: "'o py \<Rightarrow> 'o \<Rightarrow> string \<Rightarrow> nat \<Rightarrow> nat \<Rightarrow> codec pyres" where
  "codec_compile P flds order max_default max_count =
     bind_res (parse_fields P flds ctx_root) (\<lambda>parsed.
     bind_res (byteorder order) (\<lambda>bo.
     bind_res (map_fail CoreErr (compile parsed \<lparr>o_byteorder = bo, o_max_default = max_default, o_max_count = max_count\<rparr>)) (\<lambda>prog.
       Inr \<lparr>cd_prog = prog, cd_key_cache = build_key_cache prog []\<rparr>)))"

text \<open>What the methods use of Python besides the schema parser, and the hash functions.\<close>

record 'o runtime =
  rt_py :: "'o py"
  rt_new :: "'o py_new"
  rt_read :: "'o py_read"
  rt_buffer :: "'o \<Rightarrow> buffer pyres"
  rt_hashes :: hashes
  rt_no_insert :: "'o \<Rightarrow> string \<Rightarrow> 'o \<Rightarrow> 'o"
  rt_no_lookup :: "'o \<Rightarrow> string \<Rightarrow> 'o option"

definition codec_builder :: "'o runtime \<Rightarrow> codec \<Rightarrow> ('o, 'o, 'o list) builder" where
  "codec_builder T cd = py_builder (rt_new T) (cd_key_cache cd) (rt_no_insert T)"

definition codec_source :: "'o runtime \<Rightarrow> codec \<Rightarrow> ('o, 'o py_view) source" where
  "codec_source T cd = py_source (rt_py T) (rt_new T) (rt_read T) (cd_key_cache cd) (rt_no_lookup T)"

text \<open>A panic of the core is a panic of the method.\<close>

definition core_res :: "(unit, 'a) res \<Rightarrow> 'a pyres" where
  "core_res r = (case r of Inr a \<Rightarrow> Inr a | Inl _ \<Rightarrow> panic)"

definition codec_run :: "'o runtime \<Rightarrow> codec \<Rightarrow> bytes \<Rightarrow> nat \<Rightarrow> bool \<Rightarrow> bool \<Rightarrow> 'o outcome pyres" where
  "codec_run T cd data offset exact stream =
     core_res (run_with (rt_hashes T) (codec_builder T cd) (cd_prog cd) data offset exact stream)"

definition codec_unpack :: "'o runtime \<Rightarrow> codec \<Rightarrow> 'o \<Rightarrow> 'o pyres" where
  "codec_unpack T cd buf =
     with_buffer (rt_buffer T) buf (\<lambda>data.
       bind_res (codec_run T cd data 0 True False) (\<lambda>r.
         case r of
           OOk v _ \<Rightarrow> Inr v
         | OIncomplete _ \<Rightarrow> panic
         | OInvalid k offset path \<Rightarrow> fail (InvalidDataErr k offset path)))"

definition codec_unpack_from :: "'o runtime \<Rightarrow> codec \<Rightarrow> 'o \<Rightarrow> nat \<Rightarrow> ('o \<times> nat) pyres" where
  "codec_unpack_from T cd buf offset =
     with_buffer (rt_buffer T) buf (\<lambda>data.
       bind_res (codec_run T cd data offset False False) (\<lambda>r.
         case r of
           OOk v pos \<Rightarrow> Inr (v, pos)
         | OIncomplete _ \<Rightarrow> panic
         | OInvalid k offset path \<Rightarrow> fail (InvalidDataErr k offset path)))"

datatype 'o parsed = Parsed 'o nat | NeedsMore nat

text \<open>\<open>Incomplete\<close> is falsy; the tuple of a decoded value is not.\<close>

fun parsed_bool :: "'o parsed \<Rightarrow> bool" where
  "parsed_bool (Parsed v pos) \<longleftrightarrow> True"
| "parsed_bool (NeedsMore needed) \<longleftrightarrow> False"

definition codec_parse :: "'o runtime \<Rightarrow> codec \<Rightarrow> 'o \<Rightarrow> nat \<Rightarrow> 'o parsed pyres" where
  "codec_parse T cd buf offset =
     with_buffer (rt_buffer T) buf (\<lambda>data.
       bind_res (codec_run T cd data offset False True) (\<lambda>r.
         case r of
           OOk v pos \<Rightarrow> Inr (Parsed v pos)
         | OIncomplete needed \<Rightarrow> Inr (NeedsMore needed)
         | OInvalid k offset path \<Rightarrow> fail (InvalidDataErr k offset path)))"

definition codec_encode :: "'o runtime \<Rightarrow> codec \<Rightarrow> string \<Rightarrow> 'o \<Rightarrow> bytes pyres" where
  "codec_encode T cd what values =
     (if s_map_view (codec_source T cd) values = None then fail (TypeErr (what @ '': expected a Mapping''))
      else
        bind_res (core_res (pack_with (rt_hashes T) (codec_source T cd) (cd_prog cd) values)) (\<lambda>r.
          case r of
            POk out \<Rightarrow> Inr out
          | PErr k path \<Rightarrow> fail (PackErr k path)))"

definition codec_pack :: "'o runtime \<Rightarrow> codec \<Rightarrow> 'o \<Rightarrow> bytes pyres" where
  "codec_pack T cd values = codec_encode T cd ''pack'' values"

text \<open>The result is the contents of the buffer after the call and the new position.\<close>

definition codec_pack_into :: "'o runtime \<Rightarrow> codec \<Rightarrow> 'o \<Rightarrow> nat \<Rightarrow> 'o \<Rightarrow> (bytes \<times> nat) pyres" where
  "codec_pack_into T cd buf offset values =
     bind_res (codec_encode T cd ''pack_into'' values) (\<lambda>out.
     bind_res (rt_buffer T buf) (\<lambda>b.
       if bf_readonly b then fail (TypeErr ''pack_into: the buffer is read-only'')
       else if \<not> bf_contiguous b then fail (TypeErr ''expected a C-contiguous buffer'')
       else if length (bf_data b) < offset \<or> length (bf_data b) - offset < length out
       then fail (PackErr KBuffer [])
       else bind_res (splice_res (bf_data b) offset out) (\<lambda>dst. Inr (dst, offset + length out))))"

definition codec_min_size :: "codec \<Rightarrow> nat" where
  "codec_min_size cd = prog_min_size (cd_prog cd)"

definition codec_static_size :: "codec \<Rightarrow> nat option" where
  "codec_static_size cd = prog_static_size (cd_prog cd)"

definition codec_to_bytes :: "codec \<Rightarrow> bytes pyres" where
  "codec_to_bytes cd = fail (NotImplementedErr ''Program serialization is not implemented yet'')"

definition codec_from_bytes :: "bytes \<Rightarrow> codec pyres" where
  "codec_from_bytes data = fail (NotImplementedErr ''Program serialization is not implemented yet'')"

section \<open>Schemas whose fixed fields fit\<close>

text \<open>The fixed fields of each struct of the schema are at most \<open>usize::MAX\<close> bytes wide together.\<close>

fun ty_fits :: "type_in \<Rightarrow> bool" and field_fits :: "field_in \<Rightarrow> bool" where
  "ty_fits (TStruct flds _ _) \<longleftrightarrow> widths_fit flds \<and> list_all field_fits flds"
| "ty_fits (TArray elem _ _) \<longleftrightarrow> ty_fits elem"
| "ty_fits (TSwitch _ cases dflt) \<longleftrightarrow>
     list_all (\<lambda>c. ty_fits (snd c)) cases \<and> (case dflt of Some ty \<Rightarrow> ty_fits ty | None \<Rightarrow> True)"
| "ty_fits (TCond _ thn) \<longleftrightarrow> ty_fits thn"
| "ty_fits _ \<longleftrightarrow> True"
| "field_fits (FieldIn _ ty) \<longleftrightarrow> ty_fits ty"

definition schema_fits :: "field_in list \<Rightarrow> bool" where
  "schema_fits flds \<longleftrightarrow> widths_fit flds \<and> list_all field_fits flds"

lemma expr_form_imms: "expr_form n e \<Longrightarrow> imms_ok e"
  by (induction n e rule: expr_form.induct) simp_all

lemma form_fits_ok:
  "type_form n ty \<Longrightarrow> ty_fits ty \<Longrightarrow> ty_ok ty"
  "field_form n f \<Longrightarrow> field_fits f \<Longrightarrow> field_ok f"
  by (induction n ty and n f rule: type_form_field_form.induct)
     (auto simp: list_all_iff expr_form_imms split: option.splits)

lemma schema_form_ok: "list_all (field_form n) flds \<Longrightarrow> schema_fits flds \<Longrightarrow> schema_ok flds"
  by (auto simp: schema_ok_def schema_fits_def list_all_iff intro: form_fits_ok)

section \<open>What compiling gives\<close>

text \<open>The invariant of a \<open>Codec\<close>: its program is well formed and shallow enough, and its key cache holds
  every name the walks look up.\<close>

definition codec_ok :: "codec \<Rightarrow> bool" where
  "codec_ok cd \<longleftrightarrow>
     wf_prog 0 (cd_prog cd) \<and> frame_depth (cd_prog cd) \<le> MAX_DEPTH \<and> prog_keyed (set (cd_key_cache cd)) (cd_prog cd)"

context python_api begin

lemma safe_codec_compile:
  assumes fits: "\<And>parsed. parse_fields P flds ctx_root = Inr parsed \<Longrightarrow> schema_fits parsed"
  shows "safe (codec_compile P flds order max_default max_count) codec_ok"
proof -
  have parse: "safe (parse_fields P flds ctx_root) schema_ok"
    by (rule safeI) (use safe_parse_fields [of flds] fits in \<open>auto intro: safe_no_panic schema_form_ok dest: safe_Inr\<close>)
  have order: "safe (byteorder order) (\<lambda>_. True)" by (simp add: byteorder_def)
  show ?thesis unfolding codec_compile_def
  proof (rule safe_bind [OF parse], rule safe_bind [OF order])
    fix parsed bo
    assume "schema_ok parsed"
    from safe_compile [OF this] show "safe (bind_res (map_fail CoreErr (compile parsed \<lparr>o_byteorder = bo, o_max_default = max_default, o_max_count = max_count\<rparr>)) (\<lambda>prog.
        Inr \<lparr>cd_prog = prog, cd_key_cache = build_key_cache prog []\<rparr>)) codec_ok"
      by (rule safe_bind_map_fail) (simp add: codec_ok_def cache_keyed del: wf_prog.simps)
  qed
qed

end

section \<open>The methods\<close>

text \<open>A codec has room for a value when a vector can hold its minimal size, which it reserves, and twice
  what packing the value asks for: vectors grow by doubling.\<close>

definition codec_room :: "'o runtime \<Rightarrow> codec \<Rightarrow> 'o \<Rightarrow> bool" where
  "codec_room T cd obj \<longleftrightarrow> codec_min_size cd \<le> isize_max \<and> 2 * room_prog (codec_source T cd) (cd_prog cd) obj \<le> isize_max"

lemma pack_outcome_exists:
  "wf_prog 0 prog \<Longrightarrow> hash_lengths H \<Longrightarrow> prog_min_size prog \<le> isize_max \<Longrightarrow> room_prog S prog v \<le> isize_max \<Longrightarrow> \<exists>r. pack_with H S prog v = Inr r"
  using safe_pack_root [of prog H S v] by (auto simp: pack_with_def safe_def split: sum.splits fault.splits)

text \<open>What the methods rely on: a buffer request answers or raises, a buffer is smaller than the address
  space, and a hash function returns a digest of its length.\<close>

locale codec_runtime =
  fixes T :: "'o runtime"
  assumes buffer_answers: "no_panic (rt_buffer T obj)"
    and buffer_fits: "rt_buffer T obj = Inr b \<Longrightarrow> length (bf_data b) < usize_max"
    and hashes: "hash_lengths (rt_hashes T)"
begin

lemma safe_with_buffer:
  assumes "\<And>data. length data < usize_max \<Longrightarrow> safe (f data) Q"
  shows "safe (with_buffer (rt_buffer T) obj f) Q"
  unfolding with_buffer_def
  by (rule safe_bind [where P = "\<lambda>b. length (bf_data b) < usize_max"])
     (auto intro: safeI buffer_answers buffer_fits assms)

lemma safe_codec_run:
  assumes "codec_ok cd" and "length data < usize_max"
  shows "safe (codec_run T cd data offset exact stream) (outcome_ok data offset exact stream)"
proof -
  have "wf_prog 0 (cd_prog cd)" using assms(1) by (simp add: codec_ok_def del: wf_prog.simps)
  from run_with_outcome [OF this assms(2)] show ?thesis
    by (metis codec_run_def core_res_def safe_simps(1) sum.case(2))
qed

lemma safe_codec_encode:
  assumes "codec_ok cd" and "codec_room T cd values"
  shows "safe (codec_encode T cd what values) (\<lambda>_. True)"
proof -
  have "wf_prog 0 (cd_prog cd)" using assms(1) by (simp add: codec_ok_def del: wf_prog.simps)
  then have "\<exists>r. pack_with (rt_hashes T) (codec_source T cd) (cd_prog cd) values = Inr r"
    by (rule pack_outcome_exists [OF _ hashes]) (use assms(2) in \<open>simp_all add: codec_room_def codec_min_size_def\<close>)
  then obtain r where "pack_with (rt_hashes T) (codec_source T cd) (cd_prog cd) values = Inr r" ..
  then show ?thesis by (auto simp: codec_encode_def core_res_def split: pack_outcome.split)
qed

lemma safe_decode:
  assumes "codec_ok cd"
  shows "safe (codec_unpack T cd buf) (\<lambda>_. True)" "safe (codec_unpack_from T cd buf offset) (\<lambda>_. True)"
    "safe (codec_parse T cd buf offset) (\<lambda>_. True)"
  unfolding codec_unpack_def codec_unpack_from_def codec_parse_def
  by (intro safe_with_buffer safe_bind [OF safe_codec_run [OF assms]];
      auto simp: outcome_ok_def split: outcome.split)+

lemma safe_encode:
  assumes "codec_ok cd" and "codec_room T cd values"
  shows "safe (codec_pack T cd values) (\<lambda>_. True)" "safe (codec_pack_into T cd buf offset values) (\<lambda>_. True)"
proof -
  note enc = safe_codec_encode [OF assms]
  show "safe (codec_pack T cd values) (\<lambda>_. True)" unfolding codec_pack_def by (rule enc)
  have "safe (rt_buffer T buf) (\<lambda>_. True)" by (auto intro: safeI buffer_answers)
  then show "safe (codec_pack_into T cd buf offset values) (\<lambda>_. True)"
    unfolding codec_pack_into_def by (intro safe_bind [OF enc]) (erule safe_bind, auto intro!: safe_bind [where P = "\<lambda>_. True"])
qed

lemma methods_no_panic:
  assumes "codec_ok cd" and "codec_room T cd obj"
  shows "no_panic (codec_unpack T cd buf) \<and> no_panic (codec_unpack_from T cd buf offset) \<and>
    no_panic (codec_parse T cd buf offset) \<and> no_panic (codec_pack T cd obj) \<and>
    no_panic (codec_pack_into T cd buf offset obj)"
  using safe_decode [OF assms(1)] safe_encode [OF assms] by (intro conjI) (rule safe_no_panic, assumption)+

end

section \<open>A runtime of trees\<close>

text \<open>Buffers of the tree of objects: \<open>bytes\<close> is read-only, \<open>bytearray\<close> writable, and neither is longer
  than \<open>isize::MAX\<close>.\<close>

definition data_buffer :: "pydata \<Rightarrow> buffer pyres" where
  "data_buffer v =
     (case d_bytes v of
        Some b \<Rightarrow>
          if int (length b) \<le> i64_max
          then Inr \<lparr>bf_readonly = (case v of ObBytes _ \<Rightarrow> True | _ \<Rightarrow> False), bf_contiguous = True, bf_data = b\<rparr>
          else fail (Raised 0)
      | None \<Rightarrow> fail (Raised 0))"

definition data_runtime :: "pydata runtime" where
  "data_runtime =
     \<lparr>rt_py = data_py, rt_new = data_new, rt_read = data_read, rt_buffer = data_buffer, rt_hashes = zero_hashes,
      rt_no_insert = (\<lambda>m k v. ObNone), rt_no_lookup = (\<lambda>d k. None)\<rparr>"

interpretation data_runtime: codec_runtime data_runtime
  by unfold_locales
    (auto simp: data_runtime_def data_buffer_def zero_hashes_lengths i64_max_def usize_max_def split: option.splits if_splits)

interpretation data_py: python_api data_py
proof
  show "no_panic item" if "py_iter data_py v = Some items" "item \<in> set items" for v items item
    using that by (cases v) (auto simp: data_py_def)
qed (auto simp: data_py_def)

section \<open>Properties\<close>

text \<open>The codec of a length-prefixed byte string, the running example of the witnesses.\<close>

definition blob_codec :: codec where
  "blob_codec = \<lparr>cd_prog = blob_program, cd_key_cache = [''n'', ''b'']\<rparr>"

lemma blob_codec_ok: "codec_ok blob_codec"
proof -
  have "wf_prog 0 blob_program \<and> frame_depth blob_program \<le> MAX_DEPTH"
    by (rule safe_Inr [OF safe_compile [OF schema_ok_blob] compile_blob])
  moreover have "prog_keyed {''n'', ''b''} blob_program"
    by (simp add: prog_keyed_def blob_program_def key_list_def common_named_def)
  ultimately show ?thesis by (simp add: codec_ok_def blob_codec_def del: wf_prog.simps)
qed



text \<open>C30: no method of a codec panics, whatever the buffer and the offset, and for every value the codec
  has room for (\<open>codec_room\<close>): the \<open>unreachable!("stream=false")\<close> is unreachable and the slice
  \<open>pack_into\<close> writes is inside the buffer.\<close>

theorem codec_methods_never_panic:
  assumes "codec_runtime T" and "codec_ok cd" and "codec_room T cd obj"
  shows "no_panic (codec_unpack T cd buf) \<and> no_panic (codec_unpack_from T cd buf offset) \<and>
    no_panic (codec_parse T cd buf offset) \<and> no_panic (codec_pack T cd obj) \<and>
    no_panic (codec_pack_into T cd buf offset obj)"
  by (rule codec_runtime.methods_no_panic [OF assms])

theorem codec_methods_never_panic_witness:
  "no_panic (codec_unpack data_runtime blob_codec (ObBytes [1, 65])) \<and>
    no_panic (codec_unpack_from data_runtime blob_codec (ObBytes [1, 65]) 1) \<and>
    no_panic (codec_parse data_runtime blob_codec (ObBytes [1, 65]) 1) \<and>
    no_panic (codec_pack data_runtime blob_codec ObNone) \<and>
    no_panic (codec_pack_into data_runtime blob_codec (ObBytes [1, 65]) 1 ObNone)"
  by (rule codec_methods_never_panic [OF data_runtime.codec_runtime_axioms blob_codec_ok])
    (simp add: blob_codec_def codec_room_def codec_min_size_def codec_source_def py_source_def ps_map_view_def data_runtime_def data_py_def
      data_read_def blob_program_def room_prog.simps isize_max_def)

lemma cached_run:
  assumes "codec_ok cd"
  shows "codec_run T cd data offset exact stream =
    core_res (run_with (rt_hashes T) (py_builder_all (rt_new T)) (cd_prog cd) data offset exact stream)"
proof -
  have "prog_keyed (set (cd_key_cache cd)) (cd_prog cd)" using assms by (simp add: codec_ok_def)
  from py_cached.sim_run_with [OF this, of "rt_hashes T" "rt_new T" "rt_no_insert T" data offset exact stream]
  show ?thesis by (simp add: codec_run_def codec_builder_def outcome.rel_eq sum.rel_eq)
qed

lemma cached_pack:
  assumes "codec_ok cd"
  shows "pack_with H (codec_source T cd) (cd_prog cd) obj =
    pack_with H (py_source_all (rt_py T) (rt_new T) (rt_read T)) (cd_prog cd) obj"
  unfolding codec_source_def
  by (rule py_source_cached.sim_pack_with) (use assms in \<open>simp_all add: codec_ok_def\<close>)

text \<open>C31: the \<open>expect\<close> on the key cache never fires: whatever an insertion or a lookup of a name that is
  not cached would do, the methods of a compiled codec give the same results.\<close>

theorem key_cache_complete:
  assumes "codec_ok cd"
  shows "codec_unpack (T\<lparr>rt_no_insert := f, rt_no_lookup := g\<rparr>) cd buf = codec_unpack T cd buf \<and>
    codec_unpack_from (T\<lparr>rt_no_insert := f, rt_no_lookup := g\<rparr>) cd buf offset = codec_unpack_from T cd buf offset \<and>
    codec_parse (T\<lparr>rt_no_insert := f, rt_no_lookup := g\<rparr>) cd buf offset = codec_parse T cd buf offset \<and>
    codec_pack (T\<lparr>rt_no_insert := f, rt_no_lookup := g\<rparr>) cd obj = codec_pack T cd obj \<and>
    codec_pack_into (T\<lparr>rt_no_insert := f, rt_no_lookup := g\<rparr>) cd buf offset obj = codec_pack_into T cd buf offset obj"
proof -
  have enc: "codec_encode (T\<lparr>rt_no_insert := f, rt_no_lookup := g\<rparr>) cd what obj = codec_encode T cd what obj" for what
    unfolding codec_encode_def cached_pack [OF assms] by (simp add: codec_source_def py_source_def)
  show ?thesis
    by (simp add: codec_unpack_def codec_unpack_from_def codec_parse_def codec_pack_def codec_pack_into_def
      cached_run [OF assms] enc)
qed

theorem key_cache_complete_witness:
  "codec_unpack (data_runtime\<lparr>rt_no_insert := \<lambda>m k v. m, rt_no_lookup := \<lambda>d k. Some d\<rparr>) blob_codec (ObBytes [1, 65]) =
    codec_unpack data_runtime blob_codec (ObBytes [1, 65])"
  using key_cache_complete [OF blob_codec_ok, where T = data_runtime and f = "\<lambda>m k v. m" and g = "\<lambda>d k. Some d" and buf = "ObBytes [1, 65]"] by blast

lemma dicts_distinct: "dicts_only v \<Longrightarrow> distinct_keys (data_value v)"
  by (induction v rule: data_value.induct) (auto simp: list_all_iff)

text \<open>C39: packing Python objects through \<open>PySource\<close> is packing the value tree they stand for through
  \<open>ValueSource\<close>, for every object made of numbers, booleans, strings, bytes, lists, tuples and dicts,
  where no dict repeats a name (\<open>dicts_only\<close>): on these the coercions of the two agree. A mapping that is
  not a \<open>dict\<close> is excluded, and \<open>mapping_has_no_truth\<close> shows why.\<close>

theorem python_packs_as_values:
  assumes "codec_ok cd" and "dicts_only obj"
  shows "pack_with H (codec_source data_runtime cd) (cd_prog cd) obj = pack_run H (cd_prog cd) (data_value obj)"
  by (simp add: cached_pack [OF assms(1)] data_runtime_def data_source.packs_tree [OF assms(2)] pack_run_def
    value_source.packs_tree [OF dicts_distinct [OF assms(2)]])

theorem python_packs_as_values_witness:
  "pack_with zero_hashes (codec_source data_runtime blob_codec) (cd_prog blob_codec) (ObDict [(''b'', ObByteArray [65])]) =
    pack_run zero_hashes (cd_prog blob_codec) (VMap [(''b'', VBytes [65])])"
  using python_packs_as_values [OF blob_codec_ok, of "ObDict [(''b'', ObByteArray [65])]" zero_hashes] by simp

text \<open>The values an unpacker can build: numbers of 128 bits, maps without repeated keys.\<close>

fun plain :: "val_tree \<Rightarrow> bool" where
  "plain (VInt i) \<longleftrightarrow> - (2 ^ 127) \<le> i \<and> i \<le> 2 ^ 127 - 1"
| "plain (VMap ps) \<longleftrightarrow> distinct (map fst ps) \<and> list_all (\<lambda>p. plain (snd p)) ps"
| "plain (VList vs) \<longleftrightarrow> list_all plain vs"
| "plain VUnsupported \<longleftrightarrow> False"
| "plain _ \<longleftrightarrow> True"

lemma update_new: "k \<notin> fst ` set ps \<Longrightarrow> AList.update k v ps = ps @ [(k, v)]"
  by (induction ps) auto

lemma set_item_new:
  "distinct (map fst (ps @ qs)) \<Longrightarrow>
    foldl (\<lambda>m (k, v). b_map_set (py_builder_all data_new) m k v) (ObDict ps) qs = ObDict (ps @ qs)"
proof (induction qs arbitrary: ps)
  case (Cons q qs)
  have "AList.update (fst q) (snd q) ps = ps @ [q]"
    using Cons.prems by (intro trans [OF update_new]) auto
  then show ?case using Cons by (cases q) (simp add: py_builder_def pb_map_set_def data_new_def)
qed simp

lemma foldl_snoc: "foldl (\<lambda>l v. l @ [v]) acc vs = acc @ vs"
  by (induction vs arbitrary: acc) simp_all

lemma render_data:
  "plain v \<Longrightarrow> data_value (render (py_builder_all data_new) v) = v \<and> dicts_only (render (py_builder_all data_new) v)"
proof (induction v rule: plain.induct)
  case (2 ps)
  have "foldl (\<lambda>m (k, v). b_map_set (py_builder_all data_new) m k v) (ObDict [])
      (map (map_prod id (render (py_builder_all data_new))) ps) =
      ObDict (map (map_prod id (render (py_builder_all data_new))) ps)"
    using 2 by (subst set_item_new) (auto simp: comp_def)
  then have "render (py_builder_all data_new) (VMap ps) = ObDict (map (map_prod id (render (py_builder_all data_new))) ps)"
    by (simp add: py_builder_def data_new_def)
  then show ?case using 2 by (auto simp: list_all_iff comp_def intro!: map_idI)
next
  case (3 vs)
  have "render (py_builder_all data_new) (VList vs) = ObList (map (render (py_builder_all data_new)) vs)"
    by (simp add: py_builder_def data_new_def foldl_snoc)
  then show ?case using 3 by (auto simp: list_all_iff intro!: map_idI)
qed (auto simp: py_builder_def data_new_def pb_int_def)

text \<open>C40: what \<open>Codec.unpack\<close> returns, \<open>Codec.pack\<close> takes: when the core decodes a buffer to a tree without
  repeated keys and whose numbers have 128 bits (\<open>plain\<close>; they are the type \<open>i128\<close> in the code), the
  method returns Python objects that stand for that tree, built through the key cache, and packing
  these objects gives what the core gives for the tree, bytes or error.\<close>

theorem python_objects_round_trip:
  assumes "codec_ok cd" and "length data \<le> isize_max"
    and "run zero_hashes (cd_prog cd) data 0 True False = Inr (OOk (VMap ps) n)" and "plain (VMap ps)"
  shows "\<exists>obj. codec_unpack data_runtime cd (ObBytes data) = Inr obj \<and> data_value obj = VMap ps \<and>
    codec_pack data_runtime cd obj =
      (case pack_run zero_hashes (cd_prog cd) (VMap ps) of
         Inr (POk out) \<Rightarrow> Inr out
       | Inr (PErr k path) \<Rightarrow> fail (PackErr k path)
       | Inl e \<Rightarrow> panic)"
proof -
  define built where "built = render (py_builder_all data_new) (VMap ps)"
  have v: "data_value built = VMap ps" and obj: "dicts_only built" unfolding built_def using render_data [OF assms(4)] by blast+
  have un: "codec_unpack data_runtime cd (ObBytes data) = Inr built"
    using assms(2) by (simp add: built_def codec_unpack_def cached_run [OF assms(1)] py_builder.run_renders assms(3) core_res_def with_buffer_def data_runtime_def
      data_buffer_def isize_max_def i64_max_def)
  have pk: "pack_with zero_hashes (codec_source data_runtime cd) (cd_prog cd) built = pack_run zero_hashes (cd_prog cd) (VMap ps)"
    using dicts_distinct [OF obj] unfolding v
    by (simp add: cached_pack [OF assms(1)] data_runtime_def data_source.packs_tree [OF obj] pack_run_def value_source.packs_tree v)
  have view: "s_map_view (codec_source data_runtime cd) built \<noteq> None"
    using v obj by (cases built) (auto simp: codec_source_def py_source_def ps_map_view_def data_runtime_def data_py_def split: if_splits)
  have "codec_pack data_runtime cd built = (case pack_run zero_hashes (cd_prog cd) (VMap ps) of
      Inr (POk out) \<Rightarrow> Inr out | Inr (PErr k path) \<Rightarrow> fail (PackErr k path) | Inl e \<Rightarrow> panic)"
    using view pk by (auto simp: codec_pack_def codec_encode_def core_res_def data_runtime_def split: sum.splits pack_outcome.splits)
  then show ?thesis using un v by blast
qed

theorem python_objects_round_trip_witness:
  "\<exists>obj. codec_unpack data_runtime blob_codec (ObBytes [1, 65]) = Inr obj \<and>
    data_value obj = VMap [(''n'', VInt 1), (''b'', VBytes [65])] \<and> codec_pack data_runtime blob_codec obj = Inr [1, 65]"
proof -
  have "run zero_hashes (cd_prog blob_codec) [1, 65] 0 True False = Inr (OOk (VMap [(''n'', VInt 1), (''b'', VBytes [65])]) 2)"
    unfolding blob_codec_def blob_program_def by code_simp
  moreover have "pack_run zero_hashes (cd_prog blob_codec) (VMap [(''n'', VInt 1), (''b'', VBytes [65])]) = Inr (POk [1, 65])"
    unfolding blob_codec_def blob_program_def by code_simp
  ultimately show ?thesis
    using python_objects_round_trip [OF blob_codec_ok, of "[1, 65]" "[(''n'', VInt 1), (''b'', VBytes [65])]" 2] by (simp add: isize_max_def)
qed

section \<open>Where the sources differ\<close>

text \<open>
  A mapping that is not a \<open>dict\<close> is read as a map, but it has no truth value for a \<open>bool\<close> field,
  where \<open>Value::Map\<close> has one.
\<close>

lemma mapping_has_no_truth:
  "s_truthy (py_source data_py data_new data_read cache missing) (ObMapping ps) = None \<and>
   s_truthy value_source (data_value (ObMapping ps)) = Some (ps \<noteq> [])"
  by (simp add: py_source_def ps_truthy_def data_py_def data_read_def value_source_def)

end
