(* ===== verification/Decode_Limits.thy ===== *)
theory Decode_Limits
  imports Unpack
begin

text \<open>
  The limits a program carries hold of what it decodes: no list is longer than the largest
  \<open>max_count\<close> of its arrays, so a decode of hostile bytes ends after boundedly many elements even
  when an element takes no bytes.
\<close>

section \<open>Arrays that take no bytes\<close>

text \<open>Rounds that leave the position where it is: each is taken below \<open>max_count\<close>, and none at it.\<close>

lemma eof_loop_round:
  assumes "pos < limit" and "i < mc" and "step i (pos, out, frames) = Inr st"
  shows "eof_loop step mc limit i (pos, out, frames) = eof_loop step mc limit (Suc i) st"
  using assms by (subst eof_loop.simps) simp

lemma eof_loop_stuck:
  assumes "\<And>i. i < n \<Longrightarrow> step i (pos, outs i, fs i) = Inr (pos, outs (Suc i), fs (Suc i))" and "pos < limit"
  shows "n \<le> mc \<Longrightarrow> eof_loop step mc limit 0 (pos, outs 0, fs 0) = eof_loop step mc limit n (pos, outs n, fs n)"
  using assms(1)
proof (induction n)
  case (Suc n)
  then have "eof_loop step mc limit 0 (pos, outs 0, fs 0) = eof_loop step mc limit n (pos, outs n, fs n)" by simp
  then show ?case using eof_loop_round [OF assms(2), of n mc step] Suc.prems by simp
qed simp

section \<open>Lists in a value\<close>

fun lists_within :: "nat \<Rightarrow> val_tree \<Rightarrow> bool" where
  "lists_within k (VList vs) \<longleftrightarrow> length vs \<le> k \<and> list_all (lists_within k) vs"
| "lists_within k (VMap ps) \<longleftrightarrow> list_all (\<lambda>p. lists_within k (snd p)) ps"
| "lists_within k _ \<longleftrightarrow> True"

text \<open>\<open>k\<close> bounds the \<open>max_count\<close> of every array of the program.\<close>

fun counts_within :: "nat \<Rightarrow> program \<Rightarrow> bool" and op_counts :: "nat \<Rightarrow> op \<Rightarrow> bool" where
  "counts_within k (Program ops _ _ _ _) \<longleftrightarrow> list_all (op_counts k) ops"
| "op_counts k (OpNest prog _ _) \<longleftrightarrow> counts_within k prog"
| "op_counts k (OpArray _ mc elem _ _) \<longleftrightarrow> mc \<le> k \<and> op_counts k elem"
| "op_counts k (OpSwitch _ cases dflt _) \<longleftrightarrow>
     list_all (\<lambda>c. op_counts k (snd c)) cases \<and> (case dflt of Some op \<Rightarrow> op_counts k op | None \<Rightarrow> True)"
| "op_counts k (OpCond _ thn _) \<longleftrightarrow> op_counts k thn"
| "op_counts k _ \<longleftrightarrow> True"

lemma op_counts_branch: "op_counts k (OpSwitch on cases dflt c) \<Longrightarrow> switch_branch tag cases dflt = Some op \<Longrightarrow> op_counts k op"
  by (drule switch_branch_cases) (auto simp: list_all_iff)

section \<open>What a walk yields\<close>

definition yields :: "('e, 'a) res \<Rightarrow> ('a \<Rightarrow> bool) \<Rightarrow> bool" where
  "yields m Q \<longleftrightarrow> (\<forall>a. m = Inr a \<longrightarrow> Q a)"

lemma yields_simps [simp]:
  "yields (Inr a) Q \<longleftrightarrow> Q a"
  "yields (Inl e) Q"
  "yields (map_fail g m) Q \<longleftrightarrow> yields m Q"
  by (simp_all add: yields_def)

lemma yields_bind: "yields m P \<Longrightarrow> (\<And>a. P a \<Longrightarrow> yields (f a) Q) \<Longrightarrow> yields (bind_res m f) Q"
  by (cases m) (auto simp: yields_def)

lemma yields_then: "(\<And>a. yields (f a) Q) \<Longrightarrow> yields (bind_res m f) Q"
  by (rule yields_bind [where P = "\<lambda>_. True"]) (simp_all add: yields_def)

lemma yields_mono: "yields m P \<Longrightarrow> (\<And>a. P a \<Longrightarrow> Q a) \<Longrightarrow> yields m Q"
  by (simp add: yields_def)

lemma yields_fold:
  assumes "P s" and "\<And>x s. x \<in> set xs \<Longrightarrow> P s \<Longrightarrow> yields (f x s) P"
  shows "yields (fold_res f xs s) P"
  using assms by (induction xs arbitrary: s) (auto intro!: yields_bind)

abbreviation reading :: "bytes \<Rightarrow> hashes \<Rightarrow> (val_tree, val_tree, val_tree list) uenv" where
  "reading buf H \<equiv> \<lparr>ue_buf = buf, ue_builder = value_builder, ue_hashes = H\<rparr>"

definition value_yields :: "nat \<Rightarrow> val_tree uvalue \<Rightarrow> bool" where
  "value_yields k f \<longleftrightarrow> (\<forall>frames pos limit. yields (f frames pos limit) (\<lambda>(v, _). lists_within k v))"

lemma value_yieldsD: "value_yields k f \<Longrightarrow> yields (f frames pos limit) (\<lambda>(v, _). lists_within k v)"
  by (simp add: value_yields_def)

text \<open>The map a struct is building.\<close>

definition builds :: "nat \<Rightarrow> val_tree \<Rightarrow> bool" where
  "builds k m \<longleftrightarrow> lists_within k m \<and> (\<exists>ps. m = VMap ps)"

lemma builds_new: "builds k (b_map_new value_builder n)"
  by (simp add: builds_def value_builder_def value_map_def)

lemma builds_set: "builds k m \<Longrightarrow> lists_within k v \<Longrightarrow> builds k (b_map_set value_builder m name v)"
  by (auto simp: builds_def value_builder_def)

lemma builds_insert: "builds k m \<Longrightarrow> lists_within k v \<Longrightarrow> builds k (insert_key value_builder key v m)"
  by (cases "key_name key") (simp_all add: insert_key_def builds_set)

lemma yields_fixed_item: "yields (read_fixed_item (reading buf H) item base frames) (\<lambda>(v, _). lists_within k v)"
  by (cases "fi_kind item") (auto simp: read_fixed_item_def Let_def value_builder_def intro!: yields_then)

lemma flag_value_within: "lists_within k (flag_value value_builder raw item)"
  by (simp add: flag_value_def Let_def value_builder_def)

lemma builds_flags: "builds k m \<Longrightarrow>
    builds k (foldl (\<lambda>m item. b_map_set value_builder m (fl_key item) (flag_value value_builder raw item)) m items)"
  by (induction items arbitrary: m) (simp_all add: builds_set flag_value_within)

lemma builds_finish: "builds k m \<Longrightarrow> lists_within k (b_map_finish value_builder m)"
  by (simp add: builds_def value_builder_def)

lemma yields_flags: "yields (do_flags (reading buf H) prim be items rest rm pos limit) (\<lambda>(v, _). lists_within k v)"
proof -
  have "lists_within k (b_int value_builder i)" for i by (simp add: value_builder_def)
  then show ?thesis
    by (auto simp: do_flags_def Let_def intro!: yields_then builds_finish builds_set builds_flags builds_new split: rest_policy.split)
qed

lemma yields_cstr: "yields (do_cstr (reading buf H) mx e pos limit) (\<lambda>(v, _). lists_within k v)"
  by (auto simp: do_cstr_def Let_def value_builder_def intro!: yields_then split: option.split)

abbreviation struct_yields :: "nat \<Rightarrow> val_tree ustate ures \<Rightarrow> bool" where
  "struct_yields k m \<equiv> yields m (\<lambda>(pos, m, _). builds k m)"

lemma yields_run_fixed:
  assumes "builds k m"
  shows "struct_yields k (run_fixed (reading buf H) width items limit (pos, m, df, frames))"
proof -
  have step: "yields (fixed_step (reading buf H) pos item st) (\<lambda>(m, _). builds k m)" if prem: "case st of (m, _) \<Rightarrow> builds k m" for item st
  proof -
    obtain m frames where st: "st = (m, frames)" "builds k m" using prem by (cases st) auto
    have "yields (map_fail (push_key (fi_key item)) (read_fixed_item (reading buf H) item pos frames)) (\<lambda>(v, _). lists_within k v)"
      by (simp add: yields_fixed_item)
    then show ?thesis unfolding fixed_step_def st(1) prod.case
      by (rule yields_bind) (use st(2) in \<open>auto intro!: builds_insert\<close>)
  qed
  have loop: "yields (fold_res (fixed_step (reading buf H) pos) items (m, frames)) (\<lambda>(m, _). builds k m)"
    by (rule yields_fold) (use assms step in auto)
  show ?thesis unfolding run_fixed_def prod.case uenv.simps
    by (rule yields_then, rule yields_bind [OF loop]) auto
qed

lemma yields_run_bits:
  assumes "builds k m"
  shows "struct_yields k (run_bits (reading buf H) nbytes items limit (pos, m, df, frames))"
proof -
  have step: "yields (bit_item_step (reading buf H) pos item st) (\<lambda>(_, m, _). builds k m)"
    if "case st of (_, m, _) \<Rightarrow> builds k m" for item st
    using that by (cases st) (auto simp: bit_item_step_def intro!: yields_then builds_insert, simp add: value_builder_def)
  have loop: "yields (fold_res (bit_item_step (reading buf H) pos) items (0, m, frames)) (\<lambda>(_, m, _). builds k m)"
    by (rule yields_fold) (use assms step in auto)
  show ?thesis unfolding run_bits_def prod.case uenv.simps
    by (rule yields_then, rule yields_bind [OF loop]) auto
qed

lemma yields_run_digest:
  "builds k m \<Longrightarrow> struct_yields k (run_digest (reading buf H) algo over verify be c limit (pos, m, df, frames))"
  by (auto simp: run_digest_def Let_def intro!: yields_then builds_insert) (simp_all add: value_builder_def)

lemma yields_place:
  assumes "builds k m" and r: "yields r (\<lambda>(v, _). lists_within k v)"
  shows "struct_yields k (place_value (reading buf H) c r (pos, m, df, frames))"
proof -
  have r': "yields (map_fail (push_key (c_key c)) r) (\<lambda>(v, _). lists_within k v)" using r by simp
  show ?thesis unfolding place_value_def prod.case uenv.simps
    by (rule yields_bind [OF r']) (use assms(1) in \<open>auto intro!: yields_then builds_insert\<close>)
qed

section \<open>The walk\<close>

lemma yields_nest:
  assumes "value_yields k f"
  shows "value_yields k (do_nest (reading buf H) f sz)"
  unfolding value_yields_def
proof (intro allI)
  fix frames pos limit
  note f = value_yieldsD [OF assms]
  show "yields (do_nest (reading buf H) f sz frames pos limit) (\<lambda>(v, _). lists_within k v)"
    using f by (auto simp: do_nest_def intro!: yields_then yields_bind [OF f] split: option.split len_src.split)
qed

lemma yields_array_step:
  assumes "value_yields k f" and "list_all (lists_within k) out"
  shows "yields (array_step value_builder f limit i (pos, out, frames))
    (\<lambda>(_, out', _). list_all (lists_within k) out' \<and> length out' = Suc (length out))"
proof -
  have "yields (map_fail (ufail_seg (SegIndex i)) (f frames pos limit)) (\<lambda>(v, _). lists_within k v)"
    using value_yieldsD [OF assms(1)] by simp
  then show ?thesis unfolding array_step_def prod.case
    by (rule yields_bind) (use assms(2) in \<open>auto simp: value_builder_def\<close>)
qed

lemma yields_array_fold:
  assumes f: "value_yields k f"
  shows "list_all (lists_within k) out \<Longrightarrow> yields (fold_res (array_step value_builder f limit) ixs (pos, out, frames))
    (\<lambda>(_, out', _). list_all (lists_within k) out' \<and> length out' = length out + length ixs)"
proof (induction ixs arbitrary: pos out frames)
  case (Cons i ixs)
  show ?case unfolding fold_res.simps
  proof (rule yields_bind [OF yields_array_step [OF f Cons.prems]])
    fix st :: "val_tree list astate"
    assume "case st of (_, out', _) \<Rightarrow> list_all (lists_within k) out' \<and> length out' = Suc (length out)"
    then show "yields (fold_res (array_step value_builder f limit) ixs st)
        (\<lambda>(_, out', _). list_all (lists_within k) out' \<and> length out' = length out + length (i # ixs))"
      by (cases st) (auto intro!: yields_mono [OF Cons.IH])
  qed
qed simp

lemma yields_eof_loop:
  assumes f: "value_yields k f"
  shows "list_all (lists_within k) out \<Longrightarrow> i \<le> mc \<Longrightarrow> yields (eof_loop (array_step value_builder f limit) mc limit i (pos, out, frames))
    (\<lambda>(_, out', _). list_all (lists_within k) out' \<and> length out' + i \<le> length out + mc)"
proof (induction "mc - i" arbitrary: i pos out frames)
  case 0
  then show ?case by (subst eof_loop.simps) auto
next
  case (Suc n)
  have "yields (bind_res (array_step value_builder f limit i (pos, out, frames)) (eof_loop (array_step value_builder f limit) mc limit (i + 1)))
      (\<lambda>(_, out', _). list_all (lists_within k) out' \<and> length out' + i \<le> length out + mc)"
  proof (rule yields_bind [OF yields_array_step [OF f Suc.prems(1)]])
    fix st :: "val_tree list astate"
    assume "case st of (_, out', _) \<Rightarrow> list_all (lists_within k) out' \<and> length out' = Suc (length out)"
    then show "yields (eof_loop (array_step value_builder f limit) mc limit (i + 1) st)
        (\<lambda>(_, out', _). list_all (lists_within k) out' \<and> length out' + i \<le> length out + mc)"
      using Suc(2) by (cases st) (auto intro!: yields_mono [OF Suc(1) [of "i + 1", simplified]])
  qed
  then show ?case using Suc(2,3,4) by (subst eof_loop.simps) auto
qed

lemma yields_array:
  assumes f: "value_yields k f" and mc: "mc \<le> k"
  shows "value_yields k (do_array (reading buf H) f count mc em)"
  unfolding value_yields_def
proof (intro allI)
  fix frames pos limit
  show "yields (do_array (reading buf H) f count mc em frames pos limit) (\<lambda>(v, _). lists_within k v)"
  proof (cases count)
    case (CountExpr e iv)
    have loop: "yields (fold_res (array_step value_builder f limit) [0..<nat n] (pos, b_list_new value_builder h, frames))
        (\<lambda>(_, out', _). list_all (lists_within k) out' \<and> length out' = nat n)" for n h
      using yields_array_fold [OF f, of "[]" limit "[0..<nat n]" pos frames] by (simp add: value_builder_def)
    show ?thesis unfolding do_array_def Let_def CountExpr count_src.case uenv.simps
      by (rule yields_then) (auto intro!: yields_bind [OF loop], use mc in \<open>auto simp: value_builder_def\<close>)
  next
    case UntilEof
    have loop: "yields (eof_loop (array_step value_builder f limit) mc limit 0 (pos, b_list_new value_builder 0, frames))
        (\<lambda>(_, out', _). list_all (lists_within k) out' \<and> length out' \<le> mc)"
      using yields_eof_loop [OF f, of "[]" 0 mc limit pos frames] by (simp add: value_builder_def)
    show ?thesis unfolding do_array_def Let_def UntilEof count_src.case uenv.simps
      by (rule yields_bind [OF loop]) (use mc in \<open>auto simp: value_builder_def\<close>)
  qed
qed

lemma yields_switch:
  assumes "\<And>tag op. switch_branch tag cases dflt = Some op \<Longrightarrow> value_yields k (f op)"
  shows "value_yields k (do_switch f on cases dflt)"
  using assms by (auto simp: value_yields_def do_switch_def intro!: yields_then split: option.split)

lemma yields_struct_step:
  assumes ops: "\<And>op limit pos m df frames. op \<in> set (prog_ops prog) \<Longrightarrow> builds k m \<Longrightarrow>
      struct_yields k (run_op (reading buf H) op limit (pos, m, df, frames))"
  shows "value_yields k (run_struct (reading buf H) prog)"
  unfolding value_yields_def
proof (intro allI)
  fix frames pos limit
  have loop: "struct_yields k (fold_res (\<lambda>op st. run_op (reading buf H) op limit st) (prog_ops prog)
      (pos, b_map_new value_builder n, [], new_frame # frames))" for n
    by (rule yields_fold) (use ops in \<open>auto simp: builds_new\<close>)
  show "yields (run_struct (reading buf H) prog frames pos limit) (\<lambda>(v, _). lists_within k v)"
  proof (cases "MAX_DEPTH \<le> length frames")
    case False
    then show ?thesis unfolding run_struct.simps uenv.simps
      by (simp only: if_False, intro yields_bind [OF loop]) (auto intro!: yields_then builds_finish split: list.split)
  qed (simp add: run_struct.simps)
qed

lemma yields_value_step:
  assumes counts: "op_counts k op"
    and nest: "\<And>prog sz c. op = OpNest prog sz c \<Longrightarrow> value_yields k (run_struct (reading buf H) prog)"
    and elem: "\<And>count mc elem em c. op = OpArray count mc elem em c \<Longrightarrow> value_yields k (op_value (reading buf H) elem)"
    and branch: "\<And>on cases dflt c tag b. op = OpSwitch on cases dflt c \<Longrightarrow> switch_branch tag cases dflt = Some b \<Longrightarrow>
      value_yields k (op_value (reading buf H) b)"
  shows "value_yields k (op_value (reading buf H) op)"
  unfolding value_yields_def
proof (intro allI)
  fix frames pos limit
  show "yields (op_value (reading buf H) op frames pos limit) (\<lambda>(v, _). lists_within k v)"
  proof (cases op)
    case (OpFixed width items)
    show ?thesis unfolding OpFixed op_value.simps Let_def op.case uenv.simps
      by (intro yields_then yields_bind [OF yields_fixed_item]) auto
  next
    case (OpFlags prim be items rest rm c)
    show ?thesis unfolding OpFlags op_value.simps Let_def op.case by (rule yields_bind [OF yields_flags]) auto
  next
    case (OpCStr mx e c)
    show ?thesis unfolding OpCStr op_value.simps Let_def op.case by (rule yields_bind [OF yields_cstr]) auto
  next
    case (OpNest prog sz c)
    show ?thesis using value_yieldsD [OF yields_nest [OF nest [OF OpNest]]] by (simp add: op_value.simps OpNest)
  next
    case (OpArray count mc elem_op em c)
    then have "mc \<le> k" using counts by simp
    from value_yieldsD [OF yields_array [OF elem [OF OpArray] this]] show ?thesis by (simp add: op_value.simps OpArray)
  next
    case (OpSwitch on cases dflt c)
    show ?thesis using value_yieldsD [OF yields_switch [OF branch [OF OpSwitch]]] by (simp add: op_value.simps OpSwitch)
  qed (auto simp: op_value.simps value_builder_def intro!: yields_then)
qed

lemma yields_op_step:
  assumes m: "builds k m" and val: "value_yields k (op_value (reading buf H) op)"
    and thn: "\<And>pred thn c. op = OpCond pred thn c \<Longrightarrow> value_yields k (op_value (reading buf H) thn)"
  shows "struct_yields k (run_op (reading buf H) op limit (pos, m, df, frames))"
proof (cases op)
  case (OpFixed width items)
  then show ?thesis using yields_run_fixed [OF m] by (simp add: run_op.simps)
next
  case (OpBitRun nbytes items)
  then show ?thesis using yields_run_bits [OF m] by (simp add: run_op.simps)
next
  case (OpDigest algo over verify be c)
  then show ?thesis using yields_run_digest [OF m] by (simp add: run_op.simps)
next
  case (OpCond pred t c)
  show ?thesis unfolding run_op.simps OpCond op.case prod.case
    by (rule yields_then) (use m yields_place [OF m value_yieldsD [OF thn [OF OpCond]]] in auto)
qed (use yields_place [OF m value_yieldsD [OF val]] in \<open>auto simp: run_op.simps intro!: yields_then\<close>)

lemma yields_walk:
  "(\<forall>prog. 2 * size prog < n \<longrightarrow> counts_within k prog \<longrightarrow> value_yields k (run_struct (reading buf H) prog)) \<and>
   (\<forall>op limit pos m df frames. 2 * size op + 1 < n \<longrightarrow> op_counts k op \<longrightarrow> builds k m \<longrightarrow>
      struct_yields k (run_op (reading buf H) op limit (pos, m, df, frames))) \<and>
   (\<forall>op. 2 * size op < n \<longrightarrow> op_counts k op \<longrightarrow> value_yields k (op_value (reading buf H) op))"
proof (induction n)
  case (Suc n)
  have 1: "value_yields k (run_struct (reading buf H) prog)" if "2 * size prog < Suc n" "counts_within k prog" for prog
  proof (rule yields_struct_step)
    fix op limit pos m df frames
    assume op: "op \<in> set (prog_ops prog)" and m: "builds k m"
    have "op_counts k op" using that(2) op by (cases prog) (simp add: list_all_iff)
    moreover have "2 * size op + 1 < n" using size_prog_ops [OF op] that(1) by simp
    ultimately show "struct_yields k (run_op (reading buf H) op limit (pos, m, df, frames))" using Suc m by blast
  qed
  have val: "value_yields k (op_value (reading buf H) op)" if "2 * size op < n" "op_counts k op" for op
    using Suc that by blast
  have 3: "value_yields k (op_value (reading buf H) op)" if sz: "2 * size op < Suc n" and counts: "op_counts k op" for op
  proof (rule yields_value_step [OF counts])
    show "value_yields k (run_struct (reading buf H) prog)" if "op = OpNest prog sz c" for prog sz c
      using that sz counts by (intro 1) simp_all
    show "value_yields k (op_value (reading buf H) elem)" if "op = OpArray count mc elem em c" for count mc elem em c
      using that sz counts by (intro val) simp_all
    show "value_yields k (op_value (reading buf H) b)"
      if "op = OpSwitch on cases dflt c" and b: "switch_branch tag cases dflt = Some b" for on cases dflt c tag b
      using that(1) sz size_switch_branch [OF b] op_counts_branch [OF counts [unfolded that(1)] b] by (intro val) simp_all
  qed
  have 2: "struct_yields k (run_op (reading buf H) op limit (pos, m, df, frames))"
    if sz: "2 * size op + 1 < Suc n" and counts: "op_counts k op" and m: "builds k m" for op limit pos m df frames
  proof (rule yields_op_step [OF m])
    show "value_yields k (op_value (reading buf H) op)" using sz counts by (intro val) simp_all
    show "value_yields k (op_value (reading buf H) thn)" if "op = OpCond pred thn c" for pred thn c
      using that sz counts by (intro val) simp_all
  qed
  show ?case using 1 2 3 by blast
qed simp

lemma yields_run_struct: "counts_within k prog \<Longrightarrow> value_yields k (run_struct (reading buf H) prog)"
  using yields_walk [of "Suc (2 * size prog)"] by blast

section \<open>Properties\<close>

text \<open>C37: no decode builds a list longer than the limits of the program allow: if \<open>k\<close> bounds the
  \<open>max_count\<close> of every array, then every list in a decoded value, at any depth, has at most \<open>k\<close>
  elements, whatever counts the bytes claim.\<close>

theorem decoded_lists_bounded:
  assumes "counts_within k prog" and "run H prog buf offset exact stream = Inr (OOk v pos)"
  shows "lists_within k v"
  using value_yieldsD [OF yields_run_struct [OF assms(1)], of buf H "[]" "min offset (length buf)" "length buf"] assms(2)
  by (auto simp: run_def run_with_def yields_def split: sum.splits fault.splits ufail.splits if_splits)

theorem decoded_lists_bounded_witness:
  "lists_within 2 (VMap [(''a'', VList [VMap [], VMap []])])"
proof (rule decoded_lists_bounded)
  show "run zero_hashes (Program [OpArray (CountExpr (expr_imm 2) None) 2 (OpNest (Program [] 0 0 0 (Some 0)) None common_skip) 0
      (common_named ''a'')] 0 0 0 (Some 0)) [7] 0 False False = Inr (OOk (VMap [(''a'', VList [VMap [], VMap []])]) 0)"
    by code_simp
qed simp

text \<open>C38: an array until the end of its window ends although its elements take no bytes, after exactly
  \<open>max_count\<close> of them. Let the first \<open>n\<close> elements leave the position where it is, short of the end of
  the window. If \<open>n\<close> reaches \<open>max_count\<close>, the array is refused with \<open>Limit\<close> at that position; if not,
  the next element is still decoded, and when it fails, its error with its index is the error.\<close>

theorem stuck_array_ends:
  assumes "\<And>i. i < n \<Longrightarrow> op_value E elem (fs i) pos limit = Inr (vs i, pos, fs (Suc i))" and "pos < limit"
  shows "(mc \<le> n \<longrightarrow> op_value E (OpArray UntilEof mc elem em c) (fs 0) pos limit = Inl (Fail (invalid_at KLimit pos))) \<and>
    (n < mc \<longrightarrow> op_value E elem (fs n) pos limit = Inl (Fail e) \<longrightarrow>
       op_value E (OpArray UntilEof mc elem em c) (fs 0) pos limit = Inl (Fail (ufail_seg (SegIndex n) e)))"
proof -
  let ?B = "ue_builder E"
  let ?step = "array_step ?B (op_value E elem) limit"
  let ?outs = "\<lambda>i. foldl (b_list_push ?B) (b_list_new ?B 0) (map vs [0..<i])"
  have step: "?step i (pos, ?outs i, fs i) = Inr (pos, ?outs (Suc i), fs (Suc i))" if "i < n" for i
    using assms(1) [OF that] by (simp add: array_step_def)
  have run: "eof_loop ?step mc limit 0 (pos, b_list_new ?B 0, fs 0) = eof_loop ?step mc limit k (pos, ?outs k, fs k)" if "k \<le> mc" "k \<le> n" for k
    using eof_loop_stuck [where n = k and step = ?step and outs = ?outs and fs = fs, OF _ assms(2) that(1)] step that(2) by simp
  have "eof_loop ?step mc limit 0 (pos, b_list_new ?B 0, fs 0) = Inl (Fail (invalid_at KLimit pos))" if "mc \<le> n"
    unfolding run [OF order_refl that] using assms(2) by (subst eof_loop.simps) simp
  moreover have "eof_loop ?step mc limit 0 (pos, b_list_new ?B 0, fs 0) = Inl (Fail (ufail_seg (SegIndex n) e))"
    if "n < mc" "op_value E elem (fs n) pos limit = Inl (Fail e)"
    unfolding run [OF less_imp_le [OF that(1)] order_refl] using that assms(2) by (subst eof_loop.simps) (simp add: array_step_def)
  ultimately show ?thesis by (simp add: op_value.simps do_array_def)
qed

theorem stuck_array_ends_witness:
  "op_value \<lparr>ue_buf = [1, 2], ue_builder = value_builder, ue_hashes = zero_hashes\<rparr>
     (OpArray UntilEof 1000000 (OpBytes (LenExpr (expr_imm 0) None) 5 common_skip) 0 common_skip) [new_frame] 0 2 =
   Inl (Fail (invalid_at KLimit 0))"
proof -
  let ?E = "\<lparr>ue_buf = [1, 2], ue_builder = value_builder, ue_hashes = zero_hashes\<rparr>"
  have "op_value ?E (OpBytes (LenExpr (expr_imm 0) None) 5 common_skip) [new_frame] 0 2 = Inr (VBytes [], 0, [new_frame])"
    by (simp add: op_value.simps resolve_len_def eval_len_def eval_def eval_expr_def expr_imm_def EXPR_STACK_def value_builder_def
      need_def saturating_add_def usize_max_def slice_res_def Let_def push_cell_def update_res_def nth_res_def)
  from stuck_array_ends [of 1000000, OF this] show ?thesis by simp
qed

end
