(* ===== verification/Parse_Print.thy ===== *)
theory Parse_Print
  imports Parse_Forms
begin

text \<open>
  A spelling of every schema in range as Python objects, and the proof that parsing reads it
  back.
\<close>

section \<open>Spelling\<close>

definition published :: "'a closed_set \<Rightarrow> 'a \<Rightarrow> string" where
  "published cs v = (case List.find (\<lambda>(_, w). w = v) (cs_names cs) of Some (n, _) \<Rightarrow> n | None \<Rightarrow> [])"

definition py_opt :: "('a \<Rightarrow> pyval) \<Rightarrow> 'a option \<Rightarrow> pyval" where
  "py_opt f x = (case x of Some a \<Rightarrow> f a | None \<Rightarrow> PyNone)"

fun expr_py :: "expr_in \<Rightarrow> pyval" where
  "expr_py (EImm n) = PyInt n"
| "expr_py EGreedy = PyStr ''*''"
| "expr_py (ERef s) = PyTuple [PyStr ''ref'', PyStr s]"
| "expr_py (EBin op l r) = PyTuple [PyStr (published BINOPS op), expr_py l, expr_py r]"

definition order_py :: "byte_order \<Rightarrow> pyval" where
  "order_py bo = PyStr (published BYTEORDERS bo)"

definition usize_py :: "nat \<Rightarrow> pyval" where
  "usize_py n = PyInt (int n)"

definition u64_py :: "64 word \<Rightarrow> pyval" where
  "u64_py w = PyInt (uint w)"

fun over_py :: "over_in \<Rightarrow> pyval" where
  "over_py StarIn = PyStr ''*''"
| "over_py (NamesIn ns) = PyTuple (map PyStr ns)"

fun kind_of :: "type_in \<Rightarrow> string" where
  "kind_of (TInt prim _ _) = published INT_PRIMS prim"
| "kind_of (TFloat is64 _) = (if is64 then ''f64'' else ''f32'')"
| "kind_of (TBool _) = ''bool''"
| "kind_of (TRaw _ _) = ''raw''"
| "kind_of (TBytes _ _) = ''bytes''"
| "kind_of (TStr _ _ _ _) = ''str''"
| "kind_of (TCStr _ _ _) = ''cstr''"
| "kind_of (TBits _ _) = ''bits''"
| "kind_of (TFlags _ _ _ _) = ''flags''"
| "kind_of (TDigest _ _ _ _) = ''digest''"
| "kind_of (TStruct _ _ _) = ''struct''"
| "kind_of (TArray _ _ _) = ''array''"
| "kind_of (TSwitch _ _ _) = ''switch''"
| "kind_of (TCond _ _) = ''cond''"

fun opts_of :: "type_in \<Rightarrow> (string \<times> pyval) list" and field_py :: "field_in \<Rightarrow> pyval" where
  "opts_of (TInt prim bo const) = [(''byteorder'', py_opt order_py bo), (''const'', py_opt PyInt const)]"
| "opts_of (TFloat is64 bo) = [(''byteorder'', py_opt order_py bo)]"
| "opts_of (TBool const) = [(''const'', py_opt PyBool const)]"
| "opts_of (TRaw len const) = [(''len'', py_opt usize_py len), (''const'', py_opt PyBytes const)]"
| "opts_of (TBytes len mx) = [(''len'', expr_py len), (''max'', py_opt usize_py mx)]"
| "opts_of (TStr len mx encoding errors) =
     [(''len'', expr_py len), (''max'', py_opt usize_py mx), (''encoding'', PyStr encoding), (''errors'', PyStr errors)]"
| "opts_of (TCStr mx encoding errors) =
     [(''max'', py_opt usize_py mx), (''encoding'', PyStr encoding), (''errors'', PyStr errors)]"
| "opts_of (TBits width sgnd) = [(''width'', usize_py width), (''signed'', PyBool sgnd)]"
| "opts_of (TFlags base bo flags rest) =
     [(''base'', PyStr (published INT_PRIMS base)), (''names'', PyTuple (map (\<lambda>(n, m). PyTuple [PyStr n, u64_py m]) flags)),
      (''rest'', PyStr rest), (''byteorder'', py_opt order_py bo)]"
| "opts_of (TDigest algo ov over verify) =
     [(''algo'', PyStr algo), (''over'', over_py over), (''verify'', PyBool verify),
      (''poly'', py_opt u64_py (ov_poly ov)), (''init'', py_opt u64_py (ov_init ov)), (''xorout'', py_opt u64_py (ov_xorout ov)),
      (''refin'', py_opt PyBool (ov_refin ov)), (''refout'', py_opt PyBool (ov_refout ov))]"
| "opts_of (TStruct flds bo sz) =
     [(''fields'', PyList (map field_py flds)), (''byteorder'', py_opt order_py bo), (''size'', py_opt expr_py sz)]"
| "opts_of (TArray elem count until_eof) =
     [(''elem'', PyTuple [PyStr (kind_of elem), PyDict (opts_of elem)]), (''count'', py_opt expr_py count)]"
| "opts_of (TSwitch on cases dflt) =
     [(''on'', expr_py on),
      (''cases'', PyList (map (\<lambda>c. PyTuple [PyInt (fst c), PyTuple [PyStr (kind_of (snd c)), PyDict (opts_of (snd c))]]) cases)),
      (''default'', case dflt of Some ty \<Rightarrow> PyTuple [PyStr (kind_of ty), PyDict (opts_of ty)] | None \<Rightarrow> PyNone)]"
| "opts_of (TCond pred thn) =
     [(''pred'', expr_py pred), (''then'', PyTuple [PyStr (kind_of thn), PyDict (opts_of thn)])]"
| "field_py (FieldIn name ty) = PyTuple [py_opt PyStr name, PyStr (kind_of ty), PyDict (opts_of ty)]"

section \<open>Reading it back\<close>

lemma tree_py_simps [simp]:
  "py_is_none tree_py v \<longleftrightarrow> v = PyNone" "py_int tree_py (PyInt n) = Some n"
  "py_str tree_py (PyStr s) = Some (Inr s)" "py_str tree_py (PyTuple vs) = None" "py_str tree_py (PyInt n) = None"
  "py_is_bool tree_py (PyStr s) = False" "py_is_bool tree_py (PyTuple vs) = False" "py_is_bool tree_py (PyInt n) = False"
  "py_is_int tree_py (PyInt n)" "\<not> py_is_int tree_py (PyTuple vs)" "py_tuple tree_py (PyTuple vs) = Some vs"
  "py_bool tree_py (PyBool b) = Some b" "py_bytes tree_py (PyBytes bs) = Some bs"
  "py_is_dict tree_py (PyDict ps)" "py_keys tree_py (PyDict ps) = map (\<lambda>p. PyStr (fst p)) ps"
  "py_get_item tree_py (PyDict ps) k = Inr (map_of ps k)"
  "py_iter tree_py (PyTuple vs) = Some (map Inr vs)" "py_iter tree_py (PyList vs) = Some (map Inr vs)"
  by (simp_all add: tree_py_def)

lemma extract_tree [simp]:
  "extract_str tree_py (PyStr s) = Some s"
  "in_i64 n \<Longrightarrow> extract_i64 tree_py (PyInt n) = Some n"
  "is_i128 n \<Longrightarrow> extract_i128 tree_py (PyInt n) = Some n"
  "is_usize k \<Longrightarrow> extract_u64 tree_py (PyInt (int k)) = Some k"
  "extract_u64 tree_py (PyInt (uint w)) = Some (unat (w :: 64 word))"
  using uint_lt2p [of w]
  by (simp_all add: extract_str_def extract_i64_def extract_i128_def extract_u64_def extract_between_def in_i64_def is_i128_def
      is_usize_def)

lemmas closed_defs = published_def parse_closed_def parse_name_def hit_def BINOPS_def BYTEORDERS_def INT_PRIMS_def

lemma published_binops [simp]: "parse_closed BINOPS (published BINOPS op) = Inr op"
  by (cases op) (simp_all add: closed_defs)

lemma published_byteorders [simp]: "parse_closed BYTEORDERS (published BYTEORDERS bo) = Inr bo"
  by (cases bo) (simp_all add: closed_defs)

lemma published_int_prims [simp]: "parse_closed INT_PRIMS (published INT_PRIMS prim) = Inr prim"
  by (cases prim) (simp_all add: closed_defs)

lemma published_binop: "published BINOPS op \<noteq> ''ref''"
  by (cases op) (simp_all add: published_def BINOPS_def)

lemma parse_expr_py:
  "expr_form (MAX_EXPR_DEPTH - depth) e \<Longrightarrow> depth \<le> MAX_EXPR_DEPTH \<Longrightarrow>
    parse_expr tree_py kind key (expr_py e) depth = Inr e"
proof (induction e arbitrary: depth)
  case (EBin op l r)
  then show ?case
    by (subst parse_expr.simps) (simp add: published_binop)
qed (subst parse_expr.simps; simp)+

lemma expr_py_not_None [simp]: "expr_py e \<noteq> PyNone"
  by (cases e) simp_all

lemma read_opt:
  assumes "map_of ps key = Some (py_opt f x)" and "\<And>a. x = Some a \<Longrightarrow> f a \<noteq> PyNone \<and> parse (f a) kind key = Inr a"
  shows "opt tree_py (PyDict ps) kind key parse = Inr x"
  using assms by (cases x) (simp_all add: opt_def opt_get_def py_opt_def)

lemma read_opt_absent: "map_of ps key = None \<Longrightarrow> opt tree_py (PyDict ps) kind key parse = Inr None"
  by (simp add: opt_def opt_get_def)

lemma read_opt_given:
  "map_of ps key = Some v \<Longrightarrow> v \<noteq> PyNone \<Longrightarrow> parse v kind key = Inr a \<Longrightarrow> opt tree_py (PyDict ps) kind key parse = Inr (Some a)"
  by (simp add: opt_def opt_get_def)

lemma read_req:
  "map_of ps key = Some v \<Longrightarrow> v \<noteq> PyNone \<Longrightarrow> parse v kind key = Inr a \<Longrightarrow> req tree_py (PyDict ps) kind key parse = Inr a"
  by (simp add: req_def opt_get_def)

lemma check_keys_tree: "list_all (\<lambda>p. fst p \<in> set allowed) ps \<Longrightarrow> check_keys tree_py (PyDict ps) allowed kind = Inr ()"
  unfolding check_keys_def by (induction ps) (auto simp: check_key_def)

lemma over_items_tree:
  "(\<And>x. x \<in> set xs \<Longrightarrow> f (g x) = Inr x) \<Longrightarrow> over_items shape f (Some (map Inr (map g xs))) = Inr xs"
proof -
  assume f: "\<And>x. x \<in> set xs \<Longrightarrow> f (g x) = Inr x"
  have "fold_res (\<lambda>item out. bind_res item (\<lambda>v. bind_res (f v) (\<lambda>x. Inr (out @ [x])))) (map Inr (map g ys)) out = Inr (out @ ys)"
    if "set ys \<subseteq> set xs" for ys out
    using that by (induction ys arbitrary: out) (auto simp: f)
  then show ?thesis by (simp add: over_items_def)
qed

text \<open>The parsers of the options.\<close>

lemma read_simple [simp]:
  "p_bool tree_py (PyBool b) kind key = Inr b"
  "is_usize n \<Longrightarrow> p_usize tree_py (usize_py n) kind key = Inr n"
  "p_u64 tree_py (u64_py w) kind key = Inr w"
  "is_i128 i \<Longrightarrow> p_i128 tree_py (PyInt i) kind key = Inr i"
  "p_bytes tree_py (PyBytes bs) kind key = Inr bs"
  "p_string tree_py (PyStr s) kind key = Inr s"
  "p_byteorder tree_py (order_py bo) kind key = Inr bo"
  "p_prim tree_py (PyStr (published INT_PRIMS prim)) kind key = Inr prim"
  "1 \<le> k \<Longrightarrow> k \<le> 64 \<Longrightarrow> p_width tree_py (usize_py k) kind key = Inr k"
  "exp_form e \<Longrightarrow> p_expr tree_py (expr_py e) kind key = Inr e"
  by (simp_all add: p_bool_def p_usize_def p_u64_def p_i128_def p_bytes_def p_string_def p_byteorder_def p_prim_def p_width_def
      p_expr_def p_simple_def usize_py_def u64_py_def order_py_def parse_expr_py in_i64_iff)

lemma read_over [simp]: "p_over tree_py (over_py over) = Inr over"
proof (cases over)
  case (NamesIn ns)
  have "over_items shape (\<lambda>n. ok_or e (extract_str tree_py n)) (Some (map Inr (map PyStr ns))) = Inr ns" for shape e
    by (rule over_items_tree) simp
  then show ?thesis by (simp add: NamesIn p_over_def)
qed (simp add: p_over_def)

lemma read_names [simp]:
  "p_names tree_py (PyTuple (map (\<lambda>(n, m). PyTuple [PyStr n, u64_py m]) flags)) = Inr flags"
proof -
  have "over_items shape (\<lambda>pair. ok_or shape (extract_flag tree_py pair))
      (Some (map Inr (map (\<lambda>(n, m). PyTuple [PyStr n, u64_py m]) flags))) = Inr flags" for shape
    by (rule over_items_tree) (auto simp: extract_flag_def u64_py_def)
  then show ?thesis by (simp add: p_names_def comp_def)
qed

lemma py_values [simp]: "usize_py n \<noteq> PyNone" "u64_py w \<noteq> PyNone" "order_py bo \<noteq> PyNone" "over_py over \<noteq> PyNone"
  by (cases over; simp add: usize_py_def u64_py_def order_py_def)+

text \<open>\<open>reads n ty\<close>: parsing the spelling of \<open>ty\<close> with \<open>n\<close> levels left gives \<open>ty\<close> back.\<close>

definition reads :: "nat \<Rightarrow> type_in \<Rightarrow> bool" where
  "reads n ty \<longleftrightarrow> (\<forall>cx. cx_depth cx + n = MAX_SCHEMA_DEPTH \<longrightarrow> parse_type tree_py (kind_of ty) (PyDict (opts_of ty)) cx = Inr ty)"

lemma reads_spec:
  assumes "reads n ty" and "cx_depth cx + n = MAX_SCHEMA_DEPTH"
  shows "parse_spec tree_py (parse_type tree_py) (PyTuple [PyStr (kind_of ty), PyDict (opts_of ty)]) cx = Inr ty"
  using assms by (simp add: parse_spec_def kind_str_def opts_dict_def reads_def)

lemma reads_fields:
  assumes "\<And>f. f \<in> set flds \<Longrightarrow> reads n (field_ty f)" and "cx_depth cx + n = MAX_SCHEMA_DEPTH"
  shows "parse_items tree_py (parse_type tree_py) (PyList (map field_py flds)) cx = Inr flds"
proof -
  have "parse_field tree_py (parse_type tree_py) cx (field_py f) = Inr f" if f: "f \<in> set flds" for f
  proof (cases f)
    case (FieldIn name ty)
    have "parse_type tree_py (kind_of ty) (PyDict (opts_of ty)) (ctx_field leaf cx) = Inr ty" for leaf
      using assms(1) [OF f] assms(2) FieldIn by (simp add: reads_def)
    then show ?thesis using FieldIn
      by (cases name) (simp_all add: parse_field_def field_name_of_def kind_str_def opts_dict_def py_opt_def)
  qed
  then show ?thesis unfolding parse_items_def by (simp add: over_items_tree del: map_map)
qed

lemma reads_cases:
  assumes "\<And>c. c \<in> set cases \<Longrightarrow> in_i64 (fst c) \<and> reads n (snd c)" and "Suc (cx_depth cx) + n = MAX_SCHEMA_DEPTH"
  shows "p_cases tree_py (parse_spec tree_py (parse_type tree_py))
    (PyList (map (\<lambda>c. PyTuple [PyInt (fst c), PyTuple [PyStr (kind_of (snd c)), PyDict (opts_of (snd c))]]) cases)) cx = Inr cases"
proof -
  have "p_case tree_py (parse_spec tree_py (parse_type tree_py)) cx
      (PyTuple [PyInt (fst c), PyTuple [PyStr (kind_of (snd c)), PyDict (opts_of (snd c))]]) = Inr c" if "c \<in> set cases" for c
    using assms(1) [OF that] assms(2) reads_spec [of n "snd c" "ctx_case (fst c) cx"] by (simp add: p_case_def)
  then show ?thesis unfolding p_cases_def by (simp add: over_items_tree del: map_map)
qed

text \<open>An option of a spelling: its value in the dictionary, unless that is \<open>None\<close>.\<close>

lemma opt_tree:
  "opt tree_py (PyDict ps) kind key parse =
    (case map_of ps key of
       None \<Rightarrow> Inr None
     | Some v \<Rightarrow> if v = PyNone then Inr None else bind_res (parse v kind key) (\<lambda>x. Inr (Some x)))"
  by (simp add: opt_def opt_get_def split: option.split)

lemma req_tree:
  "req tree_py (PyDict ps) kind key parse =
    (case map_of ps key of
       Some v \<Rightarrow> if v = PyNone then fail (SchemaErr (kind @ '': '' @ key @ '' is required'')) else parse v kind key
     | None \<Rightarrow> fail (SchemaErr (kind @ '': '' @ key @ '' is required'')))"
  by (simp add: req_def opt_get_def split: option.split)

definition spelt :: "type_in \<Rightarrow> bool" where
  "spelt ty \<longleftrightarrow> (case allowed_of (kind_of ty) of
     Some allowed \<Rightarrow> list_all (\<lambda>p. fst p \<in> set allowed) (opts_of ty) | None \<Rightarrow> False)"

lemma spelt: "spelt ty"
proof (cases ty)
  case (TInt prim bo const)
  then show ?thesis by (cases prim) (simp_all add: spelt_def allowed_of_def OPTIONS_def int_kinds_def closed_defs)
qed (simp_all add: spelt_def allowed_of_def OPTIONS_def int_kinds_def)

lemma reads_iff:
  "reads n ty \<longleftrightarrow> (\<forall>cx. cx_depth cx + n = MAX_SCHEMA_DEPTH \<longrightarrow>
     build tree_py (parse_items tree_py (parse_type tree_py)) (parse_spec tree_py (parse_type tree_py)) (kind_of ty) (PyDict (opts_of ty)) cx = Inr ty)"
proof -
  have "parse_type tree_py (kind_of ty) (PyDict (opts_of ty)) cx =
      build tree_py (parse_items tree_py (parse_type tree_py)) (parse_spec tree_py (parse_type tree_py)) (kind_of ty) (PyDict (opts_of ty)) cx"
    if "cx_depth cx + n = MAX_SCHEMA_DEPTH" for cx
    using that spelt [of ty] by (subst parse_type.simps) (auto simp: spelt_def check_keys_tree split: option.splits)
  then show ?thesis by (simp add: reads_def)
qed

lemma int_kind_set: "published INT_PRIMS prim \<in> set int_kinds"
  by (cases prim) (simp_all add: published_def INT_PRIMS_def int_kinds_def)

lemma not_int_kinds [simp]:
  "''f32'' \<notin> set int_kinds" "''f64'' \<notin> set int_kinds" "''bool'' \<notin> set int_kinds" "''raw'' \<notin> set int_kinds"
  "''bytes'' \<notin> set int_kinds" "''str'' \<notin> set int_kinds" "''cstr'' \<notin> set int_kinds" "''bits'' \<notin> set int_kinds"
  "''flags'' \<notin> set int_kinds" "''digest'' \<notin> set int_kinds" "''struct'' \<notin> set int_kinds" "''array'' \<notin> set int_kinds"
  "''switch'' \<notin> set int_kinds" "''cond'' \<notin> set int_kinds"
  by (simp_all add: int_kinds_def)

lemma reads_leaf:
  assumes "type_form n ty"
  shows "(case ty of TStruct _ _ _ \<Rightarrow> True | TArray _ _ _ \<Rightarrow> True | TSwitch _ _ _ \<Rightarrow> True | TCond _ _ \<Rightarrow> True | _ \<Rightarrow> reads n ty)"
proof (cases ty)
  case (TDigest algo ov over verify)
  obtain poly init xorout refin refout where
    "ov = \<lparr>ov_poly = poly, ov_init = init, ov_xorout = xorout, ov_refin = refin, ov_refout = refout\<rparr>" by (cases ov)
  then show ?thesis
    by (cases poly; cases init; cases xorout; cases refin; cases refout)
      (simp_all add: TDigest reads_iff build_def opt_tree req_tree py_opt_def or_else_def arm_digest_def)
qed (use assms in \<open>auto simp: reads_iff build_def int_kind_set opt_tree req_tree py_opt_def or_else_def
      arm_int_def arm_float_def arm_bool_def arm_raw_def arm_bytes_def arm_str_def arm_cstr_def arm_bits_def arm_flags_def
      split: option.split\<close>)


lemma reads_type: "type_form n ty \<Longrightarrow> n \<le> MAX_SCHEMA_DEPTH \<Longrightarrow> reads n ty"
proof (induction ty arbitrary: n rule: measure_induct_rule [of size])
  case (less ty)
  note form = less.prems(1)
  show ?case
  proof (cases ty)
    case (TStruct flds bo sz)
    have "reads (n - 1) (field_ty f)" if "f \<in> set flds" for f
      using less.IH [of "field_ty f" "n - 1"] size_field_ty [OF that] form less.prems(2) that
      by (auto simp: TStruct list_all_iff field_form_ty)
    moreover have "n \<noteq> 0" if "flds \<noteq> []" using form that by (simp add: TStruct)
    ultimately have "parse_items tree_py (parse_type tree_py) (PyList (map field_py flds)) (ctx_deeper cx) = Inr flds"
      if "cx_depth cx + n = MAX_SCHEMA_DEPTH" for cx
      using reads_fields [of flds "n - 1" "ctx_deeper cx"] that
      by (cases "flds = []") (auto simp: parse_items_def over_items_def)
    then show ?thesis using form
      by (auto simp: TStruct reads_iff build_def opt_tree req_tree py_opt_def arm_struct_def split: option.split)
  next
    case (TArray elem count until_eof)
    then have "reads (n - 1) elem" using less.IH [of elem "n - 1"] form less.prems(2) by auto
    then have "parse_spec tree_py (parse_type tree_py) (PyTuple [PyStr (kind_of elem), PyDict (opts_of elem)]) (ctx_elem cx) = Inr elem"
      if "cx_depth cx + n = MAX_SCHEMA_DEPTH" for cx
      using reads_spec [of "n - 1" elem "ctx_elem cx"] that form by (simp add: TArray)
    then show ?thesis using form
      by (auto simp: TArray reads_iff build_def opt_tree req_tree py_opt_def or_else_def extent_of_def arm_array_def split: option.split)
  next
    case (TSwitch on cases dflt)
    have "in_i64 (fst c) \<and> reads (n - 1) (snd c)" if "c \<in> set cases" for c
      using less.IH [of "snd c" "n - 1"] size_case_type [of "fst c" "snd c" cases] form less.prems(2) that
      by (auto simp: TSwitch list_all_iff)
    moreover have pos: "n \<noteq> 0" if "cases \<noteq> [] \<or> dflt \<noteq> None" using form that by (auto simp: TSwitch)
    ultimately have cases: "p_cases tree_py (parse_spec tree_py (parse_type tree_py))
        (PyList (map (\<lambda>c. PyTuple [PyInt (fst c), PyTuple [PyStr (kind_of (snd c)), PyDict (opts_of (snd c))]]) cases)) cx = Inr cases"
      if "cx_depth cx + n = MAX_SCHEMA_DEPTH" for cx
      using reads_cases [of cases "n - 1" cx] that
      by (cases "cases = []") (auto simp: p_cases_def over_items_def)
    have "parse_spec tree_py (parse_type tree_py) (PyTuple [PyStr (kind_of ty), PyDict (opts_of ty)]) (ctx_default_branch cx) = Inr ty"
      if "dflt = Some ty" "cx_depth cx + n = MAX_SCHEMA_DEPTH" for cx ty
      using reads_spec [OF less.IH [of ty "n - 1"], of "ctx_default_branch cx"] that form less.prems(2) pos
      by (auto simp: TSwitch)
    then show ?thesis using form cases
      by (auto simp: TSwitch reads_iff build_def opt_tree req_tree py_opt_def arm_switch_def split: option.split)
  next
    case (TCond pred thn)
    then have "reads (n - 1) thn" using less.IH [of thn "n - 1"] form less.prems(2) by auto
    then have "parse_spec tree_py (parse_type tree_py) (PyTuple [PyStr (kind_of thn), PyDict (opts_of thn)]) (ctx_then cx) = Inr thn"
      if "cx_depth cx + n = MAX_SCHEMA_DEPTH" for cx
      using reads_spec [of "n - 1" thn "ctx_then cx"] that form by (simp add: TCond)
    then show ?thesis using form
      by (auto simp: TCond reads_iff build_def opt_tree req_tree arm_cond_def)
  qed (use reads_leaf [OF form] in simp_all)
qed

section \<open>Properties\<close>

text \<open>C22: whatever objects the caller passes, parsing does not panic, and a schema it returns is in
  range: literals and tags are \<open>i64\<close>, sizes \<open>usize\<close>, bit widths in \<open>1..64\<close>, expressions at most
  \<open>MAX_EXPR_DEPTH\<close> and types at most \<open>MAX_SCHEMA_DEPTH\<close> levels deep.\<close>

theorem parse_in_range:
  assumes "python_api P"
  shows "safe (parse_fields P obj ctx_root) (list_all (field_form MAX_SCHEMA_DEPTH))"
  by (rule python_api.safe_parse_fields [OF assms])

theorem parse_in_range_witness:
  "safe (parse_fields tree_py (PyList [PyTuple [PyStr ''n'', PyStr ''bits'', PyDict [(''width'', PyInt 7)]]]) ctx_root)
     (list_all (field_form MAX_SCHEMA_DEPTH))"
  by (rule parse_in_range) (rule tree_py.python_api_axioms)

text \<open>C21: every schema in range has a spelling that parses back to it: the boundary reads each option
  of each kind into its place and loses none.\<close>

theorem parse_reads_back:
  assumes "list_all (field_form MAX_SCHEMA_DEPTH) flds"
  shows "parse_fields tree_py (PyList (map field_py flds)) ctx_root = Inr flds"
  unfolding parse_fields_def
proof (rule reads_fields)
  fix f
  assume "f \<in> set flds"
  then show "reads MAX_SCHEMA_DEPTH (field_ty f)"
    using assms by (intro reads_type) (simp_all add: list_all_iff field_form_ty)
qed (simp add: ctx_root_def)

theorem parse_reads_back_witness:
  "parse_fields tree_py
     (PyList [PyTuple [PyStr ''n'', PyStr ''u8'', PyDict [(''byteorder'', PyNone), (''const'', PyNone)]],
       PyTuple [PyStr ''b'', PyStr ''bytes'', PyDict [(''len'', PyTuple [PyStr ''ref'', PyStr ''n'']), (''max'', PyInt 9)]]]) ctx_root =
   Inr [FieldIn (Some ''n'') (TInt U8 None None), FieldIn (Some ''b'') (TBytes (ERef ''n'') (Some 9))]"
proof -
  have "list_all (field_form MAX_SCHEMA_DEPTH) [FieldIn (Some ''n'') (TInt U8 None None), FieldIn (Some ''b'') (TBytes (ERef ''n'') (Some 9))]"
    by (simp add: is_usize_def)
  from parse_reads_back [OF this] show ?thesis by (simp add: py_opt_def closed_defs usize_py_def)
qed

lemma check_keys_accepts:
  assumes "check_keys tree_py (PyDict ps) allowed kind = Inr u"
  shows "fst ` set ps \<subseteq> set allowed"
proof -
  have "fold_res (check_key tree_py allowed kind) (map (\<lambda>p. PyStr (fst p)) ps) v = Inr u \<Longrightarrow> fst ` set ps \<subseteq> set allowed" for v
    by (induction ps arbitrary: v) (auto simp: check_key_def bind_res_eq_Inr split: if_splits)
  then show ?thesis using assms by (simp add: check_keys_def)
qed

text \<open>C25: an option the kind does not declare is never ignored: a type that parses has a kind of the
  table and only options its row lists.\<close>

theorem unknown_option_rejected:
  assumes "parse_type tree_py kind (PyDict ps) cx = Inr ty"
  shows "\<exists>allowed. allowed_of kind = Some allowed \<and> fst ` set ps \<subseteq> set allowed"
  using assms check_keys_accepts [of ps _ kind]
  by (subst (asm) parse_type.simps) (auto simp: bind_res_eq_Inr split: if_splits option.splits)

theorem unknown_option_rejected_witness:
  "\<exists>allowed. allowed_of ''bits'' = Some allowed \<and> fst ` set [(''width'', PyInt 4)] \<subseteq> set allowed"
proof -
  have "parse_type tree_py ''bits'' (PyDict [(''width'', PyInt 4)]) ctx_root = Inr (TBits 4 False)" by code_simp
  then show ?thesis by (rule unknown_option_rejected)
qed

end
