(* ===== verification/Unpack_Errors.thy ===== *)
theory Unpack_Errors
  imports Unpack_Safety
begin

text \<open>
  The errors of the unpacker: the offset an \<open>Invalid\<close> reports lies between the position the
  value starts at and the end of the buffer, and a program within the compiler's depth limit is
  never refused for its depth.
\<close>

section \<open>Failures\<close>

definition fails :: "('e, 'a) res \<Rightarrow> ('e \<Rightarrow> bool) \<Rightarrow> bool" where
  "fails m P \<longleftrightarrow> (\<forall>e. m = Inl (Fail e) \<longrightarrow> P e)"

lemma fails_simps [simp]:
  "fails (Inr a) P" "fails (Inl Panic) P" "fails (Inl (Fail e)) P \<longleftrightarrow> P e"
  by (simp_all add: fails_def)

lemma fails_bind: "fails m P \<Longrightarrow> (\<And>a. m = Inr a \<Longrightarrow> fails (f a) P) \<Longrightarrow> fails (bind_res m f) P"
  by (auto simp: fails_def bind_res_eq_Inl)

lemma fails_map_fail: "fails (map_fail g m) P \<longleftrightarrow> fails m (\<lambda>e. P (g e))"
  by (auto simp: fails_def map_fail_eq_Fail)

lemma fails_mono: "fails m P \<Longrightarrow> (\<And>e. P e \<Longrightarrow> Q e) \<Longrightarrow> fails m Q"
  by (auto simp: fails_def)

lemma fails_never [simp]:
  "fails (nth_res xs i) P" "fails (update_res ys i x) Q" "fails (slice_res zs a b) R" "fails (expect opt) S"
  by (auto simp: fails_def nth_res_def update_res_def slice_res_def expect_def split: option.splits)

lemma fails_ok_or: "P e \<Longrightarrow> fails (ok_or e x) P"
  by (cases x) auto

lemma fails_fold_res:
  assumes "P s" and "\<And>x u. x \<in> set xs \<Longrightarrow> P u \<Longrightarrow> safe (f x u) P \<and> fails (f x u) Q"
  shows "fails (fold_res f xs s) Q"
  using assms
proof (induction xs arbitrary: s)
  case (Cons x xs)
  have "fails (fold_res f xs u) Q" if "f x s = Inr u" for u
    using Cons.prems safe_Inr [OF conjunct1 [OF Cons.prems(2)] that] by (intro Cons.IH) auto
  then show ?case using Cons.prems by (auto intro!: fails_bind)
qed simp

lemma fails_fold_res_any: "(\<And>x u. x \<in> set xs \<Longrightarrow> fails (f x u) Q) \<Longrightarrow> fails (fold_res f xs s) Q"
  by (induction xs arbitrary: s) (auto intro!: fails_bind)

text \<open>What a report promises; \<open>n\<close> is the length of the buffer.\<close>

definition report_ok :: "nat \<Rightarrow> nat \<Rightarrow> ufail \<Rightarrow> bool" where
  "report_ok n start e \<longleftrightarrow>
     (case e of Incomplete k \<Rightarrow> True
      | Invalid i \<Rightarrow> start \<le> inv_offset i \<and> inv_offset i \<le> n \<and> inv_kind i \<noteq> KDepth)"

lemma report_ok_simps [simp]:
  "report_ok n start (Incomplete k)"
  "report_ok n start (Invalid \<lparr>inv_kind = kd, inv_offset = pos, inv_path = path\<rparr>) \<longleftrightarrow> start \<le> pos \<and> pos \<le> n \<and> kd \<noteq> KDepth"
  by (simp_all add: report_ok_def)

lemma report_ok_seg [simp]:
  "report_ok n start (ufail_seg s e) \<longleftrightarrow> report_ok n start e"
  "report_ok n start (push_key k e) \<longleftrightarrow> report_ok n start e"
  by (cases e; simp add: report_ok_def push_key_def split: option.split)+

lemma report_ok_mono: "report_ok n pos e \<Longrightarrow> start \<le> pos \<Longrightarrow> report_ok n start e"
  by (auto simp: report_ok_def split: ufail.splits)

section \<open>Leaves\<close>

lemma fails_checked [simp]: "fails (checked x) (\<lambda>k. k \<noteq> KDepth)"
  by (simp add: checked_def)

lemma fails_apply_ins: "fails (apply_ins i a b) (\<lambda>k. k \<noteq> KDepth)"
  by (cases i) (auto simp: fails_def checked_def)

lemma fails_eval_expr:
  assumes "\<And>r. fails (get r) (\<lambda>k. k \<noteq> KDepth)"
  shows "fails (eval_expr get e) (\<lambda>k. k \<noteq> KDepth)"
proof -
  have push: "fails (push_cell v st) Q" for v st Q
    by (cases st) (auto simp: push_cell_def intro!: fails_bind)
  have pop: "fails (pop_two st) Q" for st Q
    by (cases st) (auto simp: pop_two_def intro!: fails_bind)
  have "fails (exec get i st) (\<lambda>k. k \<noteq> KDepth)" for i st
    by (cases i) (auto intro!: fails_bind push pop assms fails_apply_ins)
  then show ?thesis unfolding eval_expr_def by (intro fails_bind fails_fold_res_any) auto
qed

lemma fails_eval: "start \<le> pos \<Longrightarrow> pos \<le> n \<Longrightarrow> fails (eval frames e pos) (report_ok n start)"
proof -
  assume pos: "start \<le> pos" "pos \<le> n"
  have "fails (get_reg frames r) (\<lambda>k. k \<noteq> KDepth)" for r
    by (auto simp: get_reg_def intro!: fails_bind)
  from fails_eval_expr [of "get_reg frames", OF this] show ?thesis using pos
    by (auto simp: eval_def fails_map_fail elim!: fails_mono)
qed

lemma fails_eval_len: "start \<le> pos \<Longrightarrow> pos \<le> n \<Longrightarrow> fails (eval_len frames e pos) (report_ok n start)"
  by (auto simp: eval_len_def intro!: fails_bind fails_eval)

lemma fails_resolve_len: "start \<le> pos \<Longrightarrow> pos \<le> n \<Longrightarrow> fails (resolve_len frames len mx pos limit) (report_ok n start)"
  by (auto simp: resolve_len_def split: len_src.split intro!: fails_bind fails_eval_len)

lemma fails_need: "start \<le> pos \<Longrightarrow> pos \<le> n \<Longrightarrow> fails (need buf pos limit k) (report_ok n start)"
  by (simp add: need_def)

lemma fails_set [simp]: "fails (set_reg frames i v) P" "fails (set_span frames j a b) Q"
  by (auto simp: set_reg_def set_span_def split: list.split option.split intro!: fails_bind)

lemma fails_read_fixed_item:
  assumes "start \<le> base + fi_off item" and "base + fi_off item \<le> n"
  shows "fails (read_fixed_item E item base frames) (report_ok n start)"
  using assms by (cases "fi_kind item")
    (auto simp: read_fixed_item_def Let_def split: option.split intro!: fails_bind)

lemma fails_do_flags: "start \<le> pos \<Longrightarrow> pos \<le> n \<Longrightarrow> fails (do_flags E prim be items rest rest_mask pos limit) (report_ok n start)"
  by (auto simp: do_flags_def Let_def split: rest_policy.split intro!: fails_bind fails_need)

lemma fails_do_cstr: "start \<le> pos \<Longrightarrow> pos \<le> n \<Longrightarrow> fails (do_cstr E mx enc pos limit) (report_ok n start)"
  by (auto simp: do_cstr_def Let_def split: option.split intro!: fails_bind fails_ok_or)

lemma fails_read_bits: "fails (read_bits buf pos bitpos item) P"
proof -
  have "fails (bit_step buf pos i v) Q" for i v Q
    by (auto simp: bit_step_def intro!: fails_bind)
  then show ?thesis by (auto simp: read_bits_def read_bits_raw_def intro!: fails_bind fails_fold_res_any)
qed

lemma fails_check_deferred:
  assumes "start \<le> fst (d_field df)" and "fst (d_field df) \<le> n"
  shows "fails (check_deferred H buf s e spans df u) (report_ok n start)"
proof -
  have "fails (feed_span buf spans i h) P" for i h P
    by (auto simp: feed_span_def split: prod.split intro!: fails_bind)
  then have "fails (compute H buf s e spans df) P" for P
    by (auto simp: compute_def split: over.split intro!: fails_bind fails_fold_res_any)
  then show ?thesis using assms by (auto simp: check_deferred_def intro!: fails_bind)
qed

section \<open>Steps of a struct\<close>

text \<open>The bytes of a run are there once \<open>need\<close> has passed.\<close>

lemma safe_run_need:
  assumes "window_ok E pos limit" and "need (ue_buf E) pos limit k = Inr u"
  shows "pos + k \<le> length (ue_buf E)"
  using safe_Inr [OF safe_need_window [OF assms(1)] assms(2)] window_okD(1) [OF assms(1)] by simp

lemma fails_run_fixed:
  assumes items: "list_all (fixed_item_ok width) items" and ok: "state_ok E d start limit st"
  shows "fails (run_fixed E width items limit st) (report_ok (length (ue_buf E)) start)"
proof -
  obtain pos m deferred frames where st: "st = (pos, m, deferred, frames)" by (cases st)
  have w: "window_ok E pos limit" and pos: "start \<le> pos" "pos \<le> length (ue_buf E)"
    using ok by (auto simp: st state_ok_def window_ok_def)
  have "fails (fixed_step E pos item u) (report_ok (length (ue_buf E)) start)"
    if item: "item \<in> set items" and fits: "pos + width \<le> length (ue_buf E)" for item u
  proof -
    have "fi_off item \<le> width" using items item by (auto simp: list_all_iff fixed_item_ok_def)
    then show ?thesis using fits pos
      by (cases u) (auto simp: fixed_step_def fails_map_fail intro!: fails_bind fails_read_fixed_item)
  qed
  then show ?thesis using safe_run_need [OF w] pos
    by (auto simp: run_fixed_def st intro!: fails_bind fails_need fails_fold_res_any)
qed

lemma fails_run_bits:
  assumes "state_ok E d start limit st"
  shows "fails (run_bits E nbytes items limit st) (report_ok (length (ue_buf E)) start)"
proof -
  obtain pos m deferred frames where st: "st = (pos, m, deferred, frames)" by (cases st)
  have pos: "start \<le> pos" "pos \<le> length (ue_buf E)" using assms by (auto simp: st state_ok_def window_ok_def)
  have "fails (bit_item_step E pos item u) (report_ok (length (ue_buf E)) start)" for item u
    using pos by (cases u) (auto simp: bit_item_step_def split: option.split intro!: fails_bind fails_read_bits)
  then show ?thesis using pos
    by (auto simp: run_bits_def st intro!: fails_bind fails_need fails_fold_res_any)
qed

lemma fails_run_digest:
  assumes "state_ok E d start limit st"
  shows "fails (run_digest E algo over verify be c limit st) (report_ok (length (ue_buf E)) start)"
proof -
  obtain pos m deferred frames where st: "st = (pos, m, deferred, frames)" by (cases st)
  have pos: "start \<le> pos" "pos \<le> length (ue_buf E)" using assms by (auto simp: st state_ok_def window_ok_def)
  then show ?thesis
    by (auto simp: run_digest_def st Let_def fails_map_fail split: prod.split intro!: fails_bind fails_need)
qed

lemma fails_place_value:
  "fails r (report_ok n start) \<Longrightarrow> fails (place_value E c r st) (report_ok n start)"
  by (cases st) (auto simp: place_value_def fails_map_fail intro!: fails_bind)

section \<open>Values\<close>

definition reports :: "('v, 'm, 'l) uenv \<Rightarrow> nat \<Rightarrow> 'v uvalue \<Rightarrow> bool" where
  "reports E d f \<longleftrightarrow>
     (\<forall>frames pos limit. frames_ok (length (ue_buf E)) d frames \<longrightarrow> window_ok E pos limit \<longrightarrow>
        fails (f frames pos limit) (report_ok (length (ue_buf E)) pos))"

lemma reportsD:
  assumes "reports E d f" and "frames_ok (length (ue_buf E)) d frames" and "window_ok E pos limit" and "start \<le> pos"
  shows "fails (f frames pos limit) (report_ok (length (ue_buf E)) start)"
proof -
  have "fails (f frames pos limit) (report_ok (length (ue_buf E)) pos)" using assms by (simp add: reports_def)
  then show ?thesis using assms(4) by (auto elim!: fails_mono intro: report_ok_mono)
qed

lemma window_ok_pos: "window_ok E pos limit \<Longrightarrow> pos \<le> length (ue_buf E)"
  by (simp add: window_ok_def)

lemma window_ok_sub: "window_ok E pos limit \<Longrightarrow> need (ue_buf E) pos limit k = Inr u \<Longrightarrow> window_ok E pos (pos + k)"
  using safe_run_need [of E pos limit k u] by (simp add: window_ok_def)

lemma reports_nest:
  assumes "reports E d rs" and "safe_value E d rs"
  shows "reports E d (do_nest E rs sz)"
  unfolding reports_def
proof (intro allI impI)
  fix frames pos limit
  assume fr: "frames_ok (length (ue_buf E)) d frames" and w: "window_ok E pos limit"
  let ?n = "length (ue_buf E)"
  have inner: "fails (bind_res (rs frames pos (pos + k)) (\<lambda>(v, end, frames).
      if end \<noteq> pos + k then Inl (Fail (invalid_at KTrailing end)) else Inr (v, pos + k, frames))) (report_ok ?n pos)"
    if "need (ue_buf E) pos limit k = Inr u" for k u
  proof (rule fails_bind [OF reportsD [OF assms(1) fr window_ok_sub [OF w that]]])
    fix r
    assume "rs frames pos (pos + k) = Inr r"
    then have "value_ok E d pos (pos + k) r"
      using safe_Inr [OF safe_valueD [OF assms(2) fr window_ok_sub [OF w that]]] by simp
    then show "fails (case r of (v, end, frames) \<Rightarrow>
        if end \<noteq> pos + k then Inl (Fail (invalid_at KTrailing end)) else Inr (v, pos + k, frames)) (report_ok ?n pos)"
      using safe_run_need [OF w that] by (auto simp: value_ok_def)
  qed simp
  show "fails (do_nest E rs sz frames pos limit) (report_ok ?n pos)"
    using reportsD [OF assms(1) fr w] window_ok_pos [OF w]
    by (auto simp: do_nest_def split: option.split len_src.split intro!: fails_bind [OF fails_eval_len] fails_bind [OF fails_need] inner)
qed

lemma fails_array_step:
  assumes "reports E d f" and "astate_ok E d start limit st"
  shows "fails (array_step B f limit i st) (report_ok (length (ue_buf E)) start)"
  using assms(2)
  by (cases st) (auto simp: array_step_def astate_ok_def fails_map_fail intro!: fails_bind reportsD [OF assms(1)])

lemma fails_eof_loop:
  assumes "\<And>i st. P st \<Longrightarrow> safe (step i st) P \<and> fails (step i st) Q" and "\<And>pos out fr. P (pos, out, fr) \<Longrightarrow> Q (invalid_at KLimit pos)"
  shows "P st \<Longrightarrow> fails (eof_loop step mc limit i st) Q"
  using assms
proof (induction step mc limit i st rule: eof_loop.induct)
  case (1 step mc limit i st)
  obtain pos out frames where st: "st = (pos, out, frames)" by (cases st)
  have "fails (eof_loop step mc limit (i + 1) u) Q" if "pos < limit" "\<not> mc \<le> i" "step i st = Inr u" for u
    using 1 that safe_Inr [OF conjunct1 [OF 1(3)] that(3)] by (intro 1(1) [OF st [symmetric]]) (auto simp: st)
  then show ?case using 1(2-4) by (subst eof_loop.simps) (auto simp: st intro!: fails_bind)
qed

lemma reports_array:
  assumes r: "reports E d f" and s: "safe_value E d f"
  shows "reports E d (do_array E f count mc em)"
  unfolding reports_def
proof (intro allI impI)
  fix frames pos limit
  assume fr: "frames_ok (length (ue_buf E)) d frames" and w: "window_ok E pos limit"
  let ?n = "length (ue_buf E)"
  have init: "astate_ok E d pos limit (pos, out, frames)" for out using fr w by (simp add: astate_ok_def)
  have fixed: "fails (fold_res (array_step B f limit) ixs (pos, out, frames)) (report_ok ?n pos)" for B ixs out
    by (rule fails_fold_res [where P = "astate_ok E d pos limit"])
      (auto intro: init safe_array_step [OF s] fails_array_step [OF r])
  have eof: "fails (eof_loop (array_step B f limit) mc limit 0 (pos, out, frames)) (report_ok ?n pos)" for B out
    by (rule fails_eof_loop [where P = "astate_ok E d pos limit", OF _ _ init])
      (auto simp: astate_ok_def window_ok_def intro: safe_array_step [OF s] fails_array_step [OF r])
  show "fails (do_array E f count mc em frames pos limit) (report_ok ?n pos)"
    using window_ok_pos [OF w]
    by (auto simp: do_array_def Let_def split: count_src.split intro!: fails_bind [OF fails_eval] fails_bind [OF fixed] fails_bind [OF eof])
qed

lemma reports_switch:
  assumes "\<And>tag op. switch_branch tag cases dflt = Some op \<Longrightarrow> reports E d (f op)"
  shows "reports E d (do_switch f on cases dflt)"
  unfolding reports_def
proof (intro allI impI)
  fix frames pos limit
  assume fr: "frames_ok (length (ue_buf E)) d frames" and w: "window_ok E pos limit"
  show "fails (do_switch f on cases dflt frames pos limit) (report_ok (length (ue_buf E)) pos)"
    using window_ok_pos [OF w] unfolding do_switch_def
    by (intro fails_bind [OF fails_eval]) (auto split: option.split intro: reportsD [OF assms fr w])
qed

section \<open>The walk\<close>

lemma fold_max_ge: "x \<in> set xs \<Longrightarrow> (x :: nat) \<le> fold max xs a"
proof (induction xs arbitrary: a)
  case (Cons y xs)
  have "a \<le> fold max xs a" for xs and a :: nat
    by (induction xs arbitrary: a) (auto intro: order_trans [OF _ max.cobounded2] simp: max.coboundedI2 dest: meta_spec [of _ "max _ _"])
  then show ?case using Cons by (auto simp: max.coboundedI1 intro: order_trans [OF max.cobounded1])
qed simp

lemma op_depth_prog: "op \<in> set (prog_ops prog) \<Longrightarrow> op_depth op < frame_depth prog"
  by (cases prog) (auto simp: less_Suc_eq_le intro: fold_max_ge)

lemma op_depth_branch:
  "switch_branch tag cases dflt = Some b \<Longrightarrow> op_depth b \<le> op_depth (OpSwitch on cases dflt c)"
proof -
  assume "switch_branch tag cases dflt = Some b"
  then have "(tag, b) \<in> set cases \<or> dflt = Some b" by (rule switch_branch_cases)
  then have "op_depth b \<in> set (map (\<lambda>c. op_depth (snd c)) cases @ (case dflt of Some d \<Rightarrow> [op_depth d] | None \<Rightarrow> []))"
    by force
  from fold_max_ge [OF this] show ?thesis by simp
qed

lemma fails_run_struct_step:
  assumes d: "d < MAX_DEPTH"
    and ops: "\<And>op start limit st. op \<in> set (prog_ops prog) \<Longrightarrow> state_ok E d start limit st \<Longrightarrow>
      safe (run_op E op limit st) (state_ok E d start limit) \<and> fails (run_op E op limit st) (report_ok (length (ue_buf E)) start)"
  shows "reports E d (run_struct E prog)"
  unfolding reports_def
proof (intro allI impI)
  fix frames pos limit
  assume fr: "frames_ok (length (ue_buf E)) d frames" and w: "window_ok E pos limit"
  let ?n = "length (ue_buf E)"
  let ?init = "(pos, b_map_new (ue_builder E) (length (prog_ops prog)), [], new_frame # frames)"
  have init: "state_ok E d pos limit ?init" using fr w by (simp add: state_ok_def frames_ok_def)
  have loop: "fails (fold_res (\<lambda>op st. run_op E op limit st) (prog_ops prog) ?init) (report_ok ?n pos)"
    by (rule fails_fold_res [where P = "state_ok E d pos limit"]) (use init ops in auto)
  have fin: "state_ok E d pos limit st" if "fold_res (\<lambda>op st. run_op E op limit st) (prog_ops prog) ?init = Inr st" for st
    by (rule safe_Inr [OF safe_fold_res [where P = "state_ok E d pos limit"] that]) (use init ops in auto)
  have check: "fails (fold_res (check_deferred H (ue_buf E) s e sp) df ()) (report_ok ?n pos)"
    if "list_all (deferred_ok pos end) df" "end \<le> ?n" for "end" df H s e sp
    using that by (intro fails_fold_res_any fails_check_deferred) (auto simp: list_all_iff deferred_ok_def)
  have "\<not> MAX_DEPTH \<le> length frames" using fr d by (simp add: frames_ok_def)
  then show "fails (run_struct E prog frames pos limit) (report_ok ?n pos)"
    unfolding run_struct.simps
    by (simp only: if_False, intro fails_bind [OF loop])
      (auto simp: state_ok_def window_ok_def dest!: fin split: list.split intro!: fails_bind [OF check])
qed

lemma reports_op_value_step:
  assumes wf: "wf_val (Suc d) op"
    and nest: "\<And>prog sz c. op = OpNest prog sz c \<Longrightarrow> reports E (Suc d) (run_struct E prog)"
    and elem: "\<And>count mc elem em c. op = OpArray count mc elem em c \<Longrightarrow> reports E (Suc d) (op_value E elem)"
    and branch: "\<And>on cases dflt c tag b. op = OpSwitch on cases dflt c \<Longrightarrow> switch_branch tag cases dflt = Some b \<Longrightarrow>
      reports E (Suc d) (op_value E b)"
  shows "reports E (Suc d) (op_value E op)"
proof (cases op)
  case (OpFixed width items)
  then have item: "items \<noteq> []" "fi_off (items ! 0) \<le> width" using wf by (auto simp: fixed_item_ok_def)
  show ?thesis unfolding reports_def
  proof (intro allI impI)
    fix frames pos limit
    assume w: "window_ok E pos limit"
    show "fails (op_value E op frames pos limit) (report_ok (length (ue_buf E)) pos)"
      using item window_ok_pos [OF w] safe_run_need [OF w, of width]
      by (auto simp: op_value.simps OpFixed nth_res_def intro!: fails_bind fails_need fails_read_fixed_item)
  qed
next
  case (OpNest prog sz c)
  then have "reports E (Suc d) (do_nest E (run_struct E prog) sz)"
    using wf by (intro reports_nest nest safe_run_struct) auto
  then show ?thesis by (simp add: reports_def op_value.simps OpNest)
next
  case (OpArray count mc elem em c)
  then have "wf_val (Suc d) elem" using wf by simp
  then have "safe_value E (Suc d) (op_value E elem)" by (rule safe_op_value)
  then have "reports E (Suc d) (do_array E (op_value E elem) count mc em)"
    using OpArray by (intro reports_array elem) auto
  then show ?thesis by (simp add: reports_def op_value.simps OpArray)
next
  case (OpSwitch on cases dflt c)
  then have "reports E (Suc d) (do_switch (op_value E) on cases dflt)" by (intro reports_switch branch)
  then show ?thesis by (simp add: reports_def op_value.simps OpSwitch)
qed (use wf in \<open>auto simp: reports_def op_value.simps Let_def window_ok_pos
    intro!: fails_bind fails_resolve_len fails_need fails_ok_or fails_do_flags fails_do_cstr\<close>)

lemma fails_run_op_step:
  assumes wf: "wf_op (Suc d) op" and ok: "state_ok E d start limit st"
    and val: "wf_val (Suc d) op \<Longrightarrow> reports E (Suc d) (op_value E op)"
    and thn: "\<And>pred thn c. op = OpCond pred thn c \<Longrightarrow> reports E (Suc d) (op_value E thn)"
  shows "fails (run_op E op limit st) (report_ok (length (ue_buf E)) start)"
proof -
  obtain pos m deferred frames where st: "st = (pos, m, deferred, frames)" by (cases st)
  have fr: "frames_ok (length (ue_buf E)) (Suc d) frames" and w: "window_ok E pos limit" and pos: "start \<le> pos"
    using ok by (simp_all add: st state_ok_def)
  have plain: "fails (bind_res (expect (op_common op)) (\<lambda>c.
      place_value E c (op_value E op frames pos limit) (pos, m, deferred, frames))) (report_ok (length (ue_buf E)) start)"
    if "wf_val (Suc d) op"
    by (intro fails_bind fails_place_value reportsD [OF val [OF that] fr w pos]) simp
  show ?thesis
  proof (cases op)
    case (OpFixed width items)
    then show ?thesis using fails_run_fixed [OF _ ok] wf by (simp add: run_op.simps)
  next
    case (OpBitRun nbytes items)
    then show ?thesis using fails_run_bits [OF ok] by (simp add: run_op.simps)
  next
    case (OpDigest algo over verify be c)
    then show ?thesis using fails_run_digest [OF ok] by (simp add: run_op.simps)
  next
    case (OpCond pred t c)
    then show ?thesis using pos window_ok_pos [OF w]
      by (auto simp: run_op.simps st intro!: fails_bind [OF fails_eval] fails_place_value reportsD [OF thn [OF OpCond] fr w])
  qed (use wf plain in \<open>auto simp: run_op.simps st simp del: wf_val.simps split: option.splits\<close>)
qed

lemma reports_walk:
  "(\<forall>prog d. 2 * size prog < n \<longrightarrow> wf_prog d prog \<longrightarrow> d + frame_depth prog \<le> MAX_DEPTH \<longrightarrow> reports E d (run_struct E prog)) \<and>
   (\<forall>op d start limit st. 2 * size op + 1 < n \<longrightarrow> wf_op (Suc d) op \<longrightarrow> Suc d + op_depth op \<le> MAX_DEPTH \<longrightarrow>
      state_ok E d start limit st \<longrightarrow> fails (run_op E op limit st) (report_ok (length (ue_buf E)) start)) \<and>
   (\<forall>op d. 2 * size op < n \<longrightarrow> wf_val (Suc d) op \<longrightarrow> Suc d + op_depth op \<le> MAX_DEPTH \<longrightarrow> reports E (Suc d) (op_value E op))"
proof (induction n)
  case (Suc n)
  then have ih3: "reports E (Suc d) (op_value E op)"
    if "2 * size op < n" "wf_val (Suc d) op" "Suc d + op_depth op \<le> MAX_DEPTH" for op d
    using that by blast
  have 1: "reports E d (run_struct E prog)"
    if "2 * size prog < Suc n" "wf_prog d prog" "d + frame_depth prog \<le> MAX_DEPTH" for prog d
  proof (rule fails_run_struct_step)
    have "0 < frame_depth prog" by (cases prog) simp
    then show "d < MAX_DEPTH" using that(3) by simp
    fix op start limit st
    assume op: "op \<in> set (prog_ops prog)" and ok: "state_ok E d start limit st"
    have wf: "wf_op (Suc d) op" using that(2) op by (cases prog) (auto simp: list_all_iff)
    moreover have "2 * size op + 1 < n" using size_prog_ops [OF op] that(1) by simp
    moreover have "Suc d + op_depth op \<le> MAX_DEPTH" using op_depth_prog [OF op] that(3) by simp
    ultimately show "safe (run_op E op limit st) (state_ok E d start limit) \<and>
        fails (run_op E op limit st) (report_ok (length (ue_buf E)) start)" using Suc ok safe_run_op [OF wf ok] by blast
  qed
  have 3: "reports E (Suc d) (op_value E op)"
    if "2 * size op < Suc n" "wf_val (Suc d) op" "Suc d + op_depth op \<le> MAX_DEPTH" for op d
  proof (rule reports_op_value_step [OF that(2)])
    show "reports E (Suc d) (run_struct E prog)" if "op = OpNest prog sz c" for prog sz c
      using that \<open>2 * size op < Suc n\<close> \<open>wf_val (Suc d) op\<close> \<open>Suc d + op_depth op \<le> MAX_DEPTH\<close> by (intro 1) simp_all
    show "reports E (Suc d) (op_value E elem)" if "op = OpArray count mc elem em c" for count mc elem em c
      using that \<open>2 * size op < Suc n\<close> \<open>wf_val (Suc d) op\<close> \<open>Suc d + op_depth op \<le> MAX_DEPTH\<close> by (intro ih3) simp_all
    show "reports E (Suc d) (op_value E b)"
      if "op = OpSwitch on cases dflt c" and b: "switch_branch tag cases dflt = Some b" for on cases dflt c tag b
      using that(1) \<open>2 * size op < Suc n\<close> \<open>wf_val (Suc d) op\<close> \<open>Suc d + op_depth op \<le> MAX_DEPTH\<close>
        size_switch_branch [OF b] wf_switch_branch [OF b] op_depth_branch [OF b, of on c]
      by (intro ih3) auto
  qed
  have 2: "fails (run_op E op limit st) (report_ok (length (ue_buf E)) start)"
    if "2 * size op + 1 < Suc n" "wf_op (Suc d) op" "Suc d + op_depth op \<le> MAX_DEPTH" "state_ok E d start limit st" for op d start limit st
    using that(2,4)
  proof (rule fails_run_op_step)
    show "reports E (Suc d) (op_value E op)" if "wf_val (Suc d) op"
      using that \<open>2 * size op + 1 < Suc n\<close> \<open>Suc d + op_depth op \<le> MAX_DEPTH\<close> by (intro 3) simp_all
    show "reports E (Suc d) (op_value E thn)" if "op = OpCond pred thn c" for pred thn c
      using that \<open>2 * size op + 1 < Suc n\<close> \<open>wf_op (Suc d) op\<close> \<open>Suc d + op_depth op \<le> MAX_DEPTH\<close> by (intro 3) simp_all
  qed
  show ?case using 1 2 3 by blast
qed simp

section \<open>Properties\<close>

lemma report_top:
  assumes "wf_prog 0 prog" and "frame_depth prog \<le> MAX_DEPTH" and "length buf < usize_max"
  shows "fails (run_struct \<lparr>ue_buf = buf, ue_builder = B, ue_hashes = H\<rparr> prog [] (min offset (length buf)) (length buf))
    (report_ok (length buf) (min offset (length buf)))"
proof -
  let ?E = "\<lparr>ue_buf = buf, ue_builder = B, ue_hashes = H\<rparr>"
  have "reports ?E 0 (run_struct ?E prog)"
    using reports_walk [of "Suc (2 * size prog)" ?E] assms(1,2) by fastforce
  from reportsD [OF this, of "[]" "min offset (length buf)" "length buf"] show ?thesis
    using assms(3) by (simp add: frames_ok_def window_ok_def)
qed

text \<open>C6: an unpacking that fails reports an offset between the start and the end of the buffer, and never
  \<open>Depth\<close>, provided the program is well formed and within the depth the compiler allows: the
  compile-time measure of the frames a program needs is right.\<close>

theorem unpack_reports:
  assumes "wf_prog 0 prog" and "frame_depth prog \<le> MAX_DEPTH" and "length buf < usize_max"
    and "run_with H B prog buf offset exact stream = Inr (OInvalid k at path)"
  shows "min offset (length buf) \<le> at \<and> at \<le> length buf \<and> k \<noteq> KDepth"
  using assms(4) report_top [OF assms(1-3), of B H offset] safe_run_top [OF assms(1,3), of B H offset]
  by (auto simp: run_with_def fails_def safe_def report_ok_def split: sum.splits fault.splits ufail.splits if_splits)

theorem unpack_reports_witness:
  "min 1 (length [5, 2, 65 :: 8 word]) \<le> (3 :: nat) \<and> (3 :: nat) \<le> length [5, 2, 65 :: 8 word] \<and> KTruncated \<noteq> KDepth"
proof -
  let ?prog = "Program [OpFixed 4 [\<lparr>fi_off = 0, fi_kind = FInt U32 True None False, fi_reg = None, fi_span = None, fi_key = Named ''n''\<rparr>]] 0 0 4 (Some 4)"
  have 1: "run_with zero_hashes value_builder ?prog [5, 2, 65] 1 True False = Inr (OInvalid KTruncated 3 [])" by code_simp
  show ?thesis
    by (rule unpack_reports [OF _ _ _ 1]) (simp_all add: fixed_item_ok_def idx_ok_def ops_size_defs MAX_DEPTH_def)
qed

end
