(* ===== verification/Digest_Check.thy ===== *)
theory Digest_Check
  imports Pack Unpack Compile_Safety
begin

text \<open>
  The two ends of a digest field: \<open>write_digest\<close> of the packer and \<open>Deferred::compute\<close> of the
  unpacker, which reads the field at its place and checks it at the end of the struct.
\<close>

section \<open>The value of a digest\<close>

text \<open>The widths of a CRC are those of its presets; the schema overrides every other parameter.\<close>

definition crc_whole :: "algo \<Rightarrow> bool" where
  "crc_whole a \<longleftrightarrow> (case a of Crc spec \<Rightarrow> crc_width spec \<in> {16, 32, 64} | _ \<Rightarrow> True)"

lemma mask_less: "w \<le> 64 \<Longrightarrow> uint (v AND Digests.mask w) < 2 ^ w"
proof -
  assume w: "w \<le> 64"
  have "v AND Digests.mask w = take_bit w v"
  proof (cases "w = 64")
    case False
    then show ?thesis using w by (simp add: Digests.mask_def take_bit_eq_mask mask_eq_exp_minus_1 push_bit_eq_mult)
  qed (simp add: Digests.mask_def take_bit_word_eq_self)
  then have "uint (v AND Digests.mask w) = take_bit w (uint v)" by (simp add: unsigned_take_bit_eq)
  then show ?thesis by (metis take_bit_int_less_exp)
qed

text \<open>A hasher is of its algorithm, however it is fed.\<close>

fun of_algo :: "algo \<Rightarrow> hasher \<Rightarrow> bool" where
  "of_algo (Crc spec) (HCrc spec' st) \<longleftrightarrow> spec' = spec"
| "of_algo IpChecksum (HIp acc pend) \<longleftrightarrow> True"
| "of_algo Md5 (HMd5 d) \<longleftrightarrow> True"
| "of_algo Sha1 (HSha1 d) \<longleftrightarrow> True"
| "of_algo Sha256 (HSha256 d) \<longleftrightarrow> True"
| "of_algo _ _ \<longleftrightarrow> False"

lemma of_algo_new: "of_algo a (hasher_new a)"
  by (cases a) simp_all

lemma of_algo_ip: "of_algo IpChecksum (ip_update b acc pend)"
  by (cases "(b, acc, pend)" rule: ip_update.cases) (auto simp: Let_def split: prod.split)

lemma of_algo_update: "of_algo a h \<Longrightarrow> of_algo a (update b h)"
  by (cases "(a, h)" rule: of_algo.cases) (simp_all add: of_algo_ip)

text \<open>The value of an integer digest fits its field; the others give bytes.\<close>

lemma finalize_bytes: "of_algo a h \<Longrightarrow> finalize H h = DBytes b \<Longrightarrow> \<not> is_int a"
  by (cases "(a, h)" rule: of_algo.cases) (auto simp: Let_def)

lemma finalize_int:
  assumes "of_algo a h" and "finalize H h = DInt v" and "crc_whole a"
  shows "is_int a" and "width_bytes a \<le> 8" and "uint v < 2 ^ (8 * width_bytes a)"
proof -
  show "is_int a" using assms(1,2) by (cases "(a, h)" rule: of_algo.cases) auto
  then show "width_bytes a \<le> 8" using assms(3) by (cases a) (auto simp: crc_whole_def)
  show "uint v < 2 ^ (8 * width_bytes a)"
  proof (cases a)
    case (Crc spec)
    then have w: "crc_width spec \<le> 64" "8 * (crc_width spec div 8) = crc_width spec" using assms(3) by (auto simp: crc_whole_def)
    obtain st where "h = HCrc spec st" using assms(1) Crc by (cases h) auto
    then obtain x where "v = (x XOR crc_xorout spec) AND Digests.mask (crc_width spec)" using assms(2) by (auto simp: Let_def)
    then show ?thesis using mask_less [OF w(1)] w(2) by (simp add: Crc)
  next
    case IpChecksum
    then obtain acc pend where "h = HIp acc pend" using assms(1) by (cases h) auto
    then obtain x :: "16 word" where "v = ucast x" using assms(2) by (auto simp: Let_def)
    then show ?thesis using uint_bounded [of x] by (simp add: IpChecksum unsigned_ucast_eq take_bit_int_eq_self)
  qed (use \<open>is_int a\<close> in auto)
qed

section \<open>The same bytes on both sides\<close>

lemma slice_eqI:
  assumes "length ys = length xs" and "\<And>i. s \<le> i \<Longrightarrow> i < e \<Longrightarrow> i < length xs \<Longrightarrow> ys ! i = xs ! i"
    and "slice_res xs s e = (Inr b :: ('e, 'a list) res)"
  shows "slice_res ys s e = (Inr b :: ('f, 'a list) res)"
proof -
  have "s \<le> e" "e \<le> length xs" and b: "b = take (e - s) (drop s xs)" using assms(3) by (auto simp: slice_res_def split: if_splits)
  moreover have "take (e - s) (drop s ys) = take (e - s) (drop s xs)"
    by (rule nth_equalityI) (use assms(1,2) in auto)
  ultimately show ?thesis using assms(1) by (simp add: slice_res_def)
qed

lemma chunk_ok_le: "chunk_ok a d \<Longrightarrow> length c \<le> length d \<Longrightarrow> chunk_ok a c"
  by (auto simp: chunk_ok_def ip_chunk_ok_def)

text \<open>A scope around a field of zeros.\<close>

lemma slice_around:
  assumes "s \<le> p" and "p + w \<le> e" and "e \<le> length out" and "take w (drop p out) = replicate w 0"
  shows "take (e - s) (drop s out) = take (p - s) (drop s out) @ replicate w 0 @ take (e - (p + w)) (drop (p + w) out)"
proof -
  have "take (e - s) (drop s out) = take (p - s) (drop s out) @ take (e - p) (drop p out)"
    using take_add [of "p - s" "e - p" "drop s out"] assms(1,2) by simp
  moreover have "take (e - p) (drop p out) = take w (drop p out) @ take (e - (p + w)) (drop (p + w) out)"
    using take_add [of w "e - (p + w)" "drop p out"] assms(2) by (simp add: add.commute)
  ultimately show ?thesis using assms(4) by simp
qed

lemma splice_nth:
  assumes "splice_res xs p ys = (Inr zs :: ('e, 'a list) res)"
  shows "length zs = length xs" and "i < p \<or> p + length ys \<le> i \<Longrightarrow> i < length xs \<Longrightarrow> zs ! i = xs ! i"
    and "take (length ys) (drop p zs) = ys"
  using assms by (auto simp: nth_append)

lemma feed_out_Inr:
  assumes "feed_out out spans i h = Inr h'"
  obtains s e b where "i < length spans" "spans ! i = (s, e)" "slice_res out s e = (Inr b :: bytes pres)" "h' = update b h"
  using assms by (cases "spans ! i") (auto simp: feed_out_def bind_res_eq_Inr)

lemma feed_same:
  assumes "length out' = length out" and "\<And>i. i < p \<or> p + w \<le> i \<Longrightarrow> i < length out \<Longrightarrow> out' ! i = out ! i"
    and "\<forall>i \<in> set idxs. i < length spans \<longrightarrow> snd (spans ! i) \<le> p \<or> p + w \<le> fst (spans ! i)"
  shows "fold_res (feed_out out spans) idxs h = Inr h' \<Longrightarrow> fold_res (feed_span out' spans) idxs h = Inr h'"
  using assms(3)
proof (induction idxs arbitrary: h)
  case (Cons i idxs)
  from Cons.prems(1) obtain h1 where h1: "feed_out out spans i h = Inr h1" and rest: "fold_res (feed_out out spans) idxs h1 = Inr h'"
    by (auto simp: bind_res_eq_Inr)
  from feed_out_Inr [OF h1] obtain s e b where i: "i < length spans" "spans ! i = (s, e)" and b: "slice_res out s e = (Inr b :: bytes pres)"
    and upd: "h1 = update b h" .
  have sl: "slice_res out' s e = (Inr b :: bytes ures)"
    by (rule slice_eqI [OF assms(1) _ b]) (use assms(2) Cons.prems(2) i in auto)
  have "nth_res spans i = (Inr (s, e) :: (nat \<times> nat) ures)" using i by simp
  then have "feed_span out' spans i h = Inr h1" unfolding feed_span_def by (simp only: bind_res_simps prod.case sl upd)
  with Cons.IH [OF rest] Cons.prems(2) show ?case by simp
qed simp

lemma feed_of_algo: "fold_res (feed_out out spans) idxs h = Inr h' \<Longrightarrow> of_algo a h \<Longrightarrow> of_algo a h'"
  by (induction idxs arbitrary: h) (auto simp: bind_res_eq_Inr of_algo_update elim!: feed_out_Inr)

section \<open>Properties\<close>

text \<open>C17: the unpacker accepts a digest the packer wrote. Take a digest field inside its struct, still
  zero, that covers the whole struct (\<open>over="*"\<close>) or spans that do not touch it. After \<open>write_digest\<close>,
  reading the field and running \<open>Deferred::compute\<close> on the same bytes finds the digest that is there:
  under \<open>*\<close> the unpacker feeds zeros for the field, which is what the packer hashed. A struct under
  \<open>*\<close> is within \<open>chunk_ok\<close>, as the packer hashes it in one \<open>update\<close> call. The bytes are those this digest
  left: \<open>digest_order_differs\<close> is what a digest written later can do to it.\<close>

theorem packed_digest_accepted:
  assumes wr: "write_digest H s e spans d out = Inr out'"
    and field: "s \<le> pd_pos d" "pd_pos d + pd_width d \<le> e" "pd_width d = width_bytes (pd_algo d)" "crc_whole (pd_algo d)"
    and over: "case pd_over d of
        Star \<Rightarrow> take (pd_width d) (drop (pd_pos d) out) = replicate (pd_width d) 0 \<and> chunk_ok (pd_algo d) (take (e - s) (drop s out))
      | Spans idxs \<Rightarrow> \<forall>i \<in> set idxs. i < length spans \<longrightarrow> snd (spans ! i) \<le> pd_pos d \<or> pd_pos d + pd_width d \<le> fst (spans ! i)"
    and rd: "run_digest \<lparr>ue_buf = out', ue_builder = B, ue_hashes = H\<rparr> (pd_algo d) (pd_over d) verify (pd_be d) c limit
      (pd_pos d, m, deferred, frames) = Inr (end, m', deferred', frames')"
  shows "check_deferred H out' s e spans (last deferred') () = Inr ()"
proof -
  let ?a = "pd_algo d" and ?p = "pd_pos d" and ?w = "pd_width d"
  obtain h where h: "of_algo ?a h" and fed: "(case pd_over d of
        Star \<Rightarrow> bind_res (slice_res out s e) (\<lambda>b. Inr (update b (hasher_new ?a)))
      | Spans idxs \<Rightarrow> fold_res (feed_out out spans) idxs (hasher_new ?a)) = Inr h"
    and fin: "(case finalize H h of DInt v \<Rightarrow> write_uint_at out ?p ?w (pd_be d) v
      | DBytes b \<Rightarrow> if length b \<noteq> ?w then panic else splice_res out ?p b) = Inr out'"
    using wr of_algo_new of_algo_update feed_of_algo
    by (fastforce simp: write_digest_def bind_res_eq_Inr split: over.splits)
  define b where "b = (case finalize H h of DInt v \<Rightarrow> write_uint_slice ?w (pd_be d) v | DBytes b \<Rightarrow> b)"
  have sp: "splice_res out ?p b = (Inr out' :: bytes pres)" and len: "length b = ?w"
    using fin by (auto simp: b_def write_uint_at_def split: digest_val.splits if_splits)
  note nth = splice_nth [OF sp, unfolded len]
  have raw: "take ?w (drop ?p out') = b" using nth(3) .
  have read: "(if is_int ?a then DInt (read_uint b (pd_be d)) else DBytes b) = finalize H h"
  proof (cases "finalize H h")
    case (DInt v)
    note fits = finalize_int [OF h DInt field(4)]
    show ?thesis using fits by (simp add: b_def DInt field(3) read_write_uint)
  next
    case (DBytes b')
    then show ?thesis using finalize_bytes [OF h DBytes] by (simp add: b_def)
  qed
  define df where "df = last deferred'"
  have df: "d_algo df = ?a" "d_over df = pd_over d" "d_read df = finalize H h" "d_field df = (?p, ?p + ?w)"
    using rd raw read by (auto simp: df_def run_digest_def Let_def bind_res_eq_Inr field(3) split: if_splits)
  have "compute H out' s e spans df = Inr (finalize H h)"
  proof (cases "pd_over d")
    case Star
    let ?pre = "take (?p - s) (drop s out)" and ?post = "take (e - (?p + ?w)) (drop (?p + ?w) out)"
    have e: "e \<le> length out" and hb: "h = update (take (e - s) (drop s out)) (hasher_new ?a)"
      using fed Star by (auto simp: bind_res_eq_Inr)
    have z: "take (e - s) (drop s out) = ?pre @ replicate ?w 0 @ ?post" and ok: "chunk_ok ?a (take (e - s) (drop s out))"
      using slice_around [OF field(1,2) e] over Star by simp_all
    have pre: "slice_res out s ?p = (Inr ?pre :: bytes ures)" and post: "slice_res out (?p + ?w) e = (Inr ?post :: bytes ures)"
      using field(1,2) e by simp_all
    have "slice_res out' s ?p = (Inr ?pre :: bytes ures)" by (rule slice_eqI [OF nth(1) _ pre]) (use nth(2) in simp)
    moreover have "slice_res out' (?p + ?w) e = (Inr ?post :: bytes ures)" by (rule slice_eqI [OF nth(1) _ post]) (use nth(2) in simp)
    ultimately have "compute H out' s e spans df = Inr (finalize H (update ?post (update_zeros ?w (update ?pre (hasher_new ?a)))))"
      by (simp add: compute_def df Star del: slice_res_eq_Inr)
    moreover have "chunk_ok ?a ?pre" "chunk_ok ?a ?post" by (rule chunk_ok_le [OF ok], simp add: z)+
    ultimately show ?thesis using one_chunk [OF ok, of H] by (simp add: zeroed_spec hb z)
  next
    case (Spans idxs)
    have "fold_res (feed_span out' spans) idxs (hasher_new ?a) = Inr h"
      by (rule feed_same [OF nth(1,2)]) (use over fed Spans in simp_all)
    then show ?thesis by (simp add: compute_def df Spans)
  qed
  then show ?thesis by (simp add: check_deferred_def df flip: df_def)
qed

theorem packed_digest_accepted_witness:
  "check_deferred zero_hashes [0x45, 0, 0xA8, 0xFF, 0x12] 0 5 []
     \<lparr>d_algo = IpChecksum, d_over = Star, d_verify = True, d_read = DInt 0xA8FF, d_field = (2, 4), d_key = ''c''\<rparr> () = Inr ()"
proof -
  let ?d = "\<lparr>pd_algo = IpChecksum, pd_over = Star, pd_pos = 2, pd_width = 2, pd_be = True, pd_key = ''c''\<rparr>"
  let ?def = "\<lparr>d_algo = IpChecksum, d_over = Star, d_verify = True, d_read = DInt 0xA8FF, d_field = (2, 4), d_key = ''c''\<rparr>"
  have wr: "write_digest zero_hashes 0 5 [] ?d [0x45, 0, 0, 0, 0x12] = Inr [0x45, 0, 0xA8, 0xFF, 0x12]" by code_simp
  have rd: "run_digest \<lparr>ue_buf = [0x45, 0, 0xA8, 0xFF, 0x12], ue_builder = value_builder, ue_hashes = zero_hashes\<rparr> (pd_algo ?d) (pd_over ?d) True
      (pd_be ?d) (common_named ''c'') 5 (pd_pos ?d, VMap [], [], [new_frame]) = Inr (4, VMap [(''c'', VInt 43263)], [?def], [new_frame])"
    by code_simp
  show ?thesis
    using packed_digest_accepted [OF wr _ _ _ _ _ rd]
    by (simp add: crc_whole_def chunk_ok_def ip_chunk_ok_def numeral_2_eq_2)
qed

section \<open>A digest of a later digest\<close>

text \<open>
  The digests of a struct are written in the order of their fields, when the last byte is out. One
  that covers a field below it that is a digest too has hashed that field while it was zero, and
  the unpacker refuses the packed bytes: here \<open>a\<close> covers \<open>b\<close>, and \<open>b\<close> covers \<open>n\<close>.
\<close>

definition forward_digests :: "field_in list" where
  "forward_digests =
     [FieldIn (Some ''a'') (TDigest ''ip'' \<lparr>ov_poly = None, ov_init = None, ov_xorout = None, ov_refin = None, ov_refout = None\<rparr> (NamesIn [''b'']) True),
      FieldIn (Some ''b'') (TDigest ''ip'' \<lparr>ov_poly = None, ov_init = None, ov_xorout = None, ov_refin = None, ov_refout = None\<rparr> (NamesIn [''n'']) True),
      FieldIn (Some ''n'') (TInt U16 None None)]"

definition forward_program :: program where
  "forward_program =
     Program [OpDigest IpChecksum (Spans [0]) True True (common_named ''a''),
       OpDigest IpChecksum (Spans [1]) True True \<lparr>c_key = Named ''b'', c_span = Some 0\<rparr>,
       OpFixed 2 [\<lparr>fi_off = 0, fi_kind = FInt U16 True None False, fi_reg = None, fi_span = Some 1, fi_key = Named ''n''\<rparr>]] 0 2 6 (Some 6)"

lemma digest_order_differs:
  "compile forward_digests small_options = Inr forward_program"
  "pack_run zero_hashes forward_program (VMap [(''n'', VInt 1)]) = Inr (POk [255, 255, 255, 254, 0, 1])"
  "run zero_hashes forward_program [255, 255, 255, 254, 0, 1] 0 True False = Inr (OInvalid KChecksum 0 ''a'')"
  unfolding forward_digests_def forward_program_def small_options_def by code_simp+
end
