(* ===== verification/Crc_Bursts.thy ===== *)
theory Crc_Bursts
  imports Digests
begin

text \<open>
  What a CRC is for: two messages that differ only inside a window no wider than the register have
  different checksums. The register is run backwards: the low bit of a state tells whether the
  polynomial was added, as its own low bit is set, so the last \<open>crc_width\<close> bits shifted in can be
  read off the states before and after.
\<close>

unbundle bit_operations_syntax

section \<open>One step, bit by bit\<close>

lemma bit_mask_width: "bit (Digests.mask w) n \<longleftrightarrow> n < 64 \<and> n < w"
proof (cases "64 \<le> w")
  case False
  then have "Digests.mask w = Bit_Operations.mask w" by (simp add: Digests.mask_def mask_eq_exp_minus_1 push_bit_eq_mult)
  then show ?thesis using False by (auto simp: bit_mask_iff)
qed (auto simp: Digests.mask_def)

definition feedback :: "crc_spec \<Rightarrow> bool \<Rightarrow> 64 word \<Rightarrow> bool" where
  "feedback spec c s \<longleftrightarrow> bit s (crc_width spec - 1) \<noteq> c"

definition shift_in :: "crc_spec \<Rightarrow> bool \<Rightarrow> 64 word \<Rightarrow> 64 word" where
  "shift_in spec c s = crc_step spec (of_bool c) s"

lemma top_bit: "drop_bit n (s :: 64 word) AND 1 = of_bool (bit s n)"
  by (simp add: and_one_eq bit_iff_odd_drop_bit mod_2_eq_odd)

lemma bit_shift_in:
  "bit (shift_in spec c s) n \<longleftrightarrow> n < 64 \<and> n < crc_width spec \<and>
     ((0 < n \<and> bit s (n - 1)) \<noteq> (feedback spec c s \<and> bit (crc_poly spec) n))"
proof -
  have "(of_bool a XOR of_bool b = (1 :: 64 word)) \<longleftrightarrow> a \<noteq> b" for a b by (cases a; cases b) simp_all
  then have step: "shift_in spec c s = (let s' = push_bit 1 s AND Digests.mask (crc_width spec) in
      if feedback spec c s then s' XOR (crc_poly spec AND Digests.mask (crc_width spec)) else s')"
    by (simp add: shift_in_def crc_step_def Let_def top_bit feedback_def)
  have "bit (push_bit 1 s) n \<longleftrightarrow> n < 64 \<and> 0 < n \<and> bit s (n - 1)"
    unfolding bit_push_bit_iff by auto
  then show ?thesis unfolding step Let_def
    by (cases "feedback spec c s") (simp_all add: bit_xor_iff bit_and_iff bit_mask_width; blast)+
qed

section \<open>Backwards\<close>

definition agree_low :: "nat \<Rightarrow> 64 word \<Rightarrow> 64 word \<Rightarrow> bool" where
  "agree_low k s t \<longleftrightarrow> (\<forall>n < k. bit s n = bit t n)"

definition inside :: "crc_spec \<Rightarrow> 64 word \<Rightarrow> bool" where
  "inside spec s \<longleftrightarrow> (\<forall>n. bit s n \<longrightarrow> n < crc_width spec)"

lemma inside_shift_in: "inside spec (shift_in spec c s)"
  by (simp add: inside_def bit_shift_in)

lemma inside_eqI: "inside spec s \<Longrightarrow> inside spec t \<Longrightarrow> agree_low (crc_width spec) s t \<Longrightarrow> s = t"
  by (rule bit_word_eqI) (auto simp: inside_def agree_low_def)

lemma shift_back:
  assumes "agree_low k (shift_in spec c s) (shift_in spec c' t)" and "0 < k" "k \<le> crc_width spec" and "crc_width spec \<le> 64"
    and "bit (crc_poly spec) 0"
  shows "feedback spec c s = feedback spec c' t" and "agree_low (k - 1) s t"
proof -
  have at: "bit (shift_in spec c s) n = bit (shift_in spec c' t) n" if "n < k" for n using assms(1) that by (simp add: agree_low_def)
  show fb: "feedback spec c s = feedback spec c' t" using at [of 0] assms(2-5) by (simp add: bit_shift_in)
  show "agree_low (k - 1) s t"
    unfolding agree_low_def
  proof (intro allI impI)
    fix n
    assume "n < k - 1"
    then have "Suc n < k" by simp
    then show "bit s n = bit t n" using at [of "Suc n"] assms(3,4) fb by (auto simp: bit_shift_in)
  qed
qed

definition shifts :: "crc_spec \<Rightarrow> bool list \<Rightarrow> 64 word \<Rightarrow> 64 word" where
  "shifts spec cs s = fold (shift_in spec) cs s"

lemma shifts_simps [simp]: "shifts spec [] s = s" "shifts spec (c # cs) s = shifts spec cs (shift_in spec c s)"
  by (simp_all add: shifts_def)

lemma inside_shifts: "inside spec s \<Longrightarrow> inside spec (shifts spec cs s)"
  by (induction cs arbitrary: s) (simp_all add: inside_shift_in)

lemma shifts_back:
  assumes "crc_width spec \<le> 64" and "bit (crc_poly spec) 0" and "k \<le> crc_width spec"
  shows "length cs = length ds \<Longrightarrow> length cs \<le> k \<Longrightarrow> agree_low k (shifts spec cs s) (shifts spec ds t) \<Longrightarrow> agree_low (k - length cs) s t"
proof (induction cs ds arbitrary: s t rule: list_induct2')
  case (4 c cs d ds)
  then have "agree_low (k - length cs) (shift_in spec c s) (shift_in spec d t)" by simp
  from shift_back(2) [OF this _ _ assms(1,2)] show ?case using 4 assms(3) by (simp add: diff_Suc)
qed simp_all

text \<open>The last bits shifted in can be read off the states.\<close>

lemma shifts_bits_inj:
  assumes "crc_width spec \<le> 64" and "bit (crc_poly spec) 0"
  shows "length cs = length ds \<Longrightarrow> length cs \<le> crc_width spec \<Longrightarrow> shifts spec cs s = shifts spec ds s \<Longrightarrow> cs = ds"
proof (induction cs ds arbitrary: s rule: list_induct2')
  case (4 c cs d ds)
  have len: "length cs = length ds" "length cs < crc_width spec" using 4 by simp_all
  have "agree_low (crc_width spec - length cs) (shift_in spec c s) (shift_in spec d s)"
    by (rule shifts_back [OF assms order_refl len(1)]) (use 4 in \<open>simp_all add: agree_low_def\<close>)
  from shift_back(1) [OF this _ _ assms] have "feedback spec c s = feedback spec d s" using len by simp
  then have "c = d" by (auto simp: feedback_def)
  then show ?case using 4 by simp
qed simp_all

text \<open>And a step loses nothing of the state.\<close>

lemma shifts_state_inj:
  assumes "crc_width spec \<le> 64" and "bit (crc_poly spec) 0" and "0 < crc_width spec"
  shows "inside spec s \<Longrightarrow> inside spec t \<Longrightarrow> shifts spec cs s = shifts spec cs t \<Longrightarrow> s = t"
proof (induction cs arbitrary: s t)
  case (Cons c cs)
  have eq: "shift_in spec c s = shift_in spec c t" using Cons by (simp add: inside_shift_in)
  note rev = shift_back [where c = c and c' = c and s = s and t = t, OF _ assms(3) order_refl assms(1,2)]
  have "agree_low (crc_width spec) s t"
    unfolding agree_low_def
  proof (intro allI impI)
    fix n
    assume "n < crc_width spec"
    then consider (low) "n < crc_width spec - 1" | (top) "n = crc_width spec - 1" by linarith
    then show "bit s n = bit t n"
      using rev eq by cases (auto simp: agree_low_def feedback_def)
  qed
  then show ?case by (rule inside_eqI [OF Cons.prems(1,2)])
qed simp

section \<open>Bytes and the final value\<close>

definition byte_bools :: "crc_spec \<Rightarrow> 8 word \<Rightarrow> bool list" where
  "byte_bools spec b = map (\<lambda>i. bit b (if crc_refin spec then i else 7 - i)) [0..<8]"

lemma bit_in_bool: "bit_in spec b i = of_bool (bit b (if crc_refin spec then i else 7 - i))"
proof -
  have "(drop_bit n b AND 1 :: 8 word) = of_bool (bit b n)" for n
    by (simp add: and_one_eq bit_iff_odd_drop_bit mod_2_eq_odd)
  then show ?thesis by (simp add: bit_in_def)
qed

lemma crc_byte_shifts: "crc_byte spec b s = shifts spec (byte_bools spec b) s"
  by (simp add: crc_byte_def shifts_def byte_bools_def fold_map comp_def shift_in_def [abs_def] bit_in_bool)

lemma crc_bytes_shifts: "fold (crc_byte spec) d s = shifts spec (concat (map (byte_bools spec) d)) s"
  by (induction d arbitrary: s) (simp_all add: crc_byte_shifts shifts_def)

lemma byte_bools_inj: "byte_bools spec a = byte_bools spec b \<Longrightarrow> a = b"
proof (rule bit_word_eqI)
  fix n
  assume eq: "byte_bools spec a = byte_bools spec b" and n: "n < LENGTH(8)"
  have at: "byte_bools spec a ! i = byte_bools spec b ! i" for i using eq by simp
  show "bit a n = bit b n"
    using at [of "if crc_refin spec then n else 7 - n"] n by (auto simp: byte_bools_def simp del: upt_Suc split: if_splits)
qed

lemma length_byte_bools [simp]: "length (byte_bools spec b) = 8"
  by (simp add: byte_bools_def)

lemma length_bytes_bools: "length (concat (map (byte_bools spec) d)) = 8 * length d"
  by (induction d) simp_all

lemma bytes_bools_inj:
  "length a = length b \<Longrightarrow> concat (map (byte_bools spec) a) = concat (map (byte_bools spec) b) \<Longrightarrow> a = b"
  by (induction a b rule: list_induct2) (auto dest: byte_bools_inj)

lemma bit_reflect_fold:
  "bit (fold (\<lambda>i out. if drop_bit i v AND 1 = 1 then out OR push_bit (w - 1 - i) 1 else out) xs out) n \<longleftrightarrow>
     bit out n \<or> (\<exists>i \<in> set xs. bit v i \<and> n = w - 1 - i \<and> n < 64)" for v out :: "64 word"
  by (induction xs arbitrary: out) (auto simp: top_bit bit_or_iff bit_exp_iff)

lemma bit_reflect: "bit (reflect v w) n \<longleftrightarrow> n < w \<and> n < 64 \<and> bit v (w - 1 - n)"
  by (auto simp: reflect_def bit_reflect_fold intro!: bexI [of _ "w - 1 - n"])

lemma finalize_crc_inj:
  assumes "finalize H (HCrc spec s) = finalize H (HCrc spec t)" and "inside spec s" "inside spec t" and "crc_width spec \<le> 64"
  shows "s = t"
proof (rule inside_eqI [OF assms(2,3)])
  let ?out = "\<lambda>s. if crc_refout spec then reflect s (crc_width spec) else s"
  have eq: "(?out s XOR crc_xorout spec) AND Digests.mask (crc_width spec) = (?out t XOR crc_xorout spec) AND Digests.mask (crc_width spec)"
    using assms(1) by simp
  have out: "bit (?out s) n = bit (?out t) n" if "n < crc_width spec" for n
    using arg_cong [OF eq, of "\<lambda>w. bit w n"] that assms(4) by (auto simp: bit_and_iff bit_xor_iff bit_mask_width)
  show "agree_low (crc_width spec) s t"
    unfolding agree_low_def
  proof (intro allI impI)
    fix n
    assume n: "n < crc_width spec"
    show "bit s n = bit t n"
      using out [of n] out [of "crc_width spec - 1 - n"] n assms(4) by (auto simp: bit_reflect split: if_splits)
  qed
qed

section \<open>Properties\<close>

text \<open>C20: a CRC detects every burst no longer than its register: two messages that agree except in a
  window of at most \<open>crc_width\<close> bits, on a byte boundary, have different digests. It takes a
  polynomial whose low bit is set, as in every preset, and nothing else: any initial value,
  final mask, reflection and width up to 64.\<close>

theorem crc_detects_bursts:
  assumes "crc_width spec \<le> 64" and "bit (crc_poly spec) 0"
    and "length x = length y" and "8 * length x \<le> crc_width spec" and "x \<noteq> y"
  shows "finalize H (update (pre @ x @ post) (hasher_new (Crc spec))) \<noteq> finalize H (update (pre @ y @ post) (hasher_new (Crc spec)))"
proof
  assume same: "finalize H (update (pre @ x @ post) (hasher_new (Crc spec))) = finalize H (update (pre @ y @ post) (hasher_new (Crc spec)))"
  let ?bits = "\<lambda>d. concat (map (byte_bools spec) d)"
  let ?s = "shifts spec (?bits pre) (crc_init spec AND Digests.mask (crc_width spec))"
  have start: "inside spec (crc_init spec AND Digests.mask (crc_width spec))" by (simp add: inside_def bit_and_iff bit_mask_width)
  have mid: "inside spec (shifts spec (?bits d) ?s)" for d by (intro inside_shifts start)
  have w: "0 < crc_width spec" using assms(3-5) by (cases x) auto
  have upd: "update (pre @ d @ post) (hasher_new (Crc spec)) = HCrc spec (shifts spec (?bits post) (shifts spec (?bits d) ?s))" for d
    by (simp add: crc_bytes_shifts)
  have "shifts spec (?bits post) (shifts spec (?bits x) ?s) = shifts spec (?bits post) (shifts spec (?bits y) ?s)"
    by (rule finalize_crc_inj [OF same [unfolded upd] _ _ assms(1)]) (intro inside_shifts start)+
  then have "shifts spec (?bits x) ?s = shifts spec (?bits y) ?s"
    by (rule shifts_state_inj [OF assms(1,2) w mid mid])
  then have "?bits x = ?bits y"
    by (intro shifts_bits_inj [OF assms(1,2)]) (use assms(3,4) in \<open>simp_all add: length_bytes_bools\<close>)
  then show False using bytes_bools_inj [OF assms(3)] assms(5) by blast
qed

theorem crc_detects_bursts_witness:
  "(case preset ''crc32'' of
      Some a \<Rightarrow> finalize zero_hashes (update ([1, 2] @ [3, 4, 5, 6] @ [7]) (hasher_new a)) \<noteq> finalize zero_hashes (update ([1, 2] @ [3, 0, 0, 6] @ [7]) (hasher_new a))
    | None \<Rightarrow> False)"
proof -
  let ?crc32 = "\<lparr>crc_width = 32, crc_poly = 0x04C11DB7, crc_init = 0xFFFFFFFF, crc_xorout = 0xFFFFFFFF, crc_refin = True, crc_refout = True\<rparr>"
  have "finalize zero_hashes (update ([1, 2] @ [3, 4, 5, 6] @ [7]) (hasher_new (Crc ?crc32))) \<noteq>
      finalize zero_hashes (update ([1, 2] @ [3, 0, 0, 6] @ [7]) (hasher_new (Crc ?crc32)))"
    by (rule crc_detects_bursts) (simp_all add: bit_0)
  then show ?thesis unfolding preset_crcs crc_def option.case .
qed

end
